(* ===== verification/Prelude.thy ===== *)
theory Prelude
  imports "HOL-Library.Word"
begin

text \<open>
  Shared vocabulary of the development: the machine types of the program (bytes, 32 and 64
  bit unsigned integers), the memory image of an integer on the little-endian machine the
  artifact targets (what \<open>memcpy\<close>, \<open>fwrite\<close> and \<open>fread\<close> move), and the generic lemmas on
  lists of fixed-width chunks that the components share.
\<close>

unbundle bit_operations_syntax

type_synonym u8 = "8 word"
type_synonym u32 = "32 word"
type_synonym u64 = "64 word"
type_synonym bytes = "u8 list"

text \<open>How a run of the C++ code can fail to return: a failed \<open>assert\<close>, a null \<open>FILE*\<close>
  passed to a stdio function, a read past the end of an object, arithmetic on an iterator of an
  empty container, a call through a null object pointer, an integer division by zero, a floating
  point number converted to an integer type that cannot hold it, a read of a variable that has no
  value yet, a second release of an object, signed arithmetic that overflows,
  \<open>std::terminate\<close> and \<open>exit\<close>, the exceptions \<open>invalid_argument\<close> and \<open>out_of_range\<close> of the standard library, and the program's own
  exception with its message.\<close>

datatype fault = AssertFail | NullFile | OutOfBounds | BadIterator | NullPointer | DivideByZero
  | Uninitialised | UseAfterFree | BadConversion | SignedOverflow | Terminated | Exited | InvalidArgument | OutOfRange | Thrown string

text \<open>Going on after a step that can fail.\<close>

definition and_then :: "fault + 'a \<Rightarrow> ('a \<Rightarrow> fault + 'b) \<Rightarrow> fault + 'b" where
  "and_then m k = (case m of Inl e \<Rightarrow> Inl e | Inr x \<Rightarrow> k x)"

lemma and_then_simps [simp]: "and_then (Inl e) k = Inl e" "and_then (Inr x) k = k x"
  by (simp_all add: and_then_def)

lemma and_then_Inr: "and_then m k = Inr y \<longleftrightarrow> (\<exists>x. m = Inr x \<and> k x = Inr y)"
  by (cases m) auto

text \<open>A run that succeeds, taken apart from the front.\<close>

lemma and_then_elim:
  assumes "and_then m k = Inr y"
  obtains x where "m = Inr x" "k x = Inr y"
  using assms by (auto simp: and_then_Inr)

lemma case_prod_elim:
  assumes "(case x of (a, b) \<Rightarrow> f a b) = y"
  obtains a b where "x = (a, b)" "f a b = y"
  using assms by (cases x) auto

lemma if_elim:
  assumes "(if c then a else b) = y"
  obtains "c" "a = y" | "\<not> c" "b = y"
  using assms by (cases c) auto

named_theorems byte_simps \<open>evaluation of memory images and chunked files\<close>

section \<open>Little-endian memory images\<close>

fun le_bytes :: "nat \<Rightarrow> nat \<Rightarrow> bytes" where
  "le_bytes 0 v = []"
| "le_bytes (Suc n) v = word_of_nat (v mod 256) # le_bytes n (v div 256)"

lemma le_bytes_numeral [byte_simps]:
  "le_bytes (numeral k) v = word_of_nat (v mod 256) # le_bytes (pred_numeral k) (v div 256)"
  by (simp only: numeral_eq_Suc [of k] le_bytes.simps)

fun le_val :: "bytes \<Rightarrow> nat" where
  "le_val [] = 0"
| "le_val (b # bs) = unat b + 256 * le_val bs"

lemma unat_u8_less: "unat (b :: u8) < 256"
  using unsigned_less [of b] by simp

lemma unat_u32_less: "unat (w :: u32) < 2 ^ 32"
  using unsigned_less [of w] by simp

lemma unat_u64_less: "unat (w :: u64) < 2 ^ 64"
  using unsigned_less [of w] by simp

lemma length_le_bytes [simp]: "length (le_bytes n v) = n"
  by (induction n arbitrary: v) auto

lemma unat_word8_mod: "unat (word_of_nat (v mod 256) :: u8) = v mod 256"
  by (simp add: unat_of_nat)

lemma le_val_le_bytes [byte_simps]: "le_val (le_bytes n v) = v mod 256 ^ n"
proof (induction n arbitrary: v)
  case 0
  then show ?case by simp
next
  case (Suc n)
  have "v mod 256 + 256 * (v div 256 mod 256 ^ n) = v mod (256 * 256 ^ n)"
    by (simp add: mod_mult2_eq)
  with Suc show ?case by (simp add: unat_of_nat)
qed

lemma le_val_bound: "le_val bs < 256 ^ length bs"
proof (induction bs)
  case Nil
  then show ?case by simp
next
  case (Cons b bs)
  have "unat b < 256" by (rule unat_u8_less)
  with Cons show ?case by simp
qed

lemma le_bytes_le_val [byte_simps]: "le_bytes (length bs) (le_val bs) = bs"
proof (induction bs)
  case Nil
  then show ?case by simp
next
  case (Cons b bs)
  have b: "unat b < 256" by (rule unat_u8_less)
  then have "(unat b + 256 * le_val bs) mod 256 = unat b"
    and "(unat b + 256 * le_val bs) div 256 = le_val bs"
    by simp_all
  with Cons b show ?case by simp
qed

lemma le_val_append: "le_val (xs @ ys) = le_val xs + 256 ^ length xs * le_val ys"
  by (induction xs) (auto simp: algebra_simps)

lemma le_val_inj: "length xs = length ys \<Longrightarrow> le_val xs = le_val ys \<Longrightarrow> xs = ys"
  by (metis le_bytes_le_val)

text \<open>The object representation of an \<open>unsigned long long\<close> and reading it back
  (\<open>memcpy\<close> into an integer).\<close>

definition u64_bytes :: "u64 \<Rightarrow> bytes" where
  "u64_bytes w = le_bytes 8 (unat w)"

definition bytes_u64 :: "bytes \<Rightarrow> u64" where
  "bytes_u64 bs = word_of_nat (le_val bs)"

lemma length_u64_bytes [simp]: "length (u64_bytes w) = 8"
  by (simp add: u64_bytes_def)

lemma u64_roundtrip [simp, byte_simps]: "bytes_u64 (u64_bytes w) = w"
proof -
  have "unat w < 256 ^ 8" using unat_u64_less [of w] by simp
  then show ?thesis by (simp add: bytes_u64_def u64_bytes_def le_val_le_bytes)
qed

lemma u64_bytes_inject [simp]: "u64_bytes v = u64_bytes w \<longleftrightarrow> v = w"
  by (metis u64_roundtrip)

lemma bytes_roundtrip [byte_simps]: "length bs = 8 \<Longrightarrow> u64_bytes (bytes_u64 bs) = bs"
proof -
  assume l: "length bs = 8"
  then have "le_val bs < 2 ^ 64" using le_val_bound [of bs] by simp
  then have "unat (word_of_nat (le_val bs) :: u64) = le_val bs" by (simp add: unat_of_nat)
  then show ?thesis using le_bytes_le_val [of bs] l by (simp add: bytes_u64_def u64_bytes_def)
qed

section \<open>The order of byte strings\<close>

text \<open>Byte strings compared as \<open>memcmp\<close> does, a proper prefix first.\<close>

fun bytes_less :: "bytes \<Rightarrow> bytes \<Rightarrow> bool" where
  "bytes_less [] ys = (ys \<noteq> [])"
| "bytes_less (x # xs) [] = False"
| "bytes_less (x # xs) (y # ys) = (x < y \<or> x = y \<and> bytes_less xs ys)"

lemma bytes_less_le_val:
  "length xs = length ys \<Longrightarrow> bytes_less xs ys \<longleftrightarrow> le_val (rev xs) < le_val (rev ys)"
proof (induction xs ys rule: bytes_less.induct)
  case (3 x xs y ys)
  then have IH: "bytes_less xs ys \<longleftrightarrow> le_val (rev xs) < le_val (rev ys)"
    and l: "length xs = length ys" by auto
  let ?p = "256 ^ length ys" and ?a = "le_val (rev xs)" and ?b = "le_val (rev ys)"
  have ab: "?a < ?p" "?b < ?p" using le_val_bound [of "rev xs"] le_val_bound [of "rev ys"] l by simp_all
  have "?a + ?p * unat x < ?b + ?p * unat y \<longleftrightarrow> unat x < unat y \<or> unat x = unat y \<and> ?a < ?b"
  proof (cases "unat x" "unat y" rule: linorder_cases)
    case less
    then have "?p * (unat x + 1) \<le> ?p * unat y" by (intro mult_le_mono2) simp
    with ab less show ?thesis by simp
  next
    case greater
    then have "?p * (unat y + 1) \<le> ?p * unat x" by (intro mult_le_mono2) simp
    with ab greater show ?thesis by simp
  qed simp
  then show ?case by (simp add: le_val_append l IH word_less_nat_alt word_unat_eq_iff)
qed auto

lemma bytes_less_irrefl [simp]: "\<not> bytes_less xs xs"
  by (induction xs) auto

lemma bytes_less_trans: "bytes_less xs ys \<Longrightarrow> bytes_less ys zs \<Longrightarrow> bytes_less xs zs"
proof (induction xs ys arbitrary: zs rule: bytes_less.induct)
  case (1 ys)
  then show ?case by (cases zs; cases ys) auto
next
  case (3 x xs y ys)
  then show ?case by (cases zs) auto
qed auto

lemma bytes_less_total: "xs \<noteq> ys \<Longrightarrow> bytes_less xs ys \<or> bytes_less ys xs"
  by (induction xs ys rule: bytes_less.induct) auto

section \<open>Lists of fixed-width chunks\<close>

lemma length_concat_chunks:
  "(\<And>x. x \<in> set xs \<Longrightarrow> length (f x) = w) \<Longrightarrow> length (concat (map f xs)) = w * length xs"
  by (induction xs) auto

lemma drop_concat_chunks:
  "(\<And>x. x \<in> set xs \<Longrightarrow> length (f x) = w) \<Longrightarrow>
   drop (w * i) (concat (map f xs)) = concat (map f (drop i xs))"
proof (induction xs arbitrary: i)
  case Nil
  then show ?case by simp
next
  case (Cons x xs)
  then show ?case by (cases i) (simp_all add: algebra_simps)
qed

lemma take_concat_chunks:
  "(\<And>x. x \<in> set xs \<Longrightarrow> length (f x) = w) \<Longrightarrow>
   take (w * i) (concat (map f xs)) = concat (map f (take i xs))"
proof (induction xs arbitrary: i)
  case Nil
  then show ?case by simp
next
  case (Cons x xs)
  then show ?case by (cases i) (simp_all add: algebra_simps)
qed

text \<open>Cutting a buffer into the 64-bit integers it holds.\<close>

fun u64s_of :: "bytes \<Rightarrow> u64 list" where
  "u64s_of bs = (if length bs < 8 then [] else bytes_u64 (take 8 bs) # u64s_of (drop 8 bs))"

declare u64s_of.simps [simp del]

lemma u64s_of_concat [simp]: "u64s_of (concat (map u64_bytes xs)) = xs"
proof (induction xs)
  case Nil
  then show ?case by (simp add: u64s_of.simps)
next
  case (Cons x xs)
  then show ?case by (simp add: u64s_of.simps [of "u64_bytes x @ concat (map u64_bytes xs)"])
qed

section \<open>Machine words\<close>

lemma unat_add_no_wrap: "unat (x :: u64) + unat y < 2 ^ 64 \<Longrightarrow> unat (x + y) = unat x + unat y"
  by (simp add: unat_word_ariths)

lemma unat_mult_no_wrap: "unat (x :: u64) * unat y < 2 ^ 64 \<Longrightarrow> unat (x * y) = unat x * unat y"
  by (simp add: unat_word_ariths)

lemma unat_suc_no_wrap: "unat (x :: u64) + 1 < 2 ^ 64 \<Longrightarrow> unat (x + 1) = Suc (unat x)"
  using unat_add_no_wrap [of x 1] by simp

end
