(* ===== verification/Float64.thy ===== *)
theory Float64
  imports Complex_Main Prelude "HOL-Library.Log_Nat"
begin

text \<open>
  The C++ type \<open>double\<close>: IEEE 754 binary64 with rounding to nearest, ties to even, as the
  program's arithmetic on the target machine performs it. A double is its 64-bit object
  representation, so it can be written to and read from a file byte by byte; its numeric value is
  an exact rational, and every operation rounds the exact rational result once. All operations
  compute.
\<close>

datatype double = Double (dbits: u64)

section \<open>Decoding\<close>

definition p2 :: "int \<Rightarrow> rat" where
  "p2 e = 2 powi e"

text \<open>The weight of the implicit leading bit of the significand.\<close>

definition ibit :: int where
  "ibit = 2 ^ 52"

definition dsign :: "double \<Rightarrow> bool" where
  "dsign d \<longleftrightarrow> 2 ^ 63 \<le> uint (dbits d)"

definition dmag :: "double \<Rightarrow> int" where
  "dmag d = uint (dbits d) mod 2 ^ 63"

text \<open>The value of a magnitude: biased exponent in the bits from 52 on, fraction below. The
  magnitude \<open>2047 * 2 ^ 52\<close> of an infinity decodes to \<open>2 ^ 1024\<close>, above every finite value, so
  that comparisons need no special case.\<close>

definition mag_val :: "int \<Rightarrow> rat" where
  "mag_val m = (let e = m div ibit; f = m mod ibit in
     if e = 0 then of_int f * p2 (- 1074)
     else of_int (f + ibit) * p2 (e - 1075))"

definition valof :: "double \<Rightarrow> rat" where
  "valof d = (if dsign d then - mag_val (dmag d) else mag_val (dmag d))"

definition inf_mag :: int where
  "inf_mag = 2047 * ibit"

definition is_nan :: "double \<Rightarrow> bool" where
  "is_nan d \<longleftrightarrow> inf_mag < dmag d"

definition is_inf :: "double \<Rightarrow> bool" where
  "is_inf d \<longleftrightarrow> dmag d = inf_mag"

definition is_fin :: "double \<Rightarrow> bool" where
  "is_fin d \<longleftrightarrow> dmag d < inf_mag"

section \<open>Rounding\<close>

definition ilog2 :: "rat \<Rightarrow> int" where
  "ilog2 q = (let (n, d) = quotient_of q; k = bitlen n - bitlen d in
     if p2 k \<le> q then k else k - 1)"

definition round_even :: "rat \<Rightarrow> int" where
  "round_even q = (let f = \<lfloor>q\<rfloor>; r = q - of_int f in
     if r < 1 / 2 then f else if 1 / 2 < r then f + 1 else if even f then f else f + 1)"

text \<open>The exponent of the last place at \<open>q\<close>; subnormal numbers share the smallest one.\<close>

definition round_exp :: "rat \<Rightarrow> int" where
  "round_exp q = max (ilog2 q - 52) (- 1074)"

definition round_mag :: "rat \<Rightarrow> int" where
  "round_mag q = (if q = 0 then 0 else
     let e = round_exp q; m = round_even (q / p2 e)
     in min ((e + 1074) * ibit + m) inf_mag)"

definition make_double :: "bool \<Rightarrow> int \<Rightarrow> double" where
  "make_double s m = Double (word_of_int ((if s then 2 ^ 63 else 0) + m))"

text \<open>The double nearest to a rational; the first argument is the sign of a zero result.\<close>

definition round_double :: "bool \<Rightarrow> rat \<Rightarrow> double" where
  "round_double s q =
     (if 0 < q then make_double False (round_mag q)
      else if q < 0 then make_double True (round_mag (- q))
      else make_double s 0)"

section \<open>Operations\<close>

definition dnan :: double where
  "dnan = Double 0xFFF8000000000000"

definition dinf :: "bool \<Rightarrow> double" where
  "dinf s = make_double s inf_mag"

definition dneg :: "double \<Rightarrow> double" where
  "dneg d = make_double (\<not> dsign d) (dmag d)"

definition dabs :: "double \<Rightarrow> double" where
  "dabs d = make_double False (dmag d)"

definition dadd :: "double \<Rightarrow> double \<Rightarrow> double" where
  "dadd a b =
     (if is_nan a \<or> is_nan b then dnan
      else if is_inf a then (if is_inf b \<and> dsign a \<noteq> dsign b then dnan else a)
      else if is_inf b then b
      else round_double (dsign a \<and> dsign b) (valof a + valof b))"

definition dsub :: "double \<Rightarrow> double \<Rightarrow> double" where
  "dsub a b = (if is_nan b then dnan else dadd a (dneg b))"

definition dmul :: "double \<Rightarrow> double \<Rightarrow> double" where
  "dmul a b = (let s = (dsign a \<noteq> dsign b) in
     if is_nan a \<or> is_nan b then dnan
     else if is_inf a \<or> is_inf b then
       (if dmag a = 0 \<or> dmag b = 0 then dnan else dinf s)
     else round_double s (valof a * valof b))"

definition ddiv :: "double \<Rightarrow> double \<Rightarrow> double" where
  "ddiv a b = (let s = (dsign a \<noteq> dsign b) in
     if is_nan a \<or> is_nan b then dnan
     else if is_inf a then (if is_inf b then dnan else dinf s)
     else if is_inf b then make_double s 0
     else if dmag b = 0 then (if dmag a = 0 then dnan else dinf s)
     else round_double s (valof a / valof b))"

definition dlt :: "double \<Rightarrow> double \<Rightarrow> bool" where
  "dlt a b \<longleftrightarrow> \<not> is_nan a \<and> \<not> is_nan b \<and> valof a < valof b"

definition dfloor :: "double \<Rightarrow> double" where
  "dfloor a = (if is_fin a then round_double (dsign a) (of_int \<lfloor>valof a\<rfloor>) else a)"

text \<open>Conversions: from an unsigned 64-bit integer (rounding), and to a 32-bit \<open>int\<close>
  (truncation; a value out of range or a NaN gives the integer indefinite value, as the
  instruction \<open>cvttsd2si\<close> of the target does).\<close>

definition double_of_u64 :: "u64 \<Rightarrow> double" where
  "double_of_u64 w = round_double False (of_int (uint w))"

definition rat_trunc :: "rat \<Rightarrow> int" where
  "rat_trunc q = (if 0 \<le> q then \<lfloor>q\<rfloor> else \<lceil>q\<rceil>)"

definition int_of_double :: "double \<Rightarrow> int" where
  "int_of_double a =
     (let i = rat_trunc (valof a)
      in if is_nan a \<or> i < - (2 ^ 31) \<or> 2 ^ 31 \<le> i then - (2 ^ 31) else i)"

section \<open>Powers of two and binades\<close>

lemma p2_pos [simp]: "0 < p2 e"
  by (simp add: p2_def zero_less_power_int)

lemma p2_nonneg [simp]: "0 \<le> p2 e" and p2_neq_0 [simp]: "p2 e \<noteq> 0"
  using p2_pos [of e] by linarith+

lemma p2_not_neg [simp]: "\<not> p2 e < 0"
  by (simp add: not_less)

lemma p2_add: "p2 (a + b) = p2 a * p2 b"
  by (simp add: p2_def power_int_add)

lemma p2_diff: "p2 (a - b) = p2 a / p2 b"
  by (simp add: p2_def power_int_diff)

lemma p2_nat: "0 \<le> e \<Longrightarrow> p2 e = of_int (2 ^ nat e)"
  by (simp add: p2_def power_int_def)

lemma p2_less_iff [simp]: "p2 i < p2 j \<longleftrightarrow> i < j"
  using power_int_strict_increasing [of i j "2 :: rat"] power_int_increasing [of j i "2 :: rat"]
  by (cases "i < j") (auto simp: p2_def)

lemma p2_le_iff [simp]: "p2 i \<le> p2 j \<longleftrightarrow> i \<le> j"
  by (simp flip: not_less)

lemma p2_0 [simp]: "p2 0 = 1" and p2_1 [simp]: "p2 1 = 2"
  by (simp_all add: p2_def)

lemma ibit_pos [simp]: "0 < ibit" and ibit_neq_0 [simp]: "ibit \<noteq> 0"
  and ibit_nonneg [simp]: "0 \<le> ibit"
  by (simp_all add: ibit_def)

lemma of_int_ibit: "of_int ibit = p2 52"
  by (simp add: ibit_def p2_def power_int_def)

lemma p2_53: "p2 53 = of_int (2 * ibit)"
  by (simp add: ibit_def p2_def power_int_def)

lemma ilog2_bounds:
  assumes "0 < q"
  shows "p2 (ilog2 q) \<le> q \<and> q < p2 (ilog2 q + 1)"
proof -
  obtain n d where nd: "quotient_of q = (n, d)" by fastforce
  then have d: "0 < d" and q: "q = of_int n / of_int d"
    by (simp_all add: quotient_of_denom_pos quotient_of_div)
  with assms have n: "0 < n" by (simp add: zero_less_divide_iff)
  define a where "a = bitlen n - 1"
  define b where "b = bitlen d - 1"
  have a0: "0 \<le> a" and b0: "0 \<le> b"
    using n d bitlen_eq_zero_iff [of n] bitlen_eq_zero_iff [of d] bitlen_nonneg [of n]
      bitlen_nonneg [of d] by (auto simp: a_def b_def)
  have "2 ^ nat a \<le> n" "n < 2 ^ nat (a + 1)" "2 ^ nat b \<le> d" "d < 2 ^ nat (b + 1)"
    using bitlen_bounds [OF n] bitlen_bounds [OF d] by (simp_all add: a_def b_def)
  then have "(of_int (2 ^ nat a) :: rat) \<le> of_int n" "(of_int n :: rat) < of_int (2 ^ nat (a + 1))"
    "(of_int (2 ^ nat b) :: rat) \<le> of_int d" "(of_int d :: rat) < of_int (2 ^ nat (b + 1))"
    by (simp_all only: of_int_le_iff of_int_less_iff)
  then have na: "p2 a \<le> of_int n" "of_int n < p2 (a + 1)"
    and db: "p2 b \<le> of_int d" "of_int d < p2 (b + 1)"
    using a0 b0 by (simp_all only: p2_nat)
  have dp: "(0 :: rat) < of_int d" using d by simp
  have "p2 (a - b - 1) * of_int d \<le> p2 (a - b - 1) * p2 (b + 1)"
    using db(2) by (intro mult_left_mono) simp_all
  also have "\<dots> = p2 a" by (simp flip: p2_add)
  also have "\<dots> \<le> of_int n" by (rule na(1))
  finally have lo: "p2 (a - b - 1) \<le> q" using dp by (simp add: q field_simps)
  have "of_int n < p2 (a + 1)" by (rule na(2))
  also have "\<dots> = p2 (a - b + 1) * p2 b" by (simp flip: p2_add)
  also have "\<dots> \<le> p2 (a - b + 1) * of_int d"
    using db(1) by (intro mult_left_mono) simp_all
  finally have hi: "q < p2 (a - b + 1)" using dp by (simp add: q field_simps)
  have "ilog2 q = (if p2 (a - b) \<le> q then a - b else a - b - 1)"
    by (simp add: ilog2_def nd a_def b_def)
  with lo hi show ?thesis by (auto simp: not_le)
qed

lemma ilog2_unique: "p2 k \<le> q \<Longrightarrow> q < p2 (k + 1) \<Longrightarrow> ilog2 q = k"
proof -
  assume lo: "p2 k \<le> q" and hi: "q < p2 (k + 1)"
  have q: "0 < q" using lo p2_pos [of k] by linarith
  have "p2 k < p2 (ilog2 q + 1)" "p2 (ilog2 q) < p2 (k + 1)"
    using ilog2_bounds [OF q] lo hi by linarith+
  then show ?thesis by simp
qed

lemma ilog2_mono: "0 < p \<Longrightarrow> p \<le> q \<Longrightarrow> ilog2 p \<le> ilog2 q"
proof -
  assume "0 < p" "p \<le> q"
  then have "p2 (ilog2 p) < p2 (ilog2 q + 1)"
    using ilog2_bounds [of p] ilog2_bounds [of q] by linarith
  then show ?thesis by simp
qed

section \<open>Rounding to an integer\<close>

lemma round_even_of_int [simp]: "round_even (of_int n) = n"
  by (simp add: round_even_def)

lemma round_even_error: "\<bar>of_int (round_even q) - q\<bar> \<le> 1 / 2"
proof -
  have "of_int \<lfloor>q\<rfloor> \<le> q" "q < of_int \<lfloor>q\<rfloor> + 1" by linarith+
  then show ?thesis unfolding round_even_def Let_def by (auto split: if_splits)
qed

lemma round_even_mono: "p \<le> q \<Longrightarrow> round_even p \<le> round_even q"
proof -
  assume pq: "p \<le> q"
  then have "\<lfloor>p\<rfloor> \<le> \<lfloor>q\<rfloor>" by (rule floor_mono)
  then consider "\<lfloor>p\<rfloor> = \<lfloor>q\<rfloor>" | "\<lfloor>p\<rfloor> + 1 \<le> \<lfloor>q\<rfloor>" by linarith
  then show ?thesis
  proof cases
    case 1
    with pq show ?thesis by (auto simp: round_even_def Let_def)
  next
    case 2
    have "round_even p \<le> \<lfloor>p\<rfloor> + 1" "\<lfloor>q\<rfloor> \<le> round_even q"
      by (auto simp: round_even_def Let_def)
    with 2 show ?thesis by linarith
  qed
qed

lemma round_even_le: "q \<le> of_int n \<Longrightarrow> round_even q \<le> n"
  using round_even_mono [of q "of_int n"] by simp

lemma round_even_ge: "of_int n \<le> q \<Longrightarrow> n \<le> round_even q"
  using round_even_mono [of "of_int n" q] by simp

lemma round_even_eqI: "\<bar>q - of_int n\<bar> < 1 / 2 \<Longrightarrow> round_even q = n"
proof -
  assume "\<bar>q - of_int n\<bar> < 1 / 2"
  with round_even_error [of q] have "\<bar>of_int (round_even q) - (of_int n :: rat)\<bar> < 1" by linarith
  then have "\<bar>round_even q - n\<bar> < 1" by (simp flip: of_int_diff of_int_abs add: of_int_less_1_iff)
  then show ?thesis by simp
qed

section \<open>Encoding and decoding magnitudes\<close>

lemma mag_val_split:
  assumes "0 \<le> f" "f < ibit"
  shows "mag_val (k * ibit + f) =
    (if k = 0 then of_int f * p2 (- 1074) else of_int (f + ibit) * p2 (k - 1075))"
proof -
  have "(k * ibit + f) div ibit = k" "(k * ibit + f) mod ibit = f"
    using assms by (simp_all add: div_pos_pos_trivial mod_pos_pos_trivial)
  then show ?thesis by (simp add: mag_val_def Let_def)
qed

lemma mag_val_encode:
  assumes "- 1074 \<le> e" "0 \<le> m" "m \<le> 2 * ibit" "e = - 1074 \<or> ibit \<le> m"
  shows "mag_val ((e + 1074) * ibit + m) = of_int m * p2 e"
proof -
  consider "e = - 1074" "m < ibit" | "ibit \<le> m" "m < 2 * ibit" | "m = 2 * ibit"
    using assms by linarith
  then show ?thesis
  proof cases
    case 1
    with mag_val_split [of m 0] assms show ?thesis by simp
  next
    case 2
    with mag_val_split [of "m - ibit" "e + 1075"] assms show ?thesis by (simp add: algebra_simps)
  next
    case 3
    with mag_val_split [of 0 "e + 1076"] assms show ?thesis by (simp add: algebra_simps p2_add)
  qed
qed

lemma mag_val_0 [simp]: "mag_val 0 = 0"
  using mag_val_split [of 0 0] by simp

lemma inf_mag_val: "mag_val inf_mag = p2 1024"
  using mag_val_split [of 0 2047] by (simp add: inf_mag_def of_int_ibit flip: p2_add)

lemma mag_val_strict_mono:
  assumes "0 \<le> m" "m < n"
  shows "mag_val m < mag_val n"
proof -
  define em en fm fn where "em = m div ibit" and "en = n div ibit"
    and "fm = m mod ibit" and "fn = n mod ibit"
  note defs = em_def en_def fm_def fn_def
  have m: "m = em * ibit + fm" and n: "n = en * ibit + fn" by (simp_all add: defs)
  have f: "0 \<le> fm" "fm < ibit" "0 \<le> fn" "fn < ibit" by (simp_all add: defs)
  have E: "0 \<le> em" "em \<le> en"
    using assms by (simp_all add: defs pos_imp_zdiv_nonneg_iff zdiv_mono1)
  note vm = mag_val_split [OF f(1,2), of em, folded m]
    and vn = mag_val_split [OF f(3,4), of en, folded n]
  show ?thesis
  proof (cases "em = en")
    case True
    then have "fm < fn" using assms m n by simp
    then show ?thesis using True
      by (simp add: vm vn mult_strict_right_mono)
  next
    case False
    with E have lt: "em + 1 \<le> en" by simp
    have "of_int ibit * p2 (en - 1075) \<le> mag_val n"
      using lt E f by (auto simp: vn intro!: mult_right_mono)
    then have hi: "p2 (en - 1023) \<le> mag_val n" by (simp add: of_int_ibit flip: p2_add)
    have "mag_val m < of_int (2 * ibit) * p2 (em - 1075)" if "em \<noteq> 0"
      using that f unfolding vm by (simp del: of_int_add of_int_mult add: mult_strict_right_mono)
    moreover have "mag_val m < of_int ibit * p2 (- 1074)" if "em = 0"
      using that f unfolding vm by (simp add: mult_strict_right_mono)
    ultimately have "mag_val m < p2 (em - 1022)"
      by (cases "em = 0") (simp_all add: of_int_ibit p2_53 [symmetric] del: of_int_mult flip: p2_add)
    also have "\<dots> \<le> p2 (en - 1023)" using lt by simp
    finally show ?thesis using hi by linarith
  qed
qed

lemma mag_val_mono: "0 \<le> m \<Longrightarrow> m \<le> n \<Longrightarrow> mag_val m \<le> mag_val n"
  using mag_val_strict_mono [of m n] by (cases "m = n") auto

section \<open>The rounded magnitude\<close>

lemma round_parts:
  assumes "0 < q"
  defines "e \<equiv> round_exp q"
  defines "m \<equiv> round_even (q / p2 e)"
  shows "- 1074 \<le> e \<and> 0 \<le> m \<and> m \<le> 2 * ibit \<and> (e = - 1074 \<or> ibit \<le> m)"
proof -
  have b: "p2 (ilog2 q) \<le> q" "q < p2 (ilog2 q + 1)" using ilog2_bounds [OF assms(1)] by auto
  have e: "- 1074 \<le> e" "ilog2 q - 52 \<le> e" by (simp_all add: e_def round_exp_def)
  have "p2 (ilog2 q + 1) \<le> p2 (53 + e)" using e by simp
  with b have "q / p2 e \<le> p2 53" by (simp add: p2_add field_simps)
  then have "m \<le> 2 * ibit" unfolding m_def by (intro round_even_le) (simp add: p2_53)
  moreover have "0 \<le> m" unfolding m_def using assms(1) by (intro round_even_ge) simp
  moreover have "ibit \<le> m" if "e \<noteq> - 1074"
  proof -
    from that have "ilog2 q = 52 + e" by (auto simp: e_def round_exp_def)
    with b have "p2 52 \<le> q / p2 e" by (simp add: p2_add field_simps)
    then show ?thesis unfolding m_def by (intro round_even_ge) (simp add: of_int_ibit)
  qed
  ultimately show ?thesis using e by blast
qed

lemma round_mag_range: "0 \<le> q \<Longrightarrow> 0 \<le> round_mag q \<and> round_mag q \<le> inf_mag"
  using round_parts [of q] by (auto simp: round_mag_def Let_def inf_mag_def)

lemma mag_val_round:
  assumes "0 < q" "round_mag q < inf_mag"
  shows "mag_val (round_mag q) = of_int (round_even (q / p2 (round_exp q))) * p2 (round_exp q)"
proof -
  let ?n = "(round_exp q + 1074) * ibit + round_even (q / p2 (round_exp q))"
  have "round_mag q = min ?n inf_mag" using assms(1) by (simp add: round_mag_def Let_def)
  with assms(2) have "round_mag q = ?n" by (simp add: min_def split: if_splits)
  then show ?thesis using mag_val_encode round_parts [OF assms(1)] by simp
qed

lemma round_mag_error:
  assumes "0 < q" "round_mag q < inf_mag"
  shows "\<bar>mag_val (round_mag q) - q\<bar> \<le> p2 (round_exp q) / 2"
proof -
  let ?e = "round_exp q"
  let ?m = "of_int (round_even (q / p2 ?e)) :: rat"
  have "?m * p2 ?e - q = (?m - q / p2 ?e) * p2 ?e" by (simp add: field_simps)
  then have "\<bar>?m * p2 ?e - q\<bar> = \<bar>?m - q / p2 ?e\<bar> * p2 ?e" by (simp add: abs_mult)
  also have "\<dots> \<le> 1 / 2 * p2 ?e" by (intro mult_right_mono round_even_error) simp
  finally show ?thesis using mag_val_round [OF assms] by simp
qed

lemma round_mag_mono:
  assumes "0 \<le> p" "p \<le> q"
  shows "round_mag p \<le> round_mag q"
proof (cases "p = 0")
  case True
  then show ?thesis using round_mag_range [of q] assms by (simp add: round_mag_def)
next
  case False
  with assms have p: "0 < p" and q: "0 < q" by auto
  let ?e = "round_exp p" and ?e' = "round_exp q"
  let ?m = "round_even (p / p2 ?e)" and ?m' = "round_even (q / p2 ?e')"
  have le: "?e \<le> ?e'" using ilog2_mono [OF p assms(2)] by (auto simp: round_exp_def)
  have "(?e + 1074) * ibit + ?m \<le> (?e' + 1074) * ibit + ?m'"
  proof (cases "?e = ?e'")
    case True
    have "?m \<le> ?m'" unfolding True using assms by (intro round_even_mono divide_right_mono) simp_all
    with True show ?thesis by simp
  next
    case False
    with le have "?e + 1 \<le> ?e'" by simp
    then have "(?e + 1) * ibit \<le> ?e' * ibit" by (intro mult_right_mono) (simp_all add: less_imp_le)
    moreover have "?m \<le> 2 * ibit" "ibit \<le> ?m'"
      using round_parts [OF p] round_parts [OF q] le False by auto
    ultimately show ?thesis by (simp add: algebra_simps)
  qed
  then show ?thesis using p q by (simp add: round_mag_def Let_def)
qed

text \<open>A rational with a 53-bit significand in the exponent range is rounded to itself.\<close>

definition representable :: "rat \<Rightarrow> bool" where
  "representable q \<longleftrightarrow>
     (\<exists>m e. q = of_int m * p2 e \<and> \<bar>m\<bar> < 2 * ibit \<and> - 1074 \<le> e) \<and> \<bar>q\<bar> < p2 1024"

lemma representable_minus: "representable q \<Longrightarrow> representable (- q)"
proof -
  assume q: "representable q"
  then obtain m e where "q = of_int m * p2 e" "\<bar>m\<bar> < 2 * ibit" "- 1074 \<le> e"
    by (auto simp: representable_def)
  then have "- q = of_int (- m) * p2 e \<and> \<bar>- m\<bar> < 2 * ibit \<and> - 1074 \<le> e" by simp
  with q show ?thesis unfolding representable_def by (metis abs_minus_cancel)
qed

lemma round_mag_exact:
  assumes "representable q" "0 \<le> q"
  shows "mag_val (round_mag q) = q \<and> round_mag q < inf_mag"
proof (cases "q = 0")
  case True
  then show ?thesis by (simp add: round_mag_def inf_mag_def)
next
  case False
  with assms have q: "0 < q" by simp
  from assms obtain m e where me: "q = of_int m * p2 e" "\<bar>m\<bar> < 2 * ibit" "- 1074 \<le> e"
    and lt: "q < p2 1024" by (auto simp: representable_def)
  let ?e = "round_exp q"
  have m0: "0 < m" using q me(1) by (simp add: zero_less_mult_iff)
  have "?e \<le> e"
  proof (rule ccontr)
    assume c: "\<not> ?e \<le> e"
    then have "ilog2 q = ?e + 52" using me(3) by (auto simp: round_exp_def)
    then have "p2 (53 + e) \<le> p2 (ilog2 q)" using c by simp
    also have "\<dots> \<le> q" using ilog2_bounds [OF q] by simp
    finally have "of_int (2 * ibit) \<le> (of_int m :: rat)"
      by (simp add: me(1) p2_add p2_53 del: of_int_mult)
    with me(2) m0 show False by (simp del: of_int_mult)
  qed
  then have "q / p2 ?e = of_int (m * 2 ^ nat (e - ?e))"
    by (simp add: me(1) p2_diff [symmetric] p2_nat [symmetric] flip: times_divide_eq_right)
      (simp add: p2_def power_int_def)
  then have rq: "of_int (round_even (q / p2 ?e)) * p2 ?e = q"
    by (metis divide_eq_eq p2_neq_0 round_even_of_int)
  have enc: "mag_val ((?e + 1074) * ibit + round_even (q / p2 ?e)) = q"
    using mag_val_encode [of ?e "round_even (q / p2 ?e)"] round_parts [OF q] rq by auto
  have "(?e + 1074) * ibit + round_even (q / p2 ?e) < inf_mag"
  proof (rule ccontr)
    assume "\<not> ?thesis"
    then have "mag_val inf_mag \<le> q"
      using mag_val_mono [of inf_mag "(?e + 1074) * ibit + round_even (q / p2 ?e)"] enc
      by (simp add: inf_mag_def)
    with lt show False by (simp add: inf_mag_val)
  qed
  with enc q show ?thesis by (simp add: round_mag_def Let_def)
qed

section \<open>Doubles\<close>

lemma inf_mag_less: "inf_mag < 2 ^ 63" and inf_mag_pos [simp]: "0 < inf_mag"
  by (simp_all add: inf_mag_def ibit_def)

lemma make_double_parts:
  assumes "0 \<le> m" "m < 2 ^ 63"
  shows "dmag (make_double s m) = m" "dsign (make_double s m) = s"
proof -
  have w: "uint (word_of_int k :: u64) = k" if "0 \<le> k" "k < 2 ^ 64" for k
    using that by (simp add: uint_word_of_int mod_pos_pos_trivial)
  have "uint (dbits (make_double s m)) = (if s then 2 ^ 63 else 0) + m"
    unfolding make_double_def double.sel using assms by (intro w) auto
  then show "dmag (make_double s m) = m" "dsign (make_double s m) = s"
    using assms by (auto simp: dmag_def dsign_def)
qed

lemma dmag_range: "0 \<le> dmag d" "dmag d < 2 ^ 63"
  by (simp_all add: dmag_def)

lemma make_double_id: "make_double (dsign d) (dmag d) = d"
proof (cases d)
  case (Double w)
  have "uint w < 2 ^ 64" "0 \<le> uint w" using uint_lt2p [of w] by simp_all
  then have "(if 2 ^ 63 \<le> uint w then 2 ^ 63 else 0) + uint w mod 2 ^ 63 = uint w"
    by (auto simp: mod_pos_geq mod_pos_pos_trivial simp del: minus_mod_self2)
  then show ?thesis by (simp add: Double make_double_def dsign_def dmag_def)
qed

text \<open>The value of a rounded rational: the same function of the rational for both signs.\<close>

definition rnd :: "rat \<Rightarrow> rat" where
  "rnd q = (if 0 \<le> q then mag_val (round_mag q) else - mag_val (round_mag (- q)))"

lemma round_double_parts:
  "dmag (round_double s q) = round_mag \<bar>q\<bar>"
  "dsign (round_double s q) = (if q = 0 then s else q < 0)"
proof -
  have "0 \<le> round_mag \<bar>q\<bar>" "round_mag \<bar>q\<bar> < 2 ^ 63"
    using round_mag_range [of "\<bar>q\<bar>"] inf_mag_less by auto
  then show "dmag (round_double s q) = round_mag \<bar>q\<bar>"
    "dsign (round_double s q) = (if q = 0 then s else q < 0)"
    by (auto simp: round_double_def make_double_parts round_mag_def)
qed

lemma valof_round_double [simp]: "valof (round_double s q) = rnd q"
  by (auto simp: valof_def rnd_def round_double_parts round_mag_def)

lemma not_nan_round [simp]: "\<not> is_nan (round_double s q)"
  using round_mag_range [of "\<bar>q\<bar>"] by (simp add: is_nan_def round_double_parts)

lemma rnd_0 [simp]: "rnd 0 = 0"
  by (simp add: rnd_def round_mag_def)

lemma rnd_minus: "rnd (- q) = - rnd q"
  by (auto simp: rnd_def round_mag_def)

lemma rnd_mono: "p \<le> q \<Longrightarrow> rnd p \<le> rnd q"
proof -
  assume pq: "p \<le> q"
  have nn: "0 \<le> mag_val (round_mag r)" if "0 \<le> r" for r
    using mag_val_mono [of 0 "round_mag r"] round_mag_range [OF that] by simp
  have mono: "mag_val (round_mag r) \<le> mag_val (round_mag t)" if "0 \<le> r" "r \<le> t" for r t
    using mag_val_mono round_mag_mono [OF that] round_mag_range [OF that(1)] by blast
  show ?thesis
    using pq nn [of q] nn [of "- p"] mono [of p q] mono [of "- q" "- p"]
    by (auto simp: rnd_def)
qed

lemma rnd_exact: "representable q \<Longrightarrow> rnd q = q"
  using round_mag_exact [of q] round_mag_exact [of "- q"] representable_minus [of q]
  by (auto simp: rnd_def)

lemma is_fin_round_double: "representable q \<Longrightarrow> is_fin (round_double s q)"
  using round_mag_exact [of "\<bar>q\<bar>"] representable_minus [of q]
  by (auto simp: is_fin_def round_double_parts abs_if)

lemma is_fin_round_bound:
  assumes "\<bar>q\<bar> \<le> p" "representable p"
  shows "is_fin (round_double s q)"
proof -
  have "round_mag \<bar>q\<bar> \<le> round_mag p" using assms(1) by (intro round_mag_mono) auto
  moreover have "round_mag p < inf_mag" using round_mag_exact [OF assms(2)] assms(1) by auto
  ultimately show ?thesis by (simp add: is_fin_def round_double_parts)
qed

lemma rnd_less_D: "rnd q < c \<Longrightarrow> representable c \<Longrightarrow> q < c"
  using rnd_mono [of c q] rnd_exact [of c] by fastforce

lemma rnd_greater_D: "c < rnd q \<Longrightarrow> representable c \<Longrightarrow> c < q"
  using rnd_mono [of q c] rnd_exact [of c] by fastforce

lemma fin_imp: "is_fin d \<Longrightarrow> \<not> is_nan d \<and> \<not> is_inf d"
  by (auto simp: is_fin_def is_nan_def is_inf_def)

lemma valof_dneg [simp]: "valof (dneg d) = - valof d"
  and is_nan_dneg [simp]: "is_nan (dneg d) = is_nan d"
  and is_inf_dneg [simp]: "is_inf (dneg d) = is_inf d"
  and is_fin_dneg [simp]: "is_fin (dneg d) = is_fin d"
  using dmag_range [of d]
  by (auto simp: dneg_def valof_def is_nan_def is_inf_def is_fin_def make_double_parts)

lemma valof_dabs [simp]: "valof (dabs d) = \<bar>valof d\<bar>"
  and is_nan_dabs [simp]: "is_nan (dabs d) = is_nan d"
  and is_fin_dabs [simp]: "is_fin (dabs d) = is_fin d"
  using dmag_range [of d] mag_val_mono [of 0 "dmag d"]
  by (auto simp: dabs_def valof_def is_nan_def is_fin_def make_double_parts)

lemma dadd_fin: "is_fin a \<Longrightarrow> is_fin b \<Longrightarrow>
    dadd a b = round_double (dsign a \<and> dsign b) (valof a + valof b)"
  using fin_imp [of a] fin_imp [of b] by (simp add: dadd_def)

lemma dsub_fin: "is_fin a \<Longrightarrow> is_fin b \<Longrightarrow>
    dsub a b = round_double (dsign a \<and> dsign (dneg b)) (valof a - valof b)"
  using fin_imp [of b] dadd_fin [of a "dneg b"] by (simp add: dsub_def)

lemma dmul_fin: "is_fin a \<Longrightarrow> is_fin b \<Longrightarrow>
    dmul a b = round_double (dsign a \<noteq> dsign b) (valof a * valof b)"
  using fin_imp [of a] fin_imp [of b] by (simp add: dmul_def)

lemma valof_eq_0_iff: "valof d = 0 \<longleftrightarrow> dmag d = 0"
  using mag_val_strict_mono [of 0 "dmag d"] dmag_range [of d]
  by (cases "dmag d = 0") (auto simp: valof_def)

lemma ddiv_fin: "is_fin a \<Longrightarrow> is_fin b \<Longrightarrow> valof b \<noteq> 0 \<Longrightarrow>
    ddiv a b = round_double (dsign a \<noteq> dsign b) (valof a / valof b)"
  using fin_imp [of a] fin_imp [of b] by (simp add: ddiv_def valof_eq_0_iff)

lemma representable_int: "\<bar>i\<bar> < 2 * ibit \<Longrightarrow> representable (of_int i)"
proof -
  assume i: "\<bar>i\<bar> < 2 * ibit"
  have "of_int \<bar>i\<bar> < (of_int (2 * ibit) :: rat)" using i by (simp only: of_int_less_iff)
  also have "\<dots> \<le> p2 1024" by (simp flip: p2_53 del: of_int_mult)
  finally have "\<bar>of_int i\<bar> < p2 1024" by simp
  with i show ?thesis unfolding representable_def
    by (intro conjI exI [of _ i] exI [of _ "0 :: int"]) simp_all
qed

end
