(* ===== verification/Stdio.thy ===== *)
theory Stdio
  imports Prelude
begin

text \<open>
  The part of the C standard library's file interface that the program uses, over a disk that
  maps path names to file contents. A stream is a file's contents and a position; a read past the
  end delivers the bytes there are and leaves the rest of the buffer as it was.
\<close>

type_synonym disk = "string \<rightharpoonup> bytes"

text \<open>\<open>fopen(path, "rb")\<close> and \<open>"r+b"\<close>: a null pointer when the file does not exist, and for
  \<open>"r+b"\<close> also when it may not be written.\<close>

definition fopen_read :: "disk \<Rightarrow> string \<Rightarrow> bytes option" where
  "fopen_read d path = d path"

definition fopen_update :: "(string \<Rightarrow> bool) \<Rightarrow> disk \<Rightarrow> string \<Rightarrow> bytes option" where
  "fopen_update writable d path = (if writable path then d path else None)"

text \<open>\<open>fopen(path, "wb")\<close> and \<open>"a+b"\<close>: the file is created, and truncated for \<open>"wb"\<close>; a null
  pointer when the directory does not allow it.\<close>

definition fopen_trunc :: "(string \<Rightarrow> bool) \<Rightarrow> disk \<Rightarrow> string \<Rightarrow> disk option" where
  "fopen_trunc writable d path = (if writable path then Some (d(path \<mapsto> [])) else None)"

definition fopen_append :: "(string \<Rightarrow> bool) \<Rightarrow> disk \<Rightarrow> string \<Rightarrow> disk option" where
  "fopen_append writable d path =
     (if writable path then Some (d(path \<mapsto> (case d path of None \<Rightarrow> [] | Some c \<Rightarrow> c))) else None)"

text \<open>Writes of the program are all at the end of the file: in append mode, or to a file just
  truncated.\<close>

definition fwrite_end :: "disk \<Rightarrow> string \<Rightarrow> bytes \<Rightarrow> disk" where
  "fwrite_end d path data = d(path \<mapsto> (case d path of None \<Rightarrow> [] | Some c \<Rightarrow> c) @ data)"

text \<open>\<open>fread\<close> at a position: the bytes delivered, and the buffer after the call.\<close>

definition fread_at :: "bytes \<Rightarrow> nat \<Rightarrow> nat \<Rightarrow> bytes" where
  "fread_at c pos n = take n (drop pos c)"

definition fill :: "'a list \<Rightarrow> 'a list \<Rightarrow> 'a list" where
  "fill buf got = got @ drop (length got) buf"

text \<open>\<open>fseek(f, off, SEEK_SET)\<close> with the offset converted to a signed \<open>long\<close>: a negative offset
  is refused and the position stays.\<close>

definition fseek_set :: "nat \<Rightarrow> u64 \<Rightarrow> nat" where
  "fseek_set cur off = (if off < 2 ^ 63 then unat off else cur)"

text \<open>\<open>remove\<close> and \<open>rename\<close>.\<close>

definition fremove :: "disk \<Rightarrow> string \<Rightarrow> disk" where
  "fremove d path = d(path := None)"

definition frename :: "disk \<Rightarrow> string \<Rightarrow> string \<Rightarrow> disk" where
  "frename d old new = (case d old of None \<Rightarrow> d | Some c \<Rightarrow> d(new \<mapsto> c, old := None))"

text \<open>\<open>std::string::resize\<close> of a byte string, and the C string a buffer holds.\<close>

definition resize :: "bytes \<Rightarrow> nat \<Rightarrow> bytes" where
  "resize v n = take n v @ replicate (n - length v) 0"

definition c_string :: "bytes \<Rightarrow> bytes" where
  "c_string = takeWhile (\<lambda>b. b \<noteq> 0)"

section \<open>Facts\<close>

lemma length_resize [simp]: "length (resize v n) = n"
  by (simp add: resize_def)

lemma fill_full [simp]: "length got = length buf \<Longrightarrow> fill buf got = got"
  by (simp add: fill_def)

lemma length_fill: "length got \<le> length buf \<Longrightarrow> length (fill buf got) = length buf"
  by (simp add: fill_def)

lemma length_fread_at [simp]: "length (fread_at c pos n) = min n (length c - pos)"
  by (simp add: fread_at_def)

lemma fread_at_mid: "pos = length xs \<Longrightarrow> n = length ys \<Longrightarrow> fread_at (xs @ ys @ zs) pos n = ys"
  by (simp add: fread_at_def)

lemma fread_at_append: "pos + n \<le> length xs \<Longrightarrow> fread_at (xs @ ys) pos n = fread_at xs pos n"
  by (simp add: fread_at_def)

text \<open>Reading record \<open>i\<close>, or part of it, of a file of fixed-width records.\<close>

lemma fread_at_chunk:
  assumes "\<And>x. x \<in> set xs \<Longrightarrow> length (f x) = w" and "i < length xs" and "k + n \<le> w"
  shows "fread_at (concat (map f xs)) (w * i + k) n = take n (drop k (f (xs ! i)))"
proof -
  have "drop (w * i + k) (concat (map f xs)) = drop k (concat (map f (drop i xs)))"
    using drop_concat_chunks [of xs f w i] assms(1) by (simp add: add.commute flip: drop_drop)
  also have "drop i xs = xs ! i # drop (Suc i) xs" using assms(2) by (simp add: Cons_nth_drop_Suc)
  finally show ?thesis using assms by (simp add: fread_at_def)
qed

lemma c_string_id: "0 \<notin> set v \<Longrightarrow> c_string v = v"
  by (auto simp: c_string_def intro!: takeWhile_eq_all_conv [THEN iffD2])

lemma c_string_pad: "0 \<notin> set v \<Longrightarrow> c_string (v @ 0 # w) = v"
  by (simp add: c_string_def takeWhile_tail) (auto simp: takeWhile_eq_all_conv)

end
