(* ===== verification/PLR.thy ===== *)
theory PLR
  imports Float64 Stdio
begin

text \<open>
  The learned index of \<open>learned-LSM/learnedKV.h\<close>: the greedy piecewise linear regression over
  the sorted keys (\<open>build_piecewise_linear_regression\<close>), its two files, and the lookup of a
  predicted position (\<open>query_model\<close>). All arithmetic is that of \<open>double\<close>.
\<close>

definition MODEL_PATH :: string where
  "MODEL_PATH = ''./db/model''"

definition KEY_ARRAY_PATH :: string where
  "KEY_ARRAY_PATH = ''./db/key_array''"

section \<open>Segments\<close>

record segment =
  start :: u64
  slope :: double
  intercept :: double

definition segment_bytes :: "segment \<Rightarrow> bytes" where
  "segment_bytes s = u64_bytes (start s) @ u64_bytes (dbits (slope s)) @ u64_bytes (dbits (intercept s))"

definition bytes_segment :: "bytes \<Rightarrow> segment" where
  "bytes_segment bs = \<lparr>start = bytes_u64 (take 8 bs),
     slope = Double (bytes_u64 (take 8 (drop 8 bs))),
     intercept = Double (bytes_u64 (take 8 (drop 16 bs)))\<rparr>"

text \<open>\<open>slope * key + intercept\<close>.\<close>

definition predict :: "double \<Rightarrow> double \<Rightarrow> u64 \<Rightarrow> double" where
  "predict a b key = dadd (dmul a (double_of_u64 key)) b"

text \<open>\<open>abs(slope * x + intercept - y) > err\<close>.\<close>

definition exceeds :: "double \<Rightarrow> segment \<Rightarrow> u64 \<Rightarrow> double \<Rightarrow> bool" where
  "exceeds err seg x y \<longleftrightarrow> dlt err (dabs (dsub (predict (slope seg) (intercept seg) x) y))"

text \<open>The segment through two neighbouring points; the key difference is taken in 64 bits.\<close>

definition fit :: "u64 \<Rightarrow> double \<Rightarrow> u64 \<Rightarrow> double \<Rightarrow> segment" where
  "fit x0 y0 x1 y1 = \<lparr>start = x0,
     slope = ddiv (dsub y1 y0) (double_of_u64 (x1 - x0)),
     intercept = ddiv (dsub (dmul y0 (double_of_u64 x1)) (dmul (double_of_u64 x0) y1))
                      (double_of_u64 (x1 - x0))\<rparr>"

lemma start_fit [simp]: "start (fit x0 y0 x1 y1) = x0"
  by (simp add: fit_def)

section \<open>Building the model\<close>

type_synonym plr_state = "segment list \<times> u64 \<times> segment"

definition plr_step :: "u64 list \<Rightarrow> double list \<Rightarrow> double \<Rightarrow> nat \<Rightarrow> plr_state \<Rightarrow> plr_state" where
  "plr_step x y err i st = (case st of (model, last_start, prev_seg) \<Rightarrow>
     if exceeds err prev_seg (x ! i) (y ! i)
     then (model @ [\<lparr>start = last_start, slope = slope prev_seg, intercept = intercept prev_seg\<rparr>],
           x ! i, fit (x ! i) (y ! i) (x ! (i + 1)) (y ! (i + 1)))
     else (model, last_start, prev_seg))"

definition plr_loop :: "u64 list \<Rightarrow> double list \<Rightarrow> double \<Rightarrow> plr_state" where
  "plr_loop x y err = fold (plr_step x y err) [2..<length x - 1]
     ([], x ! 0, fit (x ! 0) (y ! 0) (x ! 1) (y ! 1))"

definition plr_model :: "u64 list \<Rightarrow> double list \<Rightarrow> double \<Rightarrow> segment list" where
  "plr_model x y err =
     (let n = length x;
          (model, last_start, prev_seg) = plr_loop x y err;
          model = model @ [\<lparr>start = last_start, slope = slope prev_seg, intercept = intercept prev_seg\<rparr>]
      in if exceeds err prev_seg (x ! (n - 1)) (y ! (n - 1))
         then model @ [fit (x ! (n - 2)) (y ! (n - 2)) (x ! (n - 1)) (y ! (n - 1))]
         else model)"

text \<open>The whole function: too few points, or a file that cannot be opened, return -1; the model
  file is written before the key array is tried.\<close>

definition build_piecewise_linear_regression ::
  "(string \<Rightarrow> bool) \<Rightarrow> u64 list \<Rightarrow> double list \<Rightarrow> double \<Rightarrow> disk \<Rightarrow> int \<times> disk" where
  "build_piecewise_linear_regression writable x y err d =
     (if length x < 2 then (- 1, d)
      else case fopen_trunc writable d MODEL_PATH of
        None \<Rightarrow> (- 1, d)
      | Some d1 \<Rightarrow>
          (let d2 = fwrite_end d1 MODEL_PATH (concat (map segment_bytes (plr_model x y err)))
           in case fopen_trunc writable d2 KEY_ARRAY_PATH of
                None \<Rightarrow> (- 1, d2)
              | Some d3 \<Rightarrow> (0, fwrite_end d3 KEY_ARRAY_PATH (concat (map u64_bytes x)))))"

section \<open>Querying the model\<close>

text \<open>\<open>while (fread(&seg, sizeof(Segment), 1, model_file))\<close>.\<close>

function read_segments :: "bytes \<Rightarrow> segment list" where
  "read_segments bs =
     (if length bs < 24 then [] else bytes_segment (take 24 bs) # read_segments (drop 24 bs))"
  by pat_completeness auto
termination
  by (relation "measure length") auto

fun locate :: "u64 \<Rightarrow> segment list \<Rightarrow> double \<times> double \<Rightarrow> double \<times> double" where
  "locate key [] ab = ab"
| "locate key (s # ss) ab =
     (if key < start s then ab
      else if key = start s then (slope s, intercept s)
      else locate key ss (slope s, intercept s))"

definition dzero :: double where
  "dzero = make_double False 0"

definition query_segments :: "u64 \<Rightarrow> segment list \<Rightarrow> int" where
  "query_segments key model =
     (let (a, b) = locate key model (dzero, dzero);
          pos = int_of_double (predict a b key)
      in if pos < 0 then 0 else pos)"

definition query_model :: "u64 \<Rightarrow> disk \<Rightarrow> int" where
  "query_model key d =
     (case fopen_read d MODEL_PATH of
        None \<Rightarrow> - 1
      | Some c \<Rightarrow> query_segments key (read_segments c))"

declare read_segments.simps [simp del]

section \<open>Files\<close>

lemma length_segment_bytes [simp]: "length (segment_bytes s) = 24"
  by (simp add: segment_bytes_def)

lemma bytes_segment_bytes [simp]: "bytes_segment (segment_bytes s) = s"
  by (simp add: bytes_segment_def segment_bytes_def)

lemma read_segments_image [simp]: "read_segments (concat (map segment_bytes ss)) = ss"
proof (induction ss)
  case Nil
  then show ?case by (simp add: read_segments.simps)
next
  case (Cons s ss)
  then show ?case
    by (simp add: read_segments.simps [of "segment_bytes s @ concat (map segment_bytes ss)"])
qed

lemma query_model_bounds: "- 1 \<le> query_model key d \<and> query_model key d < 2 ^ 31"
  by (auto simp: query_model_def query_segments_def int_of_double_def Let_def
      split: option.splits prod.splits)

section \<open>Looking up a segment\<close>

lemma locate_snoc_before: "key < start s \<Longrightarrow> locate key (ss @ [s]) ab = locate key ss ab"
  by (induction ss arbitrary: ab) auto

lemma locate_last:
  assumes "\<And>s. s \<in> set ss \<Longrightarrow> start s < key" and "start l \<le> key"
  shows "locate key (ss @ [l]) ab = (slope l, intercept l)"
  using assms(1)
proof (induction ss arbitrary: ab)
  case Nil
  with assms(2) show ?case by auto
next
  case (Cons s ss)
  from Cons.prems [of s] have "start s < key" by simp
  then have "\<not> key < start s" "key \<noteq> start s" by auto
  with Cons show ?case by simp
qed

section \<open>The error bound of the regression\<close>

text \<open>The model as it stands while the loop runs, the segment under construction included.\<close>

definition segs_of :: "plr_state \<Rightarrow> segment list" where
  "segs_of st = (case st of (model, last_start, p) \<Rightarrow>
     model @ [\<lparr>start = last_start, slope = slope p, intercept = intercept p\<rparr>])"

text \<open>A point is within the bound of the segment a lookup of its key finds, or it is one of the
  points the loop never checks: the second point, or the start of a segment.\<close>

definition covered :: "double \<Rightarrow> segment list \<Rightarrow> u64 \<Rightarrow> double \<Rightarrow> bool" where
  "covered err ss k v \<longleftrightarrow> (case locate k ss (dzero, dzero) of (a, b) \<Rightarrow>
     \<not> dlt err (dabs (dsub (predict a b k) v)))"

definition plr_inv :: "u64 list \<Rightarrow> double list \<Rightarrow> double \<Rightarrow> nat \<Rightarrow> plr_state \<Rightarrow> bool" where
  "plr_inv x y err i st \<longleftrightarrow> (case st of (model, last_start, p) \<Rightarrow>
     (\<forall>s \<in> set model. start s < last_start) \<and> last_start \<in> set (take i x) \<and>
     (\<forall>j < i. covered err (segs_of st) (x ! j) (y ! j) \<or> j = 1 \<or> x ! j \<in> start ` set (segs_of st)))"

lemma sorted_nth_less: "sorted_wrt (<) (x :: u64 list) \<Longrightarrow> i < j \<Longrightarrow> j < length x \<Longrightarrow> x ! i < x ! j"
  by (simp add: sorted_wrt_iff_nth_less)

lemma in_take_less:
  "sorted_wrt (<) (x :: u64 list) \<Longrightarrow> i < length x \<Longrightarrow> v \<in> set (take i x) \<Longrightarrow> v < x ! i"
  by (auto simp: in_set_conv_nth intro: sorted_nth_less)

lemma plr_inv_init:
  assumes "2 \<le> length x"
  shows "plr_inv x y err 2 ([], x ! 0, fit (x ! 0) (y ! 0) (x ! 1) (y ! 1))"
proof -
  have "x ! 0 \<in> set (take 2 x)" using assms by (auto simp: in_set_conv_nth intro!: exI [of _ 0])
  then show ?thesis by (auto simp: plr_inv_def segs_of_def less_2_cases_iff)
qed

lemma plr_inv_locate_current:
  assumes "plr_inv x y err i (model, last_start, p)" "sorted_wrt (<) x" "i < length x"
  shows "locate (x ! i) (segs_of (model, last_start, p)) ab = (slope p, intercept p)"
proof -
  have l: "last_start < x ! i" using assms by (auto simp: plr_inv_def intro: in_take_less)
  then show ?thesis using assms(1) unfolding segs_of_def prod.case
    by (subst locate_last) (auto simp: plr_inv_def dest!: bspec intro: less_trans)
qed

lemma plr_inv_step:
  assumes inv: "plr_inv x y err i st" and x: "sorted_wrt (<) x" and i: "i < length x"
  shows "plr_inv x y err (Suc i) (plr_step x y err i st)"
proof -
  obtain model ls p where st: "st = (model, ls, p)" by (cases st) auto
  note inv = inv [unfolded st] and cur = plr_inv_locate_current [OF inv [unfolded st] x i]
  have ls: "ls < x ! i" using inv x i by (auto simp: plr_inv_def intro: in_take_less)
  have take: "set (take (Suc i) x) = insert (x ! i) (set (take i x))"
    using i by (simp add: take_Suc_conv_app_nth)
  show ?thesis
  proof (cases "exceeds err p (x ! i) (y ! i)")
    case False
    then have "covered err (segs_of (model, ls, p)) (x ! i) (y ! i)"
      by (simp add: covered_def cur exceeds_def)
    with False inv take show ?thesis by (auto simp: plr_inv_def plr_step_def st less_Suc_eq)
  next
    case True
    let ?new = "fit (x ! i) (y ! i) (x ! (i + 1)) (y ! (i + 1))"
    have step: "plr_step x y err i st = (segs_of (model, ls, p), x ! i, ?new)"
      using True by (simp add: plr_step_def st segs_of_def)
    have segs: "segs_of (segs_of (model, ls, p), x ! i, ?new) = segs_of (model, ls, p) @
        [\<lparr>start = x ! i, slope = slope ?new, intercept = intercept ?new\<rparr>]" (is "_ = _ @ [?s]")
      by (simp add: segs_of_def)
    have "covered err (segs_of (model, ls, p) @ [?s]) (x ! j) (y ! j) =
        covered err (segs_of (model, ls, p)) (x ! j) (y ! j)" if "j < i" for j
      using sorted_nth_less [OF x that i] by (simp add: covered_def locate_snoc_before)
    with inv ls take show ?thesis unfolding step segs plr_inv_def prod.case
      by (auto simp: less_Suc_eq segs_of_def dest: less_trans)
  qed
qed

lemma plr_inv_loop:
  assumes "sorted_wrt (<) x" "2 \<le> length x" "2 \<le> n" "n \<le> length x"
  shows "plr_inv x y err n (fold (plr_step x y err) [2..<n]
    ([], x ! 0, fit (x ! 0) (y ! 0) (x ! 1) (y ! 1)))"
  using assms(3,4)
proof (induction n rule: nat_induct_at_least)
  case base
  show ?case using plr_inv_init [OF assms(2)] by simp
next
  case (Suc n)
  then show ?case using plr_inv_step [OF _ assms(1)] by simp
qed

lemma plr_model_covered:
  assumes x: "sorted_wrt (<) x" and n: "2 \<le> length x" and j: "j < length x"
  shows "covered err (plr_model x y err) (x ! j) (y ! j) \<or>
    x ! j \<in> start ` set (plr_model x y err) \<or> j = 1 \<or>
    j = length x - 1 \<and> start (last (plr_model x y err)) = x ! (length x - 2)"
proof -
  let ?n = "length x"
  obtain model ls p where st: "plr_loop x y err = (model, ls, p)" by (cases "plr_loop x y err") auto
  let ?ss = "segs_of (model, ls, p)"
  define m where "m = max 2 (?n - 1)"
  have inv: "plr_inv x y err m (model, ls, p)"
    using plr_inv_loop [OF x n, of m y err] n by (auto simp: m_def plr_loop_def max_def simp flip: st)
  let ?l = "fit (x ! (?n - 2)) (y ! (?n - 2)) (x ! (?n - 1)) (y ! (?n - 1))"
  have pm: "plr_model x y err = (if exceeds err p (x ! (?n - 1)) (y ! (?n - 1)) then ?ss @ [?l] else ?ss)"
    by (simp add: plr_model_def st segs_of_def Let_def)
  consider "j = ?n - 1" | "j = ?n - 2" "j \<noteq> ?n - 1" | "j < ?n - 2" using j by linarith
  then show ?thesis
  proof cases
    case 1
    show ?thesis
    proof (cases "exceeds err p (x ! (?n - 1)) (y ! (?n - 1)) \<or> ?n = 2")
      case True
      with 1 show ?thesis by (auto simp: pm)
    next
      case False
      with n have "m = j" using 1 by (auto simp: m_def max_def)
      with inv have "locate (x ! j) ?ss ab = (slope p, intercept p)" for ab
        using plr_inv_locate_current [OF _ x j] by blast
      with False 1 show ?thesis by (simp add: pm covered_def exceeds_def)
    qed
  next
    case 2
    then have "j < m" using n by (auto simp: m_def)
    with inv have "covered err ?ss (x ! j) (y ! j) \<or> j = 1 \<or> x ! j \<in> start ` set ?ss"
      by (auto simp: plr_inv_def)
    with 2 show ?thesis by (auto simp: pm)
  next
    case 3
    then have "j < m" by (auto simp: m_def)
    with inv have c: "covered err ?ss (x ! j) (y ! j) \<or> j = 1 \<or> x ! j \<in> start ` set ?ss"
      by (auto simp: plr_inv_def)
    have "x ! j < start ?l" using 3 by (simp add: sorted_nth_less [OF x])
    then have "covered err (?ss @ [?l]) (x ! j) (y ! j) = covered err ?ss (x ! j) (y ! j)"
      by (simp add: covered_def locate_snoc_before)
    with c show ?thesis by (auto simp: pm)
  qed
qed

end
