(* ===== verification/Utils.thy ===== *)
theory Utils
  imports Prelude Stdio
begin

text \<open>
  The helpers of \<open>learned-LSM/utils.h\<close>: the Bloom filter in front of the LSM store, the
  command-line flags, and the conversions between 64-bit integers and the 8-byte strings that
  serve as keys and pointers of the LSM store.
\<close>

section \<open>Bloom filter\<close>

text \<open>The \<open>std::bitset\<close> is the set of the indices of its one bits.\<close>

record bloom_filter =
  bitset :: "nat set"
  numHashes :: u64

definition bitset_size :: u64 where
  "bitset_size = 1000000"

text \<open>The constructor passes its first argument to the constructor of the bitset, which takes it
  as an initial value: the bits of the number, not a size.\<close>

definition BloomFilter :: "u64 \<Rightarrow> u64 \<Rightarrow> bloom_filter" where
  "BloomFilter sz nh = \<lparr>bitset = Set.filter (\<lambda>i. bit sz i) {0..<64}, numHashes = nh\<rparr>"

text \<open>\<open>std::hash\<close> of an unsigned integer is the identity in the library the artifact builds with;
  the sum wraps.\<close>

definition bloom_hash :: "u64 \<Rightarrow> u64 \<Rightarrow> u64" where
  "bloom_hash key i = key + i"

definition bloom_index :: "u64 \<Rightarrow> nat \<Rightarrow> nat" where
  "bloom_index key i = unat (bloom_hash key (word_of_nat i) mod bitset_size)"

fun bloom_set :: "u64 \<Rightarrow> nat list \<Rightarrow> nat set \<Rightarrow> nat set" where
  "bloom_set key [] bs = bs"
| "bloom_set key (i # is) bs = bloom_set key is (Set.insert (bloom_index key i) bs)"

definition bloom_insert :: "u64 \<Rightarrow> bloom_filter \<Rightarrow> bloom_filter" where
  "bloom_insert key f = f\<lparr>bitset := bloom_set key [0..<unat (numHashes f)] (bitset f)\<rparr>"

fun bloom_test :: "u64 \<Rightarrow> nat list \<Rightarrow> nat set \<Rightarrow> bool" where
  "bloom_test key [] bs = True"
| "bloom_test key (i # is) bs = (if bloom_index key i \<notin> bs then False else bloom_test key is bs)"

definition possiblyContains :: "bloom_filter \<Rightarrow> u64 \<Rightarrow> bool" where
  "possiblyContains f key = bloom_test key [0..<unat (numHashes f)] (bitset f)"

definition bloom_reset :: "bloom_filter \<Rightarrow> bloom_filter" where
  "bloom_reset f = f\<lparr>bitset := {}\<rparr>"

text \<open>What the store relies on: a filter never denies a key that was inserted since the last
  reset, and inserting never makes it deny a key it accepted.\<close>

locale membership_filter =
  fixes insert_key :: "u64 \<Rightarrow> 'f \<Rightarrow> 'f"
    and test :: "'f \<Rightarrow> u64 \<Rightarrow> bool"
  assumes test_insert: "test (insert_key k f) k"
    and test_keep: "test f k \<Longrightarrow> test (insert_key k' f) k"
begin

lemma test_fold: "test f k \<Longrightarrow> test (fold insert_key ks f) k"
  by (induction ks arbitrary: f) (auto intro: test_keep)

lemma test_fold_member: "k \<in> set ks \<Longrightarrow> test (fold insert_key ks f) k"
proof (induction ks arbitrary: f)
  case Nil
  then show ?case by simp
next
  case (Cons a ks)
  then show ?case by (cases "k = a") (auto intro: test_fold test_insert)
qed

end

lemma bloom_set_eq: "bloom_set key is bs = bloom_index key ` set is \<union> bs"
  by (induction "is" arbitrary: bs) auto

lemma bloom_test_iff: "bloom_test key is bs \<longleftrightarrow> bloom_index key ` set is \<subseteq> bs"
  by (induction "is") auto

lemma possiblyContains_iff:
  "possiblyContains f key \<longleftrightarrow> bloom_index key ` {0..<unat (numHashes f)} \<subseteq> bitset f"
  by (simp add: possiblyContains_def bloom_test_iff)

lemma bitset_bloom_insert:
  "bitset (bloom_insert key f) = bloom_index key ` {0..<unat (numHashes f)} \<union> bitset f"
  by (simp add: bloom_insert_def bloom_set_eq)

lemma numHashes_bloom_insert [simp]: "numHashes (bloom_insert key f) = numHashes f"
  by (simp add: bloom_insert_def)

interpretation bloom: membership_filter bloom_insert possiblyContains
  by unfold_locales (auto simp: possiblyContains_iff bitset_bloom_insert)

lemma numHashes_fold [simp]: "numHashes (fold bloom_insert ks f) = numHashes f"
  by (induction ks arbitrary: f) auto

lemma bitset_fold:
  "bitset (fold bloom_insert ks f) =
     (\<Union>k \<in> set ks. bloom_index k ` {0..<unat (numHashes f)}) \<union> bitset f"
  by (induction ks arbitrary: f) (auto simp: bitset_bloom_insert)

lemma bloom_index_bound: "bloom_index key i < 1000000"
proof -
  have "bloom_hash key (word_of_nat i) mod bitset_size < bitset_size"
    by (rule word_mod_less_divisor) (simp add: bitset_size_def)
  then show ?thesis by (simp add: bloom_index_def bitset_size_def word_less_nat_alt)
qed

section \<open>Byte order\<close>

text \<open>\<open>htonl\<close> on the little-endian machine reverses the four bytes; \<open>ntohl\<close> is the same map.\<close>

definition htonl :: "u32 \<Rightarrow> u32" where
  "htonl w = word_of_nat (le_val (rev (le_bytes 4 (unat w))))"

definition htonll :: "u64 \<Rightarrow> u64" where
  "htonll v =
     (if htonl 1 \<noteq> 1 then
        (let high_part = htonl (ucast (drop_bit 32 v));
             low_part = htonl (ucast (v AND 0xFFFFFFFF))
         in push_bit 32 (ucast low_part) OR ucast high_part)
      else v)"

definition ntohll :: "u64 \<Rightarrow> u64" where
  "ntohll v =
     (if htonl 1 \<noteq> 1 then
        (let high_part = htonl (ucast (drop_bit 32 v));
             low_part = htonl (ucast (v AND 0xFFFFFFFF))
         in push_bit 32 (ucast low_part) OR ucast high_part)
      else v)"

text \<open>\<open>memcpy\<close> of 8 bytes from a shorter string reads past its end.\<close>

definition stringToULL :: "bytes \<Rightarrow> fault + u64" where
  "stringToULL str =
     (if length str < 8 then Inl OutOfBounds else Inr (ntohll (bytes_u64 (take 8 str))))"

definition ullToString :: "u64 \<Rightarrow> bytes" where
  "ullToString ull = u64_bytes (htonll ull)"

section \<open>Command-line flags\<close>

text \<open>\<open>find\<close> of a character, \<open>None\<close> for \<open>npos\<close>.\<close>

fun find_char :: "char \<Rightarrow> string \<Rightarrow> nat option" where
  "find_char c [] = None"
| "find_char c (x # xs) = (if x = c then Some 0 else map_option Suc (find_char c xs))"

text \<open>\<open>arg.find("--") == 0\<close>.\<close>

fun dash_at_0 :: "string \<Rightarrow> bool" where
  "dash_at_0 (a # b # s) = (a = CHR ''-'' \<and> b = CHR ''-'')"
| "dash_at_0 s = False"

definition parse_flag :: "string \<Rightarrow> (string \<times> string) option" where
  "parse_flag arg =
     (if \<not> dash_at_0 arg then None
      else case find_char CHR ''='' arg of
        None \<Rightarrow> Some (drop 2 arg, [])
      | Some equals \<Rightarrow> Some (take (equals - 2) (drop 2 arg), drop (equals + 1) arg))"

text \<open>The arguments from \<open>argv[1]\<close> on; a bad flag is reported and skipped.\<close>

fun parse_flags_from :: "string list \<Rightarrow> (string \<rightharpoonup> string) \<Rightarrow> (string \<rightharpoonup> string)" where
  "parse_flags_from [] flags = flags"
| "parse_flags_from (arg # args) flags =
     (case parse_flag arg of
        None \<Rightarrow> parse_flags_from args flags
      | Some (key, val) \<Rightarrow> parse_flags_from args (flags(key \<mapsto> val)))"

definition parse_flags :: "string list \<Rightarrow> (string \<rightharpoonup> string)" where
  "parse_flags args = parse_flags_from args Map.empty"

definition get_with_default :: "(string \<rightharpoonup> string) \<Rightarrow> string \<Rightarrow> string \<Rightarrow> string" where
  "get_with_default m key defval = (case m key of None \<Rightarrow> defval | Some v \<Rightarrow> v)"

text \<open>A missing required flag is reported, and then the end iterator is dereferenced.\<close>

definition get_required :: "(string \<rightharpoonup> string) \<Rightarrow> string \<Rightarrow> fault + string" where
  "get_required m key = (case m key of None \<Rightarrow> Inl BadIterator | Some v \<Rightarrow> Inr v)"

definition get_boolean_flag :: "(string \<rightharpoonup> string) \<Rightarrow> string \<Rightarrow> bool" where
  "get_boolean_flag m key = (m key \<noteq> None)"

text \<open>\<open>std::getline\<close> with a delimiter: a piece up to the next comma, none at the end of the input.\<close>

function getline_all :: "string \<Rightarrow> string list" where
  "getline_all s =
     (if s = [] then []
      else case find_char CHR '','' s of
        None \<Rightarrow> [s]
      | Some i \<Rightarrow> take i s # getline_all (drop (Suc i) s))"
  by pat_completeness auto
termination
  by (relation "measure length") auto

definition get_comma_separated :: "(string \<rightharpoonup> string) \<Rightarrow> string \<Rightarrow> string list" where
  "get_comma_separated m key = (case m key of None \<Rightarrow> [] | Some v \<Rightarrow> getline_all v)"

section \<open>Facts on the byte order\<close>

lemma le_bytes_append:
  "v < 256 ^ m \<Longrightarrow> le_bytes (m + n) (v + 256 ^ m * w) = le_bytes m v @ le_bytes n w"
proof (induction m arbitrary: v)
  case 0
  then show ?case by simp
next
  case (Suc m)
  have "(v + 256 * 256 ^ m * w) mod 256 = v mod 256"
    "(v + 256 * 256 ^ m * w) div 256 = v div 256 + 256 ^ m * w"
    by (simp_all add: mult.assoc)
  moreover have "v div 256 < 256 ^ m" using Suc.prems by (simp add: less_mult_imp_div_less mult.commute)
  ultimately show ?case using Suc.IH by simp
qed

lemma le_bytes_htonl: "le_bytes 4 (unat (htonl w)) = rev (le_bytes 4 (unat w))"
proof -
  have "le_val (rev (le_bytes 4 (unat w))) < 2 ^ 32"
    using le_val_bound [of "rev (le_bytes 4 (unat w))"] by simp
  then have "unat (htonl w) = le_val (rev (le_bytes 4 (unat w)))"
    by (simp add: htonl_def unat_of_nat)
  then show ?thesis using le_bytes_le_val [of "rev (le_bytes 4 (unat w))"] by simp
qed

lemma htonl_1: "htonl 1 \<noteq> 1"
  by (simp add: htonl_def byte_simps)

lemma unat_join:
  "unat (push_bit 32 (ucast (l :: u32)) OR ucast (h :: u32) :: u64) = unat h + 2 ^ 32 * unat l"
proof -
  have b: "bit (push_bit 32 (ucast l) :: u64) n \<Longrightarrow> \<not> bit (ucast h :: u64) n" for n
    by (auto simp: bit_push_bit_iff bit_ucast_iff dest: bit_imp_le_length)
  have l: "unat l < 2 ^ 32" and h: "unat h < 2 ^ 32"
    using unsigned_less [of l] unsigned_less [of h] by simp_all
  have "push_bit 32 (ucast l) OR ucast h = (push_bit 32 (ucast l) + ucast h :: u64)"
    using b by (intro disjunctive_add [symmetric]) blast
  moreover have c: "unat (ucast w :: u64) = unat w" for w :: u32
    using unat_u32_less [of w] by (simp add: unsigned_ucast_eq take_bit_nat_eq_self_iff)
  moreover have "unat (push_bit 32 (ucast l) :: u64) = 2 ^ 32 * unat l"
    using l by (simp add: push_bit_eq_mult unat_word_ariths c)
  ultimately show ?thesis using l h by (simp add: unat_word_ariths)
qed

lemma u64_bytes_htonll: "u64_bytes (htonll v) = rev (u64_bytes v)"
proof -
  define lo :: u32 where "lo = ucast (v AND 0xFFFFFFFF)"
  define hi :: u32 where "hi = ucast (drop_bit 32 v)"
  have v: "unat v = unat lo + 2 ^ 32 * unat hi"
  proof -
    have "v AND 0xFFFFFFFF = take_bit 32 v"
      by (simp add: take_bit_eq_mask mask_eq_exp_minus_1)
    then have "unat (v AND 0xFFFFFFFF) = take_bit 32 (unat v)"
      by (simp only: unsigned_take_bit_eq)
    then have "unat (v AND 0xFFFFFFFF) = unat v mod 2 ^ 32"
      by (simp only: take_bit_eq_mod)
    then have "unat lo = unat v mod 2 ^ 32"
      unfolding lo_def unsigned_ucast_eq by (simp add: take_bit_eq_mod)
    moreover have "unat hi = unat v div 2 ^ 32"
    proof -
      have "unat (drop_bit 32 v) = drop_bit 32 (unat v)" by (simp only: unat_drop_bit_eq)
      then have "unat (drop_bit 32 v) = unat v div 2 ^ 32" by (simp only: drop_bit_eq_div)
      moreover have "unat v div 2 ^ 32 < 2 ^ 32" using unat_u64_less [of v]
        by (intro less_mult_imp_div_less) simp
      ultimately show ?thesis unfolding hi_def unsigned_ucast_eq by (simp add: take_bit_eq_mod)
    qed
    ultimately show ?thesis by simp
  qed
  have lt: "unat w < 256 ^ 4" for w :: u32 using unsigned_less [of w] by simp
  have "htonll v = push_bit 32 (ucast (htonl lo)) OR ucast (htonl hi)"
    by (simp add: htonll_def htonl_1 Let_def lo_def hi_def)
  then have "u64_bytes (htonll v) = le_bytes (4 + 4) (unat (htonl hi) + 256 ^ 4 * unat (htonl lo))"
    by (simp add: u64_bytes_def unat_join)
  also have "\<dots> = rev (le_bytes 4 (unat hi)) @ rev (le_bytes 4 (unat lo))"
    using lt by (simp only: le_bytes_append le_bytes_htonl)
  also have "\<dots> = rev (le_bytes (4 + 4) (unat lo + 256 ^ 4 * unat hi))"
    using lt by (simp only: le_bytes_append rev_append)
  finally show ?thesis by (simp add: u64_bytes_def v)
qed

lemma ntohll_htonll [simp]: "ntohll (htonll v) = v"
proof -
  have "ntohll w = htonll w" for w by (simp add: ntohll_def htonll_def)
  then have "u64_bytes (ntohll (htonll v)) = u64_bytes v" by (simp add: u64_bytes_htonll)
  then show ?thesis by simp
qed

lemma ullToString_eq: "ullToString v = rev (u64_bytes v)"
  by (simp add: ullToString_def u64_bytes_htonll)

lemma length_ullToString [simp]: "length (ullToString v) = 8"
  by (simp add: ullToString_eq)

lemma ullToString_inject [simp]: "ullToString v = ullToString w \<longleftrightarrow> v = w"
  by (simp add: ullToString_eq)

lemma stringToULL_ullToString [simp]: "stringToULL (ullToString v) = Inr v"
  by (simp add: stringToULL_def ullToString_def)

lemma bytes_less_ullToString: "bytes_less (ullToString v) (ullToString w) \<longleftrightarrow> v < w"
proof -
  have "le_val (u64_bytes x) = unat x" for x
    using unat_u64_less [of x] by (simp add: u64_bytes_def le_val_le_bytes)
  then show ?thesis by (simp add: ullToString_eq bytes_less_le_val word_less_nat_alt)
qed

end
