(* ===== verification/RocksApi.thy ===== *)
theory RocksApi
  imports Prelude
begin

text \<open>
  The LSM store below LearnedKV is a third-party library (RocksDB, or LevelDB in one variant): its
  calls are parameters of the model, collected in a record. Each call gives the status of the real
  one (\<open>True\<close> for \<open>ok()\<close>) and the store after it; the type of stores is arbitrary.
\<close>

record 'db rocks_api =
  db_open :: "'db \<Rightarrow> bool \<times> 'db"           \<comment> \<open>\<open>DB::Open(options, "./db/db", &db)\<close>\<close>
  db_destroy :: "'db \<Rightarrow> bool \<times> 'db"        \<comment> \<open>\<open>delete db; DestroyDB("./db/db", options)\<close>\<close>
  db_put :: "'db \<Rightarrow> bytes \<Rightarrow> bytes \<Rightarrow> bool \<times> 'db"
  db_write :: "'db \<Rightarrow> (bytes \<times> bytes) list \<Rightarrow> bool \<times> 'db"   \<comment> \<open>\<open>Write\<close> of a batch of puts\<close>
  db_flush :: "'db \<Rightarrow> bool \<times> 'db"
  db_get :: "'db \<Rightarrow> bytes \<Rightarrow> bytes option"   \<comment> \<open>\<open>Some\<close> when the status is ok\<close>
  db_seek :: "'db \<Rightarrow> bytes \<Rightarrow> (bytes \<times> bytes) list \<times> bool"
    \<comment> \<open>the entries an iterator visits from \<open>Seek\<close> on, and its status at the end\<close>

text \<open>
  What LearnedKV relies on, as documented for the library: without I/O errors every call
  succeeds; the store is a map from byte strings to byte strings; an iterator visits the entries
  from the target on in the order of the default comparator, which compares bytes.
\<close>

definition map_batch :: "(bytes \<times> bytes) list \<Rightarrow> (bytes \<rightharpoonup> bytes) \<Rightarrow> (bytes \<rightharpoonup> bytes)" where
  "map_batch kvs m = fold (\<lambda>(k, v) m. m(k \<mapsto> v)) kvs m"

definition rocks_ok :: "('db, 'more) rocks_api_scheme \<Rightarrow> ('db \<Rightarrow> bytes \<rightharpoonup> bytes) \<Rightarrow> bool" where
  "rocks_ok R view \<longleftrightarrow>
     (\<forall>s. fst (db_open R s) \<and> view (snd (db_open R s)) = view s) \<and>
     (\<forall>s. fst (db_destroy R s) \<and> view (snd (db_destroy R s)) = Map.empty) \<and>
     (\<forall>s k v. fst (db_put R s k v) \<and> view (snd (db_put R s k v)) = (view s)(k \<mapsto> v)) \<and>
     (\<forall>s kvs. fst (db_write R s kvs) \<and> view (snd (db_write R s kvs)) = map_batch kvs (view s)) \<and>
     (\<forall>s. fst (db_flush R s) \<and> view (snd (db_flush R s)) = view s) \<and>
     (\<forall>s k. db_get R s k = view s k) \<and>
     (\<forall>s k. snd (db_seek R s k) \<and> sorted_wrt bytes_less (map fst (fst (db_seek R s k))) \<and>
        set (fst (db_seek R s k)) = {(k', v). view s k' = Some v \<and> \<not> bytes_less k' k})"

lemma rocks_okD:
  assumes "rocks_ok R view"
  shows "fst (db_open R s)" "view (snd (db_open R s)) = view s"
    "fst (db_destroy R s)" "view (snd (db_destroy R s)) = Map.empty"
    "fst (db_put R s k v)" "view (snd (db_put R s k v)) = (view s)(k \<mapsto> v)"
    "fst (db_write R s kvs)" "view (snd (db_write R s kvs)) = map_batch kvs (view s)"
    "fst (db_flush R s)" "view (snd (db_flush R s)) = view s"
    "db_get R s k = view s k"
    "snd (db_seek R s k)" "sorted_wrt bytes_less (map fst (fst (db_seek R s k)))"
    "set (fst (db_seek R s k)) = {(k', v). view s k' = Some v \<and> \<not> bytes_less k' k}"
  using assms unfolding rocks_ok_def by blast+

section \<open>A reference store\<close>

text \<open>Association lists in key order have the documented behaviour: the hypothesis can hold, and
  the concrete instances of the properties run on this store.\<close>

fun ins :: "bytes \<Rightarrow> bytes \<Rightarrow> (bytes \<times> bytes) list \<Rightarrow> (bytes \<times> bytes) list" where
  "ins k v [] = [(k, v)]"
| "ins k v ((k', v') # kvs) =
     (if bytes_less k k' then (k, v) # (k', v') # kvs
      else if k = k' then (k, v) # kvs else (k', v') # ins k v kvs)"

lemma set_map_fst_ins: "fst ` set (ins k v kvs) = insert k (fst ` set kvs)"
  by (induction k v kvs rule: ins.induct) auto

lemma sorted_ins:
  "sorted_wrt bytes_less (map fst kvs) \<Longrightarrow> sorted_wrt bytes_less (map fst (ins k v kvs))"
proof (induction k v kvs rule: ins.induct)
  case (2 k v k' v' kvs)
  have "bytes_less k' k" if "\<not> bytes_less k k'" "k \<noteq> k'"
    using that bytes_less_total by blast
  with 2 set_map_fst_ins [of k v kvs] show ?case by (auto dest: bytes_less_trans)
qed simp

lemma map_of_ins: "map_of (ins k v kvs) = (map_of kvs)(k \<mapsto> v)"
proof (induction k v kvs rule: ins.induct)
  case (2 k v k' v' kvs)
  then show ?case by (auto simp: fun_eq_iff)
qed simp

typedef ordered_store = "{kvs :: (bytes \<times> bytes) list. sorted_wrt bytes_less (map fst kvs)}"
  morphisms entries OrderedStore
  by (rule exI [of _ "[]"]) simp

definition store_empty :: ordered_store where
  "store_empty = OrderedStore []"

definition store_ins :: "bytes \<Rightarrow> bytes \<Rightarrow> ordered_store \<Rightarrow> ordered_store" where
  "store_ins k v s = OrderedStore (ins k v (entries s))"

definition store_view :: "ordered_store \<Rightarrow> bytes \<rightharpoonup> bytes" where
  "store_view s = map_of (entries s)"

definition store_from :: "ordered_store \<Rightarrow> bytes \<Rightarrow> (bytes \<times> bytes) list" where
  "store_from s k = filter (\<lambda>(k', v). \<not> bytes_less k' k) (entries s)"

definition ordered_rocks :: "ordered_store rocks_api" where
  "ordered_rocks = \<lparr>
     db_open = (\<lambda>s. (True, s)), db_destroy = (\<lambda>s. (True, store_empty)),
     db_put = (\<lambda>s k v. (True, store_ins k v s)),
     db_write = (\<lambda>s kvs. (True, fold (\<lambda>(k, v). store_ins k v) kvs s)),
     db_flush = (\<lambda>s. (True, s)),
     db_get = store_view,
     db_seek = (\<lambda>s k. (store_from s k, True))\<rparr>"

lemma sorted_entries: "sorted_wrt bytes_less (map fst (entries s))"
  using entries [of s] by simp

lemma entries_empty [simp]: "entries store_empty = []"
  by (simp add: store_empty_def OrderedStore_inverse)

lemma entries_ins [simp]: "entries (store_ins k v s) = ins k v (entries s)"
  by (simp add: store_ins_def OrderedStore_inverse sorted_ins sorted_entries)

lemma store_view_empty [simp]: "store_view store_empty = Map.empty"
  by (simp add: store_view_def)

lemma store_view_ins [simp]: "store_view (store_ins k v s) = (store_view s)(k \<mapsto> v)"
  by (simp add: store_view_def map_of_ins)

lemma store_view_fold:
  "store_view (fold (\<lambda>(k, v). store_ins k v) kvs s) = map_batch kvs (store_view s)"
  unfolding map_batch_def by (induction kvs arbitrary: s) auto

lemma sorted_distinct: "sorted_wrt bytes_less ks \<Longrightarrow> distinct ks"
  by (induction ks) auto

lemma store_from_sorted: "sorted_wrt bytes_less (map fst (store_from s k))"
  using sorted_entries [of s] by (simp add: store_from_def sorted_wrt_map sorted_wrt_filter)

lemma store_from_set:
  "set (store_from s k) = {(k', v). store_view s k' = Some v \<and> \<not> bytes_less k' k}"
  using sorted_distinct [OF sorted_entries, of s] by (auto simp: store_from_def store_view_def)

lemma ordered_rocks_ok: "rocks_ok ordered_rocks store_view"
  unfolding rocks_ok_def ordered_rocks_def
  by (simp add: store_view_fold store_from_sorted store_from_set)

text \<open>Equality and the number of entries of a store, by its entries.\<close>

instantiation ordered_store :: "{equal, size}"
begin

definition equal_ordered_store :: "ordered_store \<Rightarrow> ordered_store \<Rightarrow> bool" where
  "equal_ordered_store s t \<longleftrightarrow> entries s = entries t"

definition size_ordered_store :: "ordered_store \<Rightarrow> nat" where
  "size_ordered_store s = length (entries s)"

instance
  by standard (simp add: equal_ordered_store_def entries_inject)

end

lemma size_store_empty [simp]: "size store_empty = 0"
  by (simp add: size_ordered_store_def)

text \<open>A store has one entry for each of its keys.\<close>

lemma size_store: "size s = card (dom (store_view s))"
proof -
  have "card (dom (store_view s)) = card (set (map fst (entries s)))"
    by (simp add: store_view_def dom_map_of_conv_image_fst)
  also have "\<dots> = length (map fst (entries s))" using sorted_distinct [OF sorted_entries] by (rule distinct_card)
  finally show ?thesis by (simp add: size_ordered_store_def)
qed

end
