(* ===== verification/LearnedKV.thy ===== *)
theory LearnedKV
  imports PLR Utils RocksApi "HOL-Library.AList"
begin

text \<open>
  The store of \<open>learned-LSM/learnedKV.h\<close>: the class \<open>LearnedKV\<close> with its value log, the LSM
  store of pointers, the Bloom filter and, after a garbage collection, the learned index. Every
  member function is a function of the state; a run that the C++ would abort or that would leave
  defined behaviour is a \<open>fault\<close>.
\<close>

section \<open>State\<close>

definition KEY_SIZE :: nat where "KEY_SIZE = 8"
definition VALUE_SIZE :: nat where "VALUE_SIZE = 1016"
definition ERR_BOUND :: int where "ERR_BOUND = 1000"
definition VLOG_PATH :: string where "VLOG_PATH = ''db/vlog''"

text \<open>The global variables the class reads, the directory permissions, and what fresh memory
  from \<open>new unsigned long long[n]\<close> holds: the element \<open>i\<close> of the \<open>k\<close>-th such array of a call.\<close>

record config =
  learned_index_used :: bool
  group_size :: u64
  writable :: "string \<Rightarrow> bool"
  fresh :: "nat \<Rightarrow> nat \<Rightarrow> u64"

record 'db kv =
  db :: 'db
  write_pos :: u64
  bloom :: bloom_filter
  disk :: disk
  gc_count :: int
  gc_write_size :: int
  scan_kvs_count :: int
  learned_index_count :: int
  rocksdb_count :: int
  load_kv_count :: int

definition initialize_rocksdb :: "('db, 'm) rocks_api_scheme \<Rightarrow> 'db kv \<Rightarrow> int \<times> 'db kv" where
  "initialize_rocksdb R s =
     (let (ok, d) = db_open R (db s); s = s\<lparr>db := d\<rparr>
      in if \<not> ok then (- 1, s) else (0, s\<lparr>bloom := bloom_reset (bloom s)\<rparr>))"

definition destroy_rocksdb :: "('db, 'm) rocks_api_scheme \<Rightarrow> 'db kv \<Rightarrow> int \<times> 'db kv" where
  "destroy_rocksdb R s =
     (let (ok, d) = db_destroy R (db s) in (if ok then 0 else - 1, s\<lparr>db := d\<rparr>))"

text \<open>The constructor, on a disk and an LSM directory as they are.\<close>

definition new_LearnedKV :: "('db, 'm) rocks_api_scheme \<Rightarrow> 'db \<Rightarrow> disk \<Rightarrow> 'db kv" where
  "new_LearnedKV R d0 disk0 =
     (let s = \<lparr>db = d0, write_pos = 0, bloom = BloomFilter 100000000 7, disk = disk0,
               gc_count = 0, gc_write_size = 0, scan_kvs_count = 0, learned_index_count = 0,
               rocksdb_count = 0, load_kv_count = 0\<rparr>
      in (snd (initialize_rocksdb R s))\<lparr>write_pos := 0\<rparr>)"

section \<open>Writing a record to the value log\<close>

text \<open>\<open>fwrite(&key, keySize, 1, vlog)\<close> and \<open>fwrite(value.data(), valueSize, 1, vlog)\<close>: reading
  more than the 8 bytes of the key, or more than the value and its terminating zero, is out of
  bounds.\<close>

definition record_data :: "u64 \<Rightarrow> u64 \<Rightarrow> bytes \<Rightarrow> u64 \<Rightarrow> fault + bytes" where
  "record_data key keySize value valueSize =
     (if 8 < keySize \<or> length value + 1 < unat valueSize then Inl OutOfBounds
      else Inr (take (unat keySize) (u64_bytes key) @ take (unat valueSize) (value @ [0])))"

section \<open>Garbage collection\<close>

text \<open>\<open>while (fread(key, 1, KEY_SIZE, vlog) > 0)\<close>: the records in file order into the map, the
  last record of a key wins; a record cut short fails the assertion.\<close>

function gc_collect :: "bytes \<Rightarrow> (u64 \<times> bytes) list \<Rightarrow> fault + (u64 \<times> bytes) list" where
  "gc_collect c valid_map =
     (if c = [] then Inr valid_map
      else let value = fread_at c KEY_SIZE VALUE_SIZE in
        if length value \<noteq> VALUE_SIZE then Inl AssertFail
        else gc_collect (drop (KEY_SIZE + VALUE_SIZE) c)
               (AList.update (bytes_u64 (take KEY_SIZE c)) value valid_map))"
  by pat_completeness auto
termination
  by (relation "measure (\<lambda>(c, _). length c)") (auto simp: KEY_SIZE_def)

declare gc_collect.simps [simp del]

text \<open>One round of the loop that rewrites the valid pairs: the record goes to the value log, and
  its position either to the points of the regression or to the batch for the LSM store.\<close>

record gc_state =
  gc_pos :: u64
  gc_vlog :: bytes
  gc_x :: "u64 list"
  gc_y :: "double list"
  gc_batch :: "(bytes \<times> bytes) list"
  gc_bloom :: bloom_filter

definition gc_write_one ::
  "bool \<Rightarrow> u64 \<Rightarrow> u64 \<Rightarrow> u64 \<times> bytes \<Rightarrow> gc_state \<Rightarrow> fault + gc_state" where
  "gc_write_one learned keySize valueSize kv g =
     (case record_data (fst kv) keySize (snd kv) valueSize of
        Inl e \<Rightarrow> Inl e
      | Inr data \<Rightarrow>
          (let g = g\<lparr>gc_vlog := gc_vlog g @ data\<rparr>;
               g = (if learned then g\<lparr>gc_x := gc_x g @ [fst kv],
                                     gc_y := gc_y g @ [double_of_u64 (gc_pos g)]\<rparr> else g);
               g = (if \<not> learned then
                      g\<lparr>gc_batch := gc_batch g @ [(ullToString (fst kv), ullToString (gc_pos g))],
                        gc_bloom := bloom_insert (fst kv) (gc_bloom g)\<rparr> else g)
           in Inr (g\<lparr>gc_pos := gc_pos g + 1\<rparr>)))"

fun gc_write :: "bool \<Rightarrow> u64 \<Rightarrow> u64 \<Rightarrow> (u64 \<times> bytes) list \<Rightarrow> gc_state \<Rightarrow> fault + gc_state" where
  "gc_write learned keySize valueSize [] g = Inr g"
| "gc_write learned keySize valueSize (kv # kvs) g =
     (case gc_write_one learned keySize valueSize kv g of
        Inl e \<Rightarrow> Inl e
      | Inr g \<Rightarrow> gc_write learned keySize valueSize kvs g)"

definition garbage_collection ::
  "('db, 'm) rocks_api_scheme \<Rightarrow> config \<Rightarrow> u64 \<Rightarrow> u64 \<Rightarrow> 'db kv \<Rightarrow> fault + (int \<times> 'db kv)" where
  "garbage_collection R cfg keySize valueSize s =
     (case fopen_read (disk s) VLOG_PATH of
        None \<Rightarrow> Inl NullFile
      | Some c \<Rightarrow>
     (case gc_collect c [] of
        Inl e \<Rightarrow> Inl e
      | Inr valid_map \<Rightarrow>
     (let s = snd (destroy_rocksdb R s);
          s = s\<lparr>disk := fremove (disk s) VLOG_PATH\<rparr>;
          s = snd (initialize_rocksdb R s)
      in case fopen_append (writable cfg) (disk s) VLOG_PATH of
        None \<Rightarrow> Inl NullFile
      | Some d \<Rightarrow>
     (let s = s\<lparr>disk := d, write_pos := 0\<rparr>;
          valid_vec = sort_key fst valid_map
      in if valid_vec = [] then Inl BadIterator else
      case gc_write (learned_index_used cfg) keySize valueSize (butlast valid_vec)
             \<lparr>gc_pos = 0, gc_vlog = [], gc_x = [], gc_y = [], gc_batch = [], gc_bloom = bloom s\<rparr> of
        Inl e \<Rightarrow> Inl e
      | Inr g \<Rightarrow>
     (let s = s\<lparr>write_pos := gc_pos g, bloom := gc_bloom g,
               disk := fwrite_end (disk s) VLOG_PATH (gc_vlog g)\<rparr>;
          (ok, d) = (if learned_index_used cfg then (True, db s) else db_write R (db s) (gc_batch g));
          s = s\<lparr>db := d\<rparr>
      in if \<not> ok then Inr (- 1, s) else
      let s = (if learned_index_used cfg then s else s\<lparr>db := snd (db_flush R (db s))\<rparr>);
          s = (if learned_index_used cfg then
                 s\<lparr>disk := snd (build_piecewise_linear_regression (writable cfg) (gc_x g) (gc_y g)
                                 (double_of_u64 (word_of_int ERR_BOUND)) (disk s))\<rparr>
               else s)
      in Inr (0, s\<lparr>gc_write_size := gc_write_size s
                     + int ((KEY_SIZE + VALUE_SIZE) * length valid_vec)\<rparr>))))))"

section \<open>Put\<close>

definition put ::
  "('db, 'm) rocks_api_scheme \<Rightarrow> config \<Rightarrow> u64 \<Rightarrow> u64 \<Rightarrow> bytes \<Rightarrow> u64 \<Rightarrow> 'db kv
     \<Rightarrow> fault + (int \<times> 'db kv)" where
  "put R cfg key keySize value valueSize s =
     (case (if group_size cfg < (write_pos s + 1) * (keySize + valueSize)
            then (case garbage_collection R cfg keySize valueSize s of
                    Inl e \<Rightarrow> Inl e
                  | Inr (_, s) \<Rightarrow> Inr (s\<lparr>gc_count := gc_count s + 1\<rparr>))
            else Inr s) of
        Inl e \<Rightarrow> Inl e
      | Inr s \<Rightarrow>
      if \<not> (write_pos s + 1) * (keySize + valueSize) \<le> group_size cfg then Inl AssertFail else
      (case fopen_append (writable cfg) (disk s) VLOG_PATH of
        None \<Rightarrow> Inl NullFile
      | Some d \<Rightarrow>
      (case record_data key keySize value valueSize of
        Inl e \<Rightarrow> Inl e
      | Inr data \<Rightarrow>
      (let s = s\<lparr>disk := fwrite_end d VLOG_PATH data\<rparr>
       in if \<not> write_pos s < 100000000 then Inl AssertFail else
       let ptr = ullToString (write_pos s);
           (ok, d) = db_put R (db s) (ullToString key) ptr;
           s = s\<lparr>db := d\<rparr>
       in if \<not> ok then Inr (- 1, s)
          else Inr (0, s\<lparr>write_pos := write_pos s + 1, bloom := bloom_insert key (bloom s)\<rparr>)))))"

section \<open>Get\<close>

text \<open>The search of the learned index: the window of the key array around the predicted
  position, read into fresh memory; the index of the key in it, or the length of the window.\<close>

fun find_index :: "(u64 \<Rightarrow> bool) \<Rightarrow> u64 list \<Rightarrow> nat" where
  "find_index P [] = 0"
| "find_index P (x # xs) = (if P x then 0 else Suc (find_index P xs))"

definition kv_size :: int where
  "kv_size = int (KEY_SIZE + VALUE_SIZE)"

definition window :: "(nat \<Rightarrow> u64) \<Rightarrow> bytes \<Rightarrow> int \<Rightarrow> int \<times> u64 list" where
  "window mem key_array pos =
     (let start_pos = max (pos - ERR_BOUND) 0 * kv_size;
          end_pos = (pos + ERR_BOUND) * kv_size;
          off = nat (int KEY_SIZE * (start_pos div kv_size));
          chunk_size = nat (int KEY_SIZE * (end_pos div kv_size - start_pos div kv_size));
          buf = concat (map (u64_bytes \<circ> mem) [0..<chunk_size div 8])
      in (start_pos, u64s_of (fill buf (fread_at key_array off chunk_size))))"

text \<open>Reading a value at a byte offset of the value log.\<close>

definition read_value :: "bytes \<Rightarrow> nat \<Rightarrow> bytes \<Rightarrow> u64 \<Rightarrow> bytes" where
  "read_value vlog pos value valueSize =
     (let buf = resize value (unat valueSize)
      in fill buf (fread_at vlog pos (unat valueSize)))"

definition get_learned ::
  "config \<Rightarrow> u64 \<Rightarrow> u64 \<Rightarrow> bytes \<Rightarrow> u64 \<Rightarrow> 'db kv \<Rightarrow> fault + (int \<times> bytes \<times> 'db kv)" where
  "get_learned cfg key keySize value valueSize s =
     (case fopen_read (disk s) KEY_ARRAY_PATH of
        None \<Rightarrow> Inl NullFile
      | Some ka \<Rightarrow>
      (let pos = query_model key (disk s);
           (start_pos, key_array) = window (fresh cfg 0) ka pos;
           start_pos = start_pos + int (find_index (\<lambda>k. k = key) key_array) * kv_size;
           s = s\<lparr>learned_index_count := learned_index_count s + 1\<rparr>
       in case fopen_update (writable cfg) (disk s) VLOG_PATH of
            None \<Rightarrow> Inl NullFile
          | Some c \<Rightarrow>
              if int KEY_SIZE + 1 < int (unat keySize) then Inl OutOfBounds else
              (let at_value = nat start_pos + length (fread_at c (nat start_pos) (unat keySize))
               in Inr (0, read_value c at_value value valueSize,
                       s\<lparr>load_kv_count := load_kv_count s + 1\<rparr>))))"

definition get ::
  "('db, 'm) rocks_api_scheme \<Rightarrow> config \<Rightarrow> u64 \<Rightarrow> u64 \<Rightarrow> bytes \<Rightarrow> u64 \<Rightarrow> 'db kv
     \<Rightarrow> fault + (int \<times> bytes \<times> 'db kv)" where
  "get R cfg key keySize value valueSize s =
     (let (result, s) =
        (if possiblyContains (bloom s) key
         then (db_get R (db s) (ullToString key), s\<lparr>rocksdb_count := rocksdb_count s + 1\<rparr>)
         else (None, s))
      in case result of
        None \<Rightarrow>
          if learned_index_used cfg then get_learned cfg key keySize value valueSize s
          else Inr (- 1, value, s)
      | Some ptr \<Rightarrow>
      (case stringToULL ptr of
        Inl e \<Rightarrow> Inl e
      | Inr pos \<Rightarrow>
      (case fopen_read (disk s) VLOG_PATH of
        None \<Rightarrow> Inl NullFile
      | Some c \<Rightarrow>
          (let at_value = fseek_set 0 (pos * (keySize + valueSize) + keySize)
           in Inr (0, read_value c at_value value valueSize,
                   s\<lparr>load_kv_count := load_kv_count s + 1\<rparr>)))))"

end
