(* ===== verification/Log_Facts.thy ===== *)
theory Log_Facts
  imports LearnedKV "HOL-Library.Multiset"
begin

text \<open>
  The abstract view of the store: the value log is a sequence of records, the current value of a
  key is its last record, and a garbage collection keeps the last record of every key in key order.
  Here are the facts on these sequences and their file images that the proofs about the
  operations share.
\<close>

type_synonym rec = "u64 \<times> bytes"

definition rec_bytes :: "rec \<Rightarrow> bytes" where
  "rec_bytes r = u64_bytes (fst r) @ snd r"

definition vlog_image :: "rec list \<Rightarrow> bytes" where
  "vlog_image recs = concat (map rec_bytes recs)"

definition well_sized :: "rec list \<Rightarrow> bool" where
  "well_sized recs \<longleftrightarrow> (\<forall>r \<in> set recs. length (snd r) = VALUE_SIZE)"

text \<open>The last value written for a key.\<close>

definition current :: "rec list \<Rightarrow> u64 \<rightharpoonup> bytes" where
  "current recs = map_of (rev recs)"

text \<open>The position of the last record of a key among the records from \<open>base\<close> on.\<close>

definition last_pos :: "nat \<Rightarrow> rec list \<Rightarrow> u64 \<Rightarrow> nat option" where
  "last_pos base recs k =
     find (\<lambda>p. base \<le> p \<and> fst (recs ! p) = k) (rev [0..<length recs])"

text \<open>The last records of all keys, in key order.\<close>

definition collected :: "rec list \<Rightarrow> rec list" where
  "collected recs = fold (\<lambda>r m. AList.update (fst r) (snd r) m) recs []"

definition live :: "rec list \<Rightarrow> rec list" where
  "live recs = sort_key fst (collected recs)"

section \<open>File images\<close>

lemma sizes [simp]: "KEY_SIZE = 8" "VALUE_SIZE = 1016" "ERR_BOUND = 1000" "kv_size = 1024"
  by (simp_all add: KEY_SIZE_def VALUE_SIZE_def ERR_BOUND_def kv_size_def)

lemma well_sized_simps [simp]:
  "well_sized []" "well_sized (r # rs) \<longleftrightarrow> length (snd r) = 1016 \<and> well_sized rs"
  "well_sized (xs @ ys) \<longleftrightarrow> well_sized xs \<and> well_sized ys"
  by (auto simp: well_sized_def)

lemma well_sized_butlast: "well_sized xs \<Longrightarrow> well_sized (butlast xs)"
  by (cases xs rule: rev_cases) auto

lemma well_sizedD: "well_sized recs \<Longrightarrow> r \<in> set recs \<Longrightarrow> length (snd r) = 1016"
  by (auto simp: well_sized_def)

lemma length_rec_bytes: "well_sized recs \<Longrightarrow> r \<in> set recs \<Longrightarrow> length (rec_bytes r) = 1024"
  by (auto simp: well_sized_def rec_bytes_def)

lemma vlog_image_simps [simp]:
  "vlog_image [] = []" "vlog_image (r # rs) = u64_bytes (fst r) @ snd r @ vlog_image rs"
  "vlog_image (xs @ ys) = vlog_image xs @ vlog_image ys"
  by (auto simp: vlog_image_def rec_bytes_def)

lemma length_vlog_image: "well_sized recs \<Longrightarrow> length (vlog_image recs) = 1024 * length recs"
  unfolding vlog_image_def by (rule length_concat_chunks) (rule length_rec_bytes)

lemma read_rec_value:
  assumes "well_sized recs" "p < length recs" "pos = 1024 * p + 8"
  shows "fread_at (vlog_image recs) pos 1016 = snd (recs ! p)"
proof -
  have "fread_at (vlog_image recs) (1024 * p + 8) 1016 = take 1016 (drop 8 (rec_bytes (recs ! p)))"
    unfolding vlog_image_def using assms
    by (intro fread_at_chunk) (auto intro: length_rec_bytes)
  then show ?thesis using well_sizedD [OF assms(1) nth_mem [OF assms(2)]] assms(3)
    by (simp add: rec_bytes_def)
qed

section \<open>Last records\<close>

lemma last_pos_Nil [simp]: "last_pos base [] k = None"
  by (simp add: last_pos_def)

lemma last_pos_snoc [simp]:
  "last_pos base (recs @ [r]) k =
     (if base \<le> length recs \<and> fst r = k then Some (length recs) else last_pos base recs k)"
proof -
  have "find (\<lambda>p. base \<le> p \<and> fst ((recs @ [r]) ! p) = k) (rev [0..<length recs]) =
      find (\<lambda>p. base \<le> p \<and> fst (recs ! p) = k) (rev [0..<length recs])"
    by (rule find_cong) (auto simp: nth_append)
  then show ?thesis by (simp add: last_pos_def)
qed

lemma last_pos_SomeD:
  "last_pos base recs k = Some p \<Longrightarrow> base \<le> p \<and> p < length recs \<and> fst (recs ! p) = k"
  by (auto simp: last_pos_def find_Some_iff rev_nth)

lemma last_pos_base_end: "length recs \<le> base \<Longrightarrow> last_pos base recs k = None"
  by (auto simp: last_pos_def find_None_iff)

lemma current_snoc [simp]: "current (recs @ [r]) = (current recs)(fst r \<mapsto> snd r)"
  by (cases r) (simp add: current_def)

lemma current_Nil [simp]: "current [] = Map.empty"
  by (simp add: current_def)

lemma current_last_pos: "current recs k = map_option (\<lambda>p. snd (recs ! p)) (last_pos 0 recs k)"
proof (induction recs rule: rev_induct)
  case Nil
  then show ?case by simp
next
  case (snoc r recs)
  then show ?case
    by (cases "last_pos 0 recs k") (auto simp: nth_append dest: last_pos_SomeD)
qed

lemma current_last_pos_base:
  "last_pos base recs k = Some p \<Longrightarrow> current recs k = Some (snd (recs ! p))"
proof (induction recs rule: rev_induct)
  case Nil
  then show ?case by simp
next
  case (snoc r recs)
  then show ?case by (auto simp: nth_append split: if_splits dest: last_pos_SomeD)
qed

section \<open>What a garbage collection keeps\<close>

lemma collected_snoc: "collected (recs @ [r]) = AList.update (fst r) (snd r) (collected recs)"
  by (simp add: collected_def)

lemma map_of_collected: "map_of (collected recs) = current recs"
  by (induction recs rule: rev_induct) (auto simp: collected_snoc update_conv collected_def [of "[]"])

lemma distinct_collected: "distinct (map fst (collected recs))"
  by (induction recs rule: rev_induct) (auto simp: collected_snoc distinct_update collected_def [of "[]"])

lemma set_live [simp]: "set (live recs) = set (collected recs)"
  by (simp add: live_def)

lemma length_live: "length (live recs) = length (collected recs)"
  by (simp add: live_def)

lemma distinct_live: "distinct (map fst (live recs))"
proof -
  have "mset (map fst (live recs)) = mset (map fst (collected recs))" by (simp add: live_def mset_map)
  then show ?thesis using distinct_collected [of recs] by (metis mset_eq_imp_distinct_iff)
qed

lemma map_of_live: "map_of (live recs) = current recs"
proof
  fix k
  have "map_of (live recs) k = map_of (collected recs) k"
  proof (cases "map_of (collected recs) k")
    case None
    then have "map_of (live recs) k = None" by (simp add: map_of_eq_None_iff)
    with None show ?thesis by simp
  next
    case (Some v)
    then have "(k, v) \<in> set (live recs)" by (simp add: map_of_SomeD)
    with Some show ?thesis by (simp add: distinct_live)
  qed
  then show "map_of (live recs) k = current recs k" by (simp add: map_of_collected)
qed

lemma sorted_live: "sorted_wrt (<) (map fst (live recs))"
  using distinct_live [of recs] by (simp add: strict_sorted_iff live_def)

lemma live_empty_iff [simp]: "live recs = [] \<longleftrightarrow> recs = []"
proof -
  have "collected recs = [] \<longleftrightarrow> recs = []"
    by (cases recs rule: rev_cases) (auto simp: collected_snoc collected_def [of "[]"] AList.update_nonempty)
  then show ?thesis using length_live [of recs] by auto
qed

lemma values_update: "snd ` set (AList.update k v al) \<subseteq> insert v (snd ` set al)"
  by (induction al) auto

lemma well_sized_collected: "well_sized recs \<Longrightarrow> well_sized (collected recs)"
proof (induction recs rule: rev_induct)
  case Nil
  then show ?case by (simp add: collected_def)
next
  case (snoc r recs)
  then have "\<forall>v \<in> insert (snd r) (snd ` set (collected recs)). length v = VALUE_SIZE"
    by (auto simp: well_sized_def)
  then have "\<forall>v \<in> snd ` set (collected (recs @ [r])). length v = VALUE_SIZE"
    unfolding collected_snoc using values_update [of "fst r" "snd r" "collected recs"]
    by (meson subsetD)
  then show ?case by (simp add: well_sized_def)
qed

lemma well_sized_live: "well_sized recs \<Longrightarrow> well_sized (live recs)"
  using well_sized_collected [of recs] by (simp add: well_sized_def)

lemma length_collected_le: "length (collected recs) \<le> length recs"
proof (induction recs rule: rev_induct)
  case Nil
  then show ?case by (simp add: collected_def)
next
  case (snoc r recs)
  have "length (AList.update k v al) \<le> Suc (length al)" for k :: u64 and v :: bytes and al
    by (induction al) auto
  from this [of "fst r" "snd r" "collected recs"] snoc show ?case by (simp add: collected_snoc)
qed

text \<open>Reading a value log back gives these records.\<close>

lemma gc_collect_image:
  "well_sized recs \<Longrightarrow> gc_collect (vlog_image recs) m =
     Inr (fold (\<lambda>r m. AList.update (fst r) (snd r) m) recs m)"
proof (induction recs arbitrary: m)
  case Nil
  then show ?case by (simp add: gc_collect.simps)
next
  case (Cons r recs)
  let ?c = "vlog_image (r # recs)"
  have ne: "?c \<noteq> []" using length_u64_bytes [of "fst r"] by (auto simp del: length_u64_bytes)
  have "fread_at ?c 8 1016 = snd r" using Cons.prems by (simp add: fread_at_def)
  moreover have "drop 1024 ?c = vlog_image recs" using Cons.prems by simp
  moreover have "take 8 ?c = u64_bytes (fst r)" by simp
  ultimately show ?case using Cons ne
    by (simp add: gc_collect.simps [of ?c] del: vlog_image_simps)
qed

end
