(* ===== verification/LearnedKV_Inv.thy ===== *)
theory LearnedKV_Inv
  imports Log_Facts
begin

text \<open>
  The invariant of \<open>LearnedKV\<close> between calls, and the proof that put and garbage
  collection keep it. The sizes are those of every caller: 8-byte keys and 1016-byte values.
\<close>

section \<open>The invariant\<close>

definition key_size :: u64 where "key_size = 8"
definition value_size :: u64 where "value_size = 1016"

definition positions :: "nat \<Rightarrow> double list" where
  "positions n = map (\<lambda>i. double_of_u64 (word_of_nat i)) [0..<n]"

definition err_bound :: double where
  "err_bound = double_of_u64 (word_of_int ERR_BOUND)"

text \<open>The two files of the learned index describe the first \<open>base\<close> records.\<close>

definition index_files :: "nat \<Rightarrow> rec list \<Rightarrow> disk \<Rightarrow> bool" where
  "index_files base recs d \<longleftrightarrow> (let ks = map fst (take base recs) in
     sorted_wrt (<) ks \<and>
     d KEY_ARRAY_PATH = Some (concat (map u64_bytes ks)) \<and>
     d MODEL_PATH = Some (concat (map segment_bytes (plr_model ks (positions base) err_bound))))"

definition vlog_file :: "rec list \<Rightarrow> disk \<Rightarrow> bool" where
  "vlog_file recs d \<longleftrightarrow> d VLOG_PATH = Some (vlog_image recs) \<or> recs = [] \<and> d VLOG_PATH = None"

definition kv_inv :: "config \<Rightarrow> ('db \<Rightarrow> bytes \<rightharpoonup> bytes) \<Rightarrow> 'db kv \<Rightarrow> nat \<Rightarrow> rec list \<Rightarrow> bool" where
  "kv_inv cfg view s base recs \<longleftrightarrow>
     well_sized recs \<and> vlog_file recs (disk s) \<and>
     unat (write_pos s) = length recs \<and> length recs \<le> 100000000 \<and>
     base \<le> length recs \<and> (base \<noteq> 0 \<longrightarrow> learned_index_used cfg \<and> index_files base recs (disk s)) \<and>
     (\<forall>b. view (db s) b \<noteq> None \<longrightarrow> length b = 8) \<and>
     (\<forall>k. view (db s) (ullToString k) =
        map_option (\<lambda>p. ullToString (word_of_nat p)) (last_pos base recs k)) \<and>
     (\<forall>k. last_pos base recs k \<noteq> None \<longrightarrow> possiblyContains (bloom s) k)"

text \<open>There is room for one more record: below the size limit and below \<open>10 ^ 8\<close> records.\<close>

definition has_room :: "config \<Rightarrow> 'db kv \<Rightarrow> bool" where
  "has_room cfg s \<longleftrightarrow>
     (write_pos s + 1) * (key_size + value_size) \<le> group_size cfg \<and> write_pos s < 100000000"

lemma paths_distinct [simp]:
  "VLOG_PATH \<noteq> KEY_ARRAY_PATH" "VLOG_PATH \<noteq> MODEL_PATH" "KEY_ARRAY_PATH \<noteq> MODEL_PATH"
  "KEY_ARRAY_PATH \<noteq> VLOG_PATH" "MODEL_PATH \<noteq> VLOG_PATH" "MODEL_PATH \<noteq> KEY_ARRAY_PATH"
  by (simp_all add: VLOG_PATH_def KEY_ARRAY_PATH_def MODEL_PATH_def)

lemma record_data_ok:
  "length value = 1016 \<Longrightarrow>
   record_data key key_size value value_size = Inr (rec_bytes (key, value))"
  by (simp add: record_data_def key_size_def value_size_def rec_bytes_def)

lemma write_pos_eq: "unat (w :: u64) = n \<Longrightarrow> w = word_of_nat n"
  by auto

section \<open>A fresh store\<close>

lemma inv_new:
  assumes "rocks_ok R view" "view d0 = Map.empty" "disk0 VLOG_PATH = None"
  shows "kv_inv cfg view (new_LearnedKV R d0 disk0) 0 []"
  using rocks_okD(1,2) [OF assms(1), of d0] assms(2,3)
  by (simp add: kv_inv_def new_LearnedKV_def initialize_rocksdb_def Let_def split_beta vlog_file_def)

section \<open>Put\<close>

lemma kv_inv_snoc:
  assumes inv: "kv_inv cfg view s base recs" and v: "length value = 1016"
    and n: "length recs < 100000000"
    and view': "view d = (view (db s))(ullToString key \<mapsto> ullToString (write_pos s))"
    and disk': "disk' VLOG_PATH = Some (vlog_image (recs @ [(key, value)]))"
    and same: "disk' KEY_ARRAY_PATH = disk s KEY_ARRAY_PATH" "disk' MODEL_PATH = disk s MODEL_PATH"
  shows "kv_inv cfg view (s\<lparr>disk := disk', db := d, write_pos := write_pos s + 1,
           bloom := bloom_insert key (bloom s)\<rparr>) base (recs @ [(key, value)])"
proof -
  have wp: "unat (write_pos s) = length recs" and b: "base \<le> length recs"
    using inv by (auto simp: kv_inv_def)
  then have "unat (write_pos s + 1) = Suc (length recs)" using n by (simp add: unat_suc_no_wrap)
  moreover have "index_files base (recs @ [(key, value)]) disk' = index_files base recs (disk s)"
    using b by (simp add: index_files_def same)
  ultimately show ?thesis
    using inv v n disk' wp b write_pos_eq [OF wp]
    by (auto simp: kv_inv_def vlog_file_def view' bloom.test_insert intro: bloom.test_keep)
qed

lemma put_ok:
  assumes R: "rocks_ok R view" and inv: "kv_inv cfg view s base recs"
    and v: "length value = 1016" and room: "has_room cfg s" and w: "writable cfg VLOG_PATH"
  shows "\<exists>s'. put R cfg key key_size value value_size s = Inr (0, s') \<and>
    kv_inv cfg view s' base (recs @ [(key, value)]) \<and> gc_count s' = gc_count s"
proof -
  let ?d = "(disk s)(VLOG_PATH \<mapsto> vlog_image (recs @ [(key, value)]))"
  have fd: "fwrite_end (d(VLOG_PATH \<mapsto> (case d VLOG_PATH of None \<Rightarrow> [] | Some c \<Rightarrow> c))) VLOG_PATH
      (rec_bytes (key, value)) = ?d" if "d = disk s" for d
    using inv that by (auto simp: kv_inv_def vlog_file_def fwrite_end_def rec_bytes_def)
  let ?r = "db_put R (db s) (ullToString key) (ullToString (write_pos s))"
  let ?s = "s\<lparr>disk := ?d, db := snd ?r, write_pos := write_pos s + 1,
    bloom := bloom_insert key (bloom s)\<rparr>"
  have "fst ?r" by (rule rocks_okD(5) [OF R])
  then have "put R cfg key key_size value value_size s = Inr (0, ?s)"
    using room w v by (auto simp: put_def has_room_def not_less fopen_append_def record_data_ok
      fd Let_def split_beta)
  moreover have "write_pos s < 100000000" using room by (simp add: has_room_def)
  then have "length recs < 100000000" using inv by (simp add: kv_inv_def word_less_nat_alt)
  then have "kv_inv cfg view ?s base (recs @ [(key, value)])"
    by (intro kv_inv_snoc inv v) (simp_all add: rocks_okD(6) [OF R])
  ultimately show ?thesis by (intro exI [of _ ?s]) simp
qed

section \<open>Garbage collection\<close>

definition pointer_batch :: "rec list \<Rightarrow> (bytes \<times> bytes) list" where
  "pointer_batch kvs =
     map (\<lambda>i. (ullToString (fst (kvs ! i)), ullToString (word_of_nat i))) [0..<length kvs]"

lemma pointer_batch_snoc:
  "pointer_batch (kvs @ [r]) = pointer_batch kvs @ [(ullToString (fst r), ullToString (word_of_nat (length kvs)))]"
  by (auto simp: pointer_batch_def nth_append)

lemma positions_Suc: "positions (Suc n) = positions n @ [double_of_u64 (word_of_nat n)]"
  by (simp add: positions_def)

lemma map_batch_pointers:
  "map_batch (pointer_batch kvs) Map.empty (ullToString k) =
     map_option (\<lambda>p. ullToString (word_of_nat p)) (last_pos 0 kvs k)"
proof (induction kvs rule: rev_induct)
  case Nil
  then show ?case by (simp add: pointer_batch_def map_batch_def)
next
  case (snoc r kvs)
  then show ?case by (auto simp: pointer_batch_snoc map_batch_def)
qed

lemma map_batch_pointers_length:
  "map_batch (pointer_batch kvs) Map.empty b \<noteq> None \<Longrightarrow> length b = 8"
proof (induction kvs rule: rev_induct)
  case Nil
  then show ?case by (simp add: pointer_batch_def map_batch_def)
next
  case (snoc r kvs)
  then show ?case by (auto simp: pointer_batch_snoc map_batch_def split: if_splits)
qed

lemma gc_write_append: "gc_write l ks vs (xs @ ys) g =
    (case gc_write l ks vs xs g of Inl e \<Rightarrow> Inl e | Inr g \<Rightarrow> gc_write l ks vs ys g)"
  by (induction xs arbitrary: g) (auto split: sum.splits)

lemma gc_write_init:
  assumes "well_sized kvs"
  shows "gc_write l key_size value_size kvs
      \<lparr>gc_pos = 0, gc_vlog = [], gc_x = [], gc_y = [], gc_batch = [], gc_bloom = b\<rparr> =
    Inr \<lparr>gc_pos = word_of_nat (length kvs), gc_vlog = vlog_image kvs,
         gc_x = (if l then map fst kvs else []), gc_y = (if l then positions (length kvs) else []),
         gc_batch = (if l then [] else pointer_batch kvs),
         gc_bloom = (if l then b else fold bloom_insert (map fst kvs) b)\<rparr>"
  using assms
proof (induction kvs rule: rev_induct)
  case Nil
  then show ?case by (simp add: positions_def pointer_batch_def)
next
  case (snoc r kvs)
  then have "length (snd r) = 1016" by simp
  then have "record_data (fst r) key_size (snd r) value_size = Inr (u64_bytes (fst r) @ snd r)"
    by (simp add: record_data_ok rec_bytes_def)
  with snoc show ?case
    by (simp add: gc_write_append gc_write_one_def positions_Suc pointer_batch_snoc add.commute)
qed

text \<open>The state after the common part of a collection: the LSM store is empty and reopened, the
  filter reset, the value log gone.\<close>

lemma reopened:
  assumes "rocks_ok R view"
  shows "\<exists>d. view d = Map.empty \<and> (let s = snd (destroy_rocksdb R s);
      s = s\<lparr>disk := fremove (disk s) VLOG_PATH\<rparr>
    in snd (initialize_rocksdb R s)) =
    s\<lparr>db := d, disk := (disk s)(VLOG_PATH := None), bloom := bloom_reset (bloom s)\<rparr>"
proof -
  let ?d1 = "snd (db_destroy R (db s))"
  let ?d = "snd (db_open R ?d1)"
  have "view ?d = Map.empty" "fst (db_open R ?d1)"
    using rocks_okD(1,2) [OF assms, of ?d1] rocks_okD(4) [OF assms, of "db s"] by simp_all
  then show ?thesis
    by (intro exI [of _ ?d])
      (simp add: destroy_rocksdb_def initialize_rocksdb_def Let_def split_beta fremove_def)
qed

lemma gc_reduce:
  assumes R: "rocks_ok R view" and inv: "kv_inv cfg view s base recs" and ne: "recs \<noteq> []"
    and w: "writable cfg VLOG_PATH"
  defines "kvs \<equiv> butlast (live recs)"
  shows "\<exists>d. view d = Map.empty \<and>
    garbage_collection R cfg key_size value_size s = Inr (0,
      s\<lparr>db := (if learned_index_used cfg then d
                else snd (db_flush R (snd (db_write R d (pointer_batch kvs))))),
        write_pos := word_of_nat (length kvs),
        disk := (let D = (disk s)(VLOG_PATH \<mapsto> vlog_image kvs) in
          if learned_index_used cfg
          then snd (build_piecewise_linear_regression (writable cfg) (map fst kvs)
                      (positions (length kvs)) err_bound D)
          else D),
        bloom := (if learned_index_used cfg then bloom_reset (bloom s)
                  else fold bloom_insert (map fst kvs) (bloom_reset (bloom s))),
        gc_write_size := gc_write_size s + int (1024 * length (live recs))\<rparr>)"
proof -
  obtain d where d: "view d = Map.empty"
    and re: "(let s = snd (destroy_rocksdb R s); s = s\<lparr>disk := fremove (disk s) VLOG_PATH\<rparr>
       in snd (initialize_rocksdb R s)) =
       s\<lparr>db := d, disk := (disk s)(VLOG_PATH := None), bloom := bloom_reset (bloom s)\<rparr>"
    using reopened [OF R] by blast
  have img: "disk s VLOG_PATH = Some (vlog_image recs)" and ws: "well_sized recs"
    using inv ne by (auto simp: kv_inv_def vlog_file_def)
  have "well_sized (live recs)" using ws by (rule well_sized_live)
  then have wk: "well_sized kvs" unfolding kvs_def by (rule well_sized_butlast)
  have col: "gc_collect (vlog_image recs) [] = Inr (collected recs)"
    using gc_collect_image [OF ws] by (simp add: collected_def)
  have ne': "sort_key fst (collected recs) \<noteq> []" using ne live_empty_iff [of recs] by (simp add: live_def)
  note re' = re [unfolded Let_def]
  show ?thesis
  proof (intro exI conjI)
    show "view d = Map.empty" by (rule d)
  qed (use ne' w gc_write_init [OF wk] in \<open>simp add: garbage_collection_def fopen_read_def img col
      Let_def re' fopen_append_def fwrite_end_def err_bound_def live_def [symmetric]
      kvs_def [symmetric] split_beta rocks_okD(7) [OF R]\<close>)
qed

lemma length_kept: "length (butlast (live recs)) \<le> length recs"
  using length_collected_le [of recs] by (simp add: length_live)

lemma last_pos_key: "last_pos base recs k \<noteq> None \<Longrightarrow> k \<in> set (map fst recs)"
  by (auto dest!: last_pos_SomeD intro!: image_eqI [of k fst] nth_mem)

lemma well_sized_kept: "well_sized recs \<Longrightarrow> well_sized (butlast (live recs))"
  by (simp add: well_sized_butlast well_sized_live)

lemma gc_rocksdb:
  assumes R: "rocks_ok R view" and inv: "kv_inv cfg view s base recs" and ne: "recs \<noteq> []"
    and w: "writable cfg VLOG_PATH" and mode: "\<not> learned_index_used cfg"
  shows "\<exists>s'. garbage_collection R cfg key_size value_size s = Inr (0, s') \<and>
    kv_inv cfg view s' 0 (butlast (live recs)) \<and>
    gc_write_size s' = gc_write_size s + 1024 * int (length (live recs))"
proof -
  let ?kvs = "butlast (live recs)"
  obtain d where d: "view d = Map.empty" and gc: "garbage_collection R cfg key_size value_size s =
    Inr (0, s\<lparr>db := snd (db_flush R (snd (db_write R d (pointer_batch ?kvs)))),
        write_pos := word_of_nat (length ?kvs),
        disk := (disk s)(VLOG_PATH \<mapsto> vlog_image ?kvs),
        bloom := fold bloom_insert (map fst ?kvs) (bloom_reset (bloom s)),
        gc_write_size := gc_write_size s + int (1024 * length (live recs))\<rparr>)"
    using gc_reduce [OF R inv ne w] mode by (auto simp: Let_def)
  have n: "length ?kvs \<le> 100000000" and ws: "well_sized ?kvs"
    using length_kept [of recs] inv by (auto simp: kv_inv_def well_sized_kept)
  then have wp: "unat (word_of_nat (length ?kvs) :: u64) = length ?kvs" by (simp add: unat_of_nat)
  note F = rocks_okD [OF R]
  have "kv_inv cfg view s' 0 ?kvs"
    if "db s' = snd (db_flush R (snd (db_write R d (pointer_batch ?kvs))))"
      "write_pos s' = word_of_nat (length ?kvs)" "disk s' VLOG_PATH = Some (vlog_image ?kvs)"
      "bloom s' = fold bloom_insert (map fst ?kvs) (bloom_reset (bloom s))" for s'
    unfolding kv_inv_def that using n ws wp
    by (auto simp: vlog_file_def that F(8,10) d map_batch_pointers
        dest!: map_batch_pointers_length [unfolded not_None_eq, OF exI]
        intro!: bloom.test_fold_member last_pos_key)
  then show ?thesis by (simp add: gc del: length_butlast)
qed

lemma gc_learned:
  assumes R: "rocks_ok R view" and inv: "kv_inv cfg view s base recs"
    and three: "3 \<le> length (live recs)" and w: "\<And>p. writable cfg p"
    and mode: "learned_index_used cfg"
  shows "\<exists>s'. garbage_collection R cfg key_size value_size s = Inr (0, s') \<and>
    kv_inv cfg view s' (length (live recs) - 1) (butlast (live recs)) \<and>
    view (db s') = Map.empty \<and> bitset (bloom s') = {}"
proof -
  let ?kvs = "butlast (live recs)"
  let ?ks = "map fst ?kvs"
  have ne: "recs \<noteq> []" using three by (auto simp: live_def collected_def)
  have len: "length ?kvs = length (live recs) - 1" by simp
  obtain d where d: "view d = Map.empty" and gc: "garbage_collection R cfg key_size value_size s =
    Inr (0, s\<lparr>db := d, write_pos := word_of_nat (length ?kvs),
        disk := snd (build_piecewise_linear_regression (writable cfg) ?ks (positions (length ?kvs))
                       err_bound ((disk s)(VLOG_PATH \<mapsto> vlog_image ?kvs))),
        bloom := bloom_reset (bloom s),
        gc_write_size := gc_write_size s + int (1024 * length (live recs))\<rparr>)"
    using gc_reduce [OF R inv ne w] mode by (auto simp: Let_def)
  let ?D = "(disk s)(VLOG_PATH \<mapsto> vlog_image ?kvs)"
  let ?D' = "?D(MODEL_PATH \<mapsto> concat (map segment_bytes (plr_model ?ks (positions (length ?kvs)) err_bound)),
                KEY_ARRAY_PATH \<mapsto> concat (map u64_bytes ?ks))"
  have plr: "build_piecewise_linear_regression (writable cfg) ?ks (positions (length ?kvs)) err_bound ?D
      = (0, ?D')"
    using three w by (simp add: build_piecewise_linear_regression_def fopen_trunc_def fwrite_end_def)
  have "sorted_wrt (<) ?ks" using sorted_live [of recs]
    by (simp add: map_butlast) (metis append_butlast_last_id butlast.simps(1) sorted_wrt_append)
  then have idx: "index_files (length (live recs) - 1) ?kvs ?D'"
    by (simp add: index_files_def)
  have n: "length ?kvs \<le> 100000000" and ws: "well_sized ?kvs"
    using length_kept [of recs] inv by (auto simp: kv_inv_def well_sized_kept)
  then have wp: "unat (word_of_nat (length ?kvs) :: u64) = length ?kvs" by (simp add: unat_of_nat)
  have "kv_inv cfg view s' (length (live recs) - 1) ?kvs"
    if "db s' = d" "write_pos s' = word_of_nat (length ?kvs)" "disk s' = ?D'" for s'
    unfolding kv_inv_def that using n ws wp mode idx
    by (auto simp: vlog_file_def d last_pos_base_end)
  then show ?thesis by (simp add: gc plr d bloom_reset_def del: length_butlast)
qed

end
