(* ===== verification/LearnedKV_Get.thy ===== *)
theory LearnedKV_Get
  imports LearnedKV_Inv
begin

text \<open>
  Lookups in a store that satisfies the invariant: through the LSM store, and through the learned
  index for the records a garbage collection moved there.
\<close>

section \<open>Lookups through the LSM store\<close>

lemma read_value_full:
  "length (fread_at c pos (unat n)) = unat n \<Longrightarrow> read_value c pos v n = fread_at c pos (unat n)"
  by (simp add: read_value_def Let_def)

lemma read_rec:
  assumes "well_sized recs" "p < length recs"
  shows "read_value (vlog_image recs) (1024 * p + 8) v value_size = snd (recs ! p)"
proof -
  have "fread_at (vlog_image recs) (1024 * p + 8) (unat value_size) = snd (recs ! p)"
    using read_rec_value [OF assms] by (simp add: value_size_def)
  then show ?thesis
    using well_sizedD [OF assms(1) nth_mem [OF assms(2)]] by (simp add: read_value_full value_size_def)
qed

lemma record_offset:
  assumes "p < 100000000"
  shows "fseek_set 0 (word_of_nat p * (key_size + value_size) + key_size) = 1024 * p + 8"
proof -
  have "(word_of_nat p * (key_size + value_size) + key_size :: u64) = word_of_nat (1024 * p + 8)"
    by (simp add: key_size_def value_size_def)
  moreover have "unat (word_of_nat (1024 * p + 8) :: u64) = 1024 * p + 8"
    using assms by (simp add: unat_of_nat del: of_nat_add of_nat_mult)
  ultimately show ?thesis using assms by (simp add: fseek_set_def word_less_nat_alt)
qed

text \<open>Lookups change nothing but the counters.\<close>

definition same_store :: "'db kv \<Rightarrow> 'db kv \<Rightarrow> bool" where
  "same_store s s' \<longleftrightarrow> db s' = db s \<and> write_pos s' = write_pos s \<and> bloom s' = bloom s \<and>
     disk s' = disk s \<and> gc_count s' = gc_count s \<and> gc_write_size s' = gc_write_size s"

lemma kv_inv_same: "same_store s s' \<Longrightarrow> kv_inv cfg view s base recs \<Longrightarrow> kv_inv cfg view s' base recs"
  by (simp add: same_store_def kv_inv_def)

lemma get_hit:
  assumes R: "rocks_ok R view" and inv: "kv_inv cfg view s base recs"
    and p: "last_pos base recs key = Some p"
  shows "\<exists>s'. get R cfg key key_size v value_size s = Inr (0, snd (recs ! p), s') \<and> same_store s s'"
proof -
  have pr: "p < length recs" using last_pos_SomeD [OF p] by simp
  then have img: "disk s VLOG_PATH = Some (vlog_image recs)" and ws: "well_sized recs"
    and pos: "p < 100000000" and may: "possiblyContains (bloom s) key"
    and ptr: "db_get R (db s) (ullToString key) = Some (ullToString (word_of_nat p))"
    using inv p by (auto simp: kv_inv_def vlog_file_def rocks_okD(11) [OF R])
  show ?thesis
    by (simp add: get_def may ptr fopen_read_def img record_offset [OF pos] read_rec [OF ws pr]
        same_store_def)
qed

lemma get_miss:
  assumes R: "rocks_ok R view" and inv: "kv_inv cfg view s base recs"
    and p: "last_pos base recs key = None"
  shows "\<exists>s1. same_store s s1 \<and> get R cfg key keySize v valueSize s =
    (if learned_index_used cfg then get_learned cfg key keySize v valueSize s1 else Inr (- 1, v, s1))"
proof -
  have "db_get R (db s) (ullToString key) = None"
    using inv p by (simp add: kv_inv_def rocks_okD(11) [OF R])
  then show ?thesis
    by (intro exI [of _ "if possiblyContains (bloom s) key
          then s\<lparr>rocksdb_count := rocksdb_count s + 1\<rparr> else s"])
      (simp add: get_def same_store_def)
qed

section \<open>The search window of the learned index\<close>

lemma window_eq:
  assumes "- 1 \<le> P"
  defines "lo \<equiv> nat (P - 1000)" and "n \<equiv> nat (P + 1000) - nat (P - 1000)"
  shows "window mem (concat (map u64_bytes ks)) P =
    (1024 * int lo, take n (drop lo ks) @ map mem [min n (length ks - lo)..<n])"
proof -
  have start: "max (P - 1000) 0 * 1024 = 1024 * int lo" by (simp add: lo_def)
  have chunk: "nat (8 * ((P + 1000) * 1024 div 1024 - 1024 * int lo div 1024)) = 8 * n"
    using assms(1) by (cases "P \<le> 1000") (auto simp: n_def lo_def nat_eq_iff of_nat_diff)
  have off: "nat (8 * (1024 * int lo div 1024)) = 8 * lo"
    by (simp add: nat_mult_distrib)
  let ?got = "take n (drop lo ks)"
  have got: "fread_at (concat (map u64_bytes ks)) (8 * lo) (8 * n) = concat (map u64_bytes ?got)"
    unfolding fread_at_def by (simp add: drop_concat_chunks take_concat_chunks)
  have "fill (concat (map (u64_bytes \<circ> mem) [0..<n])) (concat (map u64_bytes ?got)) =
      concat (map u64_bytes (?got @ drop (length ?got) (map mem [0..<n])))"
    using drop_concat_chunks [of "map mem [0..<n]" u64_bytes 8 "length ?got"]
      length_concat_chunks [of ?got u64_bytes 8] by (simp add: fill_def)
  then have "u64s_of (fill (concat (map (u64_bytes \<circ> mem) [0..<n])) (concat (map u64_bytes ?got))) =
      ?got @ map mem [min n (length ks - lo)..<n]"
    by (simp only: u64s_of_concat) (simp add: drop_map drop_upt min.commute)
  then show ?thesis
    unfolding window_def Let_def sizes of_nat_numeral start chunk off got by simp
qed

lemma find_index_append_at:
  "\<forall>x \<in> set xs. \<not> Q x \<Longrightarrow> Q y \<Longrightarrow> find_index Q (xs @ y # zs) = length xs"
  by (induction xs) auto

lemma find_index_none: "\<forall>x \<in> set xs. \<not> Q x \<Longrightarrow> find_index Q xs = length xs"
  by (induction xs) auto

lemma find_index_window:
  assumes "distinct ks" "i < length ks" "lo \<le> i" "i < lo + n"
  shows "find_index (\<lambda>k. k = ks ! i) (take n (drop lo ks) @ rest) = i - lo"
proof -
  let ?w = "take n (drop lo ks)"
  have i: "i - lo < length ?w" "?w ! (i - lo) = ks ! i" using assms by auto
  have d: "distinct ?w" using assms(1) by simp
  have split: "?w = take (i - lo) ?w @ ks ! i # drop (Suc (i - lo)) ?w"
    using id_take_nth_drop [OF i(1)] i(2) by simp
  then have "ks ! i \<notin> set (take (i - lo) ?w)"
    using d by (metis distinct_append disjoint_iff list.set_intros(1))
  then have "find_index (\<lambda>k. k = ks ! i) (take (i - lo) ?w @ ks ! i # (drop (Suc (i - lo)) ?w @ rest))
      = length (take (i - lo) ?w)"
    by (intro find_index_append_at) auto
  moreover have "?w @ rest = take (i - lo) ?w @ ks ! i # (drop (Suc (i - lo)) ?w @ rest)"
    using split by (metis append.assoc append_Cons)
  moreover have "length (take (i - lo) ?w) = i - lo" using i(1) by simp
  ultimately show ?thesis by (simp only:)
qed

text \<open>A key of the learned index is found when its position is less than \<open>ERR_BOUND\<close> above and at
  most \<open>ERR_BOUND\<close> below the predicted one.\<close>

lemma get_learned_found:
  assumes inv: "kv_inv cfg view s base recs" and i: "i < base" and base: "base \<noteq> 0"
    and w: "writable cfg VLOG_PATH" and key: "key = fst (recs ! i)"
    and near: "query_model key (disk s) - 1000 \<le> int i" "int i < query_model key (disk s) + 1000"
  shows "\<exists>s'. get_learned cfg key key_size v value_size s = Inr (0, snd (recs ! i), s') \<and>
    same_store s s'"
proof -
  define ks where "ks = map fst (take base recs)"
  let ?P = "query_model key (disk s)"
  have idx: "index_files base recs (disk s)" and ws: "well_sized recs" and b: "base \<le> length recs"
    and img: "disk s VLOG_PATH = Some (vlog_image recs)"
    using inv base by (auto simp: kv_inv_def vlog_file_def)
  have ka: "disk s KEY_ARRAY_PATH = Some (concat (map u64_bytes ks))" and "sorted_wrt (<) ks"
    using idx by (auto simp: index_files_def Let_def ks_def)
  then have dist: "distinct ks" by (simp add: strict_sorted_iff)
  have ks: "ks ! i = key" "i < length ks" using i b key by (auto simp: ks_def)
  have P: "- 1 \<le> ?P" using query_model_bounds by blast
  have lo: "nat (?P - 1000) \<le> i" using near by linarith
  have "find_index (\<lambda>k. k = key) (snd (window (fresh cfg 0) (concat (map u64_bytes ks)) ?P))
      = i - nat (?P - 1000)"
    unfolding window_eq [OF P] snd_conv
    by (rule find_index_window [OF dist ks(2), unfolded ks(1)]) (use near P in linarith)+
  then have "nat (fst (window (fresh cfg 0) (concat (map u64_bytes ks)) ?P) +
      int (find_index (\<lambda>k. k = key) (snd (window (fresh cfg 0) (concat (map u64_bytes ks)) ?P))) * 1024)
      = 1024 * i" (is "nat (fst ?w + int (find_index _ (snd ?w)) * 1024) = _")
    unfolding window_eq [OF P] fst_conv using lo by (simp add: of_nat_diff nat_eq_iff)
  moreover have "length (fread_at (vlog_image recs) (1024 * i) (unat key_size)) = 8"
    using i b ws by (simp add: length_vlog_image key_size_def)
  moreover have "i < length recs" using i b by simp
  ultimately show ?thesis
    using read_rec [OF ws, of i v]
    by (simp add: get_learned_def fopen_read_def fopen_update_def w ka img split_beta Let_def same_store_def
        key_size_def [THEN arg_cong [of _ _ unat]])
qed

end
