(* ===== verification/Store_Interface.thy ===== *)
theory Store_Interface
  imports Log_Facts
begin

text \<open>
  The interface of a store: puts and lookups, and the contract that the callers (the benchmark
  program, the YCSB binding) rely on. A store keeps an abstract log of records; the contract says
  what puts and lookups do to the log and what lookups answer.
\<close>

section \<open>Sessions\<close>

datatype request = Put u64 bytes | Get u64 bytes

datatype response = Stored int | Found int bytes

type_synonym 's put_op = "u64 \<Rightarrow> bytes \<Rightarrow> 's \<Rightarrow> fault + (int \<times> 's)"
type_synonym 's get_op = "u64 \<Rightarrow> bytes \<Rightarrow> 's \<Rightarrow> fault + (int \<times> bytes \<times> 's)"

text \<open>The second argument of a lookup is the buffer of the caller.\<close>

fun serve_one :: "'s put_op \<Rightarrow> 's get_op \<Rightarrow> request \<Rightarrow> 's \<Rightarrow> fault + (response \<times> 's)" where
  "serve_one put_op get_op (Put k v) s = and_then (put_op k v s) (\<lambda>(st, t). Inr (Stored st, t))"
| "serve_one put_op get_op (Get k b) s = and_then (get_op k b s) (\<lambda>(st, v, t). Inr (Found st v, t))"

fun serve :: "'s put_op \<Rightarrow> 's get_op \<Rightarrow> request list \<Rightarrow> 's \<Rightarrow> fault + (response list \<times> 's)" where
  "serve put_op get_op [] s = Inr ([], s)"
| "serve put_op get_op (rq # rqs) s =
     and_then (serve_one put_op get_op rq s) (\<lambda>(a, s).
       and_then (serve put_op get_op rqs s) (\<lambda>(as, s). Inr (a # as, s)))"

section \<open>The abstract store\<close>

fun log_one :: "(rec list \<Rightarrow> rec \<Rightarrow> rec list) \<Rightarrow> request \<Rightarrow> rec list \<Rightarrow> response \<times> rec list" where
  "log_one put_log (Put k v) recs = (Stored 0, put_log recs (k, v))"
| "log_one put_log (Get k b) recs =
     ((case current recs k of None \<Rightarrow> Found (- 1) b | Some x \<Rightarrow> Found 0 x), recs)"

fun log_serve :: "(rec list \<Rightarrow> rec \<Rightarrow> rec list) \<Rightarrow> request list \<Rightarrow> rec list \<Rightarrow> response list \<times> rec list" where
  "log_serve put_log [] recs = ([], recs)"
| "log_serve put_log (rq # rqs) recs =
     (let (a, recs) = log_one put_log rq recs; (as, recs) = log_serve put_log rqs recs in (a # as, recs))"

text \<open>Values have the size of the build, the store has room, and, where \<open>all\<close> is false, lookups are of
  keys in the log.\<close>

fun admissible :: "bool \<Rightarrow> (rec list \<Rightarrow> bool) \<Rightarrow> (rec list \<Rightarrow> rec \<Rightarrow> rec list) \<Rightarrow> request list \<Rightarrow> rec list \<Rightarrow> bool" where
  "admissible all room put_log [] recs \<longleftrightarrow> True"
| "admissible all room put_log (Put k v # rqs) recs \<longleftrightarrow>
     length v = VALUE_SIZE \<and> room recs \<and> admissible all room put_log rqs (put_log recs (k, v))"
| "admissible all room put_log (Get k b # rqs) recs \<longleftrightarrow>
     (all \<or> current recs k \<noteq> None) \<and> admissible all room put_log rqs recs"

definition sized :: "request list \<Rightarrow> bool" where
  "sized rqs \<longleftrightarrow> (\<forall>rq \<in> set rqs. case rq of Put k v \<Rightarrow> length v = VALUE_SIZE | Get k b \<Rightarrow> True)"

lemma sized_Cons [simp]:
  "sized []" "sized (Put k v # rqs) \<longleftrightarrow> length v = VALUE_SIZE \<and> sized rqs" "sized (Get k b # rqs) \<longleftrightarrow> sized rqs"
  by (simp_all add: sized_def)

lemma sized_admissible: "sized rqs \<Longrightarrow> admissible True (\<lambda>_. True) put_log rqs recs"
  by (induction True "\<lambda>_ :: rec list. True" put_log rqs recs rule: admissible.induct) auto

section \<open>The contracts\<close>

text \<open>A store that answers for the keys in its log.\<close>

locale own_writes_store =
  fixes put_op :: "'s put_op"
    and get_op :: "'s get_op"
    and keeps :: "'s \<Rightarrow> rec list \<Rightarrow> bool"
    and room :: "rec list \<Rightarrow> bool"
    and put_log :: "rec list \<Rightarrow> rec \<Rightarrow> rec list"
  assumes put_law: "keeps s recs \<Longrightarrow> room recs \<Longrightarrow> length v = VALUE_SIZE \<Longrightarrow>
      \<exists>t. put_op k v s = Inr (0, t) \<and> keeps t (put_log recs (k, v))"
    and hit_law: "keeps s recs \<Longrightarrow> current recs k = Some x \<Longrightarrow> \<exists>t. get_op k b s = Inr (0, x, t) \<and> keeps t recs"
begin

lemma serve_one_law:
  assumes i: "keeps s recs" and a: "admissible False room put_log [rq] recs"
  shows "\<exists>t. serve_one put_op get_op rq s = Inr (fst (log_one put_log rq recs), t) \<and> keeps t (snd (log_one put_log rq recs))"
proof (cases rq)
  case (Put k v)
  then obtain t where "put_op k v s = Inr (0, t)" "keeps t (put_log recs (k, v))"
    using put_law [OF i] a by auto
  then show ?thesis using Put by simp
next
  case (Get k b)
  then obtain x where x: "current recs k = Some x" using a by auto
  obtain t where "get_op k b s = Inr (0, x, t)" "keeps t recs" using hit_law [OF i x] by blast
  then show ?thesis using Get x by simp
qed

end

text \<open>A store that answers for every key.\<close>

locale log_store = own_writes_store +
  assumes miss_law: "keeps s recs \<Longrightarrow> current recs k = None \<Longrightarrow> \<exists>t. get_op k b s = Inr (- 1, b, t) \<and> keeps t recs"
begin

lemma serve_one_total:
  assumes i: "keeps s recs" and a: "admissible True room put_log [rq] recs"
  shows "\<exists>t. serve_one put_op get_op rq s = Inr (fst (log_one put_log rq recs), t) \<and> keeps t (snd (log_one put_log rq recs))"
proof (cases "admissible False room put_log [rq] recs")
  case True
  then show ?thesis by (rule serve_one_law [OF i])
next
  case False
  then obtain k b where rq: "rq = Get k b" "current recs k = None" using a by (cases rq) auto
  obtain t where "get_op k b s = Inr (- 1, b, t)" "keeps t recs" using miss_law [OF i rq(2)] by blast
  then show ?thesis using rq by simp
qed

end

text \<open>Both run sessions as the abstract store does.\<close>

lemma serve_log:
  assumes step: "\<And>s recs rq. keeps s recs \<Longrightarrow> admissible all room put_log [rq] recs \<Longrightarrow>
     \<exists>t. serve_one put_op get_op rq s = Inr (fst (log_one put_log rq recs), t) \<and> keeps t (snd (log_one put_log rq recs))"
  shows "keeps s recs \<Longrightarrow> admissible all room put_log rqs recs \<Longrightarrow>
     \<exists>t. serve put_op get_op rqs s = Inr (fst (log_serve put_log rqs recs), t) \<and> keeps t (snd (log_serve put_log rqs recs))"
proof (induction rqs arbitrary: s recs)
  case (Cons rq rqs)
  have a: "admissible all room put_log [rq] recs" "admissible all room put_log rqs (snd (log_one put_log rq recs))"
    using Cons.prems(2) by (cases rq; simp)+
  obtain t where t: "serve_one put_op get_op rq s = Inr (fst (log_one put_log rq recs), t)"
    "keeps t (snd (log_one put_log rq recs))"
    using step [OF Cons.prems(1) a(1)] by blast
  obtain u where "serve put_op get_op rqs t = Inr (fst (log_serve put_log rqs (snd (log_one put_log rq recs))), u)"
    "keeps u (snd (log_serve put_log rqs (snd (log_one put_log rq recs))))"
    using Cons.IH [OF t(2) a(2)] by blast
  then show ?case using t(1) by (simp add: split_beta)
qed simp

context own_writes_store
begin

lemma serve_own:
  "keeps s recs \<Longrightarrow> admissible False room put_log rqs recs \<Longrightarrow>
     \<exists>t. serve put_op get_op rqs s = Inr (fst (log_serve put_log rqs recs), t) \<and> keeps t (snd (log_serve put_log rqs recs))"
  by (rule serve_log [where keeps = keeps, OF serve_one_law])

end

context log_store
begin

lemma serve_refines:
  "keeps s recs \<Longrightarrow> admissible True room put_log rqs recs \<Longrightarrow>
     \<exists>t. serve put_op get_op rqs s = Inr (fst (log_serve put_log rqs recs), t) \<and> keeps t (snd (log_serve put_log rqs recs))"
  by (rule serve_log [where keeps = keeps, OF serve_one_total])

end

end
