(* ===== verification/LearnedKV_Store.thy ===== *)
theory LearnedKV_Store
  imports LearnedKV_Get Store_Interface
begin

text \<open>
  The store as its callers use it (\<open>learned-LSM/test.cpp\<close>, the YCSB binding): a sequence of puts,
  with the garbage collections they trigger, and lookups after it. The abstract state is the list
  of records in the value log; \<open>spec_put\<close> is what a put promises of it.
\<close>

section \<open>Sequences of puts\<close>

fun puts :: "('db, 'm) rocks_api_scheme \<Rightarrow> config \<Rightarrow> rec list \<Rightarrow> 'db kv \<Rightarrow> fault + 'db kv" where
  "puts R cfg [] s = Inr s"
| "puts R cfg (r # rs) s =
     (case put R cfg (fst r) key_size (snd r) value_size s of
        Inl e \<Rightarrow> Inl e
      | Inr (_, s) \<Rightarrow> puts R cfg rs s)"

text \<open>The number of records the size limit leaves room for.\<close>

definition capacity :: "config \<Rightarrow> nat" where
  "capacity cfg = unat (group_size cfg) div 1024"

definition spec_put :: "nat \<Rightarrow> rec list \<Rightarrow> rec \<Rightarrow> rec list" where
  "spec_put n recs r = (if length recs < n then recs else butlast (live recs)) @ [r]"

section \<open>Room\<close>

lemma unat_room:
  assumes "unat (w :: u64) \<le> 100000000"
  shows "unat ((w + 1) * (key_size + value_size)) = 1024 * (unat w + 1)"
proof -
  have "(w + 1) * (key_size + value_size) = word_of_nat (1024 * (unat w + 1))"
    by (simp add: key_size_def value_size_def algebra_simps)
  then show ?thesis using assms by (simp add: unat_of_nat del: of_nat_add of_nat_mult)
qed

lemma room_iff:
  assumes "kv_inv cfg view s base recs"
  shows "(write_pos s + 1) * (key_size + value_size) \<le> group_size cfg \<longleftrightarrow> length recs < capacity cfg"
proof -
  have w: "unat (write_pos s) = length recs" "length recs \<le> 100000000"
    using assms by (auto simp: kv_inv_def)
  then have "unat ((write_pos s + 1) * (key_size + value_size)) = 1024 * (length recs + 1)"
    by (simp add: unat_room)
  then show ?thesis unfolding capacity_def word_le_nat_alt by (simp add: less_eq_div_iff_mult_less_eq
        Suc_le_eq [symmetric] algebra_simps)
qed

lemma has_room_iff:
  assumes "kv_inv cfg view s base recs" "capacity cfg \<le> 100000000"
  shows "has_room cfg s \<longleftrightarrow> length recs < capacity cfg"
  using assms(2) by (auto simp: has_room_def room_iff [OF assms(1)] word_less_nat_alt
      conjunct1 [OF conjunct2 [OF conjunct2 [OF assms(1) [unfolded kv_inv_def]]]])

lemma length_kept_less: "recs \<noteq> [] \<Longrightarrow> length (butlast (live recs)) < length recs"
  using length_collected_le [of recs] by (cases recs) (auto simp: length_live)

lemma length_spec_put: "0 < n \<Longrightarrow> length recs \<le> n \<Longrightarrow> length (spec_put n recs r) \<le> n"
  using length_kept_less [of recs] by (auto simp: spec_put_def)

section \<open>A put that collects\<close>

lemma put_collect:
  assumes no: "\<not> (write_pos s + 1) * (keySize + valueSize) \<le> group_size cfg"
    and gc: "garbage_collection R cfg keySize valueSize s = Inr (x, s1)"
    and yes: "(write_pos s1 + 1) * (keySize + valueSize) \<le> group_size cfg"
  shows "put R cfg key keySize v valueSize s =
    put R cfg key keySize v valueSize (s1\<lparr>gc_count := gc_count s1 + 1\<rparr>)"
proof -
  let ?t = "s1\<lparr>gc_count := gc_count s1 + 1\<rparr>"
  have "\<not> group_size cfg < (write_pos ?t + 1) * (keySize + valueSize)" using yes by simp
  moreover have "group_size cfg < (write_pos s + 1) * (keySize + valueSize)" using no by simp
  ultimately show ?thesis unfolding put_def by (simp only: gc if_True if_False sum.case prod.case)
qed

lemma kv_inv_gc_count: "kv_inv cfg view (s\<lparr>gc_count := n\<rparr>) base recs = kv_inv cfg view s base recs"
  by (simp add: kv_inv_def)

lemma put_step:
  assumes R: "rocks_ok R view" and inv: "kv_inv cfg view s 0 recs"
    and v: "length (snd r) = 1016" and w: "writable cfg VLOG_PATH" and mode: "\<not> learned_index_used cfg"
    and cap: "0 < capacity cfg" "capacity cfg \<le> 100000000" and len: "length recs \<le> capacity cfg"
  shows "\<exists>s'. put R cfg (fst r) key_size (snd r) value_size s = Inr (0, s') \<and>
    kv_inv cfg view s' 0 (spec_put (capacity cfg) recs r) \<and>
    gc_count s' = gc_count s + (if length recs < capacity cfg then 0 else 1)"
proof (cases "length recs < capacity cfg")
  case True
  then have "has_room cfg s" by (simp add: has_room_iff [OF inv cap(2)])
  then show ?thesis using put_ok [OF R inv v _ w, of "fst r"] True by (simp add: spec_put_def)
next
  case False
  then have ne: "recs \<noteq> []" using cap by auto
  obtain s1 where gc: "garbage_collection R cfg key_size value_size s = Inr (0, s1)"
    and inv1: "kv_inv cfg view s1 0 (butlast (live recs))"
    using gc_rocksdb [OF R inv ne w mode] by blast
  let ?s = "s1\<lparr>gc_count := gc_count s1 + 1\<rparr>"
  have inv2: "kv_inv cfg view ?s 0 (butlast (live recs))" using inv1 by (simp add: kv_inv_gc_count)
  have less: "length (butlast (live recs)) < capacity cfg" using length_kept_less [OF ne] len by linarith
  have gcc: "gc_count s1 = gc_count s" using gc_reduce [OF R inv ne w] mode gc by auto
  have "put R cfg (fst r) key_size (snd r) value_size s = put R cfg (fst r) key_size (snd r) value_size ?s"
    by (rule put_collect [OF _ gc]) (simp_all add: room_iff [OF inv] room_iff [OF inv1] False less
        del: length_butlast)
  moreover have "has_room cfg ?s" by (simp add: has_room_iff [OF inv2 cap(2)] less del: length_butlast)
  ultimately show ?thesis using put_ok [OF R inv2 v _ w, of "fst r"] False gcc by (simp add: spec_put_def)
qed

lemma puts_ok:
  assumes R: "rocks_ok R view" and w: "writable cfg VLOG_PATH" and mode: "\<not> learned_index_used cfg"
    and cap: "0 < capacity cfg" "capacity cfg \<le> 100000000"
  shows "kv_inv cfg view s 0 recs \<Longrightarrow> well_sized rs \<Longrightarrow> length recs \<le> capacity cfg \<Longrightarrow>
    \<exists>s'. puts R cfg rs s = Inr s' \<and> kv_inv cfg view s' 0 (foldl (spec_put (capacity cfg)) recs rs) \<and>
      length (foldl (spec_put (capacity cfg)) recs rs) \<le> capacity cfg"
proof (induction rs arbitrary: s recs)
  case Nil
  then show ?case by simp
next
  case (Cons r rs)
  then obtain s1 where s1: "put R cfg (fst r) key_size (snd r) value_size s = Inr (0, s1)"
    "kv_inv cfg view s1 0 (spec_put (capacity cfg) recs r)"
    using put_step [OF R Cons.prems(1) _ w mode cap Cons.prems(3), of r] by auto
  with Cons.IH [OF s1(2)] Cons.prems cap length_spec_put [of "capacity cfg" recs r] show ?case by simp
qed

section \<open>Lookups\<close>

lemma get_rocksdb:
  assumes R: "rocks_ok R view" and inv: "kv_inv cfg view s 0 recs" and mode: "\<not> learned_index_used cfg"
  shows "\<exists>s'. same_store s s' \<and> get R cfg key key_size v value_size s =
    (case current recs key of None \<Rightarrow> Inr (- 1, v, s') | Some x \<Rightarrow> Inr (0, x, s'))"
proof (cases "last_pos 0 recs key")
  case None
  then show ?thesis using get_miss [OF R inv None, of key_size v value_size] mode
    by (auto simp: current_last_pos)
next
  case (Some p)
  then show ?thesis using get_hit [OF R inv Some] by (auto simp: current_last_pos)
qed

section \<open>The store keeps the contract of the interface\<close>

abbreviation put_rec :: "('db, 'm) rocks_api_scheme \<Rightarrow> config \<Rightarrow> 'db kv put_op" where
  "put_rec R cfg key v \<equiv> put R cfg key key_size v value_size"

abbreviation get_rec :: "('db, 'm) rocks_api_scheme \<Rightarrow> config \<Rightarrow> 'db kv get_op" where
  "get_rec R cfg key b \<equiv> get R cfg key key_size b value_size"

definition plain_keeps ::
  "('db, 'm) rocks_api_scheme \<Rightarrow> config \<Rightarrow> ('db \<Rightarrow> bytes \<rightharpoonup> bytes) \<Rightarrow> 'db kv \<Rightarrow> rec list \<Rightarrow> bool" where
  "plain_keeps R cfg view s recs \<longleftrightarrow> rocks_ok R view \<and> writable cfg VLOG_PATH \<and> \<not> learned_index_used cfg \<and>
     0 < capacity cfg \<and> capacity cfg \<le> 100000000 \<and> kv_inv cfg view s 0 recs \<and> length recs \<le> capacity cfg"

lemma plain_put:
  assumes "plain_keeps R cfg view s recs" "length v = VALUE_SIZE"
  shows "\<exists>t. put_rec R cfg k v s = Inr (0, t) \<and> plain_keeps R cfg view t (spec_put (capacity cfg) recs (k, v))"
  using put_step [of R view cfg s recs "(k, v)"] assms length_spec_put [of "capacity cfg" recs "(k, v)"]
  by (auto simp: plain_keeps_def)

lemma plain_get:
  assumes "plain_keeps R cfg view s recs"
  shows "\<exists>t. get_rec R cfg k b s = (case current recs k of None \<Rightarrow> Inr (- 1, b, t) | Some x \<Rightarrow> Inr (0, x, t)) \<and>
    plain_keeps R cfg view t recs"
proof -
  obtain t where t: "same_store s t"
    "get_rec R cfg k b s = (case current recs k of None \<Rightarrow> Inr (- 1, b, t) | Some x \<Rightarrow> Inr (0, x, t))"
    using get_rocksdb [of R view cfg s recs k b] assms by (auto simp: plain_keeps_def)
  have "kv_inv cfg view s 0 recs" using assms by (simp add: plain_keeps_def)
  then have "kv_inv cfg view t 0 recs" by (rule kv_inv_same [OF t(1)])
  then show ?thesis using t(2) assms by (intro exI [of _ t]) (simp add: plain_keeps_def)
qed

interpretation plain: log_store "put_rec R cfg" "get_rec R cfg" "plain_keeps R cfg view" "\<lambda>_. True"
    "spec_put (capacity cfg)"
  for R cfg view
proof
  show "\<exists>t. put_rec R cfg k v s = Inr (0, t) \<and> plain_keeps R cfg view t (spec_put (capacity cfg) recs (k, v))"
    if "plain_keeps R cfg view s recs" "length v = VALUE_SIZE" for s recs k v
    by (rule plain_put [OF that])
  show "\<exists>t. get_rec R cfg k b s = Inr (0, x, t) \<and> plain_keeps R cfg view t recs"
    if "plain_keeps R cfg view s recs" "current recs k = Some x" for s recs k x b
    using plain_get [OF that(1), of k b] that(2) by simp
  show "\<exists>t. get_rec R cfg k b s = Inr (- 1, b, t) \<and> plain_keeps R cfg view t recs"
    if "plain_keeps R cfg view s recs" "current recs k = None" for s recs k b
    using plain_get [OF that(1), of k b] that(2) by simp
qed

section \<open>What a collection loses\<close>

lemma last_greatest:
  assumes "sorted_wrt (<) (map fst xs)" "xs \<noteq> []"
  shows "Max (fst ` set xs) = fst (last xs)"
proof -
  obtain ys y where xs: "xs = ys @ [y]" using assms(2) by (cases xs rule: rev_cases) auto
  then have "\<forall>k \<in> fst ` set ys. k < fst y" using assms(1) by (auto simp: sorted_wrt_append)
  then have "Max (insert (fst y) (fst ` set ys)) = fst y" by (intro Max_insert2) (auto simp: less_imp_le)
  then show ?thesis by (simp add: xs)
qed

lemma current_sorted:
  assumes "distinct (map fst xs)"
  shows "current xs = map_of xs"
proof -
  have "map_of (rev xs) k = map_of xs k" for k
  proof (cases "map_of xs k")
    case None
    then have "map_of (rev xs) k = None" by (simp add: map_of_eq_None_iff)
    with None show ?thesis by simp
  next
    case (Some v)
    then have "(k, v) \<in> set (rev xs)" by (simp add: map_of_SomeD)
    then have "map_of (rev xs) k = Some v" using assms by (intro map_of_is_SomeI) (simp_all add: rev_map [symmetric])
    with Some show ?thesis by simp
  qed
  then show ?thesis by (auto simp: current_def)
qed

lemma current_kept:
  assumes "recs \<noteq> []"
  shows "current (butlast (live recs)) =
    (current recs)(Max (dom (current recs)) := None)"
proof -
  let ?l = "live recs"
  have ne: "?l \<noteq> []" using assms by simp
  then obtain ys y where l: "?l = ys @ [y]" by (cases ?l rule: rev_cases) auto
  have "dom (current recs) = fst ` set ?l" by (simp only: map_of_live [symmetric] dom_map_of_conv_image_fst)
  then have m: "Max (dom (current recs)) = fst y"
    using last_greatest [OF sorted_live ne] by (simp only: l last_snoc)
  have d: "distinct (map fst (ys @ [y]))" using distinct_live [of recs] by (simp only: l)
  then have "fst y \<notin> fst ` set ys" by auto
  then have "map_of ys = (map_of (ys @ [y]))(fst y := None)"
    using d by (cases y) (auto simp: fun_eq_iff map_add_def map_of_eq_None_iff split: option.splits)
  moreover have "current (butlast ?l) = map_of ys" using d by (simp add: l current_sorted)
  ultimately show ?thesis unfolding m using map_of_live [of recs] l by simp
qed

end
