(* ===== verification/LearnedKV_Scan.thy ===== *)
theory LearnedKV_Scan
  imports LearnedKV_Store "HOL-Library.Monad_Syntax"
begin

text \<open>
  Range scans (\<open>scan\<close>, \<open>mergeKeyValueVectors\<close> in \<open>learned-LSM/learnedKV.h\<close>): the entries of the
  LSM store from an iterator, the records of the learned part from the value log, and their merge.
  The loop over the value log may not end, so a scan is an option: \<open>None\<close> is not returning.
\<close>

type_synonym kvs = "(bytes \<times> bytes) list"

section \<open>Merging\<close>

text \<open>The two iterators are the two lists; at equal keys the entry of the LSM store is kept.\<close>

fun mergeKeyValueVectors :: "kvs \<Rightarrow> kvs \<Rightarrow> kvs \<Rightarrow> fault + kvs" where
  "mergeKeyValueVectors (a # lsm) (b # learned) out =
     (case stringToULL (fst a) of
        Inl e \<Rightarrow> Inl e
      | Inr lsm_key \<Rightarrow>
     (case stringToULL (fst b) of
        Inl e \<Rightarrow> Inl e
      | Inr learned_key \<Rightarrow>
        if lsm_key < learned_key then mergeKeyValueVectors lsm (b # learned) (out @ [a])
        else if learned_key < lsm_key then mergeKeyValueVectors (a # lsm) learned (out @ [b])
        else mergeKeyValueVectors lsm learned (out @ [a])))"
| "mergeKeyValueVectors lsm learned out = Inr (out @ lsm @ learned)"

section \<open>The two parts of a scan\<close>

definition scan_end :: "u64 \<Rightarrow> u64 \<Rightarrow> u64" where
  "scan_end startKey scanRange =
     (if - 1 - scanRange < startKey then - 1 else startKey + scanRange)"

text \<open>The value of an entry of the LSM store. \<open>pos\<close> is decoded by \<open>stringToULL\<close> and then
  overwritten by a \<open>memcpy\<close> of the same bytes.\<close>

definition scan_value :: "bytes \<Rightarrow> u64 \<Rightarrow> u64 \<Rightarrow> bytes \<Rightarrow> fault + bytes" where
  "scan_value vlog keySize valueSize ptr =
     (case stringToULL ptr of
        Inl e \<Rightarrow> Inl e
      | Inr _ \<Rightarrow>
          (let pos = bytes_u64 (take 8 ptr);
               pos = pos * (keySize + valueSize);
               at_value = fseek_set 0 (pos + keySize)
           in Inr (fill (replicate (unat valueSize) 0) (fread_at vlog at_value (unat valueSize)))))"

fun scan_lsm :: "(string \<Rightarrow> bool) \<Rightarrow> u64 \<Rightarrow> u64 \<Rightarrow> u64 \<Rightarrow> kvs \<Rightarrow> disk \<Rightarrow> fault + (kvs \<times> disk)" where
  "scan_lsm may_write keySize valueSize end_key [] d = Inr ([], d)"
| "scan_lsm may_write keySize valueSize end_key ((key, ptr) # es) d =
     (case stringToULL key of
        Inl e \<Rightarrow> Inl e
      | Inr it_ull \<Rightarrow>
        if end_key \<le> it_ull then Inr ([], d) else
     (case fopen_append may_write d VLOG_PATH of
        None \<Rightarrow> Inl NullFile
      | Some d \<Rightarrow>
     (case scan_value (the (d VLOG_PATH)) keySize valueSize ptr of
        Inl e \<Rightarrow> Inl e
      | Inr value \<Rightarrow>
     (case scan_lsm may_write keySize valueSize end_key es d of
        Inl e \<Rightarrow> Inl e
      | Inr (kvs, d) \<Rightarrow> Inr ((key, value) # kvs, d)))))"

text \<open>\<open>while (ftell(vlog) < end_key_pos)\<close>: the position stays where it is at the end of the file,
  so the loop need not end. The buffers are cleared before every read.\<close>

definition scan_record :: "bytes \<Rightarrow> nat \<Rightarrow> (bytes \<times> bytes) \<times> nat" where
  "scan_record vlog pos =
     (let k = fread_at vlog pos KEY_SIZE;
          pos = pos + length k;
          v = fread_at vlog pos VALUE_SIZE
      in ((ullToString (bytes_u64 (fill (replicate 8 0) k)),
           c_string (fill (replicate (VALUE_SIZE + 1) 0) v)), pos + length v))"

partial_function (option) read_range :: "bytes \<Rightarrow> int \<Rightarrow> nat \<Rightarrow> kvs \<Rightarrow> kvs option" where
  "read_range vlog end_pos pos kvs =
     (if int pos < end_pos
      then read_range vlog end_pos (snd (scan_record vlog pos)) (kvs @ [fst (scan_record vlog pos)])
      else Some kvs)"

text \<open>The byte positions of the first record to read and of the first one not to read.\<close>

definition scan_bounds :: "config \<Rightarrow> bytes \<Rightarrow> disk \<Rightarrow> u64 \<Rightarrow> u64 \<Rightarrow> int \<times> int" where
  "scan_bounds cfg ka d startKey end_key =
     (let (start_pos, key_array) = window (fresh cfg 0) ka (query_model startKey d);
          start_key_pos = start_pos + int (find_index (\<lambda>k. k = startKey) key_array) * kv_size;
          (start_pos, key_array) = window (fresh cfg 1) ka (query_model end_key d);
          end_key_pos = start_pos + int (find_index (\<lambda>k. end_key \<le> k) key_array) * kv_size
      in (start_key_pos, if end_key_pos = start_key_pos then end_key_pos + kv_size else end_key_pos))"

definition scan_learned :: "config \<Rightarrow> u64 \<Rightarrow> u64 \<Rightarrow> disk \<Rightarrow> (fault + kvs) option" where
  "scan_learned cfg startKey end_key d =
     (case fopen_read d KEY_ARRAY_PATH of
        None \<Rightarrow> Some (Inl NullFile)
      | Some ka \<Rightarrow>
     (let (start_key_pos, end_key_pos) = scan_bounds cfg ka d startKey end_key
      in case fopen_update (writable cfg) d VLOG_PATH of
        None \<Rightarrow> Some (Inl NullFile)
      | Some c \<Rightarrow> map_option Inr (read_range c end_key_pos (nat start_key_pos) [])))"

section \<open>The scan\<close>

definition scan ::
  "('db, 'm) rocks_api_scheme \<Rightarrow> config \<Rightarrow> u64 \<Rightarrow> u64 \<Rightarrow> kvs \<Rightarrow> u64 \<Rightarrow> u64 \<Rightarrow> 'db kv
     \<Rightarrow> (fault + (int \<times> kvs \<times> 'db kv)) option" where
  "scan R cfg startKey keySize kvs valueSize scanRange s =
     (let end_key = scan_end startKey scanRange;
          (entries, ok) = db_seek R (db s) (ullToString startKey)
      in case scan_lsm (writable cfg) keySize valueSize end_key entries (disk s) of
        Inl e \<Rightarrow> Some (Inl e)
      | Inr (kvs_lsm, d) \<Rightarrow>
     (let s = s\<lparr>disk := d\<rparr>
      in if \<not> ok then Some (Inr (- 1, kvs, s))
      else if learned_index_used cfg then
        (case scan_learned cfg startKey end_key d of
           None \<Rightarrow> None
         | Some (Inl e) \<Rightarrow> Some (Inl e)
         | Some (Inr kvs_learned) \<Rightarrow>
        (case mergeKeyValueVectors kvs_lsm kvs_learned kvs of
           Inl e \<Rightarrow> Some (Inl e)
         | Inr kvs \<Rightarrow>
             Some (Inr (0, kvs, s\<lparr>scan_kvs_count := scan_kvs_count s + int (length kvs)\<rparr>))))
      else Some (Inr (0, kvs_lsm, s\<lparr>scan_kvs_count := scan_kvs_count s + int (length kvs_lsm)\<rparr>))))"

end
