(* ===== verification/Scan_Facts.thy ===== *)
theory Scan_Facts
  imports LearnedKV_Scan
begin

text \<open>
  What a scan returns: the merge of two sorted runs is sorted and prefers the LSM store, the loop
  over the value log returns exactly when its end is not beyond the file, the LSM part has the
  keys of the range in order.
\<close>

section \<open>The merge\<close>

definition enc :: "rec list \<Rightarrow> kvs" where
  "enc = map (\<lambda>(k, v). (ullToString k, v))"

fun merge_spec :: "rec list \<Rightarrow> rec list \<Rightarrow> rec list" where
  "merge_spec (a # xs) (b # ys) =
     (if fst a < fst b then a # merge_spec xs (b # ys)
      else if fst b < fst a then b # merge_spec (a # xs) ys
      else a # merge_spec xs ys)"
| "merge_spec xs ys = xs @ ys"

lemma enc_simps [simp]:
  "enc [] = []" "enc (r # rs) = (ullToString (fst r), snd r) # enc rs" "enc (xs @ ys) = enc xs @ enc ys"
  by (auto simp: enc_def split: prod.splits)

lemma map_fst_enc [simp]: "map fst (enc xs) = map (ullToString \<circ> fst) xs"
  by (induction xs) auto

lemma merge_enc: "mergeKeyValueVectors (enc xs) (enc ys) out = Inr (out @ enc (merge_spec xs ys))"
  by (induction xs ys arbitrary: out rule: merge_spec.induct) simp_all

lemma merge_spec_Nil [simp]: "merge_spec [] ys = ys" "merge_spec xs [] = xs"
  by (cases ys; simp)+

lemma keys_merge_spec: "fst ` set (merge_spec xs ys) = fst ` set xs \<union> fst ` set ys"
  by (induction xs ys rule: merge_spec.induct) auto

lemma merge_spec_above:
  "(\<forall>x \<in> set xs. k < fst x) \<Longrightarrow> (\<forall>y \<in> set ys. k < fst y) \<Longrightarrow> z \<in> set (merge_spec xs ys) \<Longrightarrow> k < fst z"
  using keys_merge_spec [of xs ys] by (smt (verit, ccfv_SIG) UnE image_iff)

lemma sorted_merge_spec:
  "sorted_wrt (<) (map fst xs) \<Longrightarrow> sorted_wrt (<) (map fst ys) \<Longrightarrow>
   sorted_wrt (<) (map fst (merge_spec xs ys))"
proof (induction xs ys rule: merge_spec.induct)
  case (1 a xs b ys)
  then have a: "\<forall>x \<in> set xs. fst a < fst x" and b: "\<forall>y \<in> set ys. fst b < fst y" by auto
  consider "fst a < fst b" | "fst b < fst a" | "fst a = fst b" by (rule linorder_cases)
  then show ?case
  proof cases
    case 1
    with b have "\<forall>y \<in> set (b # ys). fst a < fst y" by auto
    with a have "\<forall>z \<in> set (merge_spec xs (b # ys)). fst a < fst z"
      using merge_spec_above by blast
    with 1 "1.IH"(1) "1.prems" show ?thesis by simp
  next
    case 2
    with a have "\<forall>x \<in> set (a # xs). fst b < fst x" by auto
    with b have "\<forall>z \<in> set (merge_spec (a # xs) ys). fst b < fst z"
      using merge_spec_above by blast
    moreover have "\<not> fst a < fst b" using 2 by simp
    ultimately show ?thesis using 2 "1.IH"(2) "1.prems" by simp
  next
    case 3
    with a b have "\<forall>z \<in> set (merge_spec xs ys). fst a < fst z"
      using merge_spec_above by metis
    with 3 "1.IH"(3) "1.prems" show ?thesis by simp
  qed
qed simp_all

lemma map_of_above: "\<forall>x \<in> set xs. k < fst (x :: rec) \<Longrightarrow> map_of xs k = None"
  by (auto simp: map_of_eq_None_iff)

lemma map_of_merge_spec:
  "sorted_wrt (<) (map fst xs) \<Longrightarrow> sorted_wrt (<) (map fst ys) \<Longrightarrow>
   map_of (merge_spec xs ys) = map_of ys ++ map_of xs"
proof (induction xs ys rule: merge_spec.induct)
  case (1 a xs b ys)
  then have a: "\<forall>x \<in> set xs. fst a < fst x" and b: "\<forall>y \<in> set ys. fst b < fst y" by auto
  consider "fst a < fst b" | "fst b < fst a" | "fst a = fst b" by (rule linorder_cases)
  then show ?case
  proof cases
    case 1
    with "1.IH"(1) "1.prems" show ?thesis
      by (cases a) (auto simp: fun_eq_iff map_add_def split: option.splits)
  next
    case 2
    have "map_of (a # xs) (fst b) = None"
      using a 2 by (intro map_of_above) auto
    with 2 "1.IH"(2) "1.prems" show ?thesis
      by (cases b) (auto simp: fun_eq_iff map_add_def split: option.splits)
  next
    case 3
    have "map_of xs (fst a) = None" "map_of ys (fst a) = None"
      using a b 3 by (auto intro!: map_of_above)
    with 3 "1.IH"(3) "1.prems" show ?thesis
      by (cases a; cases b) (auto simp: fun_eq_iff map_add_def split: option.splits)
  qed
qed (auto simp: map_add_def fun_eq_iff split: option.splits)

section \<open>The loop over the value log\<close>

lemma scan_record_image:
  assumes ws: "well_sized recs" and i: "i < length recs"
  shows "scan_record (vlog_image recs) (1024 * i) =
    ((ullToString (fst (recs ! i)), c_string (snd (recs ! i) @ [0])), 1024 * Suc i)"
proof -
  have k: "fread_at (vlog_image recs) (1024 * i) 8 = u64_bytes (fst (recs ! i))"
    using fread_at_chunk [of recs rec_bytes 1024 i 0 8] i ws
    by (simp add: vlog_image_def [symmetric] length_rec_bytes rec_bytes_def [of "recs ! i"])
  have v: "fread_at (vlog_image recs) (1024 * i + 8) 1016 = snd (recs ! i)"
    using read_rec_value [OF ws i] by simp
  have l: "length (snd (recs ! i)) = 1016" using well_sizedD [OF ws nth_mem [OF i]] .
  have "1024 * i + 1024 \<le> length (vlog_image recs)" using i by (simp add: length_vlog_image [OF ws])
  then have "length (u64_bytes (fst (recs ! i))) = 8" "length (vlog_image recs) - (1024 * i + 8) \<ge> 1016"
    by simp_all
  then show ?thesis using l by (simp add: scan_record_def Let_def k v fill_def)
qed

lemma read_range_image:
  assumes ws: "well_sized recs"
  shows "i \<le> j \<Longrightarrow> j \<le> length recs \<Longrightarrow> read_range (vlog_image recs) (1024 * int j) (1024 * i) kvs =
    Some (kvs @ map (\<lambda>r. (ullToString (fst r), c_string (snd r @ [0]))) (take (j - i) (drop i recs)))"
proof (induction "j - i" arbitrary: i kvs)
  case 0
  then show ?case by (simp add: read_range.simps)
next
  case (Suc n)
  then have i: "i < length recs" "i < j" by auto
  have "take (j - i) (drop i recs) = recs ! i # take (j - Suc i) (drop (Suc i) recs)"
    using i Suc(2) by (metis Cons_nth_drop_Suc Suc_diff_Suc take_Suc_Cons)
  moreover have "n = j - Suc i" using Suc(2) by simp
  ultimately show ?case using Suc.hyps(1) [of "Suc i"] i Suc.prems
    by (subst read_range.simps) (simp add: scan_record_image [OF ws i(1)])
qed

text \<open>A loop that returns has stopped at the end of the file at the latest.\<close>

lemma scan_record_bound: "snd (scan_record c pos) \<le> max pos (length c)"
  by (auto simp: scan_record_def Let_def)

lemma read_range_returns:
  assumes "read_range c e pos kvs = Some r"
  shows "e \<le> int (max pos (length c))"
proof (rule read_range.raw_induct [OF _ assms, of "\<lambda>c e pos kvs r. e \<le> int (max pos (length c))"])
  fix f c e pos kvs and r :: kvs
  assume IH: "\<And>c e pos kvs r. f c e pos kvs = Some r \<Longrightarrow> e \<le> int (max pos (length c))"
    and step: "(if int pos < e then f c e (snd (scan_record c pos)) (kvs @ [fst (scan_record c pos)])
      else Some kvs) = Some r"
  show "e \<le> int (max pos (length c))"
  proof (cases "int pos < e")
    case True
    with IH step have "e \<le> int (max (snd (scan_record c pos)) (length c))" by auto
    with scan_record_bound [of c pos] show ?thesis by simp
  qed simp
qed

section \<open>The LSM part\<close>

text \<open>The byte order of the pointer is lost, so that the offset of any record but the first is a
  multiple of \<open>2 ^ 42\<close>, which is beyond the end of any value log.\<close>

lemma le_bytes_zeros: "le_bytes n 0 = replicate n 0"
  by (induction n) auto

lemma le_val_zeros: "le_val (replicate n 0 @ bs) = 256 ^ n * le_val bs"
  by (induction n) auto

lemma swapped_pointer:
  assumes "p < 2 ^ 32"
  shows "\<exists>x. bytes_u64 (ullToString (word_of_nat p)) = word_of_nat (2 ^ 32 * x)"
proof -
  have u: "unat (word_of_nat p :: u64) = p" using assms by (simp add: unat_of_nat)
  have "u64_bytes (word_of_nat p) = le_bytes 4 p @ le_bytes 4 (p div 256 ^ 4)"
    unfolding u64_bytes_def u using le_bytes_append [of p 4 4 0] assms by simp
  then have "ullToString (word_of_nat p) = replicate 4 0 @ rev (le_bytes 4 p)"
    using assms by (simp add: ullToString_eq le_bytes_zeros)
  then show ?thesis unfolding bytes_u64_def
    by (intro exI [of _ "le_val (rev (le_bytes 4 p))"]) (simp only: le_val_zeros, simp)
qed

lemma swapped_offset:
  assumes "p < 2 ^ 32"
  shows "\<exists>m. unat (bytes_u64 (ullToString (word_of_nat p)) * (key_size + value_size) + key_size)
    = 2 ^ 42 * m + 8"
proof -
  obtain x where x: "bytes_u64 (ullToString (word_of_nat p)) = word_of_nat (2 ^ 32 * x)"
    using swapped_pointer [OF assms] by blast
  have "bytes_u64 (ullToString (word_of_nat p)) * (key_size + value_size) + key_size =
      word_of_nat (2 ^ 42 * x + 8)"
    by (simp add: x key_size_def value_size_def)
  then have "unat (bytes_u64 (ullToString (word_of_nat p)) * (key_size + value_size) + key_size) =
      (2 ^ 42 * x + 8) mod 2 ^ 64"
    by (simp add: unat_of_nat del: of_nat_add of_nat_mult)
  also have "\<dots> = 2 ^ 42 * (x mod 2 ^ 22) + 8"
  proof -
    have "2 ^ 42 * x + 8 = 2 ^ 42 * (x mod 2 ^ 22) + 8 + (x div 2 ^ 22) * 2 ^ 64"
    proof -
      have "2 ^ 42 * y + 8 = 2 ^ 42 * r + 8 + q * 2 ^ 64" if "y = q * 2 ^ 22 + r" for y q r :: nat
        using that by simp
      from this [OF div_mult_mod_eq [symmetric]] show ?thesis .
    qed
    then have "(2 ^ 42 * x + 8) mod 2 ^ 64 = (2 ^ 42 * (x mod 2 ^ 22) + 8) mod 2 ^ 64"
      by (simp only: mod_mult_self1)
    moreover have "2 ^ 42 * (x mod 2 ^ 22) + 8 < (2 ^ 64 :: nat)"
      using mod_less_divisor [of "2 ^ 22" x] by simp
    ultimately show ?thesis by simp
  qed
  finally show ?thesis by blast
qed

lemma swapped_small:
  assumes "p < 256"
  shows "bytes_u64 (ullToString (word_of_nat p)) * (key_size + value_size) = 0"
proof -
  have u: "unat (word_of_nat p :: u64) = p" using assms by (simp add: unat_of_nat)
  have "u64_bytes (word_of_nat p) = le_bytes 1 p @ le_bytes 7 0"
    unfolding u64_bytes_def u using le_bytes_append [of p 1 7 0] assms by simp
  then have "ullToString (word_of_nat p) = replicate 7 0 @ rev (le_bytes 1 p)"
    by (simp add: ullToString_eq le_bytes_zeros)
  then have "bytes_u64 (ullToString (word_of_nat p)) = word_of_nat (256 ^ 7 * le_val (rev (le_bytes 1 p)))"
    unfolding bytes_u64_def by (simp only: le_val_zeros)
  then have "bytes_u64 (ullToString (word_of_nat p)) * (key_size + value_size) =
      word_of_nat (2 ^ 64 * (4 * le_val (rev (le_bytes 1 p))))"
    by (simp add: key_size_def value_size_def del: le_val.simps le_bytes.simps)
  then show ?thesis by (simp only: word_of_nat_eq_0_iff) simp
qed

text \<open>The value a scan delivers for the record at position \<open>p\<close>.\<close>

definition scanned :: "bytes \<Rightarrow> nat \<Rightarrow> bytes" where
  "scanned vlog p = fill (replicate 1016 0) (fread_at vlog
     (fseek_set 0 (bytes_u64 (ullToString (word_of_nat p)) * (key_size + value_size) + key_size)) 1016)"

lemma scan_value_eq:
  "scan_value vlog key_size value_size (ullToString (word_of_nat p)) = Inr (scanned vlog p)"
  by (simp add: scan_value_def scanned_def value_size_def)

lemma fseek_set_unat: "unat x < 2 ^ 63 \<Longrightarrow> fseek_set 0 x = unat x"
  by (simp add: fseek_set_def word_less_nat_alt)

lemma scanned_small:
  assumes "p < 256" "well_sized recs" "recs \<noteq> []"
  shows "scanned (vlog_image recs) p = snd (recs ! 0)"
proof -
  have "fread_at (vlog_image recs) 8 1016 = snd (recs ! 0)"
    using read_rec_value [OF assms(2), of 0 8] assms(3) by simp
  moreover have "length (snd (recs ! 0)) = 1016" using assms(2,3) well_sizedD by (metis length_greater_0_conv nth_mem)
  moreover have "fseek_set 0 (bytes_u64 (ullToString (word_of_nat p)) * (key_size + value_size) + key_size) = 8"
    unfolding swapped_small [OF assms(1)] by (simp add: fseek_set_def key_size_def)
  ultimately show ?thesis by (simp add: scanned_def)
qed

lemma scanned_cases:
  assumes p: "p < 2 ^ 32" and l: "length vlog \<le> 2 ^ 42"
  shows "scanned vlog p \<in> {fill (replicate 1016 0) (fread_at vlog 8 1016), replicate 1016 0,
    fill (replicate 1016 0) (fread_at vlog 0 1016)}"
proof -
  let ?off = "bytes_u64 (ullToString (word_of_nat p)) * (key_size + value_size) + key_size"
  have seek: "fseek_set 0 w = 0 \<or> fseek_set 0 w = unat w" for w by (simp add: fseek_set_def)
  obtain m where m: "unat ?off = 2 ^ 42 * m + 8" using swapped_offset [OF p] by blast
  consider "fseek_set 0 ?off = 0" | "fseek_set 0 ?off = 8" | "2 ^ 42 \<le> fseek_set 0 ?off"
    using m seek [of ?off] by (cases m) auto
  then show ?thesis
  proof cases
    case 3
    with l have "fread_at vlog (fseek_set 0 ?off) 1016 = []" by (simp add: fread_at_def)
    then show ?thesis by (simp add: scanned_def fill_def)
  qed (simp_all add: scanned_def)
qed

lemma ullToString_surj: "length b = 8 \<Longrightarrow> \<exists>k. b = ullToString k"
  using bytes_roundtrip [of "rev b"] by (intro exI [of _ "bytes_u64 (rev b)"]) (simp add: ullToString_eq)

definition pointers :: "(u64 \<times> nat) list \<Rightarrow> kvs" where
  "pointers = map (\<lambda>(k, p). (ullToString k, ullToString (word_of_nat p)))"

lemma scan_lsm_pointers:
  assumes "may_write VLOG_PATH" "d VLOG_PATH = Some vlog"
  shows "scan_lsm may_write key_size value_size e (pointers eps) d =
    Inr (enc (map (\<lambda>(k, p). (k, scanned vlog p)) (takeWhile (\<lambda>(k, p). k < e) eps)), d)"
proof (induction eps)
  case (Cons kp eps)
  have "d(VLOG_PATH \<mapsto> vlog) = d" using assms(2) by auto
  with assms have "fopen_append may_write d VLOG_PATH = Some d" by (simp add: fopen_append_def)
  with Cons assms show ?case
    by (cases kp) (simp add: pointers_def scan_value_eq not_le)
qed (simp add: pointers_def)

text \<open>The entries from a key on, for a store that satisfies the invariant.\<close>

lemma seek_entries:
  assumes R: "rocks_ok R view" and inv: "kv_inv cfg view s base recs"
  shows "\<exists>eps. db_seek R (db s) (ullToString k0) = (pointers eps, True) \<and>
    sorted_wrt (<) (map fst eps) \<and>
    set eps = {(k, p). last_pos base recs k = Some p \<and> k0 \<le> k}"
proof -
  let ?es = "fst (db_seek R (db s) (ullToString k0))"
  have set: "set ?es = {(k', v). view (db s) k' = Some v \<and> \<not> bytes_less k' (ullToString k0)}"
    and sorted: "sorted_wrt bytes_less (map fst ?es)" and ok: "snd (db_seek R (db s) (ullToString k0))"
    using rocks_okD(12,13,14) [OF R] by blast+
  have v8: "length b = 8" if "view (db s) b = Some v" for b v
    using inv that by (auto simp: kv_inv_def)
  have vk: "view (db s) (ullToString k) = map_option (\<lambda>p. ullToString (word_of_nat p)) (last_pos base recs k)" for k
    using inv by (simp add: kv_inv_def)
  define f where "f e = (bytes_u64 (rev (fst e)), the (last_pos base recs (bytes_u64 (rev (fst e)))))"
    for e :: "bytes \<times> bytes"
  have f_enc: "f (ullToString k, v) = (k, the (last_pos base recs k))" for k v
    by (simp add: f_def ullToString_eq)
  have f: "e = (ullToString (fst (f e)), ullToString (word_of_nat (snd (f e)))) \<and>
      last_pos base recs (fst (f e)) = Some (snd (f e)) \<and> k0 \<le> fst (f e)" if "e \<in> set ?es" for e
  proof -
    have e: "view (db s) (fst e) = Some (snd e)" "\<not> bytes_less (fst e) (ullToString k0)"
      using that by (auto simp: set)
    obtain k where k: "fst e = ullToString k" using ullToString_surj v8 [OF e(1)] by blast
    then obtain p where p: "last_pos base recs k = Some p" "snd e = ullToString (word_of_nat p)"
      using e(1) vk [of k] by auto
    then have "e = (ullToString k, ullToString (word_of_nat p))" using k by (simp add: prod_eq_iff)
    then show ?thesis using p e(2) by (simp add: f_enc bytes_less_ullToString not_less)
  qed
  let ?eps = "map f ?es"
  have "map ((\<lambda>(k, p). (ullToString k, ullToString (word_of_nat p))) \<circ> f) ?es = map id ?es"
    using f by (intro map_cong) (simp_all add: case_prod_beta)
  then have es: "pointers ?eps = ?es" by (simp add: pointers_def)
  have "map (ullToString \<circ> (fst \<circ> f)) ?es = map fst ?es"
    using f by (intro map_cong) (simp_all add: prod_eq_iff)
  then have "sorted_wrt bytes_less (map (ullToString \<circ> (fst \<circ> f)) ?es)" using sorted by (simp only:)
  then have "sorted_wrt (<) (map fst ?eps)"
    by (simp add: sorted_wrt_map bytes_less_ullToString)
  moreover have "set ?eps = {(k, p). last_pos base recs k = Some p \<and> k0 \<le> k}"
  proof (intro subset_antisym subsetI)
    fix kp assume "kp \<in> set ?eps"
    then obtain e where "e \<in> set ?es" "kp = f e" by auto
    then show "kp \<in> {(k, p). last_pos base recs k = Some p \<and> k0 \<le> k}"
      using f [of e] by (simp add: case_prod_beta)
  next
    fix kp assume "kp \<in> {(k, p). last_pos base recs k = Some p \<and> k0 \<le> k}"
    then obtain k p where kp: "kp = (k, p)" "last_pos base recs k = Some p" "k0 \<le> k" by auto
    then have "(ullToString k, ullToString (word_of_nat p)) \<in> set ?es"
      by (simp add: set vk bytes_less_ullToString not_less)
    then have "f (ullToString k, ullToString (word_of_nat p)) \<in> set ?eps" by simp
    then show "kp \<in> set ?eps" using kp by (simp only: f_enc option.sel)
  qed
  ultimately show ?thesis using es ok by (intro exI [of _ ?eps]) (simp add: prod_eq_iff)
qed

end
