(* ===== verification/Scan_Store.thy ===== *)
theory Scan_Store
  imports Scan_Facts
begin

text \<open>
  Scans of a store that satisfies the invariant: without the learned index, with it, and the scan
  past the last record of the learned part, which does not return.
\<close>

section \<open>The LSM part\<close>

lemma takeWhile_sorted:
  "sorted_wrt (<) (map fst eps) \<Longrightarrow> set (takeWhile (\<lambda>(k, p). k < (e :: u64)) eps) = {(k, p) \<in> set eps. k < e}"
  by (induction eps) (auto simp: split: prod.splits dest: less_trans)

lemma sorted_takeWhile: "sorted_wrt (<) (map fst eps) \<Longrightarrow> sorted_wrt (<) (map fst (takeWhile Q eps))"
  by (induction eps) (auto dest: set_takeWhileD)

text \<open>The entries of the LSM store in the range, in key order.\<close>

definition in_range :: "nat \<Rightarrow> rec list \<Rightarrow> u64 \<Rightarrow> u64 \<Rightarrow> (u64 \<times> nat) list \<Rightarrow> bool" where
  "in_range base recs k0 e eps \<longleftrightarrow> sorted_wrt (<) (map fst eps) \<and>
     set eps = {(k, p). last_pos base recs k = Some p \<and> k0 \<le> k \<and> k < e}"

definition scanned_recs :: "rec list \<Rightarrow> (u64 \<times> nat) list \<Rightarrow> rec list" where
  "scanned_recs recs eps = map (\<lambda>(k, p). (k, scanned (vlog_image recs) p)) eps"

lemma scan_lsm_ok:
  assumes R: "rocks_ok R view" and inv: "kv_inv cfg view s base recs" and w: "writable cfg VLOG_PATH"
  shows "\<exists>eps es. db_seek R (db s) (ullToString k0) = (es, True) \<and> in_range base recs k0 e eps \<and>
    scan_lsm (writable cfg) key_size value_size e es (disk s) = Inr (enc (scanned_recs recs eps), disk s)"
proof -
  obtain eps where eps: "db_seek R (db s) (ullToString k0) = (pointers eps, True)"
    "sorted_wrt (<) (map fst eps)" "set eps = {(k, p). last_pos base recs k = Some p \<and> k0 \<le> k}"
    using seek_entries [OF R inv] by blast
  let ?in = "takeWhile (\<lambda>(k, p). k < e) eps"
  have "in_range base recs k0 e ?in"
    using eps by (auto simp: in_range_def takeWhile_sorted sorted_takeWhile)
  moreover have "scan_lsm (writable cfg) key_size value_size e (pointers eps) (disk s) =
      Inr (enc (scanned_recs recs ?in), disk s)"
  proof (cases "recs = []")
    case True
    then have "eps = []" using eps(3) by auto
    then show ?thesis by (simp add: pointers_def scanned_recs_def)
  next
    case False
    then have "disk s VLOG_PATH = Some (vlog_image recs)" using inv by (auto simp: kv_inv_def vlog_file_def)
    from scan_lsm_pointers [where d = "disk s" and may_write = "writable cfg" and vlog = "vlog_image recs",
        OF w this, of e eps] show ?thesis by (simp add: scanned_recs_def)
  qed
  ultimately show ?thesis using eps(1) by blast
qed

lemma scan_rocksdb:
  assumes R: "rocks_ok R view" and inv: "kv_inv cfg view s base recs" and w: "writable cfg VLOG_PATH"
    and mode: "\<not> learned_index_used cfg"
  shows "\<exists>eps s'. in_range base recs k0 (scan_end k0 rng) eps \<and> same_store s s' \<and>
    scan R cfg k0 key_size kvs value_size rng s = Some (Inr (0, enc (scanned_recs recs eps), s'))"
proof -
  obtain eps es where e: "db_seek R (db s) (ullToString k0) = (es, True)"
    "in_range base recs k0 (scan_end k0 rng) eps"
    "scan_lsm (writable cfg) key_size value_size (scan_end k0 rng) es (disk s) =
      Inr (enc (scanned_recs recs eps), disk s)"
    using scan_lsm_ok [OF R inv w] by blast
  then show ?thesis by (intro exI [of _ eps]) (simp add: scan_def mode same_store_def Let_def)
qed

text \<open>With fewer than 257 records in the log, every value a scan delivers from the LSM store is the
  value of the first record.\<close>

lemma scanned_recs_small:
  assumes ws: "well_sized recs" and ne: "recs \<noteq> []" and n: "length recs \<le> 256"
    and eps: "in_range base recs k0 e eps"
  shows "scanned_recs recs eps = map (\<lambda>(k, p). (k, snd (recs ! 0))) eps"
proof -
  have "p < 256" if "(k, p) \<in> set eps" for k p
    using that eps n last_pos_SomeD [of base recs k p] by (auto simp: in_range_def)
  then show ?thesis unfolding scanned_recs_def
    by (intro map_cong) (auto simp: scanned_small [OF _ ws ne])
qed

section \<open>The learned part\<close>

lemma find_index_window_pred:
  assumes "\<forall>l < j. \<not> Q (ks ! l)" "Q (ks ! j)" "j < length ks" "lo \<le> j" "j < lo + n"
  shows "find_index Q (take n (drop lo ks) @ rest) = j - lo"
proof -
  let ?w = "take n (drop lo ks)"
  have j: "j - lo < length ?w" using assms by auto
  have split: "?w = take (j - lo) ?w @ ks ! j # drop (Suc (j - lo)) ?w"
    using id_take_nth_drop [OF j] assms by simp
  have "\<forall>x \<in> set (take (j - lo) ?w). \<not> Q x"
    using assms(1,4) j by (auto simp: in_set_conv_nth)
  from find_index_append_at [OF this assms(2), of "drop (Suc (j - lo)) ?w @ rest"]
  have "find_index Q ((take (j - lo) ?w @ ks ! j # drop (Suc (j - lo)) ?w) @ rest) = j - lo"
    using j by simp
  then show ?thesis by (simp only: split [symmetric])
qed

text \<open>The window around the prediction \<open>P\<close> contains position \<open>i\<close>.\<close>

definition near :: "int \<Rightarrow> nat \<Rightarrow> bool" where
  "near P i \<longleftrightarrow> P - 1000 \<le> int i \<and> int i < P + 1000"

lemma window_find:
  assumes P: "- 1 \<le> P" and j: "\<forall>l < j. \<not> Q (ks ! l)" "Q (ks ! j)" "j < length ks" and near: "near P j"
  shows "(case window mem (concat (map u64_bytes ks)) P of (start_pos, key_array) \<Rightarrow>
    start_pos + int (find_index Q key_array) * 1024) = 1024 * int j"
proof -
  have lo: "nat (P - 1000) \<le> j" using near by (simp add: near_def nat_le_iff)
  have "find_index Q (snd (window mem (concat (map u64_bytes ks)) P)) = j - nat (P - 1000)"
    unfolding window_eq [OF P] snd_conv
    by (rule find_index_window_pred [OF j]) (use near P in \<open>unfold near_def, linarith\<close>)+
  then show ?thesis unfolding window_eq [OF P] using lo by (simp add: of_nat_diff)
qed

definition learned_recs :: "rec list \<Rightarrow> nat \<Rightarrow> nat \<Rightarrow> rec list" where
  "learned_recs recs i j =
     map (\<lambda>r. (fst r, c_string (snd r @ [0]))) (take (if i = j then 1 else j - i) (drop i recs))"

lemma enc_learned:
  "map (\<lambda>r. (ullToString (fst r), c_string (snd r @ [0]))) rs = enc (map (\<lambda>r. (fst r, c_string (snd r @ [0]))) rs)"
  by (induction rs) auto

lemma scan_learned_ok:
  assumes inv: "kv_inv cfg view s base recs" and base: "base \<noteq> 0" and w: "writable cfg VLOG_PATH"
    and i: "i < base" "k0 = fst (recs ! i)" "near (query_model k0 (disk s)) i"
    and j: "j < base" "\<forall>l < j. fst (recs ! l) < e" "e \<le> fst (recs ! j)" "near (query_model e (disk s)) j"
    and ij: "i \<le> j"
  shows "scan_learned cfg k0 e (disk s) = Some (Inr (enc (learned_recs recs i j)))"
proof -
  define ks where "ks = map fst (take base recs)"
  have ws: "well_sized recs" and b: "base \<le> length recs" and img: "disk s VLOG_PATH = Some (vlog_image recs)"
    and ka: "disk s KEY_ARRAY_PATH = Some (concat (map u64_bytes ks))" and sorted: "sorted_wrt (<) ks"
    using inv base by (auto simp: kv_inv_def vlog_file_def index_files_def Let_def ks_def)
  have nth: "ks ! l = fst (recs ! l)" "l < length ks" if "l < base" for l
    using that b by (auto simp: ks_def)
  have P: "- 1 \<le> query_model k d" for k d using query_model_bounds by blast
  have "\<forall>l < i. ks ! l \<noteq> k0"
    using sorted i nth by (metis less_irrefl sorted_wrt_nth_less)
  then have si: "(case window (fresh cfg 0) (concat (map u64_bytes ks)) (query_model k0 (disk s)) of
      (start_pos, key_array) \<Rightarrow> start_pos + int (find_index (\<lambda>k. k = k0) key_array) * 1024) = 1024 * int i"
    using i nth by (intro window_find P) simp_all
  have "\<forall>l < j. \<not> e \<le> ks ! l" using j nth by auto
  then have sj: "(case window (fresh cfg 1) (concat (map u64_bytes ks)) (query_model e (disk s)) of
      (start_pos, key_array) \<Rightarrow> start_pos + int (find_index (\<lambda>k. e \<le> k) key_array) * 1024) = 1024 * int j"
    using j nth by (intro window_find P) simp_all
  let ?j = "if i = j then Suc j else j"
  have "scan_bounds cfg (concat (map u64_bytes ks)) (disk s) k0 e = (1024 * int i, 1024 * int ?j)"
    using si sj by (auto simp: scan_bounds_def Let_def split: prod.splits)
  moreover have "nat (1024 * int i) = 1024 * i" by simp
  moreover have "read_range (vlog_image recs) (1024 * int ?j) (1024 * i) [] = Some (enc (learned_recs recs i j))"
    using read_range_image [OF ws, of i ?j "[]"] ij j(1) b
    by (cases "i = j") (simp_all add: enc_learned learned_recs_def)
  ultimately show ?thesis
    by (simp add: scan_learned_def fopen_read_def fopen_update_def ka img w)
qed

lemma scan_learned_merge:
  assumes R: "rocks_ok R view" and inv: "kv_inv cfg view s base recs" and base: "base \<noteq> 0"
    and w: "writable cfg VLOG_PATH"
    and i: "i < base" "k0 = fst (recs ! i)" "near (query_model k0 (disk s)) i"
    and e: "e = scan_end k0 rng"
    and j: "j < base" "\<forall>l < j. fst (recs ! l) < e" "e \<le> fst (recs ! j)" "near (query_model e (disk s)) j"
    and ij: "i \<le> j"
  shows "\<exists>eps s'. in_range base recs k0 e eps \<and> same_store s s' \<and>
    scan R cfg k0 key_size kvs value_size rng s = Some (Inr (0,
      kvs @ enc (merge_spec (scanned_recs recs eps) (learned_recs recs i j)), s'))"
proof -
  have mode: "learned_index_used cfg" using inv base by (auto simp: kv_inv_def)
  obtain eps es where "db_seek R (db s) (ullToString k0) = (es, True)" "in_range base recs k0 e eps"
    "scan_lsm (writable cfg) key_size value_size e es (disk s) = Inr (enc (scanned_recs recs eps), disk s)"
    using scan_lsm_ok [OF R inv w] by blast
  then show ?thesis using scan_learned_ok [OF inv base w i j ij]
    by (intro exI [of _ eps]) (simp add: scan_def mode same_store_def merge_enc flip: e)
qed

section \<open>A scan that does not return\<close>

text \<open>The end of the range lies beyond every indexed key, the window of its prediction reaches past
  the last record, and the part of the window beyond the key array holds memory below the end key.\<close>

lemma scan_diverges:
  assumes R: "rocks_ok R view" and inv: "kv_inv cfg view s base recs" and base: "base \<noteq> 0"
    and all: "base = length recs" and w: "writable cfg VLOG_PATH"
    and i: "i < base" "k0 = fst (recs ! i)" "near (query_model k0 (disk s)) i"
    and e: "e = scan_end k0 rng" and beyond: "\<forall>r \<in> set recs. fst r < e"
    and past: "int base < query_model e (disk s) + 1000" and mem: "\<forall>n. fresh cfg 1 n < e"
  shows "scan R cfg k0 key_size kvs value_size rng s = None"
proof -
  define ks where "ks = map fst recs"
  have ws: "well_sized recs" and img: "disk s VLOG_PATH = Some (vlog_image recs)"
    and mode: "learned_index_used cfg"
    and ka: "disk s KEY_ARRAY_PATH = Some (concat (map u64_bytes ks))" and sorted: "sorted_wrt (<) ks"
    using inv base all by (auto simp: kv_inv_def vlog_file_def index_files_def Let_def ks_def)
  have P: "- 1 \<le> query_model k d" for k d using query_model_bounds by blast
  have "\<forall>l < i. ks ! l \<noteq> k0"
    using sorted i all by (auto simp: ks_def sorted_wrt_iff_nth_less) (metis less_irrefl)
  then have si: "(case window (fresh cfg 0) (concat (map u64_bytes ks)) (query_model k0 (disk s)) of
      (start_pos, key_array) \<Rightarrow> start_pos + int (find_index (\<lambda>k. k = k0) key_array) * 1024) = 1024 * int i"
    using i all by (intro window_find P) (simp_all add: ks_def)
  let ?W = "window (fresh cfg 1) (concat (map u64_bytes ks)) (query_model e (disk s))"
  let ?P = "query_model e (disk s)"
  have "\<forall>x \<in> set (snd ?W). \<not> e \<le> x"
    unfolding window_eq [OF P] using beyond mem
    by (auto simp: ks_def not_le dest!: in_set_takeD in_set_dropD)
  then have sj: "(case ?W of (start_pos, key_array) \<Rightarrow>
      start_pos + int (find_index (\<lambda>k. e \<le> k) key_array) * 1024) > 1024 * int base"
    using past unfolding window_eq [OF P]
    by (auto simp: find_index_none ks_def all)
  then have "scan_bounds cfg (concat (map u64_bytes ks)) (disk s) k0 e =
      (1024 * int i, case ?W of (start_pos, key_array) \<Rightarrow> start_pos + int (find_index (\<lambda>k. e \<le> k) key_array) * 1024)"
    (is "_ = (_, ?e)")
    using si i(1) by (auto simp: scan_bounds_def Let_def split: prod.splits)
  moreover have "read_range (vlog_image recs) ?e (1024 * i) [] = None"
  proof (rule ccontr)
    assume "read_range (vlog_image recs) ?e (1024 * i) [] \<noteq> None"
    then obtain out where "read_range (vlog_image recs) ?e (1024 * i) [] = Some out" by blast
    from read_range_returns [OF this] have "?e \<le> int (1024 * base)"
      using i(1) all by (simp add: length_vlog_image [OF ws] max_def split: if_splits)
    with sj show False by simp
  qed
  moreover have "nat (1024 * int i) = 1024 * i" by simp
  ultimately have "scan_learned cfg k0 e (disk s) = None"
    by (simp only: scan_learned_def fopen_read_def fopen_update_def ka img w option.case if_True Let_def
        prod.case option.map)
  moreover obtain eps es where "db_seek R (db s) (ullToString k0) = (es, True)"
    "scan_lsm (writable cfg) key_size value_size e es (disk s) = Inr (enc (scanned_recs recs eps), disk s)"
    using scan_lsm_ok [OF R inv w] by blast
  ultimately show ?thesis by (simp add: scan_def mode flip: e)
qed

section \<open>Keys and values of a scan of the LSM store\<close>

lemma scan_end_saturates: "unat (scan_end k0 rng) = min (unat k0 + unat rng) (2 ^ 64 - 1)"
proof -
  have m: "unat (- 1 :: u64) = 2 ^ 64 - 1" by (simp add: unsigned_minus_1_eq_mask mask_eq_exp_minus_1)
  have r: "unat (- 1 - rng) = 2 ^ 64 - 1 - unat rng"
    using unat_u64_less [of rng] by (simp add: unat_sub_if_size m word_size)
  show ?thesis
  proof (cases "- 1 - rng < k0")
    case True
    then have "2 ^ 64 - 1 - unat rng < unat k0" by (simp add: word_less_nat_alt r)
    with True show ?thesis unfolding scan_end_def by (simp only: if_True m)
  next
    case False
    then have "unat k0 + unat rng < 2 ^ 64"
      using unat_u64_less [of rng] by (simp add: word_less_nat_alt r)
    with False show ?thesis by (simp add: scan_end_def unat_add_no_wrap)
  qed
qed

lemma map_fst_scanned [simp]: "map fst (scanned_recs recs eps) = map fst eps"
  by (auto simp: scanned_recs_def)

lemma scan_rocksdb_keys:
  assumes R: "rocks_ok R view" and inv: "kv_inv cfg view s 0 recs" and w: "writable cfg VLOG_PATH"
    and mode: "\<not> learned_index_used cfg"
  shows "\<exists>out t. scan R cfg k0 key_size kvs value_size rng s = Some (Inr (0, out, t)) \<and>
    sorted_wrt bytes_less (map fst out) \<and>
    fst ` set out = ullToString ` {k \<in> dom (current recs). k0 \<le> k \<and> k < scan_end k0 rng}"
proof -
  obtain eps t where e: "in_range 0 recs k0 (scan_end k0 rng) eps"
    "scan R cfg k0 key_size kvs value_size rng s = Some (Inr (0, enc (scanned_recs recs eps), t))"
    using scan_rocksdb [OF R inv w mode] by blast
  let ?out = "enc (scanned_recs recs eps)"
  have ks: "map fst ?out = map ullToString (map fst eps)"
    by (simp only: map_fst_enc map_map [symmetric] map_fst_scanned)
  have "sorted_wrt bytes_less (map fst ?out)"
    unfolding ks using e(1) by (simp add: in_range_def sorted_wrt_map bytes_less_ullToString)
  moreover have "fst ` set ?out = ullToString ` (fst ` set eps)"
    using arg_cong [OF ks, of set] by (simp only: set_map)
  moreover have "fst ` set eps = {k \<in> dom (current recs). k0 \<le> k \<and> k < scan_end k0 rng}"
  proof -
    have eps: "set eps = {(k, p). last_pos 0 recs k = Some p \<and> k0 \<le> k \<and> k < scan_end k0 rng}"
      using e(1) by (simp add: in_range_def)
    show ?thesis unfolding eps by (auto simp: dom_def current_last_pos image_iff)
  qed
  ultimately show ?thesis using e(2) by simp
qed

lemma scan_rocksdb_values:
  assumes R: "rocks_ok R view" and inv: "kv_inv cfg view s 0 recs" and w: "writable cfg VLOG_PATH"
    and mode: "\<not> learned_index_used cfg" and ne: "recs \<noteq> []"
  shows "\<exists>out t. scan R cfg k0 key_size kvs value_size rng s = Some (Inr (0, out, t)) \<and>
    (\<forall>v \<in> snd ` set out. v \<in> {snd (recs ! 0), replicate 1016 0, take 1016 (vlog_image recs)}) \<and>
    (length recs \<le> 256 \<longrightarrow> (\<forall>v \<in> snd ` set out. v = snd (recs ! 0)))"
proof -
  obtain eps t where e: "in_range 0 recs k0 (scan_end k0 rng) eps"
    "scan R cfg k0 key_size kvs value_size rng s = Some (Inr (0, enc (scanned_recs recs eps), t))"
    using scan_rocksdb [OF R inv w mode] by blast
  have ws: "well_sized recs" and n: "length recs \<le> 100000000" using inv by (auto simp: kv_inv_def)
  let ?v = "vlog_image recs"
  have l: "length ?v = 1024 * length recs" by (rule length_vlog_image [OF ws])
  have big: "1016 \<le> length ?v" using l ne by (cases recs) simp_all
  have first: "fread_at ?v 8 1016 = snd (recs ! 0)"
    using read_rec_value [OF ws, of 0 8] ne by simp
  have len: "length (snd (recs ! 0)) = 1016" using ws ne by (cases recs) simp_all
  have pos: "p < length recs" if "(k, p) \<in> set eps" for k p
    using that e(1) last_pos_SomeD [of 0 recs k p] by (auto simp: in_range_def)
  have "scanned ?v p \<in> {snd (recs ! 0), replicate 1016 0, take 1016 ?v}" if "p < length recs" for p
    using scanned_cases [of p ?v] that n l len big by (auto simp: first fill_def fread_at_def [of _ 0])
  then have "\<forall>r \<in> set (scanned_recs recs eps). snd r \<in> {snd (recs ! 0), replicate 1016 0, take 1016 ?v}"
    using pos unfolding scanned_recs_def by fastforce
  moreover have "\<forall>r \<in> set (scanned_recs recs eps). snd r = snd (recs ! 0)" if "length recs \<le> 256"
    unfolding scanned_recs_small [OF ws ne that e(1)] by auto
  moreover have "snd ` set (enc rs) = snd ` set rs" for rs by (induction rs) auto
  ultimately show ?thesis using e(2) by (intro exI conjI) (assumption, simp_all)
qed

end
