(* ===== verification/Float_Error.thy ===== *)
theory Float_Error
  imports PLR
begin

text \<open>
  Error bounds of the arithmetic of the learned index: one operation is off by a relative error of
  \<open>2 ^ -53\<close>, and a segment fitted through two neighbouring points predicts every key below
  \<open>2 ^ 53\<close> within 8 positions of the exact line.
\<close>

section \<open>One operation\<close>

lemma p2_m53: "p2 (- 53) = 1 / 9007199254740992"
  by (simp add: p2_def power_int_def power_divide)

lemma p2_60: "p2 60 = 1152921504606846976"
  by (simp add: p2_def power_int_def)

lemma representable_p2_60: "representable (1152921504606846976)"
  unfolding representable_def
  by (intro conjI exI [of _ 1] exI [of _ "60 :: int"]) (simp_all add: p2_60 [symmetric] ibit_def)

lemma round_exp_error:
  assumes "0 < q"
  shows "p2 (round_exp q) / 2 \<le> (q + 1) / 9007199254740992"
proof -
  have half: "p2 e / 2 = p2 (e + 52) * p2 (- 53)" for e
    by (simp add: p2_add [symmetric]) (simp add: p2_diff p2_1 [symmetric] del: p2_1)
  have "p2 (round_exp q + 52) \<le> q + 1"
  proof (cases "- 1074 \<le> ilog2 q - 52")
    case True
    then show ?thesis using ilog2_bounds [OF assms] by (simp add: round_exp_def)
  next
    case False
    then have "round_exp q + 52 \<le> 0" by (simp add: round_exp_def)
    then have "p2 (round_exp q + 52) \<le> p2 0" by (simp only: p2_le_iff)
    then show ?thesis using assms by simp
  qed
  then show ?thesis unfolding half by (simp add: p2_m53 divide_right_mono)
qed

lemma rnd_error:
  assumes "\<bar>q\<bar> \<le> 1152921504606846976"
  shows "\<bar>rnd q - q\<bar> \<le> (\<bar>q\<bar> + 1) / 9007199254740992"
proof -
  have pos: "\<bar>mag_val (round_mag q) - q\<bar> \<le> (q + 1) / 9007199254740992"
    if "0 < q" "q \<le> 1152921504606846976" for q
  proof -
    have "round_mag q \<le> round_mag 1152921504606846976" using that by (intro round_mag_mono) simp_all
    also have "\<dots> < inf_mag" using round_mag_exact [OF representable_p2_60] by simp
    finally show ?thesis using round_mag_error [OF that(1)] round_exp_error [OF that(1)] by linarith
  qed
  consider "q = 0" | "0 < q" | "q < 0" by linarith
  then show ?thesis
  proof cases
    case 1
    then show ?thesis by simp
  next
    case 2
    then show ?thesis using pos [of q] assms by (simp add: rnd_def)
  next
    case 3
    moreover have "\<bar>rnd q - q\<bar> = \<bar>mag_val (round_mag (- q)) - (- q)\<bar>"
      using 3 by (simp add: rnd_def)
    ultimately show ?thesis using pos [of "- q"] assms by simp
  qed
qed

lemma is_fin_round_60: "\<bar>q\<bar> \<le> 1152921504606846976 \<Longrightarrow> is_fin (round_double s q)"
  by (rule is_fin_round_bound [OF _ representable_p2_60])

text \<open>Integers below \<open>2 ^ 53\<close> are exact.\<close>

lemma double_of_u64_exact:
  assumes "uint w = k" "k < 9007199254740992"
  shows "is_fin (double_of_u64 w)" "valof (double_of_u64 w) = of_int k"
proof -
  have "0 \<le> k" using assms(1) uint_nonnegative by blast
  then have "representable (of_int k)"
    using assms(2) by (intro representable_int) (simp add: ibit_def)
  then show "is_fin (double_of_u64 w)" "valof (double_of_u64 w) = of_int k"
    unfolding double_of_u64_def assms(1) by (simp_all add: is_fin_round_double rnd_exact)
qed

lemma rnd_int: "\<bar>i\<bar> < 9007199254740992 \<Longrightarrow> rnd (of_int i) = of_int i"
  by (intro rnd_exact representable_int) (simp add: ibit_def)

section \<open>A fitted segment\<close>

text \<open>Integer operations below \<open>2 ^ 53\<close> are exact.\<close>

lemma int_op:
  assumes "\<bar>n\<bar> < 9007199254740992"
  shows "is_fin (round_double s (of_int n))" "valof (round_double s (of_int n)) = of_int n"
proof -
  have "representable (of_int n)" using assms by (intro representable_int) (simp add: ibit_def)
  then show "is_fin (round_double s (of_int n))" "valof (round_double s (of_int n)) = of_int n"
    by (simp_all add: is_fin_round_double rnd_exact)
qed

lemma dsub_int:
  assumes "is_fin a" "valof a = of_int m" "is_fin b" "valof b = of_int n" "\<bar>m - n\<bar> < 9007199254740992"
  shows "is_fin (dsub a b)" "valof (dsub a b) = of_int (m - n)"
  using int_op [OF assms(5)] by (simp_all add: dsub_fin [OF assms(1,3)] assms(2,4))

lemma dmul_int:
  assumes "is_fin a" "valof a = of_int m" "is_fin b" "valof b = of_int n" "\<bar>m * n\<bar> < 9007199254740992"
  shows "is_fin (dmul a b)" "valof (dmul a b) = of_int (m * n)"
  using int_op [OF assms(5)] by (simp_all add: dmul_fin [OF assms(1,3)] assms(2,4))

lemma ddiv_int:
  assumes "is_fin a" "valof a = of_int m" "is_fin b" "valof b = of_int n" "1 \<le> n"
    "\<bar>m\<bar> < 9007199254740992"
  shows "is_fin (ddiv a b)" "valof (ddiv a b) = rnd (of_int m / of_int n)"
proof -
  have nz: "valof b \<noteq> 0" using assms(4,5) by simp
  have "\<bar>(of_int m :: rat) / of_int n\<bar> \<le> \<bar>of_int m\<bar>"
    using assms(5) by (simp add: divide_le_eq mult_le_cancel_left1)
  also have "\<dots> < of_int 9007199254740992" using assms(6) by (simp only: of_int_abs [symmetric] of_int_less_iff)
  finally have "\<bar>(of_int m :: rat) / of_int n\<bar> \<le> 1152921504606846976" by simp
  then show "is_fin (ddiv a b)" "valof (ddiv a b) = rnd (of_int m / of_int n)"
    by (simp_all add: ddiv_fin [OF assms(1,3) nz] assms(2,4) is_fin_round_60)
qed

text \<open>The points \<open>(x0, i)\<close> and \<open>(x1, i + 1)\<close>, small enough for the products to be exact.\<close>

definition points :: "u64 \<Rightarrow> double \<Rightarrow> u64 \<Rightarrow> double \<Rightarrow> int \<Rightarrow> int \<Rightarrow> int \<Rightarrow> bool" where
  "points x0 y0 x1 y1 k0 k1 i \<longleftrightarrow> uint x0 = k0 \<and> uint x1 = k1 \<and> k0 < k1 \<and> 0 \<le> i \<and>
     (i + 1) * k1 < 9007199254740992 \<and>
     is_fin y0 \<and> valof y0 = of_int i \<and> is_fin y1 \<and> valof y1 = of_int (i + 1)"

lemma points_bounds:
  assumes "points x0 y0 x1 y1 k0 k1 i"
  shows "0 \<le> k0" "1 \<le> k1 - k0" "k1 < 9007199254740992" "i + 1 < 9007199254740992"
    "(i + 1) * k0 < 9007199254740992" "i * k1 < 9007199254740992"
proof -
  have k: "0 \<le> k0" "k0 < k1" "0 \<le> i" "(i + 1) * k1 < 9007199254740992"
    using assms uint_nonnegative [of x0] by (auto simp: points_def)
  then show "0 \<le> k0" "1 \<le> k1 - k0" by simp_all
  have "1 * k1 \<le> (i + 1) * k1" using k by (intro mult_right_mono) simp_all
  then show "k1 < 9007199254740992" using k(4) by linarith
  have "i + 1 \<le> (i + 1) * k1" using k mult_left_mono [of 1 k1 "i + 1"] by simp
  then show "i + 1 < 9007199254740992" using k(4) by linarith
  have "(i + 1) * k0 \<le> (i + 1) * k1" using k by (intro mult_left_mono) simp_all
  then show "(i + 1) * k0 < 9007199254740992" using k(4) by linarith
  have "i * k1 \<le> (i + 1) * k1" using k by (intro mult_right_mono) simp_all
  then show "i * k1 < 9007199254740992" using k(4) by linarith
qed

lemma fit_points:
  assumes P: "points x0 y0 x1 y1 k0 k1 i"
  shows "is_fin (slope (fit x0 y0 x1 y1))" "is_fin (intercept (fit x0 y0 x1 y1))"
    "valof (slope (fit x0 y0 x1 y1)) = rnd (1 / of_int (k1 - k0))"
    "valof (intercept (fit x0 y0 x1 y1)) = rnd (of_int i - of_int k0 / of_int (k1 - k0))"
proof -
  note B = points_bounds [OF P]
  have k: "uint x0 = k0" "uint x1 = k1" and i: "0 \<le> i" and y0: "is_fin y0" "valof y0 = of_int i"
    and y1: "is_fin y1" "valof y1 = of_int (i + 1)"
    using P by (simp_all add: points_def)
  have d: "uint (x1 - x0) = k1 - k0" using k B(2) uint_minus_simple_alt [of x0 x1] by (simp add: word_le_def)
  have lt: "k1 - k0 < 9007199254740992" "k0 < 9007199254740992" using B by linarith+
  note D = double_of_u64_exact [OF d lt(1)]
  note X0 = double_of_u64_exact [OF k(1) lt(2)] and X1 = double_of_u64_exact [OF k(2) B(3)]
  note S = dsub_int [OF y1 y0, simplified]
  show "is_fin (slope (fit x0 y0 x1 y1))" "valof (slope (fit x0 y0 x1 y1)) = rnd (1 / of_int (k1 - k0))"
    using ddiv_int [OF S(1) _ D B(2), of 1] S(2) by (simp_all add: fit_def)
  have pos: "0 \<le> i * k1" "0 \<le> k0 * (i + 1)" using i B(1,2) by simp_all
  have M1: "is_fin (dmul y0 (double_of_u64 x1))" "valof (dmul y0 (double_of_u64 x1)) = of_int (i * k1)"
    by (rule dmul_int [OF y0 X1]; use pos B in simp)+
  have M2: "is_fin (dmul (double_of_u64 x0) y1)" "valof (dmul (double_of_u64 x0) y1) = of_int (k0 * (i + 1))"
    by (rule dmul_int [OF X0 y1]; use pos B in \<open>simp add: mult.commute\<close>)+
  have n: "\<bar>i * k1 - k0 * (i + 1)\<bar> < 9007199254740992" using pos B(5,6) by (simp add: mult.commute)
  note N = dsub_int [OF M1 M2 n]
  have "(of_int (i * k1 - k0 * (i + 1)) :: rat) / of_int (k1 - k0) = of_int i - of_int k0 / of_int (k1 - k0)"
    using B(2) by (simp add: field_simps)
  then show "is_fin (intercept (fit x0 y0 x1 y1))"
    "valof (intercept (fit x0 y0 x1 y1)) = rnd (of_int i - of_int k0 / of_int (k1 - k0))"
    using ddiv_int [OF N D B(2) n] by (simp_all add: fit_def)
qed

text \<open>The prediction of any key below \<open>2 ^ 53\<close> is within 8 of the line through the points.\<close>

lemma rnd_close:
  assumes "\<bar>q - r\<bar> \<le> e" "\<bar>r\<bar> \<le> 18014398509481984" "e \<le> 100"
  shows "\<bar>rnd q - r\<bar> \<le> e + 5 / 2"
proof -
  have q: "\<bar>q\<bar> \<le> 18014398509481984 + 100" using assms by linarith
  then have "\<bar>rnd q - q\<bar> \<le> (\<bar>q\<bar> + 1) / 9007199254740992" by (intro rnd_error) simp
  also have "\<dots> \<le> 5 / 2" using q by simp
  finally show ?thesis using assms(1) by linarith
qed

lemma rat_range:
  assumes "0 \<le> k" "k \<le> 9007199254740992"
  shows "0 \<le> (of_int k :: rat)" "(of_int k :: rat) \<le> 9007199254740992"
proof -
  show "0 \<le> (of_int k :: rat)" using assms(1) by simp
  have "(of_int k :: rat) \<le> of_int 9007199254740992" using assms(2) by (simp only: of_int_le_iff)
  then show "(of_int k :: rat) \<le> 9007199254740992" by simp
qed

lemma predict_fit:
  assumes P: "points x0 y0 x1 y1 k0 k1 i" and k: "uint key = k" "k < 9007199254740992"
  defines "f \<equiv> fit x0 y0 x1 y1"
  shows "is_fin (predict (slope f) (intercept f) key)"
    "\<bar>valof (predict (slope f) (intercept f) key) - ((of_int k - of_int k0) / of_int (k1 - k0) + of_int i)\<bar> \<le> 12"
proof -
  note B = points_bounds [OF P] and F = fit_points [OF P, folded f_def]
  note K = double_of_u64_exact [OF k]
  have k0: "0 \<le> k" using k(1) uint_nonnegative [of key] by simp
  define D where "D = (of_int (k1 - k0) :: rat)"
  have D: "1 \<le> D" unfolding D_def using B(2) by (simp only: of_int_1_le_iff)
  have kr: "0 \<le> (of_int k :: rat)" "(of_int k :: rat) \<le> 9007199254740992"
    using rat_range [OF k0 less_imp_le [OF k(2)]] .
  have k0r: "0 \<le> (of_int k0 :: rat)" "(of_int k0 :: rat) \<le> 9007199254740992"
    by (rule rat_range; use B in linarith)+
  have "0 \<le> i" using P by (simp add: points_def)
  then have ir: "0 \<le> (of_int i :: rat)" "(of_int i :: rat) \<le> 9007199254740992"
    by (rule rat_range; use B in linarith)+
  have inv: "0 \<le> 1 / D" "1 / D \<le> 1" using D by (simp_all add: divide_le_eq)
  have le: "0 \<le> x / D" "x / D \<le> x" if "0 \<le> x" for x
    using that D mult_left_mono [OF D that] by (simp_all add: divide_le_eq)
  have q: "0 \<le> of_int k / D" "of_int k / D \<le> 9007199254740992" "0 \<le> of_int k0 / D" "of_int k0 / D \<le> 9007199254740992"
    using le [OF kr(1)] le [OF k0r(1)] kr(2) k0r(2) by linarith+
  have "\<bar>rnd (1 / D) - 1 / D\<bar> \<le> (\<bar>1 / D\<bar> + 1) / 9007199254740992" using inv by (intro rnd_error) simp
  also have "\<dots> \<le> 2 / 9007199254740992" using inv by simp
  finally have "\<bar>rnd (1 / D) - 1 / D\<bar> * of_int k \<le> 2 / 9007199254740992 * 9007199254740992"
    using kr by (intro mult_mono) simp_all
  then have "\<bar>(rnd (1 / D) - 1 / D) * of_int k\<bar> \<le> 2" using kr by (simp add: abs_mult)
  then have a: "\<bar>rnd (1 / D) * of_int k - of_int k / D\<bar> \<le> 2" by (simp add: left_diff_distrib)
  then have ak: "\<bar>rnd (rnd (1 / D) * of_int k) - of_int k / D\<bar> \<le> 9 / 2"
    using rnd_close [OF a] q by simp
  have b: "\<bar>rnd (of_int i - of_int k0 / D) - (of_int i - of_int k0 / D)\<bar> \<le> 5 / 2"
    using rnd_close [of "of_int i - of_int k0 / D" "of_int i - of_int k0 / D" 0] q ir by simp
  let ?m = "dmul (slope f) (double_of_u64 key)"
  have m: "is_fin ?m" "valof ?m = rnd (rnd (1 / D) * of_int k)"
    using a q unfolding dmul_fin [OF F(1) K(1)] F(3) K(2) D_def [symmetric] valof_round_double
    by (intro is_fin_round_60, linarith) simp
  have s: "\<bar>valof ?m + valof (intercept f) - (of_int k / D + (of_int i - of_int k0 / D))\<bar> \<le> 7"
    using ak b unfolding m(2) F(4) D_def [symmetric] by linarith
  have l: "\<bar>of_int k / D + (of_int i - of_int k0 / D)\<bar> \<le> 18014398509481984" using q ir by linarith
  have p: "predict (slope f) (intercept f) key =
      round_double (dsign ?m \<and> dsign (intercept f)) (valof ?m + valof (intercept f))"
    by (simp add: predict_def dadd_fin [OF m(1) F(2)])
  show "is_fin (predict (slope f) (intercept f) key)"
    unfolding p using s l by (intro is_fin_round_60) linarith
  have "(of_int k - of_int k0) / of_int (k1 - k0) + of_int i = of_int k / D + (of_int i - of_int k0 / D)"
    by (simp add: D_def diff_divide_distrib)
  then show "\<bar>valof (predict (slope f) (intercept f) key) -
      ((of_int k - of_int k0) / of_int (k1 - k0) + of_int i)\<bar> \<le> 12"
    unfolding p valof_round_double using rnd_close [OF s l] by linarith
qed

end
