(* ===== verification/PLR_Bound.thy ===== *)
theory PLR_Bound
  imports Float_Error LearnedKV_Get
begin

text \<open>
  How far a prediction is from the position of an indexed key. Every segment is fitted through two
  neighbouring points; a key is checked against the bound while the model is built, or it is one of
  these two points. Hence, for keys whose products with their positions stay below \<open>2 ^ 53\<close>, the
  prediction is at most 1000 positions too high and at most 1001 too low.
\<close>

section \<open>Every segment is fitted\<close>

definition fitted :: "u64 list \<Rightarrow> double list \<Rightarrow> segment \<Rightarrow> bool" where
  "fitted x y s \<longleftrightarrow>
     (\<exists>m. m + 1 < length x \<and> s = fit (x ! m) (y ! m) (x ! (m + 1)) (y ! (m + 1)))"

definition anchored :: "u64 list \<Rightarrow> double list \<Rightarrow> segment list \<Rightarrow> bool" where
  "anchored x y ss \<longleftrightarrow> (\<forall>s \<in> set ss. fitted x y s) \<and> sorted_wrt (\<lambda>s t. start s \<le> start t) ss \<and>
     ss \<noteq> [] \<and> start (hd ss) = x ! 0"

lemma segs_of_fitted:
  assumes "start p = ls"
  shows "segs_of (model, ls, p) = model @ [p]"
  by (cases p) (use assms in \<open>simp add: segs_of_def\<close>)

lemma start_fitted_le:
  assumes "sorted_wrt (<) x" "fitted x y s"
  shows "start s \<le> x ! (length x - 2)" "start s \<in> set x"
proof -
  obtain m where m: "m + 1 < length x" "start s = x ! m" using assms(2) by (auto simp: fitted_def)
  then have "m = length x - 2 \<or> m < length x - 2" by linarith
  with m show "start s \<le> x ! (length x - 2)" "start s \<in> set x"
    using sorted_nth_less [OF assms(1), of m "length x - 2"] by (auto simp: less_imp_le)
qed

lemma anchored_snoc:
  assumes "anchored x y ss" "fitted x y s" "\<forall>t \<in> set ss. start t \<le> start s"
  shows "anchored x y (ss @ [s])"
  using assms by (auto simp: anchored_def sorted_wrt_append hd_append)

definition anch_inv :: "u64 list \<Rightarrow> double list \<Rightarrow> nat \<Rightarrow> plr_state \<Rightarrow> bool" where
  "anch_inv x y i st \<longleftrightarrow> (case st of (model, ls, p) \<Rightarrow> start p = ls \<and> anchored x y (model @ [p]) \<and>
     (\<forall>s \<in> set (model @ [p]). start s \<in> set (take i x)))"

lemma anch_inv_step:
  assumes inv: "anch_inv x y i st" and x: "sorted_wrt (<) x" and i: "i + 1 < length x"
  shows "anch_inv x y (Suc i) (plr_step x y err i st)"
proof -
  obtain model ls p where st: "st = (model, ls, p)" by (cases st) auto
  have p: "start p = ls" and a: "anchored x y (model @ [p])"
    and t: "\<forall>s \<in> set (model @ [p]). start s \<in> set (take i x)"
    using inv by (auto simp: anch_inv_def st)
  have take: "set (take (Suc i) x) = insert (x ! i) (set (take i x))"
    using i by (simp add: take_Suc_conv_app_nth)
  have seg: "\<lparr>start = ls, slope = slope p, intercept = intercept p\<rparr> = p" using p by (cases p) simp
  show ?thesis
  proof (cases "exceeds err p (x ! i) (y ! i)")
    case False
    then show ?thesis using p a t take by (auto simp: anch_inv_def plr_step_def st)
  next
    case True
    let ?s = "fit (x ! i) (y ! i) (x ! (i + 1)) (y ! (i + 1))"
    have "\<forall>s \<in> set (model @ [p]). start s \<le> start ?s"
      using t in_take_less [OF x, of i] i by (auto intro: less_imp_le)
    moreover have "fitted x y ?s" using i by (auto simp: fitted_def)
    ultimately have "anchored x y ((model @ [p]) @ [?s])" using anchored_snoc [OF a] by blast
    then show ?thesis using True t take by (auto simp: anch_inv_def plr_step_def st seg)
  qed
qed

lemma anch_inv_loop:
  assumes x: "sorted_wrt (<) x" and two: "2 \<le> length x" and n: "2 \<le> n"
  shows "n + 1 \<le> length x \<Longrightarrow> anch_inv x y n (fold (plr_step x y err) [2..<n]
    ([], x ! 0, fit (x ! 0) (y ! 0) (x ! 1) (y ! 1)))"
  using n
proof (induction n rule: nat_induct_at_least)
  case base
  have "x ! 0 \<in> set (take 2 x)" using two by (auto simp: in_set_conv_nth intro!: exI [of _ 0])
  moreover have "fitted x y (fit (x ! 0) (y ! 0) (x ! 1) (y ! 1))"
    using two unfolding fitted_def by (intro exI [of _ 0]) simp
  ultimately show ?case by (simp add: anch_inv_def anchored_def)
next
  case (Suc n)
  then show ?case using anch_inv_step [OF _ x, of y n] by simp
qed

lemma anchored_loop:
  assumes x: "sorted_wrt (<) x" and two: "2 \<le> length x"
  shows "case plr_loop x y err of (model, ls, p) \<Rightarrow> start p = ls \<and> anchored x y (model @ [p])"
proof (cases "length x = 2")
  case True
  have "fitted x y (fit (x ! 0) (y ! 0) (x ! 1) (y ! 1))"
    using two unfolding fitted_def by (intro exI [of _ 0]) simp
  then show ?thesis by (simp add: plr_loop_def True anchored_def)
next
  case False
  then show ?thesis using anch_inv_loop [OF x two, of "length x - 1" y err] two
    by (auto simp: plr_loop_def anch_inv_def split: prod.splits)
qed

lemma anchored_model:
  assumes x: "sorted_wrt (<) x" and two: "2 \<le> length x"
  shows "anchored x y (plr_model x y err)"
proof -
  obtain model ls p where l: "plr_loop x y err = (model, ls, p)" by (cases "plr_loop x y err") auto
  have p: "start p = ls" and a: "anchored x y (model @ [p])" using anchored_loop [OF x two, of y err] l by auto
  have seg: "\<lparr>start = ls, slope = slope p, intercept = intercept p\<rparr> = p" using p by (cases p) simp
  let ?n = "length x"
  let ?s = "fit (x ! (?n - 2)) (y ! (?n - 2)) (x ! (?n - 1)) (y ! (?n - 1))"
  have "?n - 2 + 1 = ?n - 1" using two by simp
  then have "fitted x y ?s" unfolding fitted_def using two by (intro exI [of _ "?n - 2"]) simp
  moreover have "\<forall>t \<in> set (model @ [p]). start t \<le> start ?s"
    using a start_fitted_le(1) [OF x] by (auto simp: anchored_def)
  ultimately have "anchored x y ((model @ [p]) @ [?s])" using anchored_snoc [OF a] by blast
  with a show ?thesis by (simp add: plr_model_def l seg Let_def)
qed

section \<open>The segment of a key\<close>

lemma locate_before: "\<forall>s \<in> set ss. key < start s \<Longrightarrow> locate key ss ab = ab"
  by (cases ss) auto

lemma locate_greatest:
  "sorted_wrt (\<lambda>s t. start s \<le> start t) ss \<Longrightarrow> \<forall>t \<in> set ss. start t = start s \<longrightarrow> t = s \<Longrightarrow>
   s \<in> set ss \<Longrightarrow> start s \<le> key \<Longrightarrow> \<forall>t \<in> set ss. start t \<le> key \<longrightarrow> start t \<le> start s \<Longrightarrow>
   locate key ss ab = (slope s, intercept s)"
proof (induction ss arbitrary: ab)
  case (Cons t ss)
  have le: "start t \<le> start s" using Cons.prems(1,3) by auto
  show ?case
  proof (cases "s \<in> set ss")
    case True
    show ?thesis
    proof (cases "start t = key")
      case True
      then have "start t = start s" using le Cons.prems(4) by simp
      then have "t = s" using Cons.prems(2) by simp
      with True show ?thesis by simp
    next
      case False
      then have "\<not> key < start t" "key \<noteq> start t" using le Cons.prems(4) by auto
      then show ?thesis using Cons \<open>s \<in> set ss\<close> by simp
    qed
  next
    case False
    then have st: "s = t" using Cons.prems(3) by simp
    have "key < start u" if "u \<in> set ss" for u
    proof (rule ccontr)
      assume "\<not> key < start u"
      then have "start u = start s" using Cons.prems(1,5) that st by (auto intro: order_antisym)
      with Cons.prems(2) that False show False by auto
    qed
    then show ?thesis using Cons.prems(4) st locate_before [of ss key] by auto
  qed
qed simp

lemma anchoredD: "anchored x y ss \<Longrightarrow> s \<in> set ss \<Longrightarrow>
    \<exists>m. m + 1 < length x \<and> s = fit (x ! m) (y ! m) (x ! (m + 1)) (y ! (m + 1))"
  by (simp add: anchored_def fitted_def)

lemma locate_at:
  assumes x: "sorted_wrt (<) x" and a: "anchored x y ss" and m: "m + 1 < length x"
    and mem: "x ! m \<in> start ` set ss" and le: "x ! m \<le> key"
    and max: "\<forall>t \<in> set ss. start t \<le> key \<longrightarrow> start t \<le> x ! m"
  shows "locate key ss ab = (let f = fit (x ! m) (y ! m) (x ! (m + 1)) (y ! (m + 1)) in (slope f, intercept f))"
proof -
  let ?f = "fit (x ! m) (y ! m) (x ! (m + 1)) (y ! (m + 1))"
  have d: "distinct x" using x by (simp add: strict_sorted_iff)
  have eq: "t = ?f" if t: "t \<in> set ss" "start t = x ! m" for t
  proof -
    obtain l where l: "l + 1 < length x" "t = fit (x ! l) (y ! l) (x ! (l + 1)) (y ! (l + 1))"
      using anchoredD [OF a t(1)] by blast
    then have "x ! l = x ! m" using t(2) by (simp only: start_fit)
    then have "l = m" using l(1) m nth_eq_iff_index_eq [OF d, of l m] by simp
    with l(2) show ?thesis by simp
  qed
  obtain t where "t \<in> set ss" "start t = x ! m" using mem by auto
  then have "?f \<in> set ss" using eq by blast
  have sorted: "sorted_wrt (\<lambda>s t. start s \<le> start t) ss" using a by (simp add: anchored_def)
  have "\<forall>t \<in> set ss. start t = start ?f \<longrightarrow> t = ?f" using eq by (simp only: start_fit) blast
  moreover have "start ?f \<le> key" "\<forall>t \<in> set ss. start t \<le> key \<longrightarrow> start t \<le> start ?f"
    using le max by (simp_all only: start_fit)
  ultimately have "locate key ss ab = (slope ?f, intercept ?f)"
    using locate_greatest [OF sorted _ \<open>?f \<in> set ss\<close>] by blast
  then show ?thesis by (simp only: Let_def)
qed

text \<open>The segment a lookup of an indexed key finds; it is that of the key or of its predecessor when
  one of the points of a segment is the key.\<close>

lemma locate_indexed:
  assumes x: "sorted_wrt (<) x" and a: "anchored x y ss" and j: "j < length x" and two: "2 \<le> length x"
  shows "\<exists>m. m + 1 < length x \<and>
    locate (x ! j) ss ab = (let f = fit (x ! m) (y ! m) (x ! (m + 1)) (y ! (m + 1)) in (slope f, intercept f)) \<and>
    (x ! j \<in> start ` set ss \<or> j = 1 \<or> j = length x - 1 \<and> start (last ss) = x ! (length x - 2) \<longrightarrow>
      j = m \<or> j = m + 1)"
proof -
  have lt: "x ! k < x ! l \<longleftrightarrow> k < l" if "k < length x" "l < length x" for k l
    using sorted_nth_less [OF x] that by (metis linorder_neqE_nat less_asym less_irrefl)
  have le: "x ! k \<le> x ! l \<longleftrightarrow> k \<le> l" if "k < length x" "l < length x" for k l
    using lt [OF that(2,1)] by (simp add: not_less [symmetric])
  have starts: "\<exists>m. m + 1 < length x \<and> start s = x ! m" if s: "s \<in> set ss" for s
  proof -
    obtain m where "m + 1 < length x" "s = fit (x ! m) (y ! m) (x ! (m + 1)) (y ! (m + 1))"
      using anchoredD [OF a s] by blast
    then show ?thesis by (intro exI [of _ m]) simp
  qed
  let ?M = "{m. m + 1 < length x \<and> x ! m \<in> start ` set ss \<and> m \<le> j}"
  have zero: "x ! 0 \<in> start ` set ss" using a by (auto simp: anchored_def) (metis image_eqI list.set_sel(1))
  then have "0 \<in> ?M" using two by simp
  moreover have fin: "finite ?M" by (rule finite_subset [of _ "{..j}"]) auto
  ultimately have m: "Max ?M \<in> ?M" by (metis (no_types, lifting) Max_in empty_iff)
  define m where "m = Max ?M"
  have M: "m + 1 < length x" "x ! m \<in> start ` set ss" "m \<le> j" using m by (auto simp: m_def)
  have ge: "l \<le> m" if "l \<in> ?M" for l unfolding m_def using Max_ge [OF fin that] .
  have "\<forall>t \<in> set ss. start t \<le> x ! j \<longrightarrow> start t \<le> x ! m"
  proof (intro ballI impI)
    fix t assume t: "t \<in> set ss" "start t \<le> x ! j"
    obtain l where l: "l + 1 < length x" "start t = x ! l" using starts [OF t(1)] by blast
    then have "l \<in> ?M" using t le [of l j] j by (auto intro: image_eqI [of _ start t] sym)
    then show "start t \<le> x ! m" using ge l le [of l m] M by simp
  qed
  then have loc: "locate (x ! j) ss ab =
      (let f = fit (x ! m) (y ! m) (x ! (m + 1)) (y ! (m + 1)) in (slope f, intercept f))"
    using M j le by (intro locate_at [OF x a]) simp_all
  moreover have "j = m \<or> j = m + 1"
    if "x ! j \<in> start ` set ss \<or> j = 1 \<or> j = length x - 1 \<and> start (last ss) = x ! (length x - 2)"
    using that
  proof (elim disjE)
    assume "x ! j \<in> start ` set ss"
    then obtain l where "l + 1 < length x" "x ! j = x ! l" using starts by fastforce
    then have "j + 1 < length x" using j le [of j l] by simp
    then show ?thesis using ge [of j] M(3) \<open>x ! j \<in> start ` set ss\<close> by simp
  next
    assume "j = 1"
    then show ?thesis using M(3) by linarith
  next
    assume l: "j = length x - 1 \<and> start (last ss) = x ! (length x - 2)"
    have "last ss \<in> set ss" using a by (simp add: anchored_def)
    then have "length x - 2 \<in> ?M" using l two by (auto intro: image_eqI [of _ start "last ss"])
    then show ?thesis using ge [of "length x - 2"] M l by linarith
  qed
  ultimately show ?thesis using M(1) by blast
qed

section \<open>The prediction of an indexed key\<close>

text \<open>The keys are small enough for the products of the regression to be exact.\<close>

definition small_keys :: "u64 list \<Rightarrow> bool" where
  "small_keys x \<longleftrightarrow> (\<forall>m < length x. (int m + 1) * uint (x ! m) < 9007199254740992)"

lemma position_exact:
  assumes "m < 9007199254740992"
  shows "is_fin (double_of_u64 (word_of_nat m))" "valof (double_of_u64 (word_of_nat m)) = of_int (int m)"
proof -
  have u: "uint (word_of_nat m :: u64) = int m" using assms by (simp add: uint_nat unat_of_nat)
  have "int m < 9007199254740992" using assms by simp
  from double_of_u64_exact [OF u this] show "is_fin (double_of_u64 (word_of_nat m))" "valof (double_of_u64 (word_of_nat m)) = of_int (int m)"
    by simp_all
qed

lemma err_bound_1000: "valof err_bound = 1000" "\<not> is_nan err_bound"
proof -
  have "uint (word_of_int ERR_BOUND :: u64) = 1000" by simp
  then have "is_fin err_bound" "valof err_bound = of_int 1000"
    unfolding err_bound_def by (rule double_of_u64_exact; simp)+
  then show "valof err_bound = 1000" "\<not> is_nan err_bound" using fin_imp by simp_all
qed

lemma rnd_le_1000:
  assumes "\<bar>rnd q\<bar> \<le> 1000"
  shows "\<bar>q\<bar> \<le> 2001 / 2"
proof -
  have r: "representable (2001 / 2)" unfolding representable_def
  proof
    show "\<exists>m e. (2001 / 2 :: rat) = of_int m * p2 e \<and> \<bar>m\<bar> < 2 * ibit \<and> - 1074 \<le> e"
      by (intro exI [of _ 2001] exI [of _ "- 1"]) (simp add: ibit_def p2_def power_int_def)
    have "(2001 / 2 :: rat) < p2 60" by (simp add: p2_60)
    also have "\<dots> < p2 1024" by simp
    finally show "\<bar>2001 / 2\<bar> < p2 1024" by simp
  qed
  have "q \<le> 2001 / 2" if "rnd q \<le> 1000" for q
  proof (rule ccontr)
    assume "\<not> q \<le> 2001 / 2"
    then have "rnd (2001 / 2) \<le> rnd q" by (intro rnd_mono) simp
    with that rnd_exact [OF r] show False by simp
  qed
  from this [of q] this [of "- q"] assms show ?thesis by (simp add: rnd_minus abs_le_iff)
qed

lemma covered_error:
  assumes c: "\<not> dlt err_bound (dabs (dsub p y))" and p: "is_fin p" and y: "is_fin y"
    and b: "\<bar>valof p - valof y\<bar> \<le> 1152921504606846976"
  shows "\<bar>valof p - valof y\<bar> \<le> 2001 / 2"
proof -
  have "is_fin (dsub p y)" "valof (dsub p y) = rnd (valof p - valof y)"
    using b by (simp_all add: dsub_fin [OF p y] is_fin_round_60)
  then have "\<bar>rnd (valof p - valof y)\<bar> \<le> 1000"
    using c fin_imp [of "dsub p y"] by (simp add: dlt_def err_bound_1000 not_less)
  then show ?thesis by (rule rnd_le_1000)
qed

lemma int_of_double_eq:
  "rat_trunc (valof p) = i \<Longrightarrow> - 1001 \<le> i \<Longrightarrow> i < 2147483648 \<Longrightarrow> \<not> is_nan p \<Longrightarrow> int_of_double p = i"
  by (simp add: int_of_double_def)

lemma truncated:
  assumes p: "is_fin p" and e: "\<bar>valof p - of_int j\<bar> \<le> 2001 / 2" and j: "0 \<le> j" "j < 1073741824"
  defines "P \<equiv> (if int_of_double p < 0 then 0 else int_of_double p)"
  shows "P \<le> j + 1000" "j \<le> P + 1001" "0 \<le> P"
proof -
  have nn: "\<not> is_nan p" using fin_imp [OF p] by simp
  show "0 \<le> P" by (simp add: P_def)
  have up: "valof p \<le> of_int (j + 1000) + 1 / 2" and lo: "of_int (j - 1001) + 1 / 2 \<le> valof p"
    using abs_le_D1 [OF e] abs_le_D2 [OF e] by (simp_all add: field_simps)
  have "P \<le> j + 1000 \<and> j \<le> P + 1001"
  proof (cases "0 \<le> valof p")
    case True
    have f: "0 \<le> \<lfloor>valof p\<rfloor>" "\<lfloor>valof p\<rfloor> \<le> j + 1000" "j - 1001 \<le> \<lfloor>valof p\<rfloor>"
      using True up lo by (simp_all add: floor_le_iff le_floor_iff)
    moreover have "\<lfloor>valof p\<rfloor> < 2147483648" using f(2) j by linarith
    moreover have "- 1001 \<le> \<lfloor>valof p\<rfloor>" using f(1) by linarith
    ultimately have f: "0 \<le> \<lfloor>valof p\<rfloor>" "\<lfloor>valof p\<rfloor> \<le> j + 1000" "j - 1001 \<le> \<lfloor>valof p\<rfloor>"
      "\<lfloor>valof p\<rfloor> < 2147483648" "- 1001 \<le> \<lfloor>valof p\<rfloor>" by blast+
    then have "int_of_double p = \<lfloor>valof p\<rfloor>"
      using True by (intro int_of_double_eq [OF _ f(5,4) nn]) (simp only: rat_trunc_def if_True)
    then show ?thesis using f by (simp_all add: P_def)
  next
    case False
    have c: "\<lceil>valof p\<rceil> \<le> 0" "- 1001 \<le> \<lceil>valof p\<rceil>"
      using False lo j by (simp_all add: ceiling_le_iff le_ceiling_iff)
    then have "int_of_double p = \<lceil>valof p\<rceil>"
      using False nn c by (intro int_of_double_eq [OF _ c(2) _ nn]) (simp only: rat_trunc_def if_False, linarith)
    then have "int_of_double p \<le> 0" using c(1) by (simp only:)
    then have "P = 0" by (simp add: P_def)
    moreover have "(of_int (j - 1001) :: rat) < 0" using lo False by linarith
    then have "j - 1001 < 0" by (simp only: of_int_less_0_iff)
    ultimately show ?thesis using j by simp
  qed
  then show "P \<le> j + 1000" "j \<le> P + 1001" by simp_all
qed

lemma line_at:
  assumes "of_int (c - b) \<noteq> (0 :: rat)" "j = m \<and> a = b \<or> j = m + 1 \<and> a = c"
  shows "(of_int a - of_int b) / of_int (c - b) + of_int (int m) = (of_int (int j) :: rat)"
  using assms by auto

lemma plr_prediction:
  assumes x: "sorted_wrt (<) x" and two: "2 \<le> length x" and n: "length x \<le> 1000000000"
    and small: "small_keys x" and j: "j < length x"
  defines "P \<equiv> query_segments (x ! j) (plr_model x (positions (length x)) err_bound)"
  shows "P \<le> int j + 1000" "int j \<le> P + 1001" "0 \<le> P"
proof -
  let ?y = "positions (length x)"
  let ?ss = "plr_model x ?y err_bound"
  have y: "?y ! l = double_of_u64 (word_of_nat l)" if "l < length x" for l
    using that by (simp add: positions_def)
  obtain m where m: "m + 1 < length x"
    and loc: "locate (x ! j) ?ss (dzero, dzero) =
      (let f = fit (x ! m) (?y ! m) (x ! (m + 1)) (?y ! (m + 1)) in (slope f, intercept f))"
    and anchor: "x ! j \<in> start ` set ?ss \<or> j = 1 \<or> j = length x - 1 \<and> start (last ?ss) = x ! (length x - 2)
      \<longrightarrow> j = m \<or> j = m + 1"
    using locate_indexed [OF x anchored_model [OF x two] j two] by blast
  let ?f = "fit (x ! m) (?y ! m) (x ! (m + 1)) (?y ! (m + 1))"
  let ?p = "predict (slope ?f) (intercept ?f) (x ! j)"
  have lt: "uint (x ! m) < uint (x ! (m + 1))"
    using sorted_nth_less [OF x, of m "m + 1"] m by (simp add: word_less_def)
  have sm: "(int (m + 1) + 1) * uint (x ! (m + 1)) < 9007199254740992"
    using small m unfolding small_keys_def by blast
  have "(int m + 1) * uint (x ! (m + 1)) \<le> (int (m + 1) + 1) * uint (x ! (m + 1))"
    by (intro mult_right_mono) simp_all
  then have P: "points (x ! m) (?y ! m) (x ! (m + 1)) (?y ! (m + 1)) (uint (x ! m)) (uint (x ! (m + 1))) (int m)"
    using lt sm m n position_exact [of m] position_exact [of "m + 1"]
    unfolding points_def by (simp add: y)
  have kj: "uint (x ! j) < 9007199254740992"
  proof -
    have "1 * uint (x ! j) \<le> (int j + 1) * uint (x ! j)" by (intro mult_right_mono) simp_all
    moreover have "(int j + 1) * uint (x ! j) < 9007199254740992" using small j by (simp add: small_keys_def)
    ultimately show ?thesis by linarith
  qed
  note F = predict_fit [OF P refl kj]
  have yj: "is_fin (?y ! j)" "valof (?y ! j) = of_int (int j)"
    using position_exact [of j] j n by (simp_all add: y)
  have near: "\<bar>valof ?p - of_int (int j)\<bar> \<le> 2001 / 2"
  proof (cases "j = m \<or> j = m + 1")
    case True
    have nz: "of_int (uint (x ! (m + 1)) - uint (x ! m)) \<noteq> (0 :: rat)"
      using lt by (simp only: of_int_eq_0_iff)
    have "(of_int (uint (x ! j)) - of_int (uint (x ! m))) / of_int (uint (x ! (m + 1)) - uint (x ! m)) + of_int (int m)
        = (of_int (int j) :: rat)"
      using True nz by (intro line_at) (auto simp only:)
    then show ?thesis using F(2) by simp
  next
    case False
    then have "covered err_bound ?ss (x ! j) (?y ! j)"
      using anchor plr_model_covered [OF x two j, of err_bound ?y] by blast
    then have c: "\<not> dlt err_bound (dabs (dsub ?p (?y ! j)))"
      unfolding covered_def loc Let_def prod.case .
    define D where "D = (of_int (uint (x ! (m + 1)) - uint (x ! m)) :: rat)"
    define N where "N = (of_int (uint (x ! j)) - of_int (uint (x ! m)) :: rat)"
    have D1: "1 \<le> D" unfolding D_def using lt by (simp only: of_int_1_le_iff)
    have "\<bar>N\<bar> \<le> 9007199254740992"
      using rat_range [OF _ less_imp_le [OF kj]] rat_range [of "uint (x ! m)"] points_bounds [OF P]
      by (auto simp: N_def abs_le_iff)
    moreover have "\<bar>N / D\<bar> \<le> \<bar>N\<bar>"
      using D1 mult_left_mono [OF D1, of "\<bar>N\<bar>"] by (simp add: abs_divide divide_le_eq)
    moreover have "0 \<le> (of_int (int j) :: rat)" "(of_int (int j) :: rat) \<le> 9007199254740992"
      by (rule rat_range; use j n in simp)+
    moreover have "0 \<le> (of_int (int m) :: rat)" "(of_int (int m) :: rat) \<le> 9007199254740992"
      by (rule rat_range; use m n in simp)+
    moreover have "\<bar>valof ?p - (N / D + of_int (int m))\<bar> \<le> 12" using F(2) by (simp only: N_def D_def)
    ultimately have "\<bar>valof ?p - valof (?y ! j)\<bar> \<le> 1152921504606846976"
      unfolding yj(2) by linarith
    from covered_error [OF c F(1) yj(1) this] show ?thesis by (simp only: yj(2))
  qed
  have "P = (if int_of_double ?p < 0 then 0 else int_of_double ?p)"
    by (simp only: P_def query_segments_def loc Let_def prod.case)
  then show "P \<le> int j + 1000" "int j \<le> P + 1001" "0 \<le> P"
    using truncated [OF F(1) near] j n by simp_all
qed

end
