(* ===== verification/Learned_Lookup.thy ===== *)
theory Learned_Lookup
  imports PLR_Bound LearnedKV_Store
begin

text \<open>
  Lookups through the learned index of a store that satisfies the invariant: the search window and
  the error bound of the regression combined.
\<close>

lemma index_prediction:
  assumes inv: "kv_inv cfg view s base recs" and two: "2 \<le> base"
    and small: "small_keys (map fst (take base recs))" and i: "i < base"
  defines "P \<equiv> query_model (fst (recs ! i)) (disk s)"
  shows "P \<le> int i + 1000" "int i \<le> P + 1001" "0 \<le> P"
proof -
  let ?ks = "map fst (take base recs)"
  have b: "base \<le> length recs" "length recs \<le> 100000000"
    and idx: "index_files base recs (disk s)"
    using inv two by (auto simp: kv_inv_def)
  then have m: "disk s MODEL_PATH = Some (concat (map segment_bytes (plr_model ?ks (positions base) err_bound)))"
    and sorted: "sorted_wrt (<) ?ks"
    by (auto simp: index_files_def Let_def)
  have len: "length ?ks = base" and nth: "?ks ! i = fst (recs ! i)" using b i by simp_all
  have "P = query_segments (?ks ! i) (plr_model ?ks (positions (length ?ks)) err_bound)"
    unfolding P_def query_model_def fopen_read_def m nth len by simp
  then show "P \<le> int i + 1000" "int i \<le> P + 1001" "0 \<le> P"
    using plr_prediction [OF sorted _ _ small, of i] two b i len by simp_all
qed

lemma get_indexed:
  assumes R: "rocks_ok R view" and inv: "kv_inv cfg view s base recs" and two: "2 \<le> base"
    and w: "writable cfg VLOG_PATH" and small: "small_keys (map fst (take base recs))"
    and i: "i < base" and key: "key = fst (recs ! i)" and miss: "last_pos base recs key = None"
  shows "(\<exists>t. get R cfg key key_size v value_size s = Inr (0, snd (recs ! i), t) \<and> same_store s t) \<or>
    1000 \<le> i \<and> query_model key (disk s) + 1000 \<le> int i \<and> int i \<le> query_model key (disk s) + 1001"
proof (cases "int i < query_model key (disk s) + 1000")
  case True
  obtain s1 where s1: "same_store s s1" "get R cfg key key_size v value_size s =
      get_learned cfg key key_size v value_size s1"
    using get_miss [OF R inv miss, of key_size v value_size] inv two by (auto simp: kv_inv_def)
  have "disk s1 = disk s" using s1(1) by (simp add: same_store_def)
  then have "query_model key (disk s1) - 1000 \<le> int i" "int i < query_model key (disk s1) + 1000"
    using True index_prediction [OF inv two small i] key by simp_all
  from get_learned_found [OF kv_inv_same [OF s1(1) inv] i _ w key this, of v] two s1
  show ?thesis by (auto simp: same_store_def)
next
  case False
  then show ?thesis using index_prediction [OF inv two small i] key by simp
qed

text \<open>With fewer than 1001 indexed records the window always reaches far enough.\<close>

lemma gc_then_get:
  assumes R: "rocks_ok R view" and inv: "kv_inv cfg view s base recs"
    and three: "3 \<le> length (live recs)" and w: "\<And>p. writable cfg p"
    and mode: "learned_index_used cfg" and small: "small_keys (map fst (live recs))"
  shows "\<exists>s'. garbage_collection R cfg key_size value_size s = Inr (0, s') \<and>
    (\<forall>key x v. length (live recs) \<le> 1000 \<and> current recs key = Some x \<and> key \<noteq> Max (dom (current recs)) \<longrightarrow>
       (\<exists>t. get R cfg key key_size v value_size s' = Inr (0, x, t)))"
proof -
  let ?kvs = "butlast (live recs)"
  obtain s' where s': "garbage_collection R cfg key_size value_size s = Inr (0, s')"
    "kv_inv cfg view s' (length (live recs) - 1) ?kvs"
    using gc_learned [OF R inv three w mode] by blast
  have small': "small_keys (map fst (take (length (live recs) - 1) ?kvs))"
    using small by (auto simp: small_keys_def nth_butlast)
  have "\<exists>t. get R cfg key key_size v value_size s' = Inr (0, x, t)"
    if n: "length (live recs) \<le> 1000" and c: "current recs key = Some x" "key \<noteq> Max (dom (current recs))"
    for key x v
  proof -
    have "recs \<noteq> []" using c(1) by auto
    then have "current ?kvs key = Some x" using c by (simp add: current_kept)
    then have "(key, x) \<in> set ?kvs" by (auto simp: current_def dest: map_of_SomeD)
    then obtain i where i: "i < length ?kvs" "?kvs ! i = (key, x)" by (metis in_set_conv_nth)
    then have i': "i < length (live recs) - 1" by simp
    have miss: "last_pos (length (live recs) - 1) ?kvs key = None" by (simp add: last_pos_base_end)
    have two: "2 \<le> length (live recs) - 1" using three by simp
    from get_indexed [OF R s'(2) two w small' i' _ miss, of v] i n
    show ?thesis by (auto simp: nth_butlast)
  qed
  with s'(1) show ?thesis by blast
qed

lemma get_learned_status:
  assumes R: "rocks_ok R view" and inv: "kv_inv cfg view s base recs" and base: "base \<noteq> 0"
    and w: "writable cfg VLOG_PATH"
  shows "\<exists>x t. get R cfg key key_size v value_size s = Inr (0, x, t) \<and> length x = 1016"
proof (cases "last_pos base recs key")
  case (Some p)
  moreover have "length (snd (recs ! p)) = 1016"
    using last_pos_SomeD [OF Some] inv by (auto simp: kv_inv_def intro: well_sizedD)
  ultimately show ?thesis using get_hit [OF R inv Some, of v] by blast
next
  case None
  have mode: "learned_index_used cfg" and "recs \<noteq> []" using inv base by (auto simp: kv_inv_def)
  then have img: "disk s VLOG_PATH = Some (vlog_image recs)"
    and ka: "\<exists>ka. disk s KEY_ARRAY_PATH = Some ka"
    using inv base by (auto simp: kv_inv_def vlog_file_def index_files_def Let_def)
  obtain s1 where s1: "disk s1 = disk s" "get R cfg key key_size v value_size s =
      get_learned cfg key key_size v value_size s1"
    using get_miss [OF R inv None, of key_size v value_size] mode by (auto simp: same_store_def)
  have "length (read_value c pos v' value_size) = 1016" for c pos v'
    by (simp add: read_value_def Let_def length_fill value_size_def)
  moreover have "unat key_size = 8" by (simp add: key_size_def)
  ultimately show ?thesis using ka unfolding s1(2)
    by (auto simp: s1(1) get_learned_def fopen_read_def fopen_update_def img w split_beta Let_def)
qed

end
