(* ===== verification/LearnedKV_Sessions.thy ===== *)
theory LearnedKV_Sessions
  imports Learned_Lookup
begin

text \<open>
  The contract of \<open>Store_Interface\<close> for \<open>learned-LSM/learnedKV.h\<close> in both of its modes. Without the learned
  index every session is served. With it, a lookup must be of a key in the log, and a collection must
  leave an index whose search windows reach every record.
\<close>

section \<open>Room\<close>

text \<open>A collection in the learned mode that keeps its promise: the regression has at least two keys, they
  are small enough for exact arithmetic, and no position is beyond the error bound.\<close>

definition collectable :: "rec list \<Rightarrow> bool" where
  "collectable recs \<longleftrightarrow> 3 \<le> length (live recs) \<and> length (live recs) \<le> 1001 \<and>
     small_keys (map fst (butlast (live recs)))"

definition store_room :: "config \<Rightarrow> rec list \<Rightarrow> bool" where
  "store_room cfg recs \<longleftrightarrow> \<not> learned_index_used cfg \<or> length recs < capacity cfg \<or>
     (\<forall>p. writable cfg p) \<and> collectable recs"

section \<open>The relation\<close>

definition store_keeps ::
  "('db, 'm) rocks_api_scheme \<Rightarrow> config \<Rightarrow> ('db \<Rightarrow> bytes \<rightharpoonup> bytes) \<Rightarrow> 'db kv \<Rightarrow> rec list \<Rightarrow> bool" where
  "store_keeps R cfg view s recs \<longleftrightarrow> rocks_ok R view \<and> writable cfg VLOG_PATH \<and>
     0 < capacity cfg \<and> capacity cfg \<le> 100000000 \<and> length recs \<le> capacity cfg \<and>
     (\<exists>base. kv_inv cfg view s base recs \<and>
        (base \<noteq> 0 \<longrightarrow> 2 \<le> base \<and> base \<le> 1000 \<and> small_keys (map fst (take base recs))))"

lemma store_keepsE:
  assumes "store_keeps R cfg view s recs"
  obtains base where "kv_inv cfg view s base recs"
    "base \<noteq> 0 \<longrightarrow> 2 \<le> base \<and> base \<le> 1000 \<and> small_keys (map fst (take base recs))"
    "rocks_ok R view" "writable cfg VLOG_PATH" "0 < capacity cfg" "capacity cfg \<le> 100000000" "length recs \<le> capacity cfg"
  using assms unfolding store_keeps_def by blast

lemma store_keeps_new:
  assumes "rocks_ok R view" "view d0 = Map.empty" "disk0 VLOG_PATH = None"
    and "writable cfg VLOG_PATH" "0 < capacity cfg" "capacity cfg \<le> 100000000"
  shows "store_keeps R cfg view (new_LearnedKV R d0 disk0) []"
  using inv_new [OF assms(1), of d0 disk0 cfg] assms unfolding store_keeps_def by auto

lemma plain_store_keeps:
  assumes "\<not> learned_index_used cfg"
  shows "store_keeps R cfg view s recs \<longleftrightarrow> plain_keeps R cfg view s recs"
proof -
  have "kv_inv cfg view s base recs \<Longrightarrow> base = 0" for base using assms by (auto simp: kv_inv_def)
  then show ?thesis using assms unfolding store_keeps_def plain_keeps_def by blast
qed

section \<open>Puts\<close>

lemma store_put:
  assumes k: "store_keeps R cfg view s recs" and room: "store_room cfg recs" and v: "length v = VALUE_SIZE"
  shows "\<exists>t. put_rec R cfg key v s = Inr (0, t) \<and> store_keeps R cfg view t (spec_put (capacity cfg) recs (key, v))"
proof (cases "learned_index_used cfg")
  case False
  then show ?thesis using plain_put [of R cfg view s recs v key] k v by (simp add: plain_store_keeps)
next
  case True
  obtain base where inv: "kv_inv cfg view s base recs"
    and idx: "base \<noteq> 0 \<longrightarrow> 2 \<le> base \<and> base \<le> 1000 \<and> small_keys (map fst (take base recs))"
    and R: "rocks_ok R view" and w: "writable cfg VLOG_PATH"
    and cap: "0 < capacity cfg" "capacity cfg \<le> 100000000" and len: "length recs \<le> capacity cfg"
    using k by (rule store_keepsE)
  have v': "length v = 1016" using v by simp
  show ?thesis
  proof (cases "length recs < capacity cfg")
    case True
    then have "has_room cfg s" by (simp add: has_room_iff [OF inv cap(2)])
    then obtain t where t: "put_rec R cfg key v s = Inr (0, t)" "kv_inv cfg view t base (recs @ [(key, v)])"
      using put_ok [OF R inv v' _ w] by blast
    have "base \<le> length recs" using inv by (simp add: kv_inv_def)
    then have "store_keeps R cfg view t (recs @ [(key, v)])"
      using t(2) idx R w cap True unfolding store_keeps_def by (intro conjI exI [of _ base]) auto
    then show ?thesis using t(1) True by (simp add: spec_put_def)
  next
    case False
    let ?kvs = "butlast (live recs)"
    have c: "collectable recs" and wall: "\<And>p. writable cfg p"
      using room True False by (auto simp: store_room_def)
    have three: "3 \<le> length (live recs)" and small: "small_keys (map fst ?kvs)" and most: "length (live recs) \<le> 1001"
      using c by (simp_all add: collectable_def)
    have ne: "recs \<noteq> []" using False cap by auto
    obtain s1 where gc: "garbage_collection R cfg key_size value_size s = Inr (0, s1)"
      and inv1: "kv_inv cfg view s1 (length (live recs) - 1) ?kvs"
      using gc_learned [OF R inv three wall True] by blast
    let ?s = "s1\<lparr>gc_count := gc_count s1 + 1\<rparr>"
    have inv2: "kv_inv cfg view ?s (length (live recs) - 1) ?kvs" using inv1 by (simp add: kv_inv_gc_count)
    have less: "length ?kvs < capacity cfg" using length_kept_less [OF ne] len by linarith
    have "put_rec R cfg key v s = put_rec R cfg key v ?s"
      by (rule put_collect [OF _ gc]) (simp_all add: room_iff [OF inv] room_iff [OF inv1] False less del: length_butlast)
    moreover have "has_room cfg ?s" by (simp add: has_room_iff [OF inv2 cap(2)] less del: length_butlast)
    ultimately obtain t where t: "put_rec R cfg key v s = Inr (0, t)"
      "kv_inv cfg view t (length (live recs) - 1) (?kvs @ [(key, v)])"
      using put_ok [OF R inv2 v' _ w, of key] by auto
    have tk: "take (length (live recs) - 1) (?kvs @ [(key, v)]) = ?kvs" by simp
    have two: "2 \<le> length (live recs) - 1" "length (live recs) - 1 \<le> 1000" using three most by simp_all
    have "length (?kvs @ [(key, v)]) \<le> capacity cfg" using less by simp
    then have "store_keeps R cfg view t (?kvs @ [(key, v)])"
      unfolding store_keeps_def using t(2) R w cap two small
      by (intro conjI exI [of _ "length (live recs) - 1"]) (simp_all only: tk, simp_all)
    then show ?thesis using t(1) False by (simp add: spec_put_def)
  qed
qed

text \<open>A collection of a full log, in either mode.\<close>

lemma store_collects:
  assumes k: "store_keeps R cfg view s recs" and room: "store_room cfg recs" and full: "\<not> length recs < capacity cfg"
  shows "\<exists>s1 base base1. kv_inv cfg view s base recs \<and> garbage_collection R cfg key_size value_size s = Inr (0, s1) \<and>
    kv_inv cfg view s1 base1 (butlast (live recs)) \<and> length (butlast (live recs)) < capacity cfg"
proof -
  obtain base where inv: "kv_inv cfg view s base recs" and R: "rocks_ok R view" and w: "writable cfg VLOG_PATH"
    and cap: "0 < capacity cfg" "length recs \<le> capacity cfg"
    using k by (rule store_keepsE)
  have ne: "recs \<noteq> []" using full cap by auto
  have "length (butlast (live recs)) < capacity cfg" using length_kept_less [OF ne] cap by linarith
  moreover have "\<exists>s1 base1. garbage_collection R cfg key_size value_size s = Inr (0, s1) \<and>
      kv_inv cfg view s1 base1 (butlast (live recs))"
  proof (cases "learned_index_used cfg")
    case True
    then have "3 \<le> length (live recs)" "\<And>p. writable cfg p"
      using room full by (auto simp: store_room_def collectable_def)
    then show ?thesis using gc_learned [OF R inv _ _ True] by blast
  next
    case False
    then show ?thesis using gc_rocksdb [OF R inv ne w] by blast
  qed
  ultimately show ?thesis using inv by blast
qed

section \<open>Lookups\<close>

lemma last_pos_None: "last_pos base recs k = None \<Longrightarrow> base \<le> p \<Longrightarrow> p < length recs \<Longrightarrow> fst (recs ! p) \<noteq> k"
  by (auto simp: last_pos_def find_None_iff)

lemma current_indexed:
  assumes "current recs k = Some x" "last_pos base recs k = None"
  shows "\<exists>i < base. i < length recs \<and> recs ! i = (k, x)"
proof -
  obtain p where p: "last_pos 0 recs k = Some p" "x = snd (recs ! p)"
    using assms(1) by (auto simp: current_last_pos)
  then have "p < length recs" "fst (recs ! p) = k" using last_pos_SomeD by blast+
  moreover from this have "p < base" using last_pos_None [OF assms(2), of p] by (cases "base \<le> p") auto
  ultimately show ?thesis using p(2) by (intro exI [of _ p]) (simp add: prod_eq_iff)
qed

lemma store_hit:
  assumes k: "store_keeps R cfg view s recs" and c: "current recs key = Some x"
  shows "\<exists>t. get_rec R cfg key b s = Inr (0, x, t) \<and> store_keeps R cfg view t recs"
proof -
  obtain base where inv: "kv_inv cfg view s base recs"
    and idx: "base \<noteq> 0 \<longrightarrow> 2 \<le> base \<and> base \<le> 1000 \<and> small_keys (map fst (take base recs))"
    and R: "rocks_ok R view" and w: "writable cfg VLOG_PATH"
    and cap: "0 < capacity cfg" "capacity cfg \<le> 100000000" "length recs \<le> capacity cfg"
    using k by (rule store_keepsE)
  have "\<exists>t. get_rec R cfg key b s = Inr (0, x, t) \<and> same_store s t"
  proof (cases "last_pos base recs key")
    case (Some p)
    then show ?thesis using get_hit [OF R inv Some, of b] current_last_pos_base [OF Some] c by auto
  next
    case None
    obtain i where i: "i < base" "recs ! i = (key, x)" using current_indexed [OF c None] by blast
    have "2 \<le> base" "i < 1000" "small_keys (map fst (take base recs))" using i(1) idx by auto
    from get_indexed [OF R inv this(1) w this(3) i(1) _ None, of b] this(2) i(2) show ?thesis by auto
  qed
  then obtain t where t: "get_rec R cfg key b s = Inr (0, x, t)" "same_store s t" by blast
  have "store_keeps R cfg view t recs"
    unfolding store_keeps_def using kv_inv_same [OF t(2) inv] idx R w cap by blast
  then show ?thesis using t(1) by blast
qed

interpretation store: own_writes_store "put_rec R cfg" "get_rec R cfg" "store_keeps R cfg view" "store_room cfg"
    "spec_put (capacity cfg)"
  for R cfg view
proof
  show "\<exists>t. put_rec R cfg k v s = Inr (0, t) \<and> store_keeps R cfg view t (spec_put (capacity cfg) recs (k, v))"
    if "store_keeps R cfg view s recs" "store_room cfg recs" "length v = VALUE_SIZE" for s recs k v
    by (rule store_put [OF that])
  show "\<exists>t. get_rec R cfg k b s = Inr (0, x, t) \<and> store_keeps R cfg view t recs"
    if "store_keeps R cfg view s recs" "current recs k = Some x" for s recs k x b
    by (rule store_hit [OF that])
qed

section \<open>Sessions in either mode\<close>

text \<open>Without the learned index only the sizes of the values matter.\<close>

definition session_ok :: "config \<Rightarrow> request list \<Rightarrow> rec list \<Rightarrow> bool" where
  "session_ok cfg = admissible (\<not> learned_index_used cfg) (store_room cfg) (spec_put (capacity cfg))"

lemma session_ok_simps [simp]:
  "session_ok cfg [] recs"
  "session_ok cfg (Put k v # rqs) recs \<longleftrightarrow>
     length v = VALUE_SIZE \<and> store_room cfg recs \<and> session_ok cfg rqs (spec_put (capacity cfg) recs (k, v))"
  "session_ok cfg (Get k b # rqs) recs \<longleftrightarrow>
     (\<not> learned_index_used cfg \<or> current recs k \<noteq> None) \<and> session_ok cfg rqs recs"
  by (simp_all add: session_ok_def)

lemma session_ok_plain: "\<not> learned_index_used cfg \<Longrightarrow> session_ok cfg rqs recs \<longleftrightarrow> sized rqs"
proof (induction rqs arbitrary: recs)
  case (Cons rq rqs)
  then show ?case by (cases rq) (simp_all add: store_room_def)
qed simp

lemma store_serve_one:
  assumes "store_keeps R cfg view s recs" "session_ok cfg [rq] recs"
  shows "\<exists>t. serve_one (put_rec R cfg) (get_rec R cfg) rq s = Inr (fst (log_one (spec_put (capacity cfg)) rq recs), t) \<and>
    store_keeps R cfg view t (snd (log_one (spec_put (capacity cfg)) rq recs))"
proof (cases "learned_index_used cfg")
  case True
  then show ?thesis using store.serve_one_law [OF assms(1)] assms(2) by (simp add: session_ok_def)
next
  case False
  have "admissible True (\<lambda>_. True) (spec_put (capacity cfg)) [rq] recs"
    using assms(2) False by (cases rq) simp_all
  then show ?thesis
    using plain.serve_one_total [of R cfg view s recs rq] assms(1) False by (simp add: plain_store_keeps)
qed

lemma store_serves:
  assumes "store_keeps R cfg view s recs" "session_ok cfg rqs recs"
  shows "\<exists>t. serve (put_rec R cfg) (get_rec R cfg) rqs s = Inr (fst (log_serve (spec_put (capacity cfg)) rqs recs), t) \<and>
    store_keeps R cfg view t (snd (log_serve (spec_put (capacity cfg)) rqs recs))"
  using serve_log [where keeps = "store_keeps R cfg view", OF store_serve_one [unfolded session_ok_def]] assms
  unfolding session_ok_def by blast

end
