(* ===== verification/LearnedKV_Props.thy ===== *)
theory LearnedKV_Props
  imports Scan_Store LearnedKV_Sessions
begin

text \<open>
  The properties of the store of \<open>learned-LSM/learnedKV.h\<close>, each with an instance on the reference
  store of \<open>RocksApi\<close>.
\<close>

section \<open>A concrete store\<close>

definition sample_config :: "bool \<Rightarrow> config" where
  "sample_config l = \<lparr>learned_index_used = l, group_size = 2048, writable = (\<lambda>_. True), fresh = (\<lambda>_ _. 0)\<rparr>"

definition sample_value :: "u8 \<Rightarrow> bytes" where
  "sample_value b = replicate 1016 b"

definition sample_store :: "ordered_store kv" where
  "sample_store = new_LearnedKV ordered_rocks store_empty Map.empty"

lemma sample_simps [simp]:
  "learned_index_used (sample_config l) = l" "writable (sample_config l) p" "capacity (sample_config l) = 2"
  "length (sample_value b) = 1016"
  by (simp_all add: sample_config_def capacity_def sample_value_def)

lemma inv_sample: "kv_inv cfg store_view sample_store 0 []"
  unfolding sample_store_def by (rule inv_new [OF ordered_rocks_ok]) simp_all

lemma live_sample: "live [(5, a), (9, b)] = [(5, a), (9, b)]"
  by (simp add: live_def collected_def)

definition learned_config :: config where
  "learned_config = (sample_config True)\<lparr>group_size := 4096\<rparr>"

lemma learned_config_simps [simp]:
  "learned_index_used learned_config" "writable learned_config p" "capacity learned_config = 4"
  "fresh learned_config = (\<lambda>_ _. 0)"
  by (simp_all add: learned_config_def sample_config_def capacity_def)

section \<open>Puts and lookups\<close>

text \<open>C1: A new store implements the abstract store: in a session of puts and lookups all requests succeed
  (no assertion of the code fails) and are answered as the abstract log answers them, where a put that
  finds the log full first drops all but the last records of the keys, and the greatest key. Without the
  learned index this holds for every session with values of 1016 bytes. With it, for the sessions in
  which lookups are of keys in the log and every collection finds 3 to 1001 keys that are small enough
  for exact arithmetic, with all files writable (\<open>session_ok\<close>). The size limit is between one record and \<open>10 ^ 8\<close> records.\<close>

theorem puts_refine:
  assumes "rocks_ok R view" "view d0 = Map.empty" "disk0 VLOG_PATH = None" "writable cfg VLOG_PATH"
    and "0 < capacity cfg" "capacity cfg \<le> 100000000" and "session_ok cfg rqs []"
  shows "\<exists>s'. serve (put_rec R cfg) (get_rec R cfg) rqs (new_LearnedKV R d0 disk0) =
    Inr (fst (log_serve (spec_put (capacity cfg)) rqs []), s')"
  using store_serves [OF store_keeps_new [OF assms(1), of d0 disk0 cfg]] assms by blast

definition sample_session :: "request list" where
  "sample_session = [Put 5 (sample_value 1), Put 9 (sample_value 2), Put 12 (sample_value 3), Put 13 (sample_value 4),
     Put 9 (sample_value 5), Get 5 [], Get 9 [], Get 12 []]"

text \<open>The fifth put finds the log full, in both modes; the lookup of 5 then goes through the index.\<close>

lemma sample_session_ok: "session_ok (learned_config\<lparr>learned_index_used := l\<rparr>) sample_session []"
proof -
  let ?cfg = "learned_config\<lparr>learned_index_used := l\<rparr>"
  let ?rs = "[(5, sample_value 1), (9, sample_value 2), (12, sample_value 3), (13, sample_value 4)]"
  have cap: "capacity ?cfg = 4" "\<And>p. writable ?cfg p" by (simp_all add: learned_config_def sample_config_def capacity_def)
  have l: "live ?rs = ?rs" by (simp add: live_def collected_def)
  have "small_keys [5, 9, 12]"
    by (simp add: small_keys_def less_Suc_eq all_conj_distrib numeral_eq_Suc [of "num.Bit1 num.One"])
  then have "collectable ?rs" unfolding collectable_def l by simp
  then show ?thesis
    by (simp add: sample_session_def cap store_room_def spec_put_def l current_def)
qed

lemma sample_mode:
  "capacity (learned_config\<lparr>learned_index_used := l\<rparr>) = 4" "writable (learned_config\<lparr>learned_index_used := l\<rparr>) p"
  by (simp_all add: learned_config_def sample_config_def capacity_def)

lemma sample_session_log:
  "fst (log_serve (spec_put 4) sample_session []) = [Stored 0, Stored 0, Stored 0, Stored 0, Stored 0,
     Found 0 (sample_value 1), Found 0 (sample_value 5), Found 0 (sample_value 3)]"
proof -
  have "live [(5, sample_value 1), (9, sample_value 2), (12, sample_value 3), (13, sample_value 4)] =
      [(5, sample_value 1), (9, sample_value 2), (12, sample_value 3), (13, sample_value 4)]"
    by (simp add: live_def collected_def)
  then show ?thesis by (simp add: sample_session_def spec_put_def current_def)
qed

lemma puts_refine_witness:
  "\<forall>l. \<exists>s'. serve (put_rec ordered_rocks (learned_config\<lparr>learned_index_used := l\<rparr>))
      (get_rec ordered_rocks (learned_config\<lparr>learned_index_used := l\<rparr>)) sample_session sample_store =
    Inr ([Stored 0, Stored 0, Stored 0, Stored 0, Stored 0,
      Found 0 (sample_value 1), Found 0 (sample_value 5), Found 0 (sample_value 3)], s')"
proof
  fix l
  let ?cfg = "learned_config\<lparr>learned_index_used := l\<rparr>"
  show "\<exists>s'. serve (put_rec ordered_rocks ?cfg) (get_rec ordered_rocks ?cfg) sample_session sample_store =
    Inr ([Stored 0, Stored 0, Stored 0, Stored 0, Stored 0,
      Found 0 (sample_value 1), Found 0 (sample_value 5), Found 0 (sample_value 3)], s')"
    using puts_refine [OF ordered_rocks_ok _ _ sample_mode(2) _ _ sample_session_ok, of store_empty Map.empty]
    by (simp add: sample_mode(1) sample_session_log sample_store_def)
qed

text \<open>C2: A put that finds room makes its key readable with its value, whether or not the learned
  index is in use, and leaves every other key of the LSM store as it was.\<close>

theorem put_get:
  assumes "rocks_ok R view" "kv_inv cfg view s base recs" "length value = 1016" "has_room cfg s"
    and "writable cfg VLOG_PATH"
  shows "\<exists>s'. put R cfg key key_size value value_size s = Inr (0, s') \<and>
    (\<exists>t. get R cfg key key_size v value_size s' = Inr (0, value, t)) \<and>
    (\<forall>k p. k \<noteq> key \<longrightarrow> last_pos base recs k = Some p \<longrightarrow>
       (\<exists>t. get R cfg k key_size v value_size s' = Inr (0, snd (recs ! p), t)))"
proof -
  obtain s' where s': "put R cfg key key_size value value_size s = Inr (0, s')"
    "kv_inv cfg view s' base (recs @ [(key, value)])"
    using put_ok [OF assms] by blast
  have "base \<le> length recs" using assms(2) by (simp add: kv_inv_def)
  then have "last_pos base (recs @ [(key, value)]) key = Some (length recs)" by simp
  from get_hit [OF assms(1) s'(2) this] have "\<exists>t. get R cfg key key_size v value_size s' = Inr (0, value, t)"
    by auto
  moreover have "\<exists>t. get R cfg k key_size v value_size s' = Inr (0, snd (recs ! p), t)"
    if "k \<noteq> key" "last_pos base recs k = Some p" for k p
  proof -
    have "last_pos base (recs @ [(key, value)]) k = Some p" "p < length recs"
      using that last_pos_SomeD by auto
    with get_hit [OF assms(1) s'(2) this(1), of v] show ?thesis by (auto simp: nth_append)
  qed
  ultimately show ?thesis using s'(1) by blast
qed

lemma put_get_witness:
  "\<exists>s'. put ordered_rocks (sample_config True) 7 key_size (sample_value 4) value_size sample_store = Inr (0, s') \<and>
    (\<exists>t. get ordered_rocks (sample_config True) 7 key_size [] value_size s' = Inr (0, sample_value 4, t))"
proof -
  have "has_room (sample_config True) sample_store"
    by (simp add: has_room_iff [OF inv_sample])
  then show ?thesis
    using put_get [OF ordered_rocks_ok inv_sample, of "sample_value 4" "sample_config True" 7 "[]"] by auto
qed

section \<open>Garbage collection\<close>

text \<open>C3: A garbage collection without the learned index keeps the current value of every key but
  the greatest one: a lookup of that key fails afterwards. (The loop that rewrites the collected
  pairs stops one before the last.)\<close>

theorem gc_drops_greatest:
  assumes "rocks_ok R view" "kv_inv cfg view s base recs" "recs \<noteq> []"
    and "writable cfg VLOG_PATH" "\<not> learned_index_used cfg"
  shows "\<exists>s'. garbage_collection R cfg key_size value_size s = Inr (0, s') \<and>
    unat (write_pos s') < length recs \<and>
    (\<forall>key v. \<exists>t. get R cfg key key_size v value_size s' =
      (case current recs key of
         Some x \<Rightarrow> if key = Max (dom (current recs)) then Inr (- 1, v, t) else Inr (0, x, t)
       | None \<Rightarrow> Inr (- 1, v, t)))"
proof -
  obtain s' where s': "garbage_collection R cfg key_size value_size s = Inr (0, s')"
    "kv_inv cfg view s' 0 (butlast (live recs))"
    using gc_rocksdb [OF assms] by blast
  have "unat (write_pos s') < length recs"
    using s'(2) length_kept_less [OF assms(3)] by (simp add: kv_inv_def del: length_butlast)
  moreover have "\<exists>t. get R cfg key key_size v value_size s' =
      (case current recs key of
         Some x \<Rightarrow> if key = Max (dom (current recs)) then Inr (- 1, v, t) else Inr (0, x, t)
       | None \<Rightarrow> Inr (- 1, v, t))" for key v
    using get_rocksdb [OF assms(1) s'(2) assms(5), of key v]
    by (auto simp: current_kept [OF assms(3)] split: option.splits if_splits)
  ultimately show ?thesis using s'(1) by blast
qed

lemma gc_drops_greatest_witness:
  "\<exists>s s'. puts ordered_rocks (sample_config False) [(5, sample_value 1), (9, sample_value 2)] sample_store = Inr s \<and>
    garbage_collection ordered_rocks (sample_config False) key_size value_size s = Inr (0, s') \<and>
    (\<exists>t. get ordered_rocks (sample_config False) 9 key_size [] value_size s' = Inr (- 1, [], t))"
proof -
  define rs where "rs = [(5 :: u64, sample_value 1), (9, sample_value 2)]"
  have f: "foldl (spec_put 2) [] rs = rs" "well_sized rs" "rs \<noteq> []"
    by (simp_all add: rs_def spec_put_def)
  obtain s where s: "puts ordered_rocks (sample_config False) rs sample_store = Inr s"
    "kv_inv (sample_config False) store_view s 0 rs"
    using puts_ok [OF ordered_rocks_ok _ _ _ _ inv_sample, of "sample_config False" rs] by (auto simp: f)
  have cur: "current rs 9 = Some (sample_value 2)" and dom: "dom (current rs) = {5, 9}"
    by (auto simp: rs_def current_def)
  obtain s' where s': "garbage_collection ordered_rocks (sample_config False) key_size value_size s = Inr (0, s')"
    and get: "\<And>key v. \<exists>t. get ordered_rocks (sample_config False) key key_size v value_size s' =
      (case current rs key of
         Some x \<Rightarrow> if key = Max (dom (current rs)) then Inr (- 1, v, t) else Inr (0, x, t)
       | None \<Rightarrow> Inr (- 1, v, t))"
    using gc_drops_greatest [OF ordered_rocks_ok s(2) f(3)] by auto
  then show ?thesis using s(1) get [of 9 "[]"] unfolding rs_def [symmetric]
    by (auto simp: cur dom)
qed

section \<open>The learned index\<close>

definition learned_sample :: "rec list" where
  "learned_sample = [(5, sample_value 1), (9, sample_value 2), (12, sample_value 3)]"

lemma live_learned_sample: "live learned_sample = learned_sample"
  by (simp add: learned_sample_def live_def collected_def)

text \<open>Three puts into the sample store, and a collection.\<close>

lemma learned_sample_puts:
  "\<exists>s. puts ordered_rocks learned_config learned_sample sample_store = Inr s \<and>
    kv_inv learned_config store_view s 0 learned_sample"
proof -
  have put: "\<exists>t. put ordered_rocks learned_config k key_size (sample_value b) value_size s = Inr (0, t) \<and>
      kv_inv learned_config store_view t 0 (recs @ [(k, sample_value b)])"
    if "kv_inv learned_config store_view s 0 recs" "length recs < 4" for s recs k b
    using put_ok [OF ordered_rocks_ok that(1), of "sample_value b" k] that(2)
    by (auto simp: has_room_iff [OF that(1)])
  obtain s1 where s1: "put ordered_rocks learned_config 5 key_size (sample_value 1) value_size sample_store = Inr (0, s1)"
    "kv_inv learned_config store_view s1 0 [(5, sample_value 1)]"
    using put [OF inv_sample, of 5 1] by auto
  obtain s2 where s2: "put ordered_rocks learned_config 9 key_size (sample_value 2) value_size s1 = Inr (0, s2)"
    "kv_inv learned_config store_view s2 0 [(5, sample_value 1), (9, sample_value 2)]"
    using put [OF s1(2), of 9 2] by auto
  obtain s3 where s3: "put ordered_rocks learned_config 12 key_size (sample_value 3) value_size s2 = Inr (0, s3)"
    "kv_inv learned_config store_view s3 0 learned_sample"
    using put [OF s2(2), of 12 3] by (auto simp: learned_sample_def)
  show ?thesis using s1 s2 s3 by (simp add: learned_sample_def)
qed

lemma learned_sample_gc:
  "\<exists>s t. puts ordered_rocks learned_config learned_sample sample_store = Inr s \<and>
    garbage_collection ordered_rocks learned_config key_size value_size s = Inr (0, t) \<and>
    kv_inv learned_config store_view t 2 [(5, sample_value 1), (9, sample_value 2)]"
proof -
  obtain s where s: "puts ordered_rocks learned_config learned_sample sample_store = Inr s"
    "kv_inv learned_config store_view s 0 learned_sample"
    using learned_sample_puts by blast
  have "3 \<le> length (live learned_sample)" unfolding live_learned_sample by (simp add: learned_sample_def)
  from gc_learned [OF ordered_rocks_ok s(2) this] s(1) show ?thesis
    unfolding live_learned_sample by (auto simp: learned_sample_def numeral_2_eq_2)
qed

text \<open>C11: After a garbage collection in the learned mode that finds 3 to 1000 keys, each of whose products
  with its position is below \<open>2 ^ 53\<close> (so that the regression is exact), every key but the greatest is
  found through the learned index, with its current value.\<close>

theorem gc_learned_complete:
  assumes "rocks_ok R view" "kv_inv cfg view s base recs" "learned_index_used cfg"
    and "\<And>p. writable cfg p" "3 \<le> length (live recs)" "length (live recs) \<le> 1000"
    and "small_keys (map fst (live recs))"
  shows "\<exists>s'. garbage_collection R cfg key_size value_size s = Inr (0, s') \<and>
    (\<forall>key x v. current recs key = Some x \<and> key \<noteq> Max (dom (current recs)) \<longrightarrow>
       (\<exists>t. get R cfg key key_size v value_size s' = Inr (0, x, t)))"
  using gc_then_get [OF assms(1,2,5,4,3,7)] assms(6) by fastforce

lemma small_learned_sample: "small_keys (map fst (live learned_sample))"
proof -
  have "map fst (live learned_sample) = [5, 9, 12]"
    unfolding live_learned_sample by (simp add: learned_sample_def)
  then show ?thesis by (simp add: small_keys_def less_Suc_eq all_conj_distrib numeral_eq_Suc [of "num.Bit1 num.One"])
qed

lemma gc_learned_complete_witness:
  "\<exists>s s'. puts ordered_rocks learned_config learned_sample sample_store = Inr s \<and>
    garbage_collection ordered_rocks learned_config key_size value_size s = Inr (0, s') \<and>
    (\<exists>t. get ordered_rocks learned_config 9 key_size [] value_size s' = Inr (0, sample_value 2, t))"
proof -
  obtain s where s: "puts ordered_rocks learned_config learned_sample sample_store = Inr s"
    "kv_inv learned_config store_view s 0 learned_sample"
    using learned_sample_puts by blast
  have l: "3 \<le> length (live learned_sample)" "length (live learned_sample) \<le> 1000"
    unfolding live_learned_sample by (simp_all add: learned_sample_def)
  have "current learned_sample 9 = Some (sample_value 2)" "dom (current learned_sample) = {5, 9, 12}"
    by (auto simp: learned_sample_def current_def)
  moreover obtain s' where s': "garbage_collection ordered_rocks learned_config key_size value_size s = Inr (0, s')"
    and get: "\<And>key x v. current learned_sample key = Some x \<Longrightarrow> key \<noteq> Max (dom (current learned_sample)) \<Longrightarrow>
      \<exists>t. get ordered_rocks learned_config key key_size v value_size s' = Inr (0, x, t)"
    using gc_learned_complete [OF ordered_rocks_ok s(2) _ _ l small_learned_sample] by auto
  ultimately show ?thesis using s(1) s' get [of 9 "sample_value 2" "[]"] by auto
qed

text \<open>C14: When at least two keys are indexed and the product of each with its position is below \<open>2 ^ 53\<close>, a
  lookup of an indexed key that was not put again returns its value, unless the key's position is 1000 or
  1001 places above the predicted one: the search window ends just before the predicted position plus
  1000, while the regression allows a distance of 1000.\<close>

theorem learned_lookup:
  assumes "rocks_ok R view" "kv_inv cfg view s base recs" "2 \<le> base" "writable cfg VLOG_PATH"
    and "small_keys (map fst (take base recs))" "i < base" "key = fst (recs ! i)"
    and "last_pos base recs key = None"
  shows "(\<exists>t. get R cfg key key_size v value_size s = Inr (0, snd (recs ! i), t)) \<or>
    query_model key (disk s) + 1000 \<le> int i \<and> int i \<le> query_model key (disk s) + 1001"
  using get_indexed [OF assms] by blast

lemma learned_lookup_witness:
  "\<exists>s. (\<exists>t. get ordered_rocks learned_config 5 key_size [] value_size s = Inr (0, sample_value 1, t)) \<or>
    query_model 5 (disk s) + 1000 \<le> 0 \<and> 0 \<le> query_model 5 (disk s) + 1001"
proof -
  obtain s where inv: "kv_inv learned_config store_view s 2 [(5, sample_value 1), (9, sample_value 2)]"
    using learned_sample_gc by blast
  have small: "small_keys (map fst (take 2 [(5 :: u64, sample_value 1), (9, sample_value 2)]))"
    by (simp add: small_keys_def less_Suc_eq all_conj_distrib)
  have miss: "last_pos 2 [(5, sample_value 1), (9, sample_value 2)] 5 = None"
    by (simp add: last_pos_base_end)
  show ?thesis
    using learned_lookup [OF ordered_rocks_ok inv _ _ small _ _ miss, of 0 "[]"]
    by (intro exI [of _ s]) simp
qed

text \<open>With the learned index in use, a lookup reports success for every key, also for one that
  was never put: the key read from the value log is not compared with the key asked for.\<close>

theorem learned_never_misses:
  assumes "rocks_ok R view" "kv_inv cfg view s base recs" "base \<noteq> 0" "writable cfg VLOG_PATH"
  shows "\<exists>x t. get R cfg key key_size v value_size s = Inr (0, x, t) \<and> length x = 1016"
  using get_learned_status [OF assms] .

lemma learned_never_misses_witness:
  "\<exists>s x t. get ordered_rocks learned_config 777 key_size [] value_size s = Inr (0, x, t) \<and> length x = 1016"
proof -
  obtain s where inv: "kv_inv learned_config store_view s 2 [(5, sample_value 1), (9, sample_value 2)]"
    using learned_sample_gc by blast
  show ?thesis using learned_never_misses [OF ordered_rocks_ok inv, of 777 "[]"]
    by (intro exI [of _ s]) simp
qed

end
