(* ===== verification/Scan_Props.thy ===== *)
theory Scan_Props
  imports LearnedKV_Props
begin

text \<open>The properties of \<open>scan\<close> and of the merge of \<open>learned-LSM/learnedKV.h\<close>.\<close>

section \<open>The merge\<close>

text \<open>C22: The merge of two runs in strictly ascending key order is in strictly ascending key order,
  has the keys of both, and keeps the entry of the LSM store for a key of both.\<close>

theorem merge_prefers_lsm:
  assumes "sorted_wrt (<) (map fst xs)" "sorted_wrt (<) (map fst ys)"
  shows "\<exists>zs. mergeKeyValueVectors (enc xs) (enc ys) out = Inr (out @ enc zs) \<and>
    sorted_wrt (<) (map fst zs) \<and> map_of zs = map_of ys ++ map_of xs"
  using merge_enc sorted_merge_spec [OF assms] map_of_merge_spec [OF assms] by blast

lemma merge_prefers_lsm_witness:
  "\<exists>zs. mergeKeyValueVectors (enc [(1, [10]), (4, [11])]) (enc [(2, [12]), (4, [13])]) [] = Inr (enc zs) \<and>
    map_of zs 4 = Some [11] \<and> map_of zs 2 = Some [12]"
proof -
  have "sorted_wrt (<) (map fst [(1 :: u64, [10 :: u8]), (4, [11])])"
    "sorted_wrt (<) (map fst [(2 :: u64, [12 :: u8]), (4, [13])])" by simp_all
  from merge_prefers_lsm [OF this, of "[]"] show ?thesis by (auto simp: map_add_def)
qed

section \<open>Scans without the learned index\<close>

text \<open>C17: A scan without the learned index returns exactly the keys of the half-open range
  from the start key, in ascending order; the end of the range saturates at the greatest key.\<close>

theorem scan_keys:
  assumes "rocks_ok R view" "kv_inv cfg view s 0 recs" "writable cfg VLOG_PATH"
    and "\<not> learned_index_used cfg"
  shows "\<exists>out t. scan R cfg k0 key_size kvs value_size rng s = Some (Inr (0, out, t)) \<and>
    sorted_wrt bytes_less (map fst out) \<and>
    fst ` set out = ullToString ` {k \<in> dom (current recs). k0 \<le> k \<and> k < scan_end k0 rng} \<and>
    unat (scan_end k0 rng) = min (unat k0 + unat rng) (2 ^ 64 - 1)"
  using scan_rocksdb_keys [OF assms] scan_end_saturates by blast

lemma scan_keys_witness:
  "\<exists>s out t. scan ordered_rocks (sample_config False) 4 key_size [] value_size 5 s = Some (Inr (0, out, t)) \<and>
    fst ` set out = {ullToString 5}"
proof -
  define rs where "rs = [(5 :: u64, sample_value 1), (9, sample_value 2)]"
  have f: "foldl (spec_put 2) [] rs = rs" "well_sized rs" by (simp_all add: rs_def spec_put_def)
  obtain s where inv: "kv_inv (sample_config False) store_view s 0 rs"
    using puts_ok [OF ordered_rocks_ok _ _ _ _ inv_sample, of "sample_config False" rs] by (auto simp: f)
  have "dom (current rs) = {5, 9}" by (auto simp: rs_def current_def)
  then have "{k \<in> dom (current rs). 4 \<le> k \<and> k < scan_end 4 5} = {5}" by (auto simp: scan_end_def)
  with scan_keys [OF ordered_rocks_ok inv, of 4 "[]" 5] show ?thesis by auto
qed

text \<open>The values of such a scan are wrong: \<open>scan\<close> undoes the decoding of the pointer, so that
  each value is that of the first record of the log, or all zeros, or the first bytes of the log.
  With at most 256 records every value is that of the first record.\<close>

theorem scan_values:
  assumes "rocks_ok R view" "kv_inv cfg view s 0 recs" "writable cfg VLOG_PATH"
    and "\<not> learned_index_used cfg" "recs \<noteq> []"
  shows "\<exists>out t. scan R cfg k0 key_size kvs value_size rng s = Some (Inr (0, out, t)) \<and>
    (\<forall>v \<in> snd ` set out. v \<in> {snd (recs ! 0), replicate 1016 0, take 1016 (vlog_image recs)}) \<and>
    (length recs \<le> 256 \<longrightarrow> (\<forall>v \<in> snd ` set out. v = snd (recs ! 0)))"
  using scan_rocksdb_values [OF assms] .

lemma scan_values_witness:
  "\<exists>s t. get ordered_rocks (sample_config False) 9 key_size [] value_size s = Inr (0, sample_value 2, t) \<and>
    (\<exists>out t. scan ordered_rocks (sample_config False) 9 key_size [] value_size 5 s = Some (Inr (0, out, t)) \<and>
      (\<forall>v \<in> snd ` set out. v = sample_value 1))"
proof -
  define rs where "rs = [(5 :: u64, sample_value 1), (9, sample_value 2)]"
  have f: "foldl (spec_put 2) [] rs = rs" "well_sized rs" "rs \<noteq> []" "length rs \<le> 256"
    "snd (rs ! 0) = sample_value 1" "current rs 9 = Some (sample_value 2)"
    by (simp_all add: rs_def spec_put_def current_def)
  obtain s where inv: "kv_inv (sample_config False) store_view s 0 rs"
    using puts_ok [OF ordered_rocks_ok _ _ _ _ inv_sample, of "sample_config False" rs] by (auto simp: f)
  obtain t where "get ordered_rocks (sample_config False) 9 key_size [] value_size s = Inr (0, sample_value 2, t)"
    using get_rocksdb [OF ordered_rocks_ok inv, of 9 "[]"] by (auto simp: f(6))
  moreover have "\<exists>out t. scan ordered_rocks (sample_config False) 9 key_size [] value_size 5 s = Some (Inr (0, out, t)) \<and>
      (\<forall>v \<in> snd ` set out. v = sample_value 1)"
    using scan_values [OF ordered_rocks_ok inv _ _ f(3), of 9 "[]" 5] f(4,5) by auto
  ultimately show ?thesis by blast
qed

section \<open>Scans with the learned index\<close>

text \<open>C20: Let something be indexed, the start key be the indexed key at position \<open>i\<close>, and the first
  indexed key that is not below the end key be at a position \<open>j\<close> from \<open>i\<close> on. If the positions predicted
  for the start key and for the end key are within a search window of \<open>i\<close> and \<open>j\<close> (\<open>near\<close>; the end key
  need not be indexed, so no error bound gives this), then the scan returns the merge of the
  entries of the LSM store in the range with the records \<open>i\<close> to \<open>j\<close> of the value log (record \<open>i\<close> alone
  when the range has no further key), each value cut at its first zero byte.\<close>

theorem scan_learned_result:
  assumes "rocks_ok R view" "kv_inv cfg view s base recs" "base \<noteq> 0" "writable cfg VLOG_PATH"
    and "i < base" "k0 = fst (recs ! i)" "near (query_model k0 (disk s)) i"
    and "e = scan_end k0 rng" "j < base" "\<forall>l < j. fst (recs ! l) < e" "e \<le> fst (recs ! j)"
    and "near (query_model e (disk s)) j" "i \<le> j"
  shows "\<exists>eps t. in_range base recs k0 e eps \<and>
    scan R cfg k0 key_size kvs value_size rng s = Some (Inr (0,
      kvs @ enc (merge_spec (scanned_recs recs eps) (learned_recs recs i j)), t))"
  using scan_learned_merge [OF assms] by blast

lemma near_sample:
  assumes "kv_inv learned_config store_view s 2 [(5, sample_value 1), (9, sample_value 2)]"
  shows "near (query_model 5 (disk s)) 0" "near (query_model 9 (disk s)) 1"
proof -
  have small: "small_keys (map fst (take 2 [(5 :: u64, sample_value 1), (9, sample_value 2)]))"
    by (simp add: small_keys_def less_Suc_eq all_conj_distrib)
  show "near (query_model 5 (disk s)) 0" "near (query_model 9 (disk s)) 1"
    using index_prediction [OF assms _ small, of 0] index_prediction [OF assms _ small, of 1]
    by (simp_all add: near_def)
qed

lemma scan_learned_result_witness:
  "\<exists>s t. scan ordered_rocks learned_config 5 key_size [] value_size 4 s = Some (Inr (0,
      [(ullToString 5, sample_value 1)], t))"
proof -
  let ?recs = "[(5, sample_value 1), (9, sample_value 2)]"
  obtain s where inv: "kv_inv learned_config store_view s 2 ?recs"
    using learned_sample_gc by blast
  have "\<exists>eps t. in_range 2 ?recs 5 9 eps \<and>
    scan ordered_rocks learned_config 5 key_size [] value_size 4 s = Some (Inr (0,
      [] @ enc (merge_spec (scanned_recs ?recs eps) (learned_recs ?recs 0 1)), t))"
    using near_sample [OF inv]
    by (intro scan_learned_result [OF ordered_rocks_ok inv, where i = 0 and j = 1])
      (simp_all add: scan_end_def)
  then obtain eps t where "in_range 2 ?recs 5 9 eps"
    "scan ordered_rocks learned_config 5 key_size [] value_size 4 s = Some (Inr (0,
      [] @ enc (merge_spec (scanned_recs ?recs eps) (learned_recs ?recs 0 1)), t))"
    by blast
  moreover from this have "eps = []" by (simp add: in_range_def last_pos_base_end)
  moreover have "c_string (sample_value 1 @ [0]) = sample_value 1"
    unfolding sample_value_def by (rule c_string_pad) simp
  ultimately show ?thesis by (auto simp: learned_recs_def scanned_recs_def)
qed

text \<open>C21: After a collection and before the next put, a scan whose range ends beyond the last indexed key
  does not return under these conditions: the start key is indexed and its predicted position is within
  the search window, the position predicted for the end key is less than 1000 below the number of
  records, and all memory in the unread part of the buffer of the search is below the end key. The
  loop over the value log then waits for a position past the end of the file.\<close>

theorem scan_never_returns:
  assumes "rocks_ok R view" "kv_inv cfg view s base recs" "base \<noteq> 0" "base = length recs"
    and "writable cfg VLOG_PATH" "i < base" "k0 = fst (recs ! i)" "near (query_model k0 (disk s)) i"
    and "e = scan_end k0 rng" "\<forall>r \<in> set recs. fst r < e"
    and "int base < query_model e (disk s) + 1000" "\<forall>n. fresh cfg 1 n < e"
  shows "scan R cfg k0 key_size kvs value_size rng s = None"
  using scan_diverges [OF assms] .

lemma scan_never_returns_witness:
  "\<exists>s. scan ordered_rocks learned_config 5 key_size [] value_size 100 s = None"
proof -
  obtain s where inv: "kv_inv learned_config store_view s 2 [(5, sample_value 1), (9, sample_value 2)]"
    using learned_sample_gc by blast
  have "- 1 \<le> query_model 105 (disk s)" using query_model_bounds by blast
  then have "scan ordered_rocks learned_config 5 key_size [] value_size 100 s = None"
    using near_sample [OF inv]
    by (intro scan_never_returns [OF ordered_rocks_ok inv, where i = 0 and e = 105])
      (simp_all add: scan_end_def)
  then show ?thesis by blast
qed

end
