(* ===== verification/Index_Props.thy ===== *)
theory Index_Props
  imports PLR_Bound
begin

text \<open>
  The properties of the parts below the store: the Bloom filter, the key strings and the flags of
  \<open>learned-LSM/utils.h\<close>, and the piecewise linear regression of \<open>learned-LSM/learnedKV.h\<close>.
\<close>

section \<open>Bloom filter\<close>

text \<open>C31: The filter has no false negatives: a key inserted since the last reset is possibly
  contained, whatever was inserted before and after it; after a reset no key is, as long as there
  is a hash function.\<close>

theorem bloom_no_false_negatives:
  "possiblyContains (fold bloom_insert (ks @ k # ks') f) k \<and>
   (possiblyContains (bloom_reset f) k \<longleftrightarrow> numHashes f = 0)"
proof
  show "possiblyContains (fold bloom_insert (ks @ k # ks') f) k"
    by (rule bloom.test_fold_member) simp
  show "possiblyContains (bloom_reset f) k \<longleftrightarrow> numHashes f = 0"
    by (simp add: possiblyContains_iff bloom_reset_def unat_eq_0 lessThan_empty_iff)
qed

section \<open>Key strings\<close>

text \<open>The 8-byte key strings are in bijection with the keys, and their byte-wise order, which is
  the order of the LSM store, is the numeric order of the keys.\<close>

theorem key_strings:
  "stringToULL (ullToString v) = Inr v \<and> length (ullToString v) = 8 \<and>
   (bytes_less (ullToString v) (ullToString w) \<longleftrightarrow> v < w)"
  by (simp_all add: bytes_less_ullToString)

section \<open>Flags\<close>

definition flag_arg :: "string \<times> string \<Rightarrow> string" where
  "flag_arg kv = ''--'' @ fst kv @ ''='' @ snd kv"

lemma find_char_append: "c \<notin> set xs \<Longrightarrow> find_char c (xs @ c # ys) = Some (length xs)"
  by (induction xs) auto

lemma parse_flag_arg: "CHR ''='' \<notin> set k \<Longrightarrow> parse_flag (flag_arg (k, v)) = Some (k, v)"
  using find_char_append [of "CHR ''=''" "''--'' @ k" v] by (simp add: parse_flag_def flag_arg_def)

lemma parse_flags_from_args:
  "\<forall>kv \<in> set kvs. CHR ''='' \<notin> set (fst kv) \<Longrightarrow>
   parse_flags_from (map flag_arg kvs) m = m ++ map_of (rev kvs)"
proof (induction kvs arbitrary: m)
  case (Cons kv kvs)
  then have "parse_flag (flag_arg kv) = Some kv" using parse_flag_arg [of "fst kv" "snd kv"] by simp
  with Cons show ?case by (cases kv) (simp add: map_add_assoc [symmetric] fun_eq_iff map_add_def split: option.splits)
qed simp

text \<open>Parsing the printed flags gives the flags back, the last value of a repeated key winning;
  an argument that does not start with two dashes changes nothing.\<close>

theorem parse_flags_roundtrip:
  assumes "\<forall>kv \<in> set kvs. CHR ''='' \<notin> set (fst kv)" "\<not> dash_at_0 bad"
  shows "parse_flags (map flag_arg kvs @ [bad]) = map_of (rev kvs)"
proof -
  have "parse_flags_from (xs @ [bad]) m = parse_flags_from xs m" for xs m
    using assms(2) by (induction xs arbitrary: m) (auto simp: parse_flag_def split: option.splits)
  then show ?thesis using parse_flags_from_args [OF assms(1)] by (simp add: parse_flags_def)
qed

lemma parse_flags_roundtrip_witness:
  "parse_flags [''--n=10'', ''--dir=a=b'', ''-x''] ''dir'' = Some ''a=b''"
  using parse_flags_roundtrip [of "[(''n'', ''10''), (''dir'', ''a=b'')]" "''-x''"]
  by (simp add: flag_arg_def)

lemma find_char_none: "c \<notin> set xs \<Longrightarrow> find_char c xs = None"
  by (induction xs) auto

lemma getline_no_comma: "CHR '','' \<notin> set v \<Longrightarrow> v \<noteq> [] \<Longrightarrow> getline_all v = [v]"
  using find_char_none [of "CHR '',''" v] by (subst getline_all.simps) auto

lemma getline_comma: "CHR '','' \<notin> set v \<Longrightarrow> getline_all (v @ '','' @ s) = v # getline_all s"
  using find_char_append [of "CHR '',''" v s] by (subst getline_all.simps) simp

fun join_commas :: "string list \<Rightarrow> string" where
  "join_commas [] = []"
| "join_commas [v] = v"
| "join_commas (v # vs) = v @ '','' @ join_commas vs"

text \<open>A list of non-empty values without commas survives being joined with commas in a flag and
  split again.\<close>

theorem comma_separated_roundtrip:
  assumes "\<forall>v \<in> set vs. v \<noteq> [] \<and> CHR '','' \<notin> set v" "m key = Some (join_commas vs)"
  shows "get_comma_separated m key = vs"
proof -
  have "getline_all (join_commas vs) = vs" using assms(1)
  proof (induction vs rule: join_commas.induct)
    case 1
    then show ?case by (simp add: getline_all.simps)
  next
    case (2 v)
    then show ?case by (simp add: getline_no_comma del: getline_all.simps)
  next
    case (3 v w vs)
    then show ?case using getline_comma [of v "join_commas (w # vs)"] by (simp del: getline_all.simps)
  qed
  with assms(2) show ?thesis by (simp add: get_comma_separated_def)
qed

lemma comma_separated_roundtrip_witness:
  "get_comma_separated [''keys'' \<mapsto> ''1,20,300''] ''keys'' = [''1'', ''20'', ''300'']"
  by (rule comma_separated_roundtrip) simp_all

section \<open>Piecewise linear regression\<close>

text \<open>Building the regression succeeds on at least two points and writable files, and a lookup
  in the files it wrote predicts from the segments it computed; the key array holds the keys.\<close>

theorem plr_files:
  assumes "2 \<le> length x" "may_write MODEL_PATH" "may_write KEY_ARRAY_PATH"
  shows "\<exists>d'. build_piecewise_linear_regression may_write x y err d = (0, d') \<and>
    (\<forall>key. query_model key d' = query_segments key (plr_model x y err)) \<and>
    (\<exists>c. d' KEY_ARRAY_PATH = Some c \<and> u64s_of c = x) \<and>
    (\<forall>p. p \<noteq> MODEL_PATH \<longrightarrow> p \<noteq> KEY_ARRAY_PATH \<longrightarrow> d' p = d p)"
  using assms by (auto simp: build_piecewise_linear_regression_def fopen_trunc_def fwrite_end_def
      query_model_def fopen_read_def)

lemma plr_files_witness:
  "\<exists>d'. build_piecewise_linear_regression (\<lambda>_. True) [3, 8] [dzero, dzero] dzero Map.empty = (0, d') \<and>
    (\<exists>c. d' KEY_ARRAY_PATH = Some c \<and> u64s_of c = [3, 8])"
  using plr_files [of "[3, 8]" "\<lambda>_. True" "[dzero, dzero]" dzero Map.empty] by fastforce

text \<open>C13: For 2 to \<open>10 ^ 9\<close> strictly ascending keys whose products with their positions stay below \<open>2 ^ 53\<close>,
  the position predicted for every indexed key, in the arithmetic of the machine, is at most 1000 above
  and at most 1001 below the key's position; it is never negative.\<close>

theorem plr_error_bound:
  assumes "sorted_wrt (<) x" "2 \<le> length x" "length x \<le> 1000000000" "small_keys x" "j < length x"
  shows "query_segments (x ! j) (plr_model x (positions (length x)) err_bound) \<le> int j + 1000 \<and>
    int j \<le> query_segments (x ! j) (plr_model x (positions (length x)) err_bound) + 1001 \<and>
    0 \<le> query_segments (x ! j) (plr_model x (positions (length x)) err_bound)"
  using plr_prediction [OF assms] by blast

lemma plr_error_bound_witness:
  "query_segments 70 (plr_model [10, 40, 70] (positions 3) err_bound) \<le> 1002"
proof -
  have "small_keys [10, 40, 70]" by (simp add: small_keys_def less_Suc_eq all_conj_distrib numeral_3_eq_3)
  from plr_error_bound [OF _ _ _ this, of 2] show ?thesis by (simp add: numeral_3_eq_3)
qed

text \<open>C16: For any points in ascending key order, whatever the bound and however the arithmetic
  rounds, the model is within the bound at every key, except for the keys a segment was fitted
  through.\<close>

theorem plr_covers:
  assumes "sorted_wrt (<) x" "2 \<le> length x" "j < length x"
  shows "covered err (plr_model x y err) (x ! j) (y ! j) \<or>
    (\<exists>m. m + 1 < length x \<and> (j = m \<or> j = m + 1) \<and>
      locate (x ! j) (plr_model x y err) (dzero, dzero) =
        (let f = fit (x ! m) (y ! m) (x ! (m + 1)) (y ! (m + 1)) in (slope f, intercept f)))"
  using plr_model_covered [OF assms, of err y]
    locate_indexed [OF assms(1) anchored_model [OF assms(1,2), of y err] assms(3,2), of "(dzero, dzero)"]
  by blast

lemma plr_covers_witness:
  "covered err_bound (plr_model [10, 40, 70] (positions 3) err_bound) ([10, 40, 70] ! 2) (positions 3 ! 2) \<or>
    (\<exists>m. m + 1 < length [10 :: u64, 40, 70] \<and> (2 = m \<or> 2 = m + 1) \<and>
      locate ([10, 40, 70] ! 2) (plr_model [10, 40, 70] (positions 3) err_bound) (dzero, dzero) =
        (let f = fit ([10, 40, 70] ! m) (positions 3 ! m) ([10, 40, 70] ! (m + 1)) (positions 3 ! (m + 1))
         in (slope f, intercept f)))"
  by (rule plr_covers) simp_all

end
