(* ===== verification/LevelDB_KV.thy ===== *)
theory LevelDB_KV
  imports LearnedKV_Scan
begin

text \<open>
  The variant of the store on LevelDB in \<open>learned-LSM/learnedKV_leveldb_new.h\<close>. A put checks that the
  value log ends where the write position says, and a garbage collection writes its batch without
  a flush; all other member functions have the code of \<open>learnedKV.h\<close>.
\<close>

section \<open>The operations that differ\<close>

definition ldb_garbage_collection ::
  "('db, 'm) rocks_api_scheme \<Rightarrow> config \<Rightarrow> u64 \<Rightarrow> u64 \<Rightarrow> 'db kv \<Rightarrow> fault + (int \<times> 'db kv)" where
  "ldb_garbage_collection R cfg keySize valueSize s =
     (case fopen_read (disk s) VLOG_PATH of
        None \<Rightarrow> Inl NullFile
      | Some c \<Rightarrow>
     (case gc_collect c [] of
        Inl e \<Rightarrow> Inl e
      | Inr valid_map \<Rightarrow>
     (let s = snd (destroy_rocksdb R s);
          s = s\<lparr>disk := fremove (disk s) VLOG_PATH\<rparr>;
          s = snd (initialize_rocksdb R s)
      in case fopen_append (writable cfg) (disk s) VLOG_PATH of
        None \<Rightarrow> Inl NullFile
      | Some d \<Rightarrow>
     (let s = s\<lparr>disk := d, write_pos := 0\<rparr>;
          valid_vec = sort_key fst valid_map
      in if valid_vec = [] then Inl BadIterator else
      case gc_write (learned_index_used cfg) keySize valueSize (butlast valid_vec)
             \<lparr>gc_pos = 0, gc_vlog = [], gc_x = [], gc_y = [], gc_batch = [], gc_bloom = bloom s\<rparr> of
        Inl e \<Rightarrow> Inl e
      | Inr g \<Rightarrow>
     (let s = s\<lparr>write_pos := gc_pos g, bloom := gc_bloom g,
               disk := fwrite_end (disk s) VLOG_PATH (gc_vlog g)\<rparr>;
          (ok, d) = (if learned_index_used cfg then (True, db s) else db_write R (db s) (gc_batch g));
          s = s\<lparr>db := d\<rparr>
      in if \<not> ok then Inr (- 1, s) else
      let s = (if learned_index_used cfg then
                 s\<lparr>disk := snd (build_piecewise_linear_regression (writable cfg) (gc_x g) (gc_y g)
                                 (double_of_u64 (word_of_int ERR_BOUND)) (disk s))\<rparr>
               else s)
      in Inr (0, s\<lparr>gc_write_size := gc_write_size s
                     + int ((KEY_SIZE + VALUE_SIZE) * length valid_vec)\<rparr>))))))"

definition ldb_put ::
  "('db, 'm) rocks_api_scheme \<Rightarrow> config \<Rightarrow> u64 \<Rightarrow> u64 \<Rightarrow> bytes \<Rightarrow> u64 \<Rightarrow> 'db kv
     \<Rightarrow> fault + (int \<times> 'db kv)" where
  "ldb_put R cfg key keySize value valueSize s =
     (case (if group_size cfg < (write_pos s + 1) * (keySize + valueSize)
            then (case ldb_garbage_collection R cfg keySize valueSize s of
                    Inl e \<Rightarrow> Inl e
                  | Inr (_, s) \<Rightarrow> Inr (s\<lparr>gc_count := gc_count s + 1\<rparr>))
            else Inr s) of
        Inl e \<Rightarrow> Inl e
      | Inr s \<Rightarrow>
      if \<not> (write_pos s + 1) * (keySize + valueSize) \<le> group_size cfg then Inl AssertFail else
      (case fopen_append (writable cfg) (disk s) VLOG_PATH of
        None \<Rightarrow> Inl NullFile
      | Some d \<Rightarrow>
      if word_of_nat (length (the (d VLOG_PATH))) \<noteq> write_pos s * (keySize + valueSize)
      then Inl AssertFail else
      (case record_data key keySize value valueSize of
        Inl e \<Rightarrow> Inl e
      | Inr data \<Rightarrow>
      (let s = s\<lparr>disk := fwrite_end d VLOG_PATH data\<rparr>
       in if \<not> write_pos s < 100000000 then Inl AssertFail else
       let ptr = ullToString (write_pos s);
           (ok, d) = db_put R (db s) (ullToString key) ptr;
           s = s\<lparr>db := d\<rparr>
       in if \<not> ok then Inr (- 1, s)
          else Inr (0, s\<lparr>write_pos := write_pos s + 1, bloom := bloom_insert key (bloom s)\<rparr>)))))"

section \<open>The operations that are the same\<close>

text \<open>The bodies are those of \<open>learnedKV.h\<close> up to messages, timing and dead comments.\<close>

definition ldb_get ::
  "('db, 'm) rocks_api_scheme \<Rightarrow> config \<Rightarrow> u64 \<Rightarrow> u64 \<Rightarrow> bytes \<Rightarrow> u64 \<Rightarrow> 'db kv
     \<Rightarrow> fault + (int \<times> bytes \<times> 'db kv)" where
  "ldb_get = get"

definition ldb_scan ::
  "('db, 'm) rocks_api_scheme \<Rightarrow> config \<Rightarrow> u64 \<Rightarrow> u64 \<Rightarrow> kvs \<Rightarrow> u64 \<Rightarrow> u64 \<Rightarrow> 'db kv
     \<Rightarrow> (fault + (int \<times> kvs \<times> 'db kv)) option" where
  "ldb_scan = scan"

definition ldb_new :: "('db, 'm) rocks_api_scheme \<Rightarrow> 'db \<Rightarrow> disk \<Rightarrow> 'db kv" where
  "ldb_new = new_LearnedKV"

definition ldb_build_piecewise_linear_regression ::
  "(string \<Rightarrow> bool) \<Rightarrow> u64 list \<Rightarrow> double list \<Rightarrow> double \<Rightarrow> disk \<Rightarrow> int \<times> disk" where
  "ldb_build_piecewise_linear_regression = build_piecewise_linear_regression"

definition ldb_query_model :: "u64 \<Rightarrow> disk \<Rightarrow> int" where
  "ldb_query_model = query_model"

end
