(* ===== verification/LevelDB_Facts.thy ===== *)
theory LevelDB_Facts
  imports LevelDB_KV LearnedKV_Sessions
begin

text \<open>
  The LevelDB variant is the store of \<open>learnedKV.h\<close> on an LSM store whose flush does nothing, and the
  additional assertion of its put never fails.
\<close>

definition no_flush :: "('db, 'm) rocks_api_scheme \<Rightarrow> ('db, 'm) rocks_api_scheme" where
  "no_flush R = R\<lparr>db_flush := (\<lambda>s. (True, s))\<rparr>"

lemma no_flush_simps [simp]:
  "db_open (no_flush R) = db_open R" "db_destroy (no_flush R) = db_destroy R" "db_put (no_flush R) = db_put R"
  "db_write (no_flush R) = db_write R" "db_get (no_flush R) = db_get R" "db_seek (no_flush R) = db_seek R"
  "db_flush (no_flush R) s = (True, s)"
  by (simp_all add: no_flush_def)

lemma no_flush_ok: "rocks_ok R view \<Longrightarrow> rocks_ok (no_flush R) view"
  by (simp add: rocks_ok_def)

lemma ldb_gc_eq: "ldb_garbage_collection R cfg ks vs s = garbage_collection (no_flush R) cfg ks vs s"
proof -
  have "snd (destroy_rocksdb R s) = snd (destroy_rocksdb (no_flush R) s)"
    "snd (initialize_rocksdb R t) = snd (initialize_rocksdb (no_flush R) t)" for s :: "'a kv" and t :: "'a kv"
    by (simp_all add: destroy_rocksdb_def initialize_rocksdb_def)
  moreover have "(if l then t else t\<lparr>db := db t\<rparr>) = t" for l and t :: "'a kv" by simp
  ultimately show ?thesis
    unfolding ldb_garbage_collection_def garbage_collection_def no_flush_simps snd_conv by (simp only: Let_def)
qed

lemma ldb_get_eq: "ldb_get R = get (no_flush R)"
  by (intro ext) (simp add: ldb_get_def get_def)

lemma ldb_new_eq: "ldb_new R = new_LearnedKV (no_flush R)"
  by (intro ext) (simp add: ldb_new_def new_LearnedKV_def initialize_rocksdb_def)

text \<open>The value log ends where the write position says.\<close>

lemma log_length:
  assumes "kv_inv cfg view s base recs"
  shows "word_of_nat (length (case disk s VLOG_PATH of None \<Rightarrow> [] | Some c \<Rightarrow> c)) =
    write_pos s * (key_size + value_size)"
proof -
  have u: "unat (write_pos s) = length recs" and ws: "well_sized recs" and v: "vlog_file recs (disk s)"
    using assms by (auto simp: kv_inv_def)
  note w = write_pos_eq [OF u]
  have "length (case disk s VLOG_PATH of None \<Rightarrow> [] | Some c \<Rightarrow> c) = 1024 * length recs"
    using v length_vlog_image [OF ws] by (auto simp: vlog_file_def)
  then show ?thesis by (simp add: w key_size_def value_size_def)
qed

lemma ldb_put_room:
  assumes inv: "kv_inv cfg view s base recs"
    and room: "(write_pos s + 1) * (key_size + value_size) \<le> group_size cfg"
  shows "ldb_put R cfg key key_size v value_size s = put (no_flush R) cfg key key_size v value_size s"
proof -
  have "\<not> group_size cfg < (write_pos s + 1) * (key_size + value_size)" using room by simp
  then show ?thesis
    using log_length [OF inv] room unfolding ldb_put_def put_def no_flush_simps
    by (cases "writable cfg VLOG_PATH") (simp_all add: fopen_append_def)
qed

lemma ldb_put_eq:
  assumes k: "store_keeps (no_flush R) cfg view s recs" and room: "store_room cfg recs"
  shows "ldb_put R cfg key key_size v value_size s = put (no_flush R) cfg key key_size v value_size s"
proof (cases "length recs < capacity cfg")
  case True
  obtain base where inv: "kv_inv cfg view s base recs" using k by (rule store_keepsE)
  show ?thesis by (rule ldb_put_room [OF inv]) (simp add: room_iff [OF inv] True)
next
  case False
  obtain s1 base base1 where inv: "kv_inv cfg view s base recs"
    and gc: "garbage_collection (no_flush R) cfg key_size value_size s = Inr (0, s1)"
    and inv1: "kv_inv cfg view s1 base1 (butlast (live recs))" and less: "length (butlast (live recs)) < capacity cfg"
    using store_collects [OF k room False] by blast
  let ?s = "s1\<lparr>gc_count := gc_count s1 + 1\<rparr>"
  have inv2: "kv_inv cfg view ?s base1 (butlast (live recs))" using inv1 by (simp add: kv_inv_gc_count)
  have no: "\<not> (write_pos s + 1) * (key_size + value_size) \<le> group_size cfg"
    and yes: "(write_pos s1 + 1) * (key_size + value_size) \<le> group_size cfg"
    using False less by (simp_all add: room_iff [OF inv] room_iff [OF inv1] del: length_butlast)
  have "ldb_put R cfg key key_size v value_size s = ldb_put R cfg key key_size v value_size ?s"
  proof -
    have "\<not> group_size cfg < (write_pos ?s + 1) * (key_size + value_size)"
      "group_size cfg < (write_pos s + 1) * (key_size + value_size)"
      using yes no by simp_all
    then show ?thesis unfolding ldb_put_def ldb_gc_eq by (simp only: gc if_True if_False sum.case prod.case)
  qed
  also have "\<dots> = put (no_flush R) cfg key key_size v value_size ?s"
    by (rule ldb_put_room [OF inv2]) (use yes in simp)
  also have "\<dots> = put (no_flush R) cfg key key_size v value_size s"
    by (rule put_collect [OF no gc yes, symmetric])
  finally show ?thesis .
qed

section \<open>The variant keeps the contract of the interface\<close>

abbreviation ldb_put_rec :: "('db, 'm) rocks_api_scheme \<Rightarrow> config \<Rightarrow> 'db kv put_op" where
  "ldb_put_rec R cfg key v \<equiv> ldb_put R cfg key key_size v value_size"

abbreviation ldb_get_rec :: "('db, 'm) rocks_api_scheme \<Rightarrow> config \<Rightarrow> 'db kv get_op" where
  "ldb_get_rec R cfg key b \<equiv> ldb_get R cfg key key_size b value_size"

definition ldb_keeps ::
  "('db, 'm) rocks_api_scheme \<Rightarrow> config \<Rightarrow> ('db \<Rightarrow> bytes \<rightharpoonup> bytes) \<Rightarrow> 'db kv \<Rightarrow> rec list \<Rightarrow> bool" where
  "ldb_keeps R cfg view s recs \<longleftrightarrow> store_keeps (no_flush R) cfg view s recs"

interpretation ldb: own_writes_store "ldb_put_rec R cfg" "ldb_get_rec R cfg" "ldb_keeps R cfg view" "store_room cfg"
    "spec_put (capacity cfg)"
  for R cfg view
proof
  fix s recs k v
  assume k: "ldb_keeps R cfg view s recs" "store_room cfg recs" and v: "length (v :: bytes) = VALUE_SIZE"
  then show "\<exists>t. ldb_put_rec R cfg k v s = Inr (0, t) \<and> ldb_keeps R cfg view t (spec_put (capacity cfg) recs (k, v))"
    unfolding ldb_keeps_def using ldb_put_eq [of R cfg view s recs k v] store_put [of "no_flush R" cfg view s recs v k] by simp
next
  fix s recs k x b
  assume "ldb_keeps R cfg view s recs" "current recs k = Some x"
  then show "\<exists>t. ldb_get_rec R cfg k b s = Inr (0, x, t) \<and> ldb_keeps R cfg view t recs"
    unfolding ldb_get_eq ldb_keeps_def by (rule store_hit)
qed

lemma ldb_serve_one:
  assumes "ldb_keeps R cfg view s recs" "session_ok cfg [rq] recs"
  shows "\<exists>t. serve_one (ldb_put_rec R cfg) (ldb_get_rec R cfg) rq s = Inr (fst (log_one (spec_put (capacity cfg)) rq recs), t) \<and>
    ldb_keeps R cfg view t (snd (log_one (spec_put (capacity cfg)) rq recs))"
proof -
  have "serve_one (ldb_put_rec R cfg) (ldb_get_rec R cfg) rq s =
      serve_one (put_rec (no_flush R) cfg) (get_rec (no_flush R) cfg) rq s"
    using ldb_put_eq [of R cfg view s recs] assms by (cases rq) (simp_all add: ldb_keeps_def ldb_get_eq)
  then show ?thesis using store_serve_one [of "no_flush R" cfg view s recs rq] assms by (simp add: ldb_keeps_def)
qed

lemma ldb_serves:
  assumes "ldb_keeps R cfg view s recs" "session_ok cfg rqs recs"
  shows "\<exists>t. serve (ldb_put_rec R cfg) (ldb_get_rec R cfg) rqs s = Inr (fst (log_serve (spec_put (capacity cfg)) rqs recs), t) \<and>
    ldb_keeps R cfg view t (snd (log_serve (spec_put (capacity cfg)) rqs recs))"
  using serve_log [where keeps = "ldb_keeps R cfg view", OF ldb_serve_one [unfolded session_ok_def]] assms
  unfolding session_ok_def by blast

end
