(* ===== verification/Paged_KV.thy ===== *)
theory Paged_KV
  imports LearnedKV_Scan
begin

text \<open>
  The variant of the store in \<open>learned-LSM/learnedKV_PLR+.h\<close>: the regression works on page numbers
  (\<open>build_paged_regression\<close>), the segment of a key is found by binary search, and a page number is
  turned into a position in the middle of the page (\<open>query_paged\<close>). The class is otherwise a copy of
  \<open>LearnedKV\<close>; the operations that reach the index are modelled again, the rest is shared.
\<close>

section \<open>The regression on pages\<close>

definition PAGE_SIZE :: u64 where "PAGE_SIZE = 4096"

definition page_positions :: "double list \<Rightarrow> double list" where
  "page_positions y = map (\<lambda>pos. dfloor (ddiv pos (double_of_u64 PAGE_SIZE))) y"

definition paged_step :: "u64 list \<Rightarrow> double list \<Rightarrow> double \<Rightarrow> nat \<Rightarrow> plr_state \<Rightarrow> plr_state" where
  "paged_step x p err i st = (case st of (model, last_start, current_seg) \<Rightarrow>
     if exceeds err current_seg (x ! i) (p ! i)
     then (model @ [\<lparr>start = last_start, slope = slope current_seg, intercept = intercept current_seg\<rparr>],
           x ! (i - 1), fit (x ! (i - 1)) (p ! (i - 1)) (x ! i) (p ! i))
     else (model, last_start, current_seg))"

definition paged_model :: "u64 list \<Rightarrow> double list \<Rightarrow> double \<Rightarrow> segment list" where
  "paged_model x y err =
     (let p = page_positions y;
          (model, last_start, current_seg) = fold (paged_step x p err) [2..<length x]
            ([], x ! 0, fit (x ! 0) (p ! 0) (x ! 1) (p ! 1))
      in model @ [\<lparr>start = last_start, slope = slope current_seg, intercept = intercept current_seg\<rparr>])"

definition build_paged_regression ::
  "(string \<Rightarrow> bool) \<Rightarrow> u64 list \<Rightarrow> double list \<Rightarrow> double \<Rightarrow> disk \<Rightarrow> int \<times> disk" where
  "build_paged_regression may_write x y err d =
     (if length x < 2 then (- 1, d)
      else case fopen_trunc may_write d MODEL_PATH of
        None \<Rightarrow> (- 1, d)
      | Some d1 \<Rightarrow>
          (let d2 = fwrite_end d1 MODEL_PATH (concat (map segment_bytes (paged_model x y err)))
           in case fopen_trunc may_write d2 KEY_ARRAY_PATH of
                None \<Rightarrow> (- 1, d2)
              | Some d3 \<Rightarrow> (0, fwrite_end d3 KEY_ARRAY_PATH (concat (map u64_bytes x)))))"

section \<open>Binary search\<close>

function bsearch_segment :: "segment list \<Rightarrow> u64 \<Rightarrow> int \<Rightarrow> int \<Rightarrow> int \<Rightarrow> int" where
  "bsearch_segment model key left right segment_idx =
     (if left \<le> right then
        (let mid = left + (right - left) div 2
         in if key < start (model ! nat mid) then bsearch_segment model key left (mid - 1) segment_idx
            else bsearch_segment model key (mid + 1) right mid)
      else segment_idx)"
  by pat_completeness auto
termination
  by (relation "measure (\<lambda>(_, _, left, right, _). nat (right - left + 1))") auto

declare bsearch_segment.simps [simp del]

text \<open>An empty model is indexed out of bounds.\<close>

definition query_pages :: "u64 \<Rightarrow> segment list \<Rightarrow> fault + int" where
  "query_pages key model =
     (let segment_idx = nat (bsearch_segment model key 0 (int (length model) - 1) 0)
      in if \<not> segment_idx < length model then Inl OutOfBounds
         else let seg = model ! segment_idx;
                  predicted_page = predict (slope seg) (intercept seg) key;
                  pos = int_of_double (dadd (dmul predicted_page (double_of_u64 PAGE_SIZE))
                                            (double_of_u64 (PAGE_SIZE div 2)))
              in Inr (if pos < 0 then 0 else pos))"

definition query_paged :: "u64 \<Rightarrow> disk \<Rightarrow> fault + int" where
  "query_paged key d =
     (case fopen_read d MODEL_PATH of
        None \<Rightarrow> Inr (- 1)
      | Some c \<Rightarrow> query_pages key (read_segments c))"

section \<open>The operations that reach the index\<close>

definition paged_garbage_collection ::
  "('db, 'm) rocks_api_scheme \<Rightarrow> config \<Rightarrow> u64 \<Rightarrow> u64 \<Rightarrow> 'db kv \<Rightarrow> fault + (int \<times> 'db kv)" where
  "paged_garbage_collection R cfg keySize valueSize s =
     (case fopen_read (disk s) VLOG_PATH of
        None \<Rightarrow> Inl NullFile
      | Some c \<Rightarrow>
     (case gc_collect c [] of
        Inl e \<Rightarrow> Inl e
      | Inr valid_map \<Rightarrow>
     (let s = snd (destroy_rocksdb R s);
          s = s\<lparr>disk := fremove (disk s) VLOG_PATH\<rparr>;
          s = snd (initialize_rocksdb R s)
      in case fopen_append (writable cfg) (disk s) VLOG_PATH of
        None \<Rightarrow> Inl NullFile
      | Some d \<Rightarrow>
     (let s = s\<lparr>disk := d, write_pos := 0\<rparr>;
          valid_vec = sort_key fst valid_map
      in if valid_vec = [] then Inl BadIterator else
      case gc_write (learned_index_used cfg) keySize valueSize (butlast valid_vec)
             \<lparr>gc_pos = 0, gc_vlog = [], gc_x = [], gc_y = [], gc_batch = [], gc_bloom = bloom s\<rparr> of
        Inl e \<Rightarrow> Inl e
      | Inr g \<Rightarrow>
     (let s = s\<lparr>write_pos := gc_pos g, bloom := gc_bloom g,
               disk := fwrite_end (disk s) VLOG_PATH (gc_vlog g)\<rparr>;
          (ok, d) = (if learned_index_used cfg then (True, db s) else db_write R (db s) (gc_batch g));
          s = s\<lparr>db := d\<rparr>
      in if \<not> ok then Inr (- 1, s) else
      let s = (if learned_index_used cfg then s else s\<lparr>db := snd (db_flush R (db s))\<rparr>);
          s = (if learned_index_used cfg then
                 s\<lparr>disk := snd (build_paged_regression (writable cfg) (gc_x g) (gc_y g)
                                 (double_of_u64 (word_of_int ERR_BOUND)) (disk s))\<rparr>
               else s)
      in Inr (0, s\<lparr>gc_write_size := gc_write_size s
                     + int ((KEY_SIZE + VALUE_SIZE) * length valid_vec)\<rparr>))))))"

definition paged_put ::
  "('db, 'm) rocks_api_scheme \<Rightarrow> config \<Rightarrow> u64 \<Rightarrow> u64 \<Rightarrow> bytes \<Rightarrow> u64 \<Rightarrow> 'db kv
     \<Rightarrow> fault + (int \<times> 'db kv)" where
  "paged_put R cfg key keySize value valueSize s =
     (case (if group_size cfg < (write_pos s + 1) * (keySize + valueSize)
            then (case paged_garbage_collection R cfg keySize valueSize s of
                    Inl e \<Rightarrow> Inl e
                  | Inr (_, s) \<Rightarrow> Inr (s\<lparr>gc_count := gc_count s + 1\<rparr>))
            else Inr s) of
        Inl e \<Rightarrow> Inl e
      | Inr s \<Rightarrow>
      if \<not> (write_pos s + 1) * (keySize + valueSize) \<le> group_size cfg then Inl AssertFail else
      (case fopen_append (writable cfg) (disk s) VLOG_PATH of
        None \<Rightarrow> Inl NullFile
      | Some d \<Rightarrow>
      (case record_data key keySize value valueSize of
        Inl e \<Rightarrow> Inl e
      | Inr data \<Rightarrow>
      (let s = s\<lparr>disk := fwrite_end d VLOG_PATH data\<rparr>
       in if \<not> write_pos s < 100000000 then Inl AssertFail else
       let ptr = ullToString (write_pos s);
           (ok, d) = db_put R (db s) (ullToString key) ptr;
           s = s\<lparr>db := d\<rparr>
       in if \<not> ok then Inr (- 1, s)
          else Inr (0, s\<lparr>write_pos := write_pos s + 1, bloom := bloom_insert key (bloom s)\<rparr>)))))"

definition paged_get_learned ::
  "config \<Rightarrow> u64 \<Rightarrow> u64 \<Rightarrow> bytes \<Rightarrow> u64 \<Rightarrow> 'db kv \<Rightarrow> fault + (int \<times> bytes \<times> 'db kv)" where
  "paged_get_learned cfg key keySize value valueSize s =
     (case query_paged key (disk s) of
        Inl e \<Rightarrow> Inl e
      | Inr pos \<Rightarrow>
     (case fopen_read (disk s) KEY_ARRAY_PATH of
        None \<Rightarrow> Inl NullFile
      | Some ka \<Rightarrow>
      (let (start_pos, key_array) = window (fresh cfg 0) ka pos;
           start_pos = start_pos + int (find_index (\<lambda>k. k = key) key_array) * kv_size;
           s = s\<lparr>learned_index_count := learned_index_count s + 1\<rparr>
       in case fopen_update (writable cfg) (disk s) VLOG_PATH of
            None \<Rightarrow> Inl NullFile
          | Some c \<Rightarrow>
              if int KEY_SIZE + 1 < int (unat keySize) then Inl OutOfBounds else
              (let at_value = nat start_pos + length (fread_at c (nat start_pos) (unat keySize))
               in Inr (0, read_value c at_value value valueSize,
                       s\<lparr>load_kv_count := load_kv_count s + 1\<rparr>)))))"

definition paged_get ::
  "('db, 'm) rocks_api_scheme \<Rightarrow> config \<Rightarrow> u64 \<Rightarrow> u64 \<Rightarrow> bytes \<Rightarrow> u64 \<Rightarrow> 'db kv
     \<Rightarrow> fault + (int \<times> bytes \<times> 'db kv)" where
  "paged_get R cfg key keySize value valueSize s =
     (let (result, s) =
        (if possiblyContains (bloom s) key
         then (db_get R (db s) (ullToString key), s\<lparr>rocksdb_count := rocksdb_count s + 1\<rparr>)
         else (None, s))
      in case result of
        None \<Rightarrow>
          if learned_index_used cfg then paged_get_learned cfg key keySize value valueSize s
          else Inr (- 1, value, s)
      | Some ptr \<Rightarrow>
      (case stringToULL ptr of
        Inl e \<Rightarrow> Inl e
      | Inr pos \<Rightarrow>
      (case fopen_read (disk s) VLOG_PATH of
        None \<Rightarrow> Inl NullFile
      | Some c \<Rightarrow>
          (let at_value = fseek_set 0 (pos * (keySize + valueSize) + keySize)
           in Inr (0, read_value c at_value value valueSize,
                   s\<lparr>load_kv_count := load_kv_count s + 1\<rparr>)))))"

definition paged_scan_bounds ::
  "config \<Rightarrow> bytes \<Rightarrow> disk \<Rightarrow> int \<Rightarrow> u64 \<Rightarrow> u64 \<Rightarrow> fault + (int \<times> int)" where
  "paged_scan_bounds cfg ka d pos startKey end_key =
     (let (start_pos, key_array) = window (fresh cfg 0) ka pos;
          start_key_pos = start_pos + int (find_index (\<lambda>k. k = startKey) key_array) * kv_size
      in case query_paged end_key d of
        Inl e \<Rightarrow> Inl e
      | Inr pos \<Rightarrow>
     (let (start_pos, key_array) = window (fresh cfg 1) ka pos;
          end_key_pos = start_pos + int (find_index (\<lambda>k. end_key \<le> k) key_array) * kv_size
      in Inr (start_key_pos, if end_key_pos = start_key_pos then end_key_pos + kv_size else end_key_pos)))"

definition paged_scan_learned :: "config \<Rightarrow> u64 \<Rightarrow> u64 \<Rightarrow> disk \<Rightarrow> (fault + kvs) option" where
  "paged_scan_learned cfg startKey end_key d =
     (case query_paged startKey d of
        Inl e \<Rightarrow> Some (Inl e)
      | Inr pos \<Rightarrow>
     (case fopen_read d KEY_ARRAY_PATH of
        None \<Rightarrow> Some (Inl NullFile)
      | Some ka \<Rightarrow>
     (case paged_scan_bounds cfg ka d pos startKey end_key of
        Inl e \<Rightarrow> Some (Inl e)
      | Inr (start_key_pos, end_key_pos) \<Rightarrow>
     (case fopen_update (writable cfg) d VLOG_PATH of
        None \<Rightarrow> Some (Inl NullFile)
      | Some c \<Rightarrow> map_option Inr (read_range c end_key_pos (nat start_key_pos) [])))))"

definition paged_scan ::
  "('db, 'm) rocks_api_scheme \<Rightarrow> config \<Rightarrow> u64 \<Rightarrow> u64 \<Rightarrow> kvs \<Rightarrow> u64 \<Rightarrow> u64 \<Rightarrow> 'db kv
     \<Rightarrow> (fault + (int \<times> kvs \<times> 'db kv)) option" where
  "paged_scan R cfg startKey keySize kvs valueSize scanRange s =
     (let end_key = scan_end startKey scanRange;
          (entries, ok) = db_seek R (db s) (ullToString startKey)
      in case scan_lsm (writable cfg) keySize valueSize end_key entries (disk s) of
        Inl e \<Rightarrow> Some (Inl e)
      | Inr (kvs_lsm, d) \<Rightarrow>
     (let s = s\<lparr>disk := d\<rparr>
      in if \<not> ok then Some (Inr (- 1, kvs, s))
      else if learned_index_used cfg then
        (case paged_scan_learned cfg startKey end_key d of
           None \<Rightarrow> None
         | Some (Inl e) \<Rightarrow> Some (Inl e)
         | Some (Inr kvs_learned) \<Rightarrow>
        (case mergeKeyValueVectors kvs_lsm kvs_learned kvs of
           Inl e \<Rightarrow> Some (Inl e)
         | Inr kvs \<Rightarrow>
             Some (Inr (0, kvs, s\<lparr>scan_kvs_count := scan_kvs_count s + int (length kvs)\<rparr>))))
      else Some (Inr (0, kvs_lsm, s\<lparr>scan_kvs_count := scan_kvs_count s + int (length kvs_lsm)\<rparr>))))"

end
