(* ===== verification/Paged_Facts.thy ===== *)
theory Paged_Facts
  imports Paged_KV LearnedKV_Store PLR_Bound
begin

text \<open>
  The variant with pages: without the learned index it is the same store; its binary search finds
  the segment the linear search finds; on up to 4096 records every position is predicted as 2048.
\<close>

section \<open>The same store without the learned index\<close>

lemma paged_gc_eq:
  assumes "\<not> learned_index_used cfg"
  shows "paged_garbage_collection R cfg keySize valueSize s = garbage_collection R cfg keySize valueSize s"
  using assms unfolding paged_garbage_collection_def garbage_collection_def by (simp only: if_False)

lemma paged_eq:
  assumes "\<not> learned_index_used cfg"
  shows "paged_put R cfg key keySize value valueSize s = put R cfg key keySize value valueSize s"
    "paged_get R cfg key keySize value valueSize s = get R cfg key keySize value valueSize s"
    "paged_scan R cfg key keySize kvs valueSize rng s = scan R cfg key keySize kvs valueSize rng s"
  using assms unfolding paged_put_def put_def paged_get_def get_def paged_scan_def scan_def
    paged_gc_eq [OF assms]
  by (simp_all only: if_False)

text \<open>So it keeps the contract of the interface without the learned index.\<close>

interpretation paged: log_store "\<lambda>k v. paged_put R cfg k key_size v value_size"
    "\<lambda>k b. paged_get R cfg k key_size b value_size" "plain_keeps R cfg view" "\<lambda>_. True" "spec_put (capacity cfg)"
  for R cfg view
proof
  fix s recs k v
  assume k: "plain_keeps R cfg view s recs" and v: "length (v :: bytes) = VALUE_SIZE"
  then have m: "\<not> learned_index_used cfg" by (simp add: plain_keeps_def)
  show "\<exists>t. paged_put R cfg k key_size v value_size s = Inr (0, t) \<and>
    plain_keeps R cfg view t (spec_put (capacity cfg) recs (k, v))"
    unfolding paged_eq(1) [OF m] by (rule plain.put_law [OF k TrueI v])
next
  fix s recs k x b
  assume k: "plain_keeps R cfg view s recs" and x: "current recs k = Some x"
  then have m: "\<not> learned_index_used cfg" by (simp add: plain_keeps_def)
  show "\<exists>t. paged_get R cfg k key_size b value_size s = Inr (0, x, t) \<and> plain_keeps R cfg view t recs"
    unfolding paged_eq(2) [OF m] by (rule plain.hit_law [OF k x])
next
  fix s recs k b
  assume k: "plain_keeps R cfg view s recs" and x: "current recs k = None"
  then have m: "\<not> learned_index_used cfg" by (simp add: plain_keeps_def)
  show "\<exists>t. paged_get R cfg k key_size b value_size s = Inr (- 1, b, t) \<and> plain_keeps R cfg view t recs"
    unfolding paged_eq(2) [OF m] by (rule plain.miss_law [OF k x])
qed

section \<open>Binary search\<close>

lemma bsearch_segment_loop:
  assumes sorted: "sorted_wrt (\<lambda>s t. start s < start t) model"
  shows "left \<le> right + 1 \<Longrightarrow> 0 \<le> left \<Longrightarrow> right < int (length model) \<Longrightarrow>
    \<forall>i < nat left. start (model ! i) \<le> key \<Longrightarrow>
    \<forall>i. right < int i \<and> i < length model \<longrightarrow> key < start (model ! i) \<Longrightarrow>
    \<exists>m \<le> length model. bsearch_segment model key left right (max 0 (left - 1)) = max 0 (int m - 1) \<and>
      (\<forall>i < m. start (model ! i) \<le> key) \<and> (\<forall>i. m \<le> i \<and> i < length model \<longrightarrow> key < start (model ! i))"
proof (induction "nat (right - left + 1)" arbitrary: left right rule: less_induct)
  case less
  show ?case
  proof (cases "left \<le> right")
    case False
    then have "right = left - 1" using less.prems(1) by simp
    with less.prems False show ?thesis
      by (intro exI [of _ "nat left"]) (auto simp: bsearch_segment.simps [of model key left])
  next
    case True
    define mid where "mid = left + (right - left) div 2"
    have mid: "left \<le> mid" "mid \<le> right" using True by (auto simp: mid_def)
    have len: "nat mid < length model" using mid less.prems by simp
    have step: "bsearch_segment model key left right (max 0 (left - 1)) =
        (if key < start (model ! nat mid) then bsearch_segment model key left (mid - 1) (max 0 (left - 1))
         else bsearch_segment model key (mid + 1) right (max 0 ((mid + 1) - 1)))"
      using True mid less.prems(2)
      by (subst bsearch_segment.simps) (simp add: Let_def mid_def [symmetric] max_def)
    show ?thesis
    proof (cases "key < start (model ! nat mid)")
      case True
      have "\<forall>i. mid - 1 < int i \<and> i < length model \<longrightarrow> key < start (model ! i)"
      proof (intro allI impI)
        fix i assume i: "mid - 1 < int i \<and> i < length model"
        then have "i = nat mid \<or> nat mid < i" using mid less.prems(2) by linarith
        with i True sorted show "key < start (model ! i)"
          by (auto simp: sorted_wrt_iff_nth_less intro: less_trans)
      qed
      with less.hyps [of "mid - 1" left] mid less.prems True step show ?thesis by simp
    next
      case False
      have "\<forall>i < nat (mid + 1). start (model ! i) \<le> key"
      proof (intro allI impI)
        fix i assume i: "i < nat (mid + 1)"
        then have "i = nat mid \<or> i < nat mid" using mid less.prems(2) by linarith
        with i False sorted len show "start (model ! i) \<le> key"
          by (auto simp: sorted_wrt_iff_nth_less not_less dest: less_imp_le order_trans)
      qed
      with less.hyps [of right "mid + 1"] mid less.prems False step show ?thesis by simp
    qed
  qed
qed

lemma bsearch_locate:
  assumes sorted: "sorted_wrt (\<lambda>s t. start s < start t) model" and ne: "model \<noteq> []"
    and le: "start (hd model) \<le> key"
  defines "r \<equiv> nat (bsearch_segment model key 0 (int (length model) - 1) 0)"
  shows "r < length model" "locate key model ab = (slope (model ! r), intercept (model ! r))"
proof -
  have v: "\<forall>i. int (length model) - 1 < int i \<and> i < length model \<longrightarrow> key < start (model ! i)" by auto
  obtain m where m: "m \<le> length model"
    "bsearch_segment model key 0 (int (length model) - 1) 0 = max 0 (int m - 1)"
    "\<forall>i < m. start (model ! i) \<le> key" "\<forall>i. m \<le> i \<and> i < length model \<longrightarrow> key < start (model ! i)"
    using bsearch_segment_loop [OF sorted, of 0 "int (length model) - 1" key] v by auto
  have "m \<noteq> 0"
  proof
    assume "m = 0"
    then have "key < start (model ! 0)" using m(4) ne by simp
    with le ne show False by (simp add: hd_conv_nth)
  qed
  then have r: "r = m - 1" "r < m" by (simp_all add: r_def m(2) nat_diff_distrib)
  then show len: "r < length model" using m(1) by simp
  have mono: "start (model ! i) \<le> start (model ! j)" if "i \<le> j" "j < length model" for i j
    using sorted that by (cases "i = j") (auto simp: sorted_wrt_iff_nth_less less_imp_le)
  have inj: "i = j" if "start (model ! i) = start (model ! j)" "i < length model" "j < length model" for i j
    using sorted that unfolding sorted_wrt_iff_nth_less by (metis less_irrefl linorder_neqE_nat)
  show "locate key model ab = (slope (model ! r), intercept (model ! r))"
  proof (rule locate_greatest)
    show "sorted_wrt (\<lambda>s t. start s \<le> start t) model"
      using sorted by (rule sorted_wrt_mono_rel [rotated]) simp
    show "\<forall>t \<in> set model. start t = start (model ! r) \<longrightarrow> t = model ! r"
      using inj len by (metis in_set_conv_nth)
    show "model ! r \<in> set model" using len by simp
    show "start (model ! r) \<le> key" using m(3) r by simp
    show "\<forall>t \<in> set model. start t \<le> key \<longrightarrow> start t \<le> start (model ! r)"
    proof (intro ballI impI)
      fix t assume t: "t \<in> set model" "start t \<le> key"
      then obtain i where i: "i < length model" "t = model ! i" by (metis in_set_conv_nth)
      then have "i < m" using m(4) t(2) by (metis not_less)
      then show "start t \<le> start (model ! r)" using i mono [of i r] len r by simp
    qed
  qed
qed

section \<open>At most 4096 records\<close>

lemma dsign_round: "dsign (round_double s q) = (if q = 0 then s else q < 0)"
  by (rule round_double_parts)

lemma round_zero: "round_double s 0 = make_double s 0"
  by (simp add: round_double_def)

lemma dzero_facts [simp]: "is_fin dzero" "valof dzero = 0" "dsign dzero = False" "\<not> is_nan dzero"
  using make_double_parts [of 0 False]
  by (simp_all add: dzero_def is_fin_def is_nan_def valof_def not_less less_imp_le)

lemma u64_double_facts:
  shows "is_fin (double_of_u64 w)" "dsign (double_of_u64 w) = False"
    "0 < w \<Longrightarrow> 0 < valof (double_of_u64 w)"
proof -
  have u: "uint w < 18446744073709551616" using uint_lt2p [of w] by simp
  have "\<bar>of_int (uint w) :: rat\<bar> \<le> of_int 18446744073709551616"
    using u uint_nonnegative [of w] by (simp only: of_int_abs [symmetric] of_int_le_iff abs_of_nonneg)
  also have "(of_int 18446744073709551616 :: rat) = p2 64" by (simp add: p2_def power_int_def)
  finally have le: "\<bar>of_int (uint w) :: rat\<bar> \<le> p2 64" .
  have r: "representable (p2 64)" unfolding representable_def
    by (intro conjI exI [of _ 1] exI [of _ "64 :: int"]) (simp_all add: ibit_def)
  show "is_fin (double_of_u64 w)" unfolding double_of_u64_def by (rule is_fin_round_bound [OF le r])
  have n: "\<not> uint w < 0" by simp
  then have "((of_int (uint w) :: rat) < 0) = False" by (simp only: of_int_less_0_iff n)
  then show "dsign (double_of_u64 w) = False" unfolding double_of_u64_def dsign_round
    by (simp only: if_cancel)
  show "0 < valof (double_of_u64 w)" if "0 < w"
  proof -
    have "1 \<le> uint w" using that by (simp add: word_less_def)
    then have "rnd 1 \<le> rnd (of_int (uint w))" by (intro rnd_mono) (simp only: of_int_1_le_iff)
    moreover have "rnd 1 = 1" using rnd_int [of 1] by simp
    ultimately show ?thesis by (simp only: double_of_u64_def valof_round_double)
  qed
qed

lemma zero_arith:
  assumes "is_fin a" "\<not> dsign a"
  shows "dmul dzero a = dzero" "dmul a dzero = dzero" "dadd dzero dzero = dzero" "dsub dzero dzero = dzero"
    "valof a \<noteq> 0 \<Longrightarrow> ddiv dzero a = dzero" "valof a \<noteq> 0 \<Longrightarrow> dadd dzero a = round_double False (valof a)"
  using assms by (simp_all add: dmul_fin dadd_fin dsub_fin ddiv_fin round_zero dzero_def [symmetric])

lemma zero_zero [simp]: "dadd dzero dzero = dzero" "dsub dzero dzero = dzero"
  using zero_arith [of dzero] by simp_all

lemma fit_zero:
  assumes "x0 < x1"
  shows "fit x0 dzero x1 dzero = \<lparr>start = x0, slope = dzero, intercept = dzero\<rparr>"
proof -
  have "0 < x1 - x0" using assms by (metis word_neq_0_conv right_minus_eq less_irrefl)
  then have "valof (double_of_u64 (x1 - x0)) \<noteq> 0" using u64_double_facts(3) by fastforce
  then show ?thesis by (simp add: fit_def zero_arith u64_double_facts)
qed

lemma predict_zero: "predict dzero dzero key = dzero"
  by (simp add: predict_def zero_arith u64_double_facts)

lemma not_exceeds_zero:
  "slope seg = dzero \<Longrightarrow> intercept seg = dzero \<Longrightarrow> \<not> exceeds err_bound seg k dzero"
  using err_bound_1000 by (simp add: exceeds_def predict_zero zero_arith(4) [of dzero] dlt_def)

lemma page_positions_zero:
  assumes "n \<le> 4096"
  shows "page_positions (positions n) = replicate n dzero"
proof -
  have "dfloor (ddiv (double_of_u64 (word_of_nat i)) (double_of_u64 PAGE_SIZE)) = dzero" if i: "i < n" for i
  proof -
    note I = position_exact [of i]
    have i': "i < 9007199254740992" "i < 4096" using i assms by simp_all
    have "uint (PAGE_SIZE) = 4096" by (simp add: PAGE_SIZE_def)
    then have P: "is_fin (double_of_u64 PAGE_SIZE)" "valof (double_of_u64 PAGE_SIZE) = of_int 4096"
      by (rule double_of_u64_exact; simp)+
    let ?q = "of_int (int i) / of_int 4096 :: rat"
    have q: "0 \<le> ?q" "?q < 1" using i'(2) by simp_all
    have d: "ddiv (double_of_u64 (word_of_nat i)) (double_of_u64 PAGE_SIZE) = round_double False ?q"
      using ddiv_fin [OF I(1) P(1)] I(2) P(2) i' by (simp add: u64_double_facts(2))
    have rep: "representable ?q" unfolding representable_def
    proof
      show "\<exists>m e. ?q = of_int m * p2 e \<and> \<bar>m\<bar> < 2 * ibit \<and> - 1074 \<le> e"
        using i'(2) by (intro exI [of _ "int i"] exI [of _ "- 12"])
          (simp add: ibit_def p2_def power_int_def power_divide)
      have "(1 :: rat) < p2 1024" using p2_less_iff [of 0 1024] by simp
      then show "\<bar>?q\<bar> < p2 1024" using q by linarith
    qed
    have "is_fin (round_double False ?q)" "valof (round_double False ?q) = ?q"
      using rep by (simp_all only: is_fin_round_double valof_round_double rnd_exact)
    moreover have "\<lfloor>?q\<rfloor> = 0" using q by (simp only: floor_eq_iff) simp
    moreover have "dsign (round_double False ?q) = False"
      using q by (simp only: dsign_round not_less) (simp split: if_splits)
    ultimately show ?thesis unfolding d dfloor_def by (simp only: if_True) (simp add: round_zero dzero_def)
  qed
  then show ?thesis by (intro nth_equalityI) (simp_all add: page_positions_def positions_def)
qed

lemma paged_model_small:
  assumes x: "sorted_wrt (<) x" and two: "2 \<le> length x" and n: "length x \<le> 4096"
  shows "paged_model x (positions (length x)) err_bound = [\<lparr>start = x ! 0, slope = dzero, intercept = dzero\<rparr>]"
proof -
  let ?p = "page_positions (positions (length x))"
  let ?s = "\<lparr>start = x ! 0, slope = dzero, intercept = dzero\<rparr>"
  have p: "?p = replicate (length x) dzero" by (rule page_positions_zero [OF n])
  have nth01: "0 < length x" "1 < length x" using two by linarith+
  have f: "fit (x ! 0) (?p ! 0) (x ! 1) (?p ! 1) = ?s"
    using fit_zero [of "x ! 0" "x ! 1"] sorted_nth_less [OF x, of 0 1] nth01 unfolding p by simp
  have "fold (paged_step x ?p err_bound) is ([], x ! 0, ?s) = ([], x ! 0, ?s)" if "\<forall>i \<in> set is. i < length x" for "is"
    using that
  proof (induction "is")
    case (Cons i "is")
    then have "?p ! i = dzero" unfolding p by simp
    then have "paged_step x ?p err_bound i ([], x ! 0, ?s) = ([], x ! 0, ?s)"
      by (simp add: paged_step_def not_exceeds_zero)
    with Cons show ?case by simp
  qed simp
  then have "fold (paged_step x ?p err_bound) [2..<length x] ([], x ! 0, ?s) = ([], x ! 0, ?s)" by simp
  then show ?thesis unfolding paged_model_def Let_def f by simp
qed

lemma query_pages_zero: "query_pages key [\<lparr>start = k, slope = dzero, intercept = dzero\<rparr>] = Inr 2048"
proof -
  let ?m = "[\<lparr>start = k, slope = dzero, intercept = dzero\<rparr>]"
  have b: "bsearch_segment ?m key 0 0 0 = 0"
    by (subst bsearch_segment.simps) (simp add: bsearch_segment.simps [of ?m key 1 0 0]
        bsearch_segment.simps [of ?m key 0 "- 1" 0])
  have "uint (PAGE_SIZE div 2) = 2048" by (simp add: PAGE_SIZE_def)
  then have P: "is_fin (double_of_u64 (PAGE_SIZE div 2))" "valof (double_of_u64 (PAGE_SIZE div 2)) = of_int 2048"
    by (rule double_of_u64_exact; simp)+
  let ?d = "round_double False 2048"
  have "dadd (dmul dzero (double_of_u64 PAGE_SIZE)) (double_of_u64 (PAGE_SIZE div 2)) = ?d"
    using P by (simp add: zero_arith u64_double_facts)
  moreover have "int_of_double ?d = 2048"
  proof (rule int_of_double_eq)
    show "rat_trunc (valof ?d) = 2048" using rnd_int [of 2048] by (simp add: rat_trunc_def)
  qed simp_all
  ultimately show ?thesis by (simp add: query_pages_def b predict_zero Let_def)
qed

lemma query_paged_small:
  assumes "sorted_wrt (<) x" "2 \<le> length x" "length x \<le> 4096"
    and "build_paged_regression may_write x (positions (length x)) err_bound d0 = (0, d)"
  shows "query_paged key d = Inr 2048" "d KEY_ARRAY_PATH = Some (concat (map u64_bytes x))"
  using assms(4) paged_model_small [OF assms(1-3)] assms(2)
  by (auto simp: build_paged_regression_def fopen_trunc_def fwrite_end_def query_paged_def fopen_read_def
      query_pages_zero Let_def read_segments_image [of "[s]" for s, simplified] split: if_splits option.splits)

text \<open>A lookup of an indexed key finds it exactly when its position is from 1048 on.\<close>

lemma paged_get_learned_small:
  assumes x: "sorted_wrt (<) x" and two: "2 \<le> length x" and n: "length x \<le> 3048"
    and recs: "x = map fst (take (length x) recs)" "well_sized recs" "length recs \<le> 3048"
    and build: "build_paged_regression may_write x (positions (length x)) err_bound d0 = (0, disk s)"
    and vlog: "disk s VLOG_PATH = Some (vlog_image recs)" and w: "writable cfg VLOG_PATH"
    and i: "i < length x" and mem: "\<forall>j. fresh cfg 0 j \<noteq> x ! i"
  shows "\<exists>t. paged_get_learned cfg (x ! i) key_size v value_size s =
    Inr (0, if i < 1048 then resize v 1016 else snd (recs ! i), t)"
proof -
  have q: "query_paged (x ! i) (disk s) = Inr 2048"
    and ka: "disk s KEY_ARRAY_PATH = Some (concat (map u64_bytes x))"
    using query_paged_small [OF x two _ build] n by simp_all
  have ks: "unat key_size = 8" and vs: "unat value_size = 1016" by (simp_all add: key_size_def value_size_def)
  have lr: "length x \<le> length recs" using arg_cong [OF recs(1), of length] by simp
  let ?pos = "if i < 1048 then 3048 else i :: nat"
  let ?rest = "map (fresh cfg 0) [min 2000 (length x - 1048)..<2000]"
  have win: "window (fresh cfg 0) (concat (map u64_bytes x)) 2048 = (1024 * 1048, take 2000 (drop 1048 x) @ ?rest)"
    using window_eq [of 2048 "fresh cfg 0" x] by simp
  have dist: "distinct x" using x by (simp add: strict_sorted_iff)
  have idx: "1048 + find_index (\<lambda>k. k = x ! i) (take 2000 (drop 1048 x) @ ?rest) = ?pos"
  proof (cases "i < 1048")
    case True
    have "x ! i \<notin> set (drop 1048 x)"
      using True i dist by (auto simp: in_set_conv_nth nth_eq_iff_index_eq)
    then have "\<forall>k \<in> set (take 2000 (drop 1048 x) @ ?rest). k \<noteq> x ! i"
      using mem by (auto dest: in_set_takeD)
    then have "find_index (\<lambda>k. k = x ! i) (take 2000 (drop 1048 x) @ ?rest) =
        length (take 2000 (drop 1048 x) @ ?rest)"
      by (intro find_index_none) blast
    with True show ?thesis by (simp add: min_def)
  next
    case False
    then show ?thesis using find_index_window [OF dist i, of 1048 2000 ?rest] i n by simp
  qed
  define at_pos where "at_pos = 1024 * ?pos"
  have at_nat: "nat (1073152 + int (find_index (\<lambda>k. k = x ! i) (take 2000 (drop 1048 x) @ ?rest)) * 1024) = at_pos"
    using idx by (simp add: nat_eq_iff at_pos_def)
  have l: "length (vlog_image recs) = 1024 * length recs" by (rule length_vlog_image [OF recs(2)])
  have val: "read_value (vlog_image recs) (at_pos + length (fread_at (vlog_image recs) at_pos 8)) v value_size =
      (if i < 1048 then resize v 1016 else snd (recs ! i))"
  proof (cases "i < 1048")
    case True
    then show ?thesis using l recs(3) by (simp add: at_pos_def read_value_def vs fread_at_def fill_def)
  next
    case False
    then show ?thesis using l i lr read_rec [OF recs(2), of i v] by (simp add: at_pos_def)
  qed
  show ?thesis unfolding paged_get_learned_def q ka fopen_read_def sum.case option.case win Let_def prod.case
    by (simp add: fopen_update_def w vlog ks at_nat val del: length_fread_at)
qed

section \<open>A collection followed by a lookup\<close>

lemma paged_gc_reduce:
  assumes R: "rocks_ok R view" and inv: "kv_inv cfg view s base recs" and ne: "recs \<noteq> []"
    and w: "writable cfg VLOG_PATH" and mode: "learned_index_used cfg"
  defines "kvs \<equiv> butlast (live recs)"
  shows "\<exists>d. view d = Map.empty \<and>
    paged_garbage_collection R cfg key_size value_size s = Inr (0,
      s\<lparr>db := d, write_pos := word_of_nat (length kvs),
        disk := snd (build_paged_regression (writable cfg) (map fst kvs)
                      (positions (length kvs)) err_bound ((disk s)(VLOG_PATH \<mapsto> vlog_image kvs))),
        bloom := bloom_reset (bloom s),
        gc_write_size := gc_write_size s + int (1024 * length (live recs))\<rparr>)"
proof -
  obtain d where d: "view d = Map.empty"
    and re: "(let s = snd (destroy_rocksdb R s); s = s\<lparr>disk := fremove (disk s) VLOG_PATH\<rparr>
       in snd (initialize_rocksdb R s)) =
       s\<lparr>db := d, disk := (disk s)(VLOG_PATH := None), bloom := bloom_reset (bloom s)\<rparr>"
    using reopened [OF R] by blast
  have img: "disk s VLOG_PATH = Some (vlog_image recs)" and ws: "well_sized recs"
    using inv ne by (auto simp: kv_inv_def vlog_file_def)
  then have wk: "well_sized kvs" unfolding kvs_def by (intro well_sized_kept)
  have col: "gc_collect (vlog_image recs) [] = Inr (collected recs)"
    using gc_collect_image [OF ws] by (simp add: collected_def)
  have ne': "sort_key fst (collected recs) \<noteq> []" using ne live_empty_iff [of recs] by (simp add: live_def)
  note re' = re [unfolded Let_def]
  show ?thesis
  proof (intro exI conjI)
    show "view d = Map.empty" by (rule d)
  qed (use ne' w mode gc_write_init [OF wk] in \<open>simp add: paged_garbage_collection_def fopen_read_def img col
      Let_def re' fopen_append_def fwrite_end_def err_bound_def live_def [symmetric]
      kvs_def [symmetric] split_beta\<close>)
qed

lemma build_paged_writes:
  assumes "\<And>p. may_write p" "2 \<le> length x" "build_paged_regression may_write x y err d0 = r"
  shows "fst r = 0 \<and> snd r VLOG_PATH = d0 VLOG_PATH"
  using assms by (auto simp: build_paged_regression_def fopen_trunc_def fwrite_end_def)

lemma paged_gc_get:
  assumes R: "rocks_ok R view" and inv: "kv_inv cfg view s base recs" and mode: "learned_index_used cfg"
    and w: "\<And>p. writable cfg p" and n: "3 \<le> length (live recs)" "length (live recs) \<le> 3049"
    and i: "i < length (live recs) - 1" and mem: "\<forall>j. fresh cfg 0 j \<noteq> fst (live recs ! i)"
  shows "\<exists>s'. paged_garbage_collection R cfg key_size value_size s = Inr (0, s') \<and>
    (\<exists>t. paged_get R cfg (fst (live recs ! i)) key_size v value_size s' =
       Inr (0, if i < 1048 then resize v 1016 else snd (live recs ! i), t))"
proof -
  let ?kvs = "butlast (live recs)"
  let ?x = "map fst ?kvs"
  let ?b = "build_paged_regression (writable cfg) ?x (positions (length ?kvs)) err_bound
    ((disk s)(VLOG_PATH \<mapsto> vlog_image ?kvs))"
  have ne: "recs \<noteq> []" and ws: "well_sized recs" using n(1) inv by (auto simp: live_def collected_def kv_inv_def)
  obtain d s' where d: "view d = Map.empty" and db: "db s' = d" "disk s' = snd ?b"
    and gc: "paged_garbage_collection R cfg key_size value_size s = Inr (0, s')"
  proof -
    obtain d where a: "view d = Map.empty" "paged_garbage_collection R cfg key_size value_size s = Inr (0,
      s\<lparr>db := d, write_pos := word_of_nat (length ?kvs), disk := snd ?b, bloom := bloom_reset (bloom s),
        gc_write_size := gc_write_size s + int (1024 * length (live recs))\<rparr>)"
      using paged_gc_reduce [OF R inv ne w mode] by blast
    show ?thesis by (rule that [OF a(1) _ _ a(2)]) simp_all
  qed
  have two: "2 \<le> length ?x" using n(1) by simp
  then have build: "build_paged_regression (writable cfg) ?x (positions (length ?x)) err_bound
      ((disk s)(VLOG_PATH \<mapsto> vlog_image ?kvs)) = (0, disk s')"
    and vlog: "disk s' VLOG_PATH = Some (vlog_image ?kvs)"
    using build_paged_writes [of "writable cfg" ?x "positions (length ?kvs)" err_bound
        "(disk s)(VLOG_PATH \<mapsto> vlog_image ?kvs)" ?b] w db(2) by (auto simp: prod_eq_iff)
  have sx: "sorted_wrt (<) ?x" using sorted_live [of recs] ne
    by (simp add: map_butlast) (metis append_butlast_last_id butlast.simps(1) sorted_wrt_append)
  have key: "fst (live recs ! i) = ?x ! i" and val: "snd (live recs ! i) = snd (?kvs ! i)"
    and ix: "i < length ?x"
    using i by (simp_all add: nth_butlast)
  let ?s1 = "if possiblyContains (bloom s') (?x ! i) then s'\<lparr>rocksdb_count := rocksdb_count s' + 1\<rparr> else s'"
  have get: "paged_get R cfg (?x ! i) key_size v value_size s' =
      paged_get_learned cfg (?x ! i) key_size v value_size ?s1"
    using mode by (simp add: paged_get_def rocks_okD(11) [OF R] db d)
  have ds: "disk ?s1 = disk s'" by simp
  have "\<exists>t. paged_get_learned cfg (?x ! i) key_size v value_size ?s1 =
      Inr (0, if i < 1048 then resize v 1016 else snd (?kvs ! i), t)"
    using n(2) build vlog unfolding ds [symmetric]
    by (intro paged_get_learned_small [OF sx two _ _ well_sized_kept [OF ws] _ _ _ w ix])
      (simp_all add: mem [unfolded key])
  then show ?thesis using gc get by (auto simp: key val)
qed

end
