(* ===== verification/BG_KV.thy ===== *)
theory BG_KV
  imports LearnedKV_Scan
begin

text \<open>
  The variant with a background garbage collection in \<open>learned-LSM/learnedKV_bgGC.h\<close>: while the
  collecting thread runs, puts go to a second value log and a second LSM store; the next call of
  the main thread after the collection switches to the new files. The thread works on files that
  the main thread does not change meanwhile, so its run is one step of the model, at any point
  between two calls.
\<close>

section \<open>State\<close>

definition LI_VLOG_PATH :: string where "LI_VLOG_PATH = ''db/li_vlog''"
definition NEW_VLOG_PATH :: string where "NEW_VLOG_PATH = ''db/new_vlog''"
definition NEW_LI_VLOG_PATH :: string where "NEW_LI_VLOG_PATH = ''db/new_li_vlog''"
definition NEW_MODEL_PATH :: string where "NEW_MODEL_PATH = ''./db/new_model''"
definition NEW_KEY_ARRAY_PATH :: string where "NEW_KEY_ARRAY_PATH = ''./db/new_key_array''"

text \<open>The thread object: not started, running, or ended but never joined.\<close>

datatype gc_thread = NoThread | Running u64 u64 | Ended

record 'db bg =
  bg_db :: "'db option"        \<comment> \<open>null pointers are \<open>None\<close>\<close>
  bg_new_db :: "'db option"
  bg_new_dir :: 'db            \<comment> \<open>the directory \<open>./db/db_new\<close>\<close>
  bg_new_dir_open :: bool
  total_num :: u64
  gc_in_progress :: bool
  gc_done :: bool
  thread :: gc_thread
  bg_bloom :: bloom_filter
  bg_disk :: disk
  bg_gc_count :: int
  bg_gc_write_size :: int
  bg_scan_kvs_count :: int
  bg_learned_index_count :: int
  bg_rocksdb_count :: int
  bg_load_kv_count :: int

text \<open>The constructor; the pointer \<open>new_db\<close> is read only after a collection has set it.\<close>

definition bg_new :: "('db, 'm) rocks_api_scheme \<Rightarrow> 'db \<Rightarrow> 'db \<Rightarrow> disk \<Rightarrow> 'db bg" where
  "bg_new R d0 dir0 disk0 =
     (let (ok, d) = db_open R d0
      in \<lparr>bg_db = Some d, bg_new_db = None, bg_new_dir = dir0, bg_new_dir_open = False, total_num = 0,
          gc_in_progress = False, gc_done = False, thread = NoThread,
          bg_bloom = (if ok then bloom_reset (BloomFilter 100000000 7) else BloomFilter 100000000 7),
          bg_disk = disk0, bg_gc_count = 0, bg_gc_write_size = 0, bg_scan_kvs_count = 0,
          bg_learned_index_count = 0, bg_rocksdb_count = 0, bg_load_kv_count = 0\<rparr>)"

text \<open>A directory that is open in the process cannot be opened again.\<close>

definition initialize_new_rocksdb :: "('db, 'm) rocks_api_scheme \<Rightarrow> 'db bg \<Rightarrow> int \<times> 'db bg" where
  "initialize_new_rocksdb R s =
     (if bg_new_dir_open s then (- 1, s)
      else let (ok, d) = db_open R (bg_new_dir s)
           in if \<not> ok then (- 1, s) else (0, s\<lparr>bg_new_db := Some d, bg_new_dir_open := True\<rparr>))"

section \<open>The switch to the new files\<close>

text \<open>The files of the old log and index are replaced by the new ones. The code also renames the directory
  \<open>./db/db_new\<close> to \<open>./db/db\<close>, whose files the open LSM stores use under their own handles: the target is a
  directory that is not empty, on which \<open>rename\<close> fails without effect, and its result is not looked at.\<close>

definition detroy_old_instance :: "'db bg \<Rightarrow> fault + 'db bg" where
  "detroy_old_instance s =
     (case fopen_read (bg_disk s) VLOG_PATH of
        None \<Rightarrow> Inl NullFile
      | Some c \<Rightarrow>
     (let s = s\<lparr>total_num := total_num s - word_of_nat (length c) div word_of_nat (KEY_SIZE + VALUE_SIZE),
               bg_disk := fremove (bg_disk s) VLOG_PATH\<rparr>;
          s = (case fopen_read (bg_disk s) LI_VLOG_PATH of
                 None \<Rightarrow> s
               | Some c \<Rightarrow>
                   s\<lparr>total_num := total_num s - word_of_nat (length c) div word_of_nat (KEY_SIZE + VALUE_SIZE)\<rparr>);
          s = (if bg_db s \<noteq> None then s\<lparr>bg_db := bg_new_db s, bg_new_db := None\<rparr> else s);
          d = frename (bg_disk s) NEW_LI_VLOG_PATH LI_VLOG_PATH;
          d = frename d NEW_VLOG_PATH VLOG_PATH;
          d = frename (fremove d MODEL_PATH) NEW_MODEL_PATH MODEL_PATH;
          d = frename (fremove d KEY_ARRAY_PATH) NEW_KEY_ARRAY_PATH KEY_ARRAY_PATH
      in Inr (s\<lparr>bg_disk := d, gc_in_progress := False\<rparr>)))"

definition finish_gc :: "'db bg \<Rightarrow> fault + 'db bg" where
  "finish_gc s =
     (if gc_done s then
        (case detroy_old_instance s of Inl e \<Rightarrow> Inl e | Inr s \<Rightarrow> Inr (s\<lparr>gc_done := False\<rparr>))
      else Inr s)"

section \<open>The collection\<close>

definition bg_build ::
  "(string \<Rightarrow> bool) \<Rightarrow> u64 list \<Rightarrow> double list \<Rightarrow> double \<Rightarrow> disk \<Rightarrow> int \<times> disk" where
  "bg_build may_write x y err d =
     (if length x < 2 then (- 1, d)
      else case fopen_trunc may_write d NEW_MODEL_PATH of
        None \<Rightarrow> (- 1, d)
      | Some d1 \<Rightarrow>
          (let d2 = fwrite_end d1 NEW_MODEL_PATH (concat (map segment_bytes (plr_model x y err)))
           in case fopen_trunc may_write d2 NEW_KEY_ARRAY_PATH of
                None \<Rightarrow> (- 1, d2)
              | Some d3 \<Rightarrow> (0, fwrite_end d3 NEW_KEY_ARRAY_PATH (concat (map u64_bytes x)))))"

text \<open>One valid pair: the local \<open>write_pos\<close> stays 0, the global count of records is increased.\<close>

definition bg_write_one :: "bool \<Rightarrow> u64 \<Rightarrow> u64 \<Rightarrow> u64 \<Rightarrow> u64 \<times> bytes \<Rightarrow>
    bytes \<times> u64 list \<times> double list \<times> u64 \<Rightarrow> fault + (bytes \<times> u64 list \<times> double list \<times> u64)" where
  "bg_write_one learned keySize valueSize pos kv g = (case g of (out, x, y, n) \<Rightarrow>
     (case record_data (fst kv) keySize (snd kv) valueSize of
        Inl e \<Rightarrow> Inl e
      | Inr data \<Rightarrow>
          Inr (out @ data, if learned then x @ [fst kv] else x,
               if learned then y @ [double_of_u64 pos] else y, n + 1)))"

fun bg_write :: "bool \<Rightarrow> u64 \<Rightarrow> u64 \<Rightarrow> u64 \<Rightarrow> (u64 \<times> bytes) list \<Rightarrow>
    bytes \<times> u64 list \<times> double list \<times> u64 \<Rightarrow> fault + (bytes \<times> u64 list \<times> double list \<times> u64)" where
  "bg_write learned keySize valueSize pos [] g = Inr g"
| "bg_write learned keySize valueSize pos (kv # kvs) g =
     (case bg_write_one learned keySize valueSize pos kv g of
        Inl e \<Rightarrow> Inl e
      | Inr g \<Rightarrow> bg_write learned keySize valueSize pos kvs g)"

definition bg_collect :: "disk \<Rightarrow> fault + (u64 \<times> bytes) list" where
  "bg_collect d =
     (case (case fopen_read d LI_VLOG_PATH of None \<Rightarrow> Inr [] | Some c \<Rightarrow> gc_collect c []) of
        Inl e \<Rightarrow> Inl e
      | Inr valid_map \<Rightarrow>
     (case fopen_read d VLOG_PATH of
        None \<Rightarrow> Inl NullFile
      | Some c \<Rightarrow> gc_collect c valid_map))"

definition bg_garbage_collection :: "config \<Rightarrow> u64 \<Rightarrow> u64 \<Rightarrow> 'db bg \<Rightarrow> fault + (int \<times> 'db bg)" where
  "bg_garbage_collection cfg keySize valueSize s =
     (case bg_collect (bg_disk s) of
        Inl e \<Rightarrow> Inl e
      | Inr valid_map \<Rightarrow>
     (case fopen_append (writable cfg) (bg_disk s) NEW_LI_VLOG_PATH of
        None \<Rightarrow> Inl NullFile
      | Some d \<Rightarrow>
     (let valid_vec = sort_key fst valid_map
      in if valid_vec = [] then Inl BadIterator else
     (case bg_write (learned_index_used cfg) keySize valueSize 0 (butlast valid_vec) ([], [], [], total_num s) of
        Inl e \<Rightarrow> Inl e
      | Inr (out, x, y, n) \<Rightarrow>
     (let d = fwrite_end d NEW_LI_VLOG_PATH out;
          d = (if learned_index_used cfg
               then snd (bg_build (writable cfg) x y (double_of_u64 (word_of_int ERR_BOUND)) d) else d)
      in Inr (0, s\<lparr>bg_disk := d, total_num := n,
                   bg_gc_write_size := bg_gc_write_size s
                     + int ((KEY_SIZE + VALUE_SIZE) * length valid_vec),
                   gc_done := True\<rparr>))))))"

section \<open>Put\<close>

text \<open>Assigning a new thread to a thread object that was not joined terminates the program.\<close>

definition start_gc :: "('db, 'm) rocks_api_scheme \<Rightarrow> u64 \<Rightarrow> u64 \<Rightarrow> 'db bg \<Rightarrow> fault + 'db bg" where
  "start_gc R keySize valueSize s =
     (let s = snd (initialize_new_rocksdb R (s\<lparr>gc_in_progress := True\<rparr>))
      in if thread s \<noteq> NoThread then Inl Terminated
         else Inr (s\<lparr>thread := Running keySize valueSize, bg_gc_count := bg_gc_count s + 1\<rparr>))"

definition bg_put ::
  "('db, 'm) rocks_api_scheme \<Rightarrow> config \<Rightarrow> u64 \<Rightarrow> u64 \<Rightarrow> bytes \<Rightarrow> u64 \<Rightarrow> 'db bg
     \<Rightarrow> fault + (int \<times> 'db bg)" where
  "bg_put R cfg key keySize value valueSize s =
     (case finish_gc s of
        Inl e \<Rightarrow> Inl e
      | Inr s \<Rightarrow>
     (case (if group_size cfg < (total_num s + 1) * (keySize + valueSize) \<and> \<not> gc_in_progress s
            then start_gc R keySize valueSize s else Inr s) of
        Inl e \<Rightarrow> Inl e
      | Inr s \<Rightarrow>
     (let vlog_path = (if gc_in_progress s then NEW_VLOG_PATH else VLOG_PATH)
      in case fopen_append (writable cfg) (bg_disk s) vlog_path of
        None \<Rightarrow> Inl NullFile
      | Some d \<Rightarrow>
      if keySize + valueSize = 0 then Inl DivideByZero else
     (let pos = word_of_nat (length (the (d vlog_path))) div (keySize + valueSize)
      in case record_data key keySize value valueSize of
        Inl e \<Rightarrow> Inl e
      | Inr data \<Rightarrow>
     (let s = s\<lparr>bg_disk := fwrite_end d vlog_path data\<rparr>;
          ptr = ullToString pos
      in case (if gc_in_progress s then bg_new_db s else bg_db s) of
        None \<Rightarrow> Inl NullPointer
      | Some p \<Rightarrow>
     (let (ok, p) = db_put R p (ullToString key) ptr;
          s = (if gc_in_progress s then s\<lparr>bg_new_db := Some p\<rparr> else s\<lparr>bg_db := Some p\<rparr>)
      in if \<not> ok then Inr (- 1, s) else Inr (0, s\<lparr>total_num := total_num s + 1\<rparr>)))))))"

section \<open>Get\<close>

text \<open>A default status is ok: the first database is asked only when the second one was asked and did
  not have the key.\<close>

definition bg_lookup :: "('db, 'm) rocks_api_scheme \<Rightarrow> u64 \<Rightarrow> 'db bg \<Rightarrow> fault + bytes option" where
  "bg_lookup R key s =
     (case (if gc_in_progress s then map_option (\<lambda>p. db_get R p (ullToString key)) (bg_new_db s)
            else None) of
        None \<Rightarrow> Inr (Some [])
      | Some (Some ptr) \<Rightarrow> Inr (Some ptr)
      | Some None \<Rightarrow>
          (case bg_db s of
             None \<Rightarrow> Inl NullPointer
           | Some p \<Rightarrow> Inr (db_get R p (ullToString key))))"

definition bg_get_learned ::
  "config \<Rightarrow> u64 \<Rightarrow> u64 \<Rightarrow> bytes \<Rightarrow> u64 \<Rightarrow> 'db bg \<Rightarrow> fault + (int \<times> bytes \<times> 'db bg)" where
  "bg_get_learned cfg key keySize value valueSize s =
     (case fopen_read (bg_disk s) KEY_ARRAY_PATH of
        None \<Rightarrow> Inl NullFile
      | Some ka \<Rightarrow>
      (let pos = query_model key (bg_disk s);
           (start_pos, key_array) = window (fresh cfg 0) ka pos;
           start_pos = start_pos + int (find_index (\<lambda>k. k = key) key_array) * kv_size;
           s = s\<lparr>bg_learned_index_count := bg_learned_index_count s + 1\<rparr>
       in case fopen_update (writable cfg) (bg_disk s) LI_VLOG_PATH of
            None \<Rightarrow> Inl NullFile
          | Some c \<Rightarrow>
              if int KEY_SIZE + 1 < int (unat keySize) then Inl OutOfBounds else
              (let at_value = nat start_pos + length (fread_at c (nat start_pos) (unat keySize))
               in Inr (0, read_value c at_value value valueSize,
                       s\<lparr>bg_load_kv_count := bg_load_kv_count s + 1\<rparr>))))"

definition bg_get ::
  "('db, 'm) rocks_api_scheme \<Rightarrow> config \<Rightarrow> u64 \<Rightarrow> u64 \<Rightarrow> bytes \<Rightarrow> u64 \<Rightarrow> 'db bg
     \<Rightarrow> fault + (int \<times> bytes \<times> 'db bg)" where
  "bg_get R cfg key keySize value valueSize s =
     (case finish_gc s of
        Inl e \<Rightarrow> Inl e
      | Inr s \<Rightarrow>
     (case bg_lookup R key s of
        Inl e \<Rightarrow> Inl e
      | Inr result \<Rightarrow>
     (let s = s\<lparr>bg_rocksdb_count := bg_rocksdb_count s + 1\<rparr>
      in case result of
        None \<Rightarrow>
          if learned_index_used cfg then bg_get_learned cfg key keySize value valueSize s
          else Inr (- 1, value, s)
      | Some ptr \<Rightarrow>
      (case stringToULL ptr of
        Inl e \<Rightarrow> Inl e
      | Inr pos \<Rightarrow>
      (case fopen_read (bg_disk s) (if gc_in_progress s then NEW_VLOG_PATH else VLOG_PATH) of
        None \<Rightarrow> Inl NullFile
      | Some c \<Rightarrow>
          (let at_value = fseek_set 0 (pos * (keySize + valueSize) + keySize)
           in Inr (0, read_value c at_value value valueSize,
                   s\<lparr>bg_load_kv_count := bg_load_kv_count s + 1\<rparr>)))))))"

section \<open>Scan\<close>

text \<open>A scan uses the first database only, and reads the learned part from \<open>VLOG_PATH\<close>.\<close>

definition bg_scan ::
  "('db, 'm) rocks_api_scheme \<Rightarrow> config \<Rightarrow> u64 \<Rightarrow> u64 \<Rightarrow> kvs \<Rightarrow> u64 \<Rightarrow> u64 \<Rightarrow> 'db bg
     \<Rightarrow> (fault + (int \<times> kvs \<times> 'db bg)) option" where
  "bg_scan R cfg startKey keySize kvs valueSize scanRange s =
     (case bg_db s of
        None \<Rightarrow> Some (Inl NullPointer)
      | Some p \<Rightarrow>
     (let end_key = scan_end startKey scanRange;
          (ents, ok) = db_seek R p (ullToString startKey)
      in case scan_lsm (writable cfg) keySize valueSize end_key ents (bg_disk s) of
        Inl e \<Rightarrow> Some (Inl e)
      | Inr (kvs_lsm, d) \<Rightarrow>
     (let s = s\<lparr>bg_disk := d\<rparr>
      in if \<not> ok then Some (Inr (- 1, kvs, s))
      else if learned_index_used cfg then
        (case scan_learned cfg startKey end_key d of
           None \<Rightarrow> None
         | Some (Inl e) \<Rightarrow> Some (Inl e)
         | Some (Inr kvs_learned) \<Rightarrow>
        (case mergeKeyValueVectors kvs_lsm kvs_learned kvs of
           Inl e \<Rightarrow> Some (Inl e)
         | Inr kvs \<Rightarrow>
             Some (Inr (0, kvs, s\<lparr>bg_scan_kvs_count := bg_scan_kvs_count s + int (length kvs)\<rparr>))))
      else Some (Inr (0, kvs_lsm, s\<lparr>bg_scan_kvs_count := bg_scan_kvs_count s + int (length kvs_lsm)\<rparr>)))))"

section \<open>Runs\<close>

text \<open>The main thread calls put or get; the collecting thread, once started, runs at some point
  between two calls. Faults and failing calls of the LSM store end a run.\<close>

inductive bg_step :: "('db, 'm) rocks_api_scheme \<Rightarrow> config \<Rightarrow> 'db bg \<Rightarrow> 'db bg \<Rightarrow> bool" for R cfg where
  call_put: "bg_put R cfg key keySize value valueSize s = Inr (r, s') \<Longrightarrow> bg_step R cfg s s'"
| call_get: "bg_get R cfg key keySize value valueSize s = Inr (r, v, s') \<Longrightarrow> bg_step R cfg s s'"
| run_gc: "thread s = Running keySize valueSize \<Longrightarrow>
    bg_garbage_collection cfg keySize valueSize s = Inr (r, s') \<Longrightarrow>
    bg_step R cfg s (s'\<lparr>thread := Ended\<rparr>)"

inductive_cases bg_stepE: "bg_step R cfg s s'"

inductive bg_reach :: "('db, 'm) rocks_api_scheme \<Rightarrow> config \<Rightarrow> 'db bg \<Rightarrow> 'db bg \<Rightarrow> bool" for R cfg s where
  here: "bg_reach R cfg s s"
| step: "bg_reach R cfg s t \<Longrightarrow> bg_step R cfg t u \<Longrightarrow> bg_reach R cfg s u"

end
