(* ===== verification/BG_Facts.thy ===== *)
theory BG_Facts
  imports BG_KV LearnedKV_Get Store_Interface
begin

text \<open>
  The life of the collecting thread of \<open>learned-LSM/learnedKV_bgGC.h\<close>, the isolation of a
  collection from the calls that run meanwhile, and what those calls store.
\<close>

section \<open>The control state\<close>

text \<open>The fields that steer the collection, and the invariant that links them.\<close>

definition control :: "'db bg \<Rightarrow> gc_thread \<times> bool \<times> bool \<times> int" where
  "control s = (thread s, gc_in_progress s, gc_done s, bg_gc_count s)"

definition bg_inv :: "'db bg \<Rightarrow> bool" where
  "bg_inv s \<longleftrightarrow> (case thread s of
     NoThread \<Rightarrow> \<not> gc_in_progress s \<and> \<not> gc_done s \<and> bg_gc_count s = 0
   | Running _ _ \<Rightarrow> gc_in_progress s \<and> \<not> gc_done s \<and> bg_gc_count s = 1
   | Ended \<Rightarrow> gc_in_progress s = gc_done s \<and> bg_gc_count s = 1)"

lemma bg_inv_control: "control s = control t \<Longrightarrow> bg_inv s = bg_inv t"
  by (simp add: control_def bg_inv_def split: gc_thread.split)

lemma bg_inv_new: "bg_inv (bg_new R d0 dir0 disk0)"
  by (simp add: bg_new_def bg_inv_def split_beta)

lemma finish_idle: "\<not> gc_done s \<Longrightarrow> finish_gc s = Inr s"
  by (simp add: finish_gc_def)

lemma detroy_control:
  "detroy_old_instance s = Inr t \<Longrightarrow> control t = (thread s, False, gc_done s, bg_gc_count s)"
  unfolding detroy_old_instance_def Let_def control_def
  by (cases "bg_db s") (auto split: option.splits)

lemma finish_control:
  "finish_gc s = Inr t \<Longrightarrow>
     control t = (thread s, gc_in_progress s \<and> \<not> gc_done s, False, bg_gc_count s)"
  using detroy_control unfolding finish_gc_def control_def
  by (cases "gc_done s") (fastforce split: sum.splits)+

lemma finish_inv: "finish_gc s = Inr t \<Longrightarrow> bg_inv s \<Longrightarrow> bg_inv t"
  using finish_control [of s t]
  by (cases "thread s") (auto simp: bg_inv_def control_def)

lemma start_control:
  "start_gc R ks vs s = Inr t \<Longrightarrow>
     thread s = NoThread \<and> control t = (Running ks vs, True, gc_done s, bg_gc_count s + 1) \<and>
     bg_disk t = bg_disk s \<and> bg_db t = bg_db s"
  by (auto simp: start_gc_def initialize_new_rocksdb_def control_def Let_def split_beta split: if_splits)

text \<open>A call of put: the switch to new files, the start of a collection, the store.\<close>

definition bg_full :: "config \<Rightarrow> u64 \<Rightarrow> u64 \<Rightarrow> 'db bg \<Rightarrow> bool" where
  "bg_full cfg ks vs s \<longleftrightarrow> group_size cfg < (total_num s + 1) * (ks + vs) \<and> \<not> gc_in_progress s"

lemma bg_put_phases:
  assumes "bg_put R cfg key ks v vs s = Inr (r, t)"
  obtains s1 s2 where "finish_gc s = Inr s1"
    "if bg_full cfg ks vs s1 then start_gc R ks vs s1 = Inr s2 else s2 = s1"
    "control t = control s2"
    "\<And>p. p \<noteq> (if gc_in_progress s2 then NEW_VLOG_PATH else VLOG_PATH) \<Longrightarrow> bg_disk t p = bg_disk s2 p"
    "gc_in_progress s2 \<Longrightarrow> bg_db t = bg_db s2"
proof -
  obtain s1 where s1: "finish_gc s = Inr s1" using assms by (auto simp: bg_put_def split: sum.splits)
  obtain s2 where s2: "(if bg_full cfg ks vs s1 then start_gc R ks vs s1 else Inr s1) = Inr s2"
    using assms s1 by (auto simp: bg_put_def bg_full_def split: sum.splits)
  have put: "(let path = (if gc_in_progress s2 then NEW_VLOG_PATH else VLOG_PATH)
    in control t = control s2 \<and> (\<forall>p. p \<noteq> path \<longrightarrow> bg_disk t p = bg_disk s2 p) \<and>
      (gc_in_progress s2 \<longrightarrow> bg_db t = bg_db s2))"
    using assms s1 s2 unfolding bg_put_def bg_full_def [symmetric]
    by (auto simp: Let_def control_def fopen_append_def fwrite_end_def split_beta
        split: option.splits sum.splits if_splits)
  show ?thesis
    by (rule that [OF s1, of s2]) (use s2 put in \<open>auto simp: Let_def split: if_splits\<close>)
qed

lemma bg_put_inv:
  assumes "bg_put R cfg key ks v vs s = Inr (r, t)" "bg_inv s"
  shows "bg_inv t"
proof (rule bg_put_phases [OF assms(1)])
  fix s1 s2
  assume s1: "finish_gc s = Inr s1" and s2: "if bg_full cfg ks vs s1 then start_gc R ks vs s1 = Inr s2 else s2 = s1"
    and t: "control t = control s2"
  have "bg_inv s2" using finish_inv [OF s1 assms(2)] s2
    by (cases "bg_full cfg ks vs s1") (auto dest!: start_control simp: bg_inv_def control_def split: gc_thread.splits)
  then show ?thesis using bg_inv_control [OF t] by simp
qed

text \<open>A lookup changes counters only, after the switch.\<close>

lemma bg_get_phases:
  assumes "bg_get R cfg key ks v vs s = Inr (r, x, t)"
  obtains s1 where "finish_gc s = Inr s1" "control t = control s1" "bg_disk t = bg_disk s1"
    "bg_db t = bg_db s1" "bg_new_db t = bg_new_db s1" "total_num t = total_num s1"
proof -
  obtain s1 where s1: "finish_gc s = Inr s1" using assms by (auto simp: bg_get_def split: sum.splits)
  then have "control t = control s1 \<and> bg_disk t = bg_disk s1 \<and> bg_db t = bg_db s1 \<and>
      bg_new_db t = bg_new_db s1 \<and> total_num t = total_num s1"
    using assms unfolding bg_get_def bg_get_learned_def
    by (auto simp: Let_def control_def split_beta split: option.splits sum.splits if_splits)
  with s1 show ?thesis using that by blast
qed

lemma bg_gc_control:
  "bg_garbage_collection cfg ks vs s = Inr (r, t) \<Longrightarrow>
     control t = (thread s, gc_in_progress s, True, bg_gc_count s)"
  unfolding bg_garbage_collection_def control_def
  by (auto simp: Let_def split: sum.splits option.splits if_splits prod.splits)

lemma bg_step_inv: "bg_step R cfg s t \<Longrightarrow> bg_inv s \<Longrightarrow> bg_inv t"
proof (erule bg_stepE)
  fix key keySize "value" valueSize r
  assume "bg_put R cfg key keySize value valueSize s = Inr (r, t)" "bg_inv s"
  then show "bg_inv t" by (rule bg_put_inv)
next
  fix key keySize "value" valueSize r v
  assume get: "bg_get R cfg key keySize value valueSize s = Inr (r, v, t)" and inv: "bg_inv s"
  show "bg_inv t"
    by (rule bg_get_phases [OF get]) (use finish_inv [OF _ inv] bg_inv_control in blast)
next
  fix keySize valueSize r u
  assume "t = u\<lparr>thread := Ended\<rparr>" "thread s = Running keySize valueSize"
    "bg_garbage_collection cfg keySize valueSize s = Inr (r, u)" "bg_inv s"
  then show "bg_inv t" by (auto dest!: bg_gc_control simp: bg_inv_def control_def)
qed

lemma bg_reach_inv: "bg_reach R cfg s t \<Longrightarrow> bg_inv s \<Longrightarrow> bg_inv t"
  by (induction rule: bg_reach.induct) (auto intro: bg_step_inv)

section \<open>Isolation of the collection\<close>

text \<open>The files without the log that the calls during a collection write to, and the files a
  collection leaves, as a function of those before it.\<close>

definition hide :: "disk \<Rightarrow> disk" where
  "hide d = d(NEW_VLOG_PATH := None)"

definition gc_files :: "config \<Rightarrow> u64 \<Rightarrow> u64 \<Rightarrow> 'db bg \<Rightarrow> fault + disk" where
  "gc_files cfg ks vs s =
     (case bg_garbage_collection cfg ks vs s of Inl e \<Rightarrow> Inl e | Inr (_, t) \<Rightarrow> Inr (hide (bg_disk t)))"

definition gc_spec :: "config \<Rightarrow> u64 \<Rightarrow> u64 \<Rightarrow> disk \<Rightarrow> fault + disk" where
  "gc_spec cfg ks vs d =
     (case bg_collect d of
        Inl e \<Rightarrow> Inl e
      | Inr m \<Rightarrow>
     (case fopen_append (writable cfg) d NEW_LI_VLOG_PATH of
        None \<Rightarrow> Inl NullFile
      | Some d \<Rightarrow>
      if m = [] then Inl BadIterator else
     (case bg_write (learned_index_used cfg) ks vs 0 (butlast (sort_key fst m)) ([], [], [], 0) of
        Inl e \<Rightarrow> Inl e
      | Inr (out, x, y, n) \<Rightarrow>
     (let d = fwrite_end d NEW_LI_VLOG_PATH out
      in Inr (if learned_index_used cfg
              then snd (bg_build (writable cfg) x y (double_of_u64 (word_of_int ERR_BOUND)) d) else d)))))"

lemma new_vlog_distinct [simp]:
  "NEW_VLOG_PATH \<noteq> VLOG_PATH" "NEW_VLOG_PATH \<noteq> LI_VLOG_PATH" "NEW_VLOG_PATH \<noteq> NEW_LI_VLOG_PATH"
  "NEW_VLOG_PATH \<noteq> NEW_MODEL_PATH" "NEW_VLOG_PATH \<noteq> NEW_KEY_ARRAY_PATH"
  "VLOG_PATH \<noteq> NEW_VLOG_PATH" "LI_VLOG_PATH \<noteq> NEW_VLOG_PATH" "NEW_LI_VLOG_PATH \<noteq> NEW_VLOG_PATH"
  "NEW_MODEL_PATH \<noteq> NEW_VLOG_PATH" "NEW_KEY_ARRAY_PATH \<noteq> NEW_VLOG_PATH"
  by (simp_all add: NEW_VLOG_PATH_def VLOG_PATH_def LI_VLOG_PATH_def NEW_LI_VLOG_PATH_def
      NEW_MODEL_PATH_def NEW_KEY_ARRAY_PATH_def)

lemma hide_read [simp]: "p \<noteq> NEW_VLOG_PATH \<Longrightarrow> fopen_read (hide d) p = fopen_read d p"
  by (simp add: hide_def fopen_read_def)

lemma hide_append:
  "p \<noteq> NEW_VLOG_PATH \<Longrightarrow> fopen_append w (hide d) p = map_option hide (fopen_append w d p)"
  by (simp add: hide_def fopen_append_def fun_upd_twist)

lemma hide_trunc:
  "p \<noteq> NEW_VLOG_PATH \<Longrightarrow> fopen_trunc w (hide d) p = map_option hide (fopen_trunc w d p)"
  by (simp add: hide_def fopen_trunc_def fun_upd_twist)

lemma hide_write: "p \<noteq> NEW_VLOG_PATH \<Longrightarrow> fwrite_end (hide d) p data = hide (fwrite_end d p data)"
  by (simp add: hide_def fwrite_end_def fun_upd_twist)

lemmas hide_simps = hide_append hide_trunc hide_write

lemma hide_collect: "bg_collect (hide d) = bg_collect d"
  unfolding bg_collect_def hide_read [OF new_vlog_distinct(6)] hide_read [OF new_vlog_distinct(7)] ..

lemma hide_build: "snd (bg_build w x y e (hide d)) = hide (snd (bg_build w x y e d))"
  by (simp add: bg_build_def hide_simps Let_def split: option.split)

text \<open>The count of records does not influence what is written.\<close>

lemma bg_write_count:
  "bg_write l ks vs p kvs (out, x, y, n + m) =
     map_sum id (\<lambda>(out, x, y, k). (out, x, y, k + m)) (bg_write l ks vs p kvs (out, x, y, n))"
proof (induction kvs arbitrary: out x y n)
  case Nil
  then show ?case by simp
next
  case (Cons kv kvs)
  show ?case
  proof (cases "record_data (fst kv) ks (snd kv) vs")
    case (Inl e)
    then show ?thesis by (simp add: bg_write_one_def)
  next
    case (Inr data)
    then show ?thesis
      using Cons [of "out @ data" "if l then x @ [fst kv] else x"
          "if l then y @ [double_of_u64 p] else y" "n + 1"]
      by (simp add: bg_write_one_def add.assoc add.commute [of m 1])
  qed
qed

lemma sort_key_Nil_iff [simp]: "sort_key f xs = [] \<longleftrightarrow> xs = []"
  by (metis length_0_conv length_sort)

lemma gc_files_spec: "gc_files cfg ks vs s = gc_spec cfg ks vs (hide (bg_disk s))"
proof (cases "bg_collect (bg_disk s)")
  case (Inl e)
  then show ?thesis
    by (simp add: gc_files_def bg_garbage_collection_def gc_spec_def hide_collect)
next
  case (Inr m)
  note w = bg_write_count [of _ _ _ 0 "butlast (sort_key fst m)" "[]" "[]" "[]" 0 "total_num s", simplified]
  show ?thesis
    unfolding gc_files_def bg_garbage_collection_def gc_spec_def hide_collect Inr
    by (simp add: hide_append Let_def w hide_write hide_build
        split: option.split sum.split prod.split)
qed

text \<open>Puts and lookups while the thread runs.\<close>

lemma bg_step_hide:
  assumes "bg_step R cfg s t" "bg_inv s" "thread s = Running ks vs" "thread t = Running ks vs"
  shows "hide (bg_disk t) = hide (bg_disk s) \<and> bg_db t = bg_db s"
  using assms(1)
proof (cases rule: bg_step.cases)
  case (call_put key keySize "value" valueSize r)
  have idle: "finish_gc s = Inr s" and prog: "gc_in_progress s"
    using assms(2,3) by (auto simp: bg_inv_def finish_idle)
  show ?thesis
  proof (rule bg_put_phases [OF call_put])
    fix s1 s2
    assume a: "finish_gc s = Inr s1"
      "if bg_full cfg keySize valueSize s1 then start_gc R keySize valueSize s1 = Inr s2 else s2 = s1"
      and d: "\<And>p. p \<noteq> (if gc_in_progress s2 then NEW_VLOG_PATH else VLOG_PATH) \<Longrightarrow> bg_disk t p = bg_disk s2 p"
      and db: "gc_in_progress s2 \<Longrightarrow> bg_db t = bg_db s2"
    have "s2 = s" using a idle prog by (simp add: bg_full_def)
    then show ?thesis using d db prog by (auto simp: hide_def fun_eq_iff)
  qed
next
  case (call_get key keySize "value" valueSize r v)
  have "finish_gc s = Inr s" using assms(2,3) by (auto simp: bg_inv_def finish_idle)
  then show ?thesis using bg_get_phases [OF call_get] by (metis sum.inject(2))
next
  case (run_gc keySize valueSize r u)
  then show ?thesis using assms(4) by simp
qed

text \<open>Once ended, the thread stays ended, and once running it was started in this run.\<close>

lemma bg_step_thread:
  assumes "bg_step R cfg s t" "bg_inv s"
  shows "thread s = Running ks vs \<Longrightarrow> thread t = Running ks vs \<or> thread t = Ended"
    and "thread s = Ended \<Longrightarrow> thread t = Ended"
  using assms(1)
  by (cases rule: bg_step.cases; auto elim!: bg_put_phases bg_get_phases dest!: finish_control bg_gc_control
      start_control simp: control_def split: if_splits)+

lemma bg_reach_hide:
  assumes "bg_reach R cfg s t" "bg_inv s" "thread s = Running ks vs"
  shows "thread t = Running ks vs \<and> hide (bg_disk t) = hide (bg_disk s) \<and> bg_db t = bg_db s \<or>
    thread t = Ended"
  using assms(1)
proof (induction rule: bg_reach.induct)
  case here
  then show ?case using assms(3) by simp
next
  case (step t u)
  have inv: "bg_inv t" by (rule bg_reach_inv [OF step.hyps(1) assms(2)])
  show ?case
    using step.IH bg_step_thread [OF step.hyps(2) inv] bg_step_hide [OF step.hyps(2) inv]
    by metis
qed

section \<open>What the calls during a collection store\<close>

text \<open>While a collection is running the second log holds the records put meanwhile, and the second
  LSM store the position of the last record of every key.\<close>

definition during :: "('db \<Rightarrow> bytes \<rightharpoonup> bytes) \<Rightarrow> rec list \<Rightarrow> 'db bg \<Rightarrow> bool" where
  "during view recs s \<longleftrightarrow> gc_in_progress s \<and> \<not> gc_done s \<and> well_sized recs \<and>
     (bg_disk s NEW_VLOG_PATH = Some (vlog_image recs) \<or> recs = [] \<and> bg_disk s NEW_VLOG_PATH = None) \<and>
     (\<exists>p. bg_new_db s = Some p \<and>
        (\<forall>k. view p (ullToString k) = map_option (\<lambda>i. ullToString (word_of_nat i)) (last_pos 0 recs k)))"

lemma key_value_size: "key_size + value_size = 1024"
  by (simp add: key_size_def value_size_def)

lemma log_position:
  assumes "n < 100000000"
  shows "word_of_nat (1024 * n) div (1024 :: u64) = word_of_nat n"
proof -
  have "unat (word_of_nat (1024 * n) :: u64) = 1024 * n" "unat (word_of_nat n :: u64) = n"
    using assms by (simp_all add: unat_of_nat del: of_nat_mult)
  then show ?thesis by (simp add: word_unat_eq_iff unat_div del: of_nat_mult)
qed

lemma during_put:
  assumes R: "rocks_ok R view" and d: "during view recs s" and v: "length v = 1016"
    and w: "writable cfg NEW_VLOG_PATH" and n: "length recs < 100000000"
  shows "\<exists>s'. bg_put R cfg key key_size v value_size s = Inr (0, s') \<and> during view (recs @ [(key, v)]) s' \<and>
    hide (bg_disk s') = hide (bg_disk s) \<and> total_num s' = total_num s + 1"
proof -
  obtain p where p: "bg_new_db s = Some p"
    and view: "\<And>k. view p (ullToString k) = map_option (\<lambda>i. ullToString (word_of_nat i)) (last_pos 0 recs k)"
    and prog: "gc_in_progress s" "\<not> gc_done s" and ws: "well_sized recs"
    using d by (auto simp: during_def)
  let ?c = "case bg_disk s NEW_VLOG_PATH of None \<Rightarrow> [] | Some c \<Rightarrow> c"
  have c: "?c = vlog_image recs" using d by (auto simp: during_def)
  have pos: "word_of_nat (length ?c) div (key_size + value_size) = word_of_nat (length recs)"
    unfolding c length_vlog_image [OF ws] key_value_size by (rule log_position [OF n])
  let ?p = "snd (db_put R p (ullToString key) (ullToString (word_of_nat (length recs))))"
  let ?s = "s\<lparr>bg_disk := (bg_disk s)(NEW_VLOG_PATH \<mapsto> vlog_image (recs @ [(key, v)])),
    bg_new_db := Some ?p, total_num := total_num s + 1\<rparr>"
  have "bg_put R cfg key key_size v value_size s = Inr (0, ?s)"
    using rocks_okD(5) [OF R, of p "ullToString key" "ullToString (word_of_nat (length recs))"] prog p w v pos
    by (simp add: bg_put_def finish_idle fopen_append_def fwrite_end_def record_data_ok key_value_size c
        rec_bytes_def split_beta Let_def)
  moreover have "during view (recs @ [(key, v)]) ?s"
    using prog ws v by (simp add: during_def rocks_okD(6) [OF R] view)
  moreover have "hide (bg_disk ?s) = hide (bg_disk s)" by (simp add: hide_def)
  moreover have "total_num ?s = total_num s + 1" by simp
  ultimately show ?thesis by blast
qed

lemma during_get:
  assumes R: "rocks_ok R view" and d: "during view recs s" and n: "length recs \<le> 100000000"
    and x: "current recs key = Some x"
  shows "\<exists>t. bg_get R cfg key key_size v value_size s = Inr (0, x, t) \<and> during view recs t"
proof -
  obtain i where i: "last_pos 0 recs key = Some i" and x: "x = snd (recs ! i)"
    using x by (auto simp: current_last_pos)
  have il: "i < length recs" using last_pos_SomeD [OF i] by simp
  obtain p where p: "bg_new_db s = Some p"
    and view: "view p (ullToString key) = Some (ullToString (word_of_nat i))"
    and prog: "gc_in_progress s" "\<not> gc_done s" and ws: "well_sized recs"
    and c: "bg_disk s NEW_VLOG_PATH = Some (vlog_image recs)"
    using d il by (auto simp: during_def i)
  have off: "fseek_set 0 (word_of_nat i * (key_size + value_size) + key_size) = 1024 * i + 8"
    using il n by (intro record_offset) simp
  have counts: "during view recs (s\<lparr>bg_rocksdb_count := m, bg_load_kv_count := n\<rparr>) = during view recs s" for m n
    by (simp add: during_def)
  show ?thesis
    using read_rec [OF ws il, of v] prog p view c d
    by (simp add: counts bg_get_def finish_idle bg_lookup_def rocks_okD(11) [OF R] fopen_read_def off x)
qed

text \<open>The calls during a collection keep the contract for the keys put meanwhile.\<close>

abbreviation bg_put_rec :: "('db, 'm) rocks_api_scheme \<Rightarrow> config \<Rightarrow> 'db bg put_op" where
  "bg_put_rec R cfg key v \<equiv> bg_put R cfg key key_size v value_size"

abbreviation bg_get_rec :: "('db, 'm) rocks_api_scheme \<Rightarrow> config \<Rightarrow> 'db bg get_op" where
  "bg_get_rec R cfg key b \<equiv> bg_get R cfg key key_size b value_size"

definition during_keeps ::
  "('db, 'm) rocks_api_scheme \<Rightarrow> config \<Rightarrow> ('db \<Rightarrow> bytes \<rightharpoonup> bytes) \<Rightarrow> 'db bg \<Rightarrow> rec list \<Rightarrow> bool" where
  "during_keeps R cfg view s recs \<longleftrightarrow> rocks_ok R view \<and> writable cfg NEW_VLOG_PATH \<and>
     during view recs s \<and> length recs \<le> 100000000"

interpretation during: own_writes_store "bg_put_rec R cfg" "bg_get_rec R cfg" "during_keeps R cfg view"
    "\<lambda>recs. length recs < 100000000" "\<lambda>recs r. recs @ [r]"
  for R cfg view
proof
  show "\<exists>t. bg_put_rec R cfg k v s = Inr (0, t) \<and> during_keeps R cfg view t (recs @ [(k, v)])"
    if "during_keeps R cfg view s recs" "length recs < 100000000" "length v = VALUE_SIZE" for s recs k v
    using during_put [of R view recs s v cfg k] that by (auto simp: during_keeps_def)
  show "\<exists>t. bg_get_rec R cfg k b s = Inr (0, x, t) \<and> during_keeps R cfg view t recs"
    if "during_keeps R cfg view s recs" "current recs k = Some x" for s recs k x b
    using during_get [of R view recs s k x cfg b] that by (auto simp: during_keeps_def)
qed

text \<open>The put that starts a collection.\<close>

lemma starting_put:
  assumes R: "rocks_ok R view" and inv: "bg_inv s" and idle: "thread s = NoThread"
    and full: "bg_full cfg key_size value_size s" and dir: "\<not> bg_new_dir_open s" "view (bg_new_dir s) = Map.empty"
    and log: "bg_disk s NEW_VLOG_PATH = None" and w: "writable cfg NEW_VLOG_PATH" and v: "length v = 1016"
  shows "\<exists>s'. bg_put R cfg key key_size v value_size s = Inr (0, s') \<and>
    thread s' = Running key_size value_size \<and> during view [(key, v)] s' \<and>
    hide (bg_disk s') = hide (bg_disk s) \<and> total_num s' = total_num s + 1"
proof -
  have nd: "\<not> gc_done s" and np: "\<not> gc_in_progress s" using inv idle by (auto simp: bg_inv_def)
  let ?t = "s\<lparr>gc_in_progress := True, bg_new_db := Some (snd (db_open R (bg_new_dir s))),
    bg_new_dir_open := True, thread := Running key_size value_size, bg_gc_count := bg_gc_count s + 1\<rparr>"
  have start: "start_gc R key_size value_size s = Inr ?t"
    using rocks_okD(1) [OF R, of "bg_new_dir s"] dir idle
    by (simp add: start_gc_def initialize_new_rocksdb_def split_beta Let_def)
  have d: "during view [] ?t" using nd log rocks_okD(2) [OF R, of "bg_new_dir s"] dir
    by (simp add: during_def)
  obtain u where u: "bg_put R cfg key key_size v value_size ?t = Inr (0, u)" "during view [(key, v)] u"
    "hide (bg_disk u) = hide (bg_disk s)" "total_num u = total_num s + 1"
    using during_put [OF R d v w, of key] by auto
  have "bg_put R cfg key key_size v value_size s = bg_put R cfg key key_size v value_size ?t"
    using full unfolding bg_put_def [of _ _ _ _ _ _ s] bg_put_def [of _ _ _ _ _ _ ?t]
    by (simp add: finish_idle nd np start bg_full_def del: fun_upd_apply)
  moreover have "thread u = Running key_size value_size"
    by (rule bg_put_phases [OF u(1)])
      (auto simp: finish_idle nd bg_full_def control_def dest!: start_control split: if_splits)
  ultimately show ?thesis using u by auto
qed

section \<open>What a collection writes\<close>

lemma bg_write_image:
  "well_sized kvs \<Longrightarrow> bg_write l key_size value_size p kvs (out, x, y, n) =
     Inr (out @ vlog_image kvs, if l then x @ map fst kvs else x,
          if l then y @ replicate (length kvs) (double_of_u64 p) else y, n + word_of_nat (length kvs))"
  by (induction kvs arbitrary: out x y n)
    (auto simp: bg_write_one_def record_data_ok rec_bytes_def replicate_append_same add.assoc)

definition log_file :: "string \<Rightarrow> rec list \<Rightarrow> disk \<Rightarrow> bool" where
  "log_file path recs d \<longleftrightarrow> well_sized recs \<and>
     (d path = Some (vlog_image recs) \<or> recs = [] \<and> d path = None)"

lemma bg_collect_logs:
  assumes "log_file LI_VLOG_PATH li d" "log_file VLOG_PATH recs d" "d VLOG_PATH \<noteq> None"
  shows "bg_collect d = Inr (collected (li @ recs))"
proof -
  have "gc_collect (vlog_image li) [] = Inr (collected li)"
    using gc_collect_image [of li "[]"] assms(1) by (simp add: collected_def log_file_def)
  moreover have "gc_collect (vlog_image recs) (collected li) = Inr (collected (li @ recs))"
    using gc_collect_image [of recs] assms(2) by (simp add: collected_def log_file_def)
  ultimately show ?thesis using assms
    by (auto simp: bg_collect_def fopen_read_def log_file_def collected_def [of "[]"])
qed

lemma bg_gc_logs:
  assumes logs: "log_file LI_VLOG_PATH li (bg_disk s)" "log_file VLOG_PATH recs (bg_disk s)"
    and ne: "recs \<noteq> []" and out: "bg_disk s NEW_LI_VLOG_PATH = None" and w: "writable cfg NEW_LI_VLOG_PATH"
  defines "kvs \<equiv> butlast (live (li @ recs))"
  shows "\<exists>t. bg_garbage_collection cfg key_size value_size s = Inr (0, t) \<and>
    bg_disk t = (let d = (bg_disk s)(NEW_LI_VLOG_PATH \<mapsto> vlog_image kvs)
      in if learned_index_used cfg
         then snd (bg_build (writable cfg) (map fst kvs) (replicate (length kvs) (double_of_u64 0)) err_bound d)
         else d) \<and>
    total_num t = total_num s + word_of_nat (length kvs) \<and> gc_done t \<and>
    thread t = thread s \<and> gc_in_progress t = gc_in_progress s"
proof -
  have ws: "well_sized kvs" using logs
    by (simp add: kvs_def log_file_def well_sized_butlast well_sized_live)
  have "bg_disk s VLOG_PATH \<noteq> None" using logs(2) ne by (auto simp: log_file_def)
  note col = bg_collect_logs [OF logs this]
  have ne': "live (li @ recs) \<noteq> []" using ne by simp
  show ?thesis
    using w out ne' bg_write_image [OF ws, of "learned_index_used cfg" 0 "[]" "[]" "[]" "total_num s"]
    by (simp add: bg_garbage_collection_def col live_def [symmetric] kvs_def [symmetric] fopen_append_def
        fwrite_end_def Let_def err_bound_def)
qed

section \<open>Puts outside a collection\<close>

lemma idle_put:
  assumes R: "rocks_ok R view" and idle: "\<not> gc_done s" "\<not> gc_in_progress s" and n: "\<not> bg_full cfg key_size value_size s"
    and p: "bg_db s = Some p" and log: "log_file VLOG_PATH recs (bg_disk s)" and w: "writable cfg VLOG_PATH"
    and v: "length v = 1016"
  shows "\<exists>s'. bg_put R cfg key key_size v value_size s = Inr (0, s') \<and>
    bg_disk s' = (bg_disk s)(VLOG_PATH \<mapsto> vlog_image (recs @ [(key, v)])) \<and>
    total_num s' = total_num s + 1 \<and> control s' = control s \<and> bg_db s' \<noteq> None \<and>
    bg_new_dir_open s' = bg_new_dir_open s \<and> bg_new_dir s' = bg_new_dir s"
proof -
  let ?c = "case bg_disk s VLOG_PATH of None \<Rightarrow> [] | Some c \<Rightarrow> c"
  have c: "?c = vlog_image recs" using log by (auto simp: log_file_def)
  show ?thesis
    using rocks_okD(5) [OF R, of p] idle p w v n
    by (simp add: bg_put_def bg_full_def finish_idle fopen_append_def fwrite_end_def record_data_ok
        key_value_size c rec_bytes_def split_beta Let_def control_def)
qed

text \<open>The second collection: the thread object still holds the first thread.\<close>

lemma second_collection:
  assumes inv: "bg_inv s" and ended: "thread s = Ended" and fin: "finish_gc s = Inr s1"
    and full: "bg_full cfg ks vs s1"
  shows "bg_put R cfg key ks v vs s = Inl Terminated"
proof -
  have "thread s1 = Ended" using finish_control [OF fin] ended by (simp add: control_def)
  then have "thread (snd (initialize_new_rocksdb R (s1\<lparr>gc_in_progress := True\<rparr>))) = Ended"
    by (simp add: initialize_new_rocksdb_def split_beta Let_def)
  then have "start_gc R ks vs s1 = Inl Terminated" by (simp add: start_gc_def Let_def)
  then show ?thesis using full by (simp add: bg_put_def fin bg_full_def)
qed

text \<open>The switch to the new files takes the records of the old logs off the count.\<close>

lemma old_records:
  assumes "well_sized recs" "length recs < 100000000"
  shows "word_of_nat (length (vlog_image recs)) div word_of_nat (KEY_SIZE + VALUE_SIZE) =
    (word_of_nat (length recs) :: u64)"
  using log_position [OF assms(2)] by (simp add: length_vlog_image [OF assms(1)])

lemma finish_switch:
  assumes d: "gc_done s" and recs: "log_file VLOG_PATH recs (bg_disk s)" "bg_disk s VLOG_PATH \<noteq> None"
    and li: "log_file LI_VLOG_PATH li (bg_disk s)" and n: "length recs < 100000000" "length li < 100000000"
  shows "\<exists>t. finish_gc s = Inr t \<and> total_num t = total_num s - word_of_nat (length recs) - word_of_nat (length li) \<and>
    \<not> gc_in_progress t"
proof -
  have ws: "well_sized recs" "well_sized li" using recs li by (auto simp: log_file_def)
  have img: "bg_disk s VLOG_PATH = Some (vlog_image recs)" using recs by (auto simp: log_file_def)
  have ne: "LI_VLOG_PATH \<noteq> VLOG_PATH" by (simp add: LI_VLOG_PATH_def VLOG_PATH_def)
  show ?thesis
    using li d ne old_records [OF ws(1) n(1)] old_records [OF ws(2) n(2)]
    by (cases "bg_db s") (auto simp: finish_gc_def detroy_old_instance_def fopen_read_def img Let_def
        fremove_def log_file_def)
qed

end
