(* ===== verification/Variants_Props.thy ===== *)
theory Variants_Props
  imports LearnedKV_Props LevelDB_Facts Paged_Facts BG_Facts
begin

text \<open>
  The properties of the three variants of the store: pages in \<open>learnedKV_PLR+.h\<close>, LevelDB in
  \<open>learnedKV_leveldb_new.h\<close> and the background collection in \<open>learnedKV_bgGC.h\<close>.
\<close>

section \<open>Pages\<close>

text \<open>Without the learned index the variant with pages is the same store.\<close>

theorem paged_same_store:
  assumes "\<not> learned_index_used cfg"
  shows "paged_put R cfg key keySize value valueSize s = put R cfg key keySize value valueSize s \<and>
    paged_get R cfg key keySize value valueSize s = get R cfg key keySize value valueSize s \<and>
    paged_scan R cfg key keySize kvs valueSize rng s = scan R cfg key keySize kvs valueSize rng s"
  by (intro conjI paged_eq [OF assms])

lemma paged_same_store_witness:
  "paged_put ordered_rocks (sample_config False) 7 8 (sample_value 1) 1016 sample_store =
   put ordered_rocks (sample_config False) 7 8 (sample_value 1) 1016 sample_store"
  using paged_same_store [of "sample_config False" ordered_rocks 7 8 "sample_value 1" 1016 sample_store] by simp

text \<open>The binary search of the variant with pages finds the segment that the linear search of
  the plain store finds, for every key not below the first segment.\<close>

theorem paged_binary_search:
  assumes "sorted_wrt (\<lambda>s t. start s < start t) model" "model \<noteq> []" "start (hd model) \<le> key"
  shows "nat (bsearch_segment model key 0 (int (length model) - 1) 0) < length model \<and>
    locate key model ab =
      (let seg = model ! nat (bsearch_segment model key 0 (int (length model) - 1) 0)
       in (slope seg, intercept seg))"
  using bsearch_locate [OF assms] by (simp add: Let_def)

definition sample_model :: "segment list" where
  "sample_model = [\<lparr>start = 10, slope = dzero, intercept = dzero\<rparr>,
     \<lparr>start = 20, slope = double_of_u64 1, intercept = dzero\<rparr>,
     \<lparr>start = 30, slope = dzero, intercept = double_of_u64 1\<rparr>]"

lemma paged_binary_search_witness:
  "bsearch_segment sample_model 25 0 2 0 = 1 \<and> locate 25 sample_model (dzero, dzero) = (double_of_u64 1, dzero)"
proof -
  have b: "bsearch_segment sample_model 25 0 2 0 = 1"
    by (simp add: bsearch_segment.simps sample_model_def)
  have "sorted_wrt (\<lambda>s t. start s < start t) sample_model" "sample_model \<noteq> []" "start (hd sample_model) \<le> 25"
    by (simp_all add: sample_model_def)
  from paged_binary_search [OF this, of "(dzero, dzero)"] b show ?thesis
    by (simp add: sample_model_def)
qed

text \<open>C37: The variant with pages loses keys it has indexed: after a collection that finds 3 to 3049 keys
  every position is predicted as 2048, the middle of page 0, but the window around the prediction
  has 1000 places to each side. A lookup of a kept key at one of the first 1048 positions returns success
  and leaves the caller's value (when the fresh memory of the buffer does not hold the key by chance); the
  other keys that were kept are found.\<close>

theorem paged_loses_keys:
  assumes "rocks_ok R view" "kv_inv cfg view s base recs" "learned_index_used cfg"
    and "\<And>p. writable cfg p" "3 \<le> length (live recs)" "length (live recs) \<le> 3049"
    and "i < length (live recs) - 1" "\<forall>j. fresh cfg 0 j \<noteq> fst (live recs ! i)"
  shows "\<exists>s'. paged_garbage_collection R cfg key_size value_size s = Inr (0, s') \<and>
    (\<exists>t. paged_get R cfg (fst (live recs ! i)) key_size v value_size s' =
       Inr (0, if i < 1048 then resize v 1016 else snd (live recs ! i), t))"
  using paged_gc_get [OF assms] .

lemma paged_loses_keys_witness:
  "\<exists>s s' t. puts ordered_rocks learned_config learned_sample sample_store = Inr s \<and>
    paged_garbage_collection ordered_rocks learned_config key_size value_size s = Inr (0, s') \<and>
    paged_get ordered_rocks learned_config 9 key_size (sample_value 77) value_size s' = Inr (0, sample_value 77, t)"
proof -
  obtain s where s: "puts ordered_rocks learned_config learned_sample sample_store = Inr s"
    "kv_inv learned_config store_view s 0 learned_sample"
    using learned_sample_puts by blast
  have r: "resize (sample_value 77) 1016 = sample_value 77" by (simp add: resize_def)
  have l: "live learned_sample = learned_sample" by (rule live_learned_sample)
  show ?thesis
    using s paged_loses_keys [OF ordered_rocks_ok s(2), of 1 "sample_value 77"]
    by (auto simp: l r) (auto simp: learned_sample_def learned_config_def sample_config_def)
qed

section \<open>LevelDB\<close>

text \<open>C36: The LevelDB variant implements the same abstract store for the same sessions: its put also asserts
  that the value log ends where the write position says, and this never fails. Without the learned index
  these are all sessions with values of 1016 bytes; with it, the sessions in which lookups are of keys in
  the log and every collection finds 3 to 1001 keys that are small enough for exact arithmetic, with all
  files writable (\<open>session_ok\<close>). The size limit is between one record and \<open>10 ^ 8\<close> records.\<close>

theorem ldb_puts_refine:
  assumes "rocks_ok R view" "view d0 = Map.empty" "disk0 VLOG_PATH = None" "writable cfg VLOG_PATH"
    and "0 < capacity cfg" "capacity cfg \<le> 100000000" and "session_ok cfg rqs []"
  shows "\<exists>s'. serve (ldb_put_rec R cfg) (ldb_get_rec R cfg) rqs (ldb_new R d0 disk0) =
    Inr (fst (log_serve (spec_put (capacity cfg)) rqs []), s')"
proof -
  have "ldb_keeps R cfg view (ldb_new R d0 disk0) []"
    unfolding ldb_keeps_def ldb_new_eq using store_keeps_new [OF no_flush_ok [OF assms(1)], of d0 disk0 cfg] assms(2-6) by simp
  from ldb_serves [OF this assms(7)] show ?thesis by blast
qed

lemma ldb_puts_refine_witness:
  "\<forall>l. \<exists>s'. serve (ldb_put_rec ordered_rocks (learned_config\<lparr>learned_index_used := l\<rparr>))
      (ldb_get_rec ordered_rocks (learned_config\<lparr>learned_index_used := l\<rparr>)) sample_session
      (ldb_new ordered_rocks store_empty Map.empty) =
    Inr ([Stored 0, Stored 0, Stored 0, Stored 0, Stored 0,
      Found 0 (sample_value 1), Found 0 (sample_value 5), Found 0 (sample_value 3)], s')"
proof
  fix l
  let ?cfg = "learned_config\<lparr>learned_index_used := l\<rparr>"
  have "\<exists>s'. serve (ldb_put_rec ordered_rocks ?cfg) (ldb_get_rec ordered_rocks ?cfg) sample_session
      (ldb_new ordered_rocks store_empty Map.empty) = Inr (fst (log_serve (spec_put (capacity ?cfg)) sample_session []), s')"
    by (rule ldb_puts_refine [OF ordered_rocks_ok _ _ _ _ _ sample_session_ok]) (simp_all add: sample_mode)
  then show "\<exists>s'. serve (ldb_put_rec ordered_rocks ?cfg) (ldb_get_rec ordered_rocks ?cfg) sample_session
      (ldb_new ordered_rocks store_empty Map.empty) =
    Inr ([Stored 0, Stored 0, Stored 0, Stored 0, Stored 0,
      Found 0 (sample_value 1), Found 0 (sample_value 5), Found 0 (sample_value 3)], s')"
    by (simp only: sample_mode sample_session_log)
qed

section \<open>Background collection\<close>

text \<open>Two puts into a new store, a third that starts a collection, and the collection.\<close>

definition bg_sample :: "ordered_store bg" where
  "bg_sample = bg_new ordered_rocks store_empty store_empty Map.empty"

lemma bg_sample_filled:
  "\<exists>s. bg_reach ordered_rocks (sample_config False) bg_sample s \<and> control s = (NoThread, False, False, 0) \<and>
    hide (bg_disk s) = [VLOG_PATH \<mapsto> vlog_image [(5, sample_value 1), (9, sample_value 2)]] \<and>
    bg_disk s NEW_VLOG_PATH = None \<and> total_num s = 2 \<and> \<not> bg_new_dir_open s \<and> bg_new_dir s = store_empty"
proof -
  note put = idle_put [OF ordered_rocks_ok _ _ _ _ _ sample_simps(2)]
  let ?s = bg_sample
  have s: "control ?s = (NoThread, False, False, 0)" "total_num ?s = 0" "bg_disk ?s = Map.empty"
    "bg_new_dir ?s = store_empty" "\<not> bg_new_dir_open ?s" "bg_db ?s \<noteq> None"
    by (simp_all add: bg_sample_def bg_new_def control_def split_beta)
  have nf: "\<not> bg_full (sample_config False) key_size value_size t" if "total_num t < 2" for t :: "ordered_store bg"
  proof -
    have "total_num t = 0 \<or> total_num t = 1"
      using that less_2_cases [of "unat (total_num t)"] by (simp add: word_less_nat_alt word_unat_eq_iff)
    then show ?thesis by (auto simp: bg_full_def key_value_size sample_config_def)
  qed
  have log: "log_file VLOG_PATH [] (bg_disk ?s)" by (simp add: log_file_def s)
  obtain t where t: "bg_put ordered_rocks (sample_config False) 5 key_size (sample_value 1) value_size ?s = Inr (0, t)"
    "bg_disk t = [VLOG_PATH \<mapsto> vlog_image [(5, sample_value 1)]]" "total_num t = 1" "control t = control ?s"
    "bg_db t \<noteq> None" "\<not> bg_new_dir_open t" "bg_new_dir t = store_empty"
    using put [OF _ _ nf _ log, of _ "sample_value 1" 5] s by (auto simp: control_def)
  have log: "log_file VLOG_PATH [(5, sample_value 1)] (bg_disk t)" by (simp add: log_file_def t)
  obtain u where u: "bg_put ordered_rocks (sample_config False) 9 key_size (sample_value 2) value_size t = Inr (0, u)"
    "bg_disk u = [VLOG_PATH \<mapsto> vlog_image [(5, sample_value 1), (9, sample_value 2)]]" "total_num u = 2"
    "control u = control ?s" "\<not> bg_new_dir_open u" "bg_new_dir u = store_empty"
    using put [OF _ _ nf _ log, of _ "sample_value 2" 9] t s by (auto simp: control_def)
  have "bg_reach ordered_rocks (sample_config False) ?s u"
    by (rule bg_reach.step [OF bg_reach.step [OF bg_reach.here bg_step.call_put [OF t(1)]] bg_step.call_put [OF u(1)]])
  then show ?thesis using u s(1) by (intro exI [of _ u]) (auto simp: hide_def fun_eq_iff)
qed

lemma bg_sample_started:
  "\<exists>s t. bg_reach ordered_rocks (sample_config False) bg_sample s \<and> bg_inv s \<and> thread s = NoThread \<and>
    bg_full (sample_config False) key_size value_size s \<and> \<not> bg_new_dir_open s \<and>
    bg_new_dir s = store_empty \<and> bg_disk s NEW_VLOG_PATH = None \<and>
    bg_put ordered_rocks (sample_config False) 3 key_size (sample_value 3) value_size s = Inr (0, t) \<and>
    thread t = Running key_size value_size \<and> bg_inv t \<and> during store_view [(3, sample_value 3)] t \<and>
    hide (bg_disk t) = [VLOG_PATH \<mapsto> vlog_image [(5, sample_value 1), (9, sample_value 2)]] \<and>
    total_num t = 3 \<and> bg_reach ordered_rocks (sample_config False) bg_sample t"
proof -
  obtain s where s: "bg_reach ordered_rocks (sample_config False) bg_sample s" "control s = (NoThread, False, False, 0)"
    "hide (bg_disk s) = [VLOG_PATH \<mapsto> vlog_image [(5, sample_value 1), (9, sample_value 2)]]"
    "bg_disk s NEW_VLOG_PATH = None" "total_num s = 2" "\<not> bg_new_dir_open s" "bg_new_dir s = store_empty"
    using bg_sample_filled by blast
  have inv: "bg_inv s" and idle: "thread s = NoThread" and np: "\<not> gc_in_progress s"
    using s(2) by (auto simp: bg_inv_def control_def)
  have full: "bg_full (sample_config False) key_size value_size s"
    using np by (simp add: bg_full_def s key_value_size sample_config_def)
  have dir: "store_view (bg_new_dir s) = Map.empty" by (simp add: s)
  obtain t where t: "bg_put ordered_rocks (sample_config False) 3 key_size (sample_value 3) value_size s = Inr (0, t)"
    "thread t = Running key_size value_size" "during store_view [(3, sample_value 3)] t"
    "hide (bg_disk t) = hide (bg_disk s)" "total_num t = total_num s + 1"
    using starting_put [OF ordered_rocks_ok inv idle full s(6) dir s(4) sample_simps(2) sample_simps(4), of 3 3] by blast
  have reach: "bg_reach ordered_rocks (sample_config False) bg_sample t"
    by (rule bg_reach.step [OF s(1) bg_step.call_put [OF t(1)]])
  have "bg_inv t" by (rule bg_put_inv [OF t(1) inv])
  then show ?thesis using s(1,3-7) inv idle full t reach
    by (intro exI [of _ s] exI [of _ t]) simp
qed

text \<open>C33: In every run from a new store at most one collection is ever started; when the logs are
  full again after it, put terminates the program, because the thread object still holds the first
  thread, which nothing joins.\<close>

theorem bg_one_collection:
  assumes "bg_reach R cfg (bg_new R d0 dir0 disk0) s"
  shows "bg_gc_count s \<le> 1 \<and>
    (thread s = Ended \<longrightarrow> (\<forall>s1 key ks v vs. finish_gc s = Inr s1 \<longrightarrow> bg_full cfg ks vs s1 \<longrightarrow>
       bg_put R cfg key ks v vs s = Inl Terminated))"
proof -
  have inv: "bg_inv s" by (rule bg_reach_inv [OF assms bg_inv_new])
  then have "bg_gc_count s \<le> 1" by (cases "thread s") (auto simp: bg_inv_def)
  then show ?thesis using second_collection [OF inv] by blast
qed

lemma bg_one_collection_witness:
  "\<exists>s. bg_reach ordered_rocks (sample_config False) bg_sample s \<and> bg_gc_count s \<le> 1 \<and>
    bg_put ordered_rocks (sample_config False) 4 key_size (sample_value 4) value_size s = Inl Terminated"
proof -
  let ?cfg = "sample_config False" and ?recs = "[(5 :: u64, sample_value 1), (9, sample_value 2)]"
  obtain t where t: "bg_reach ordered_rocks ?cfg bg_sample t" "thread t = Running key_size value_size"
    "hide (bg_disk t) = [VLOG_PATH \<mapsto> vlog_image ?recs]" "total_num t = 3"
    using bg_sample_started by blast
  have d: "bg_disk t p = (if p = VLOG_PATH then Some (vlog_image ?recs) else None)" if "p \<noteq> NEW_VLOG_PATH" for p
    using fun_cong [OF t(3), of p] that by (simp add: hide_def)
  have ne: "LI_VLOG_PATH \<noteq> VLOG_PATH" "NEW_LI_VLOG_PATH \<noteq> VLOG_PATH" "LI_VLOG_PATH \<noteq> NEW_LI_VLOG_PATH"
    by (simp_all add: LI_VLOG_PATH_def VLOG_PATH_def NEW_LI_VLOG_PATH_def)
  have logs: "log_file LI_VLOG_PATH [] (bg_disk t)" "log_file VLOG_PATH ?recs (bg_disk t)"
    by (simp_all add: log_file_def d ne)
  obtain u where u: "bg_garbage_collection ?cfg key_size value_size t = Inr (0, u)"
    "bg_disk u = (bg_disk t)(NEW_LI_VLOG_PATH \<mapsto> vlog_image (butlast (live ?recs)))" "total_num u = 4" "gc_done u"
    using bg_gc_logs [OF logs, of ?cfg] by (auto simp: d ne t(4) live_sample)
  let ?s = "u\<lparr>thread := Ended\<rparr>"
  have reach: "bg_reach ordered_rocks ?cfg bg_sample ?s"
    by (rule bg_reach.step [OF t(1) bg_step.run_gc [OF t(2) u(1)]])
  have logs': "log_file VLOG_PATH ?recs (bg_disk ?s)" "log_file LI_VLOG_PATH [] (bg_disk ?s)"
    "bg_disk ?s VLOG_PATH \<noteq> None"
    using ne by (simp_all add: log_file_def u(2) d)
  obtain s1 where s1: "finish_gc ?s = Inr s1" "total_num s1 = 2" "\<not> gc_in_progress s1"
    using finish_switch [OF _ logs'(1,3,2)] u(3,4) by auto
  have "bg_full ?cfg key_size value_size s1"
    using s1 by (simp add: bg_full_def key_value_size sample_config_def)
  then show ?thesis
    using bg_one_collection [of ordered_rocks ?cfg store_empty store_empty Map.empty ?s] reach s1(1)
    by (intro exI [of _ ?s]) (simp add: bg_sample_def [symmetric])
qed

text \<open>C34: The collection is isolated from the calls that run meanwhile: whenever between two calls
  the thread does its work, it ends the same way and leaves the same files, apart from the second
  log, which it does not touch.\<close>

theorem bg_collection_isolated:
  assumes "bg_reach R cfg (bg_new R d0 dir0 disk0) s" "thread s = Running ks vs"
    and "bg_reach R cfg s t" "thread t = Running ks vs"
  shows "gc_files cfg ks vs t = gc_files cfg ks vs s \<and> bg_db t = bg_db s"
  using bg_reach_hide [OF assms(3) bg_reach_inv [OF assms(1) bg_inv_new] assms(2)] assms(4)
  by (simp add: gc_files_spec)

lemma bg_collection_isolated_witness:
  "\<exists>s t. bg_put ordered_rocks (sample_config False) 1 key_size (sample_value 1) value_size s = Inr (0, t) \<and>
    gc_files (sample_config False) key_size value_size t = gc_files (sample_config False) key_size value_size s"
proof -
  obtain s where s: "bg_reach ordered_rocks (sample_config False) bg_sample s"
    "thread s = Running key_size value_size" "during store_view [(3, sample_value 3)] s" "bg_inv s"
    using bg_sample_started by blast
  obtain t where t: "bg_put ordered_rocks (sample_config False) 1 key_size (sample_value 1) value_size s = Inr (0, t)"
    "during store_view ([(3, sample_value 3)] @ [(1, sample_value 1)]) t"
    using during_put [where key = 1 and v = "sample_value 1", OF ordered_rocks_ok s(3) _ sample_simps(2)] by auto
  have step: "bg_step ordered_rocks (sample_config False) s t" by (rule bg_step.call_put [OF t(1)])
  have "thread t \<noteq> Ended"
    using t(2) bg_put_inv [OF t(1) s(4)] by (auto simp: during_def bg_inv_def)
  then have "thread t = Running key_size value_size"
    using bg_step_thread(1) [OF step s(4,2)] by blast
  then show ?thesis
    using bg_collection_isolated [OF s(1) [unfolded bg_sample_def] s(2) bg_reach.step [OF bg_reach.here step]] t(1)
    by blast
qed

text \<open>C32: The calls during a collection read their own writes: in every session of puts and lookups
  of keys put in it, from the put that starts the collection on, all requests are answered as a log
  that is never collected answers them.\<close>

theorem bg_reads_own_writes:
  assumes "rocks_ok R view" "bg_inv s" "thread s = NoThread" "bg_full cfg key_size value_size s"
    and "\<not> bg_new_dir_open s" "view (bg_new_dir s) = Map.empty" "bg_disk s NEW_VLOG_PATH = None"
    and "writable cfg NEW_VLOG_PATH" "length v = 1016"
    and "admissible False (\<lambda>recs. length recs < 100000000) (\<lambda>recs r. recs @ [r]) rqs [(k, v)]"
  shows "\<exists>s'. serve (bg_put_rec R cfg) (bg_get_rec R cfg) (Put k v # rqs) s =
    Inr (fst (log_serve (\<lambda>recs r. recs @ [r]) (Put k v # rqs) []), s')"
proof -
  obtain s1 where s1: "bg_put_rec R cfg k v s = Inr (0, s1)" "during view [(k, v)] s1"
    using starting_put [OF assms(1-9)] by blast
  have "during_keeps R cfg view s1 [(k, v)]" using assms(1,8) s1(2) by (simp add: during_keeps_def)
  from during.serve_own [OF this assms(10)] show ?thesis using s1(1) by (auto simp: split_beta)
qed

lemma bg_reads_own_writes_witness:
  "\<exists>s s'. serve (bg_put_rec ordered_rocks (sample_config False)) (bg_get_rec ordered_rocks (sample_config False))
      [Put 3 (sample_value 3), Put 8 (sample_value 8), Get 8 [], Put 8 (sample_value 9), Get 8 []] s =
    Inr ([Stored 0, Stored 0, Found 0 (sample_value 8), Stored 0, Found 0 (sample_value 9)], s')"
proof -
  obtain s where s: "bg_inv s" "thread s = NoThread" "bg_full (sample_config False) key_size value_size s"
    "\<not> bg_new_dir_open s" "bg_new_dir s = store_empty" "bg_disk s NEW_VLOG_PATH = None"
    using bg_sample_started by blast
  have dir: "store_view (bg_new_dir s) = Map.empty" by (simp add: s)
  let ?rqs = "[Put 8 (sample_value 8), Get 8 [], Put 8 (sample_value 9), Get 8 []]"
  have ad: "admissible False (\<lambda>recs. length recs < 100000000) (\<lambda>recs r. recs @ [r]) ?rqs [(3, sample_value 3)]"
    by (simp add: current_def)
  have log: "fst (log_serve (\<lambda>recs r. recs @ [r]) (Put 3 (sample_value 3) # ?rqs) []) =
      [Stored 0, Stored 0, Found 0 (sample_value 8), Stored 0, Found 0 (sample_value 9)]"
    by (simp add: current_def)
  from bg_reads_own_writes [OF ordered_rocks_ok s(1-4) dir s(6) sample_simps(2,4) ad]
  show ?thesis unfolding log by blast
qed

text \<open>When no collection is running, a lookup never consults an LSM store: the status object it
  tests was not set by any call and is ok, so the empty result is taken as a pointer, and reading
  8 bytes of it is out of bounds.\<close>

theorem bg_get_outside_collection:
  assumes "\<not> gc_in_progress s" "\<not> gc_done s"
  shows "bg_get R cfg key ks v vs s = Inl OutOfBounds"
  using assms by (simp add: bg_get_def finish_idle bg_lookup_def stringToULL_def)

lemma bg_get_outside_collection_witness:
  "bg_get ordered_rocks (sample_config True) 5 8 [] 1016 bg_sample = Inl OutOfBounds"
  by (rule bg_get_outside_collection) (simp_all add: bg_sample_def bg_new_def split_beta)

end
