(* ===== verification/Text_Format.thy ===== *)
theory Text_Format
  imports Prelude "HOL-Library.Char_ord"
begin

text \<open>
  The conversions between numbers and text of the C++ standard library that the program uses
  (\<open>std::to_string\<close>, \<open>std::stoull\<close>, \<open>std::stoi\<close>), character classes, and searching in strings.
\<close>

section \<open>Printing\<close>

definition digit_char :: "nat \<Rightarrow> char" where
  "digit_char d = char_of (48 + d)"

function to_string :: "nat \<Rightarrow> string" where
  "to_string n = (if n div 10 = 0 then [] else to_string (n div 10)) @ [digit_char (n mod 10)]"
  by pat_completeness auto
termination
  by (relation "measure id") auto

declare to_string.simps [simp del]

section \<open>Character classes\<close>

definition is_space :: "char \<Rightarrow> bool" where
  "is_space c \<longleftrightarrow> (let n = of_char c :: nat in n = 32 \<or> 9 \<le> n \<and> n \<le> 13)"

definition is_digit :: "char \<Rightarrow> bool" where
  "is_digit c \<longleftrightarrow> (let n = of_char c :: nat in 48 \<le> n \<and> n \<le> 57)"

definition digit_val :: "char \<Rightarrow> nat" where
  "digit_val c = of_char c - 48"

text \<open>\<open>::tolower\<close> in the default locale.\<close>

definition to_lower :: "char \<Rightarrow> char" where
  "to_lower c = (let n = of_char c :: nat in if 65 \<le> n \<and> n \<le> 90 then char_of (n + 32) else c)"

section \<open>Parsing\<close>

definition digits_val :: "string \<Rightarrow> nat" where
  "digits_val ds = foldl (\<lambda>n c. 10 * n + digit_val c) 0 ds"

text \<open>What \<open>strtoull\<close> and \<open>strtol\<close> read: white space, a sign, and the longest run of digits;
  whatever follows is left alone. \<open>None\<close> when there is no digit.\<close>

definition parse_integer :: "string \<Rightarrow> (bool \<times> nat) option" where
  "parse_integer str =
     (let s = dropWhile is_space str;
          neg = (s \<noteq> [] \<and> hd s = CHR ''-'');
          s = (if s \<noteq> [] \<and> (hd s = CHR ''-'' \<or> hd s = CHR ''+'') then tl s else s);
          ds = takeWhile is_digit s
      in if ds = [] then None else Some (neg, digits_val ds))"

text \<open>\<open>stoull\<close> negates in 64 bits after a minus sign.\<close>

definition stoull :: "string \<Rightarrow> fault + u64" where
  "stoull str =
     (case parse_integer str of
        None \<Rightarrow> Inl InvalidArgument
      | Some (neg, n) \<Rightarrow>
          if 2 ^ 64 \<le> n then Inl OutOfRange
          else Inr (if neg then - word_of_nat n else word_of_nat n))"

definition stoi :: "string \<Rightarrow> fault + int" where
  "stoi str =
     (case parse_integer str of
        None \<Rightarrow> Inl InvalidArgument
      | Some (neg, n) \<Rightarrow>
          let i = (if neg then - int n else int n)
          in if i < - (2 ^ 31) \<or> 2 ^ 31 \<le> i then Inl OutOfRange else Inr i)"

section \<open>Searching\<close>

text \<open>\<open>find\<close> of a substring: the first position where it occurs, \<open>None\<close> for \<open>npos\<close>.\<close>

fun find_str :: "string \<Rightarrow> string \<Rightarrow> nat option" where
  "find_str pat [] = (if pat = [] then Some 0 else None)"
| "find_str pat (c # s) =
     (if take (length pat) (c # s) = pat then Some 0 else map_option Suc (find_str pat s))"

section \<open>Facts\<close>

lemmas text_eval = stoi_def parse_integer_def digits_val_def is_space_def is_digit_def digit_val_def Let_def

lemma of_char_digit [simp]: "d < 10 \<Longrightarrow> (of_char (digit_char d) :: nat) = 48 + d"
  by (simp add: digit_char_def of_char_of)

lemma is_digit_char [simp]: "d < 10 \<Longrightarrow> is_digit (digit_char d)"
  by (simp add: is_digit_def)

lemma digit_val_char [simp]: "d < 10 \<Longrightarrow> digit_val (digit_char d) = d"
  by (simp add: digit_val_def)

lemma digit_not_space: "is_digit c \<Longrightarrow> \<not> is_space c"
  by (auto simp: is_digit_def is_space_def Let_def)

lemma to_string_ne [simp]: "to_string n \<noteq> []"
  by (subst to_string.simps) simp

lemma to_string_digits: "c \<in> set (to_string n) \<Longrightarrow> is_digit c"
proof (induction n rule: to_string.induct)
  case (1 n)
  then show ?case by (subst (asm) (2) to_string.simps) (auto split: if_splits)
qed

lemma digits_val_snoc: "digits_val (ds @ [c]) = 10 * digits_val ds + digit_val c"
  by (simp add: digits_val_def)

lemma digits_val_to_string [simp]: "digits_val (to_string n) = n"
proof (induction n rule: to_string.induct)
  case (1 n)
  have "digits_val (to_string n) =
      10 * digits_val (if n div 10 = 0 then [] else to_string (n div 10)) + n mod 10"
    by (subst to_string.simps) (simp add: digits_val_snoc)
  also have "digits_val (if n div 10 = 0 then [] else to_string (n div 10)) = n div 10"
    using 1 by (simp add: digits_val_def)
  finally show ?case by simp
qed

lemma digits_val_zeros [simp]: "digits_val (replicate k CHR ''0'' @ ds) = digits_val ds"
  by (induction k) (simp_all add: digits_val_def digit_val_def)

lemma digits_val_bound: "\<forall>c \<in> set ds. is_digit c \<Longrightarrow> digits_val ds < 10 ^ length ds"
proof (induction ds rule: rev_induct)
  case Nil
  then show ?case by (simp add: digits_val_def)
next
  case (snoc c ds)
  then have "digits_val ds < 10 ^ length ds" "digit_val c < 10"
    by (auto simp: is_digit_def digit_val_def Let_def)
  then show ?case by (simp add: digits_val_snoc)
qed

text \<open>Text that starts with digits which a non-digit ends.\<close>

lemma parse_digits:
  assumes "ds \<noteq> []" "\<forall>c \<in> set ds. is_digit c" "rest = [] \<or> \<not> is_digit (hd rest)"
  shows "parse_integer (ds @ rest) = Some (False, digits_val ds)"
proof -
  obtain c cs where ds: "ds = c # cs" using assms(1) by (cases ds) auto
  then have c: "is_digit c" using assms(2) by simp
  then have "\<not> is_space c" "c \<noteq> CHR ''-''" "c \<noteq> CHR ''+''"
    by (auto simp: digit_not_space) (simp_all add: is_digit_def)
  moreover have "takeWhile is_digit (ds @ rest) = ds"
    using assms(2,3) by (cases rest) (auto simp: takeWhile_append)
  ultimately show ?thesis by (simp add: parse_integer_def Let_def ds)
qed

text \<open>Zero-padded decimals read back, whatever follows them.\<close>

lemma stoull_to_string:
  assumes "rest = [] \<or> \<not> is_digit (hd rest)"
  shows "stoull (replicate k CHR ''0'' @ to_string (unat w) @ rest) = Inr w"
proof -
  let ?ds = "replicate k CHR ''0'' @ to_string (unat w)"
  have "is_digit CHR ''0''" by (simp add: is_digit_def)
  then have "\<forall>c \<in> set ?ds. is_digit c" by (auto dest: to_string_digits)
  then have "parse_integer (?ds @ rest) = Some (False, digits_val ?ds)"
    using assms by (intro parse_digits) auto
  then show ?thesis using unat_u64_less [of w] by (simp add: stoull_def)
qed

lemma to_string_inject [simp]: "to_string m = to_string n \<longleftrightarrow> m = n"
  using digits_val_to_string by metis

section \<open>Decimals of equal length are ordered as numbers\<close>

definition lexless :: "string \<Rightarrow> string \<Rightarrow> bool" where
  "lexless s t \<longleftrightarrow> (s, t) \<in> lexord {(a, b). (of_char a :: nat) < of_char b}"

lemma lexless_Cons:
  "lexless (a # s) (b # t) \<longleftrightarrow> (of_char a :: nat) < of_char b \<or> a = b \<and> lexless s t"
  by (simp add: lexless_def)

lemma lexless_append_same [simp]: "lexless (p @ s) (p @ t) \<longleftrightarrow> lexless s t"
  by (induction p) (auto simp: lexless_Cons)

lemma digits_val_Cons: "digits_val (c # ds) = digit_val c * 10 ^ length ds + digits_val ds"
proof (induction ds rule: rev_induct)
  case Nil
  then show ?case by (simp add: digits_val_def)
next
  case (snoc d ds)
  have "digits_val (c # ds @ [d]) = 10 * digits_val (c # ds) + digit_val d"
    using digits_val_snoc [of "c # ds" d] by simp
  with snoc show ?case by (simp add: digits_val_snoc algebra_simps)
qed

lemma lexless_digits:
  assumes "length s = length t" "\<forall>c \<in> set s. is_digit c" "\<forall>c \<in> set t. is_digit c"
  shows "lexless s t \<longleftrightarrow> digits_val s < digits_val t"
  using assms
proof (induction s t rule: list_induct2)
  case Nil
  then show ?case by (simp add: lexless_def)
next
  case (Cons a s b t)
  have sb: "digits_val s < 10 ^ length t" "digits_val t < 10 ^ length t"
    using Cons digits_val_bound [of s] digits_val_bound [of t] by auto
  have eq: "a = b \<longleftrightarrow> digit_val a = digit_val b" and lt: "(of_char a :: nat) < of_char b \<longleftrightarrow> digit_val a < digit_val b"
    using Cons.prems by (auto simp: is_digit_def digit_val_def Let_def) (metis of_char_eq_iff diff_le_mono le_add_diff_inverse)+
  have "digit_val a * 10 ^ length t + digits_val s < digit_val b * 10 ^ length t + digits_val t" if "digit_val a < digit_val b"
  proof -
    have "Suc (digit_val a) * 10 ^ length t \<le> digit_val b * 10 ^ length t"
      using that by (intro mult_right_mono) auto
    then show ?thesis using sb by simp
  qed
  moreover have "digit_val b * 10 ^ length t + digits_val t < digit_val a * 10 ^ length t + digits_val s" if "digit_val b < digit_val a"
  proof -
    have "Suc (digit_val b) * 10 ^ length t \<le> digit_val a * 10 ^ length t"
      using that by (intro mult_right_mono) auto
    then show ?thesis using sb by simp
  qed
  ultimately show ?case using Cons
    by (cases "digit_val a" "digit_val b" rule: linorder_cases)
      (auto simp: lexless_Cons digits_val_Cons eq lt)
qed

end
