(* ===== verification/Text_Double.thy ===== *)
theory Text_Double
  imports Text_Format Float64
begin

text \<open>\<open>std::stod\<close>: reading a floating point number.\<close>

text \<open>\<open>std::stod\<close> of a decimal: white space, sign, digits with a point, exponent. (The forms for
  infinity, nan and hexadecimal are not covered.) Overflow, and a tiny inexact result, are out of
  range.\<close>

definition parse_exponent :: "string \<Rightarrow> int" where
  "parse_exponent s =
     (if s \<noteq> [] \<and> to_lower (hd s) = CHR ''e'' then
        (let t = tl s;
             neg = (t \<noteq> [] \<and> hd t = CHR ''-'');
             t = (if t \<noteq> [] \<and> (hd t = CHR ''-'' \<or> hd t = CHR ''+'') then tl t else t);
             e = int (digits_val (takeWhile is_digit t))
         in if neg then - e else e)
      else 0)"

definition parse_decimal :: "string \<Rightarrow> (bool \<times> rat) option" where
  "parse_decimal str =
     (let s = dropWhile is_space str;
          neg = (s \<noteq> [] \<and> hd s = CHR ''-'');
          s = (if s \<noteq> [] \<and> (hd s = CHR ''-'' \<or> hd s = CHR ''+'') then tl s else s);
          whole = takeWhile is_digit s;
          s = dropWhile is_digit s;
          frac = (if s \<noteq> [] \<and> hd s = CHR ''.'' then takeWhile is_digit (tl s) else []);
          s = (if s \<noteq> [] \<and> hd s = CHR ''.'' then dropWhile is_digit (tl s) else s)
      in if whole = [] \<and> frac = [] then None
         else Some (neg, of_nat (digits_val (whole @ frac)) * 10 powi (parse_exponent s - int (length frac))))"

definition stod :: "string \<Rightarrow> fault + double" where
  "stod str =
     (case parse_decimal str of
        None \<Rightarrow> Inl InvalidArgument
      | Some (neg, q) \<Rightarrow>
          (let d = round_double neg (if neg then - q else q)
           in if is_inf d \<or> (q < p2 (- 1022) \<and> \<bar>valof d\<bar> \<noteq> q) then Inl OutOfRange else Inr d))"

end
