(* ===== verification/Ycsb_Utils.thy ===== *)
theory Ycsb_Utils
  imports Text_Format Stdio
begin

text \<open>
  The helpers of the workload generator, \<open>YCSB-C/core/utils.h\<close> and \<open>YCSB-C/core/properties.h\<close>: the
  64-bit FNV hash, random printable characters, truth values and trimming, and the property map
  with its file format.
\<close>

section \<open>Hashing\<close>

definition kFNVOffsetBasis64 :: u64 where "kFNVOffsetBasis64 = 0xCBF29CE484222325"
definition kFNVPrime64 :: u64 where "kFNVPrime64 = 1099511628211"

fun fnv_loop :: "nat \<Rightarrow> u64 \<Rightarrow> u64 \<Rightarrow> u64" where
  "fnv_loop 0 val h = h"
| "fnv_loop (Suc n) val h =
     (let octet = val AND 0x00ff;
          val = drop_bit 8 val;
          h = h XOR octet;
          h = h * kFNVPrime64
      in fnv_loop n val h)"

definition FNVHash64 :: "u64 \<Rightarrow> u64" where
  "FNVHash64 val = fnv_loop 8 val kFNVOffsetBasis64"

definition Hash :: "u64 \<Rightarrow> u64" where
  "Hash val = FNVHash64 val"

section \<open>Characters and strings\<close>

text \<open>\<open>rand() % 94 + 33\<close>; the argument is what \<open>rand()\<close> gave.\<close>

definition RandomPrintChar :: "nat \<Rightarrow> char" where
  "RandomPrintChar r = char_of (r mod 94 + 33)"

definition StrToBool :: "string \<Rightarrow> fault + bool" where
  "StrToBool str0 =
     (let str = map to_lower str0
      in if str = ''true'' \<or> str = ''1'' then Inr True
         else if str = ''false'' \<or> str = ''0'' then Inr False
         else Inl (Thrown (''Invalid bool string: '' @ str)))"

text \<open>From the first character that is not white space to the last.\<close>

definition Trim :: "string \<Rightarrow> string" where
  "Trim str = (let front = dropWhile is_space str in rev (dropWhile is_space (rev front)))"

section \<open>Properties\<close>

type_synonym properties = "string \<rightharpoonup> string"

definition GetProperty :: "properties \<Rightarrow> string \<Rightarrow> string \<Rightarrow> string" where
  "GetProperty p key default_value = (case p key of None \<Rightarrow> default_value | Some v \<Rightarrow> v)"

text \<open>\<open>operator[]\<close> is \<open>map::at\<close>.\<close>

definition property_at :: "properties \<Rightarrow> string \<Rightarrow> fault + string" where
  "property_at p key = (case p key of None \<Rightarrow> Inl OutOfRange | Some v \<Rightarrow> Inr v)"

definition SetProperty :: "string \<Rightarrow> string \<Rightarrow> properties \<Rightarrow> properties" where
  "SetProperty key v p = p(key \<mapsto> v)"

text \<open>\<open>while (!input.eof() && !input.bad())\<close> with \<open>getline\<close>: the lines of the text, the last one ended
  by the end of the file, possibly empty. After the line feed that ends a file there is one more
  round with an empty line.\<close>

fun getlines :: "string \<Rightarrow> string list" where
  "getlines [] = [[]]"
| "getlines (c # s) =
     (if c = CHR 0x0A then [] # getlines s
      else (case getlines s of [] \<Rightarrow> [[c]] | l # ls \<Rightarrow> (c # l) # ls))"

text \<open>One round. \<open>line[0]\<close> of an empty line is the terminating zero.\<close>

definition load_line :: "string \<Rightarrow> properties \<Rightarrow> properties" where
  "load_line line p =
     (if line \<noteq> [] \<and> hd line = CHR ''#'' then p
      else (let name = takeWhile (\<lambda>c. c \<noteq> CHR ''='') line
            in if length name = length line then p
               else SetProperty (Trim name) (Trim (drop (length name + 1) line)) p))"

text \<open>The argument is the contents of the file, \<open>None\<close> when it could not be opened.\<close>

definition Load :: "string option \<Rightarrow> properties \<Rightarrow> fault + properties" where
  "Load input p =
     (case input of
        None \<Rightarrow> Inl (Thrown ''File not open!'')
      | Some s \<Rightarrow> Inr (fold load_line (getlines s) p))"

section \<open>Facts\<close>

lemma getlines_append:
  "CHR 0x0A \<notin> set l \<Longrightarrow> getlines (l @ CHR 0x0A # s) = l # getlines s"
  by (induction l) auto

lemma getlines_concat:
  "\<forall>l \<in> set ls. CHR 0x0A \<notin> set l \<Longrightarrow>
     getlines (concat (map (\<lambda>l. l @ [CHR 0x0A]) ls)) = ls @ [[]]"
  by (induction ls) (simp_all add: getlines_append)

lemma Trim_spaces:
  assumes "\<forall>c \<in> set a. is_space c" "\<forall>c \<in> set b. is_space c"
    and "v = [] \<or> \<not> is_space (hd v) \<and> \<not> is_space (last v)"
  shows "Trim (a @ v @ b) = v"
proof (cases "v = []")
  case True
  have e: "dropWhile is_space (a @ v @ b) = []"
    unfolding dropWhile_eq_Nil_conv using assms(1,2) True by auto
  show ?thesis unfolding Trim_def e by (simp add: True)
next
  case False
  then have "dropWhile is_space (a @ v @ b) = v @ b"
    using assms by (cases v) (auto simp: dropWhile_append2)
  moreover have "dropWhile is_space (rev b @ rev v) = dropWhile is_space (rev v)"
    by (rule dropWhile_append2) (use assms(2) in auto)
  moreover have "dropWhile is_space (rev v) = rev v"
    using False assms(3) by (cases v rule: rev_cases) auto
  ultimately show ?thesis by (simp add: Trim_def)
qed

lemma RandomPrintChar_code: "(of_char (RandomPrintChar r) :: nat) = r mod 94 + 33"
proof -
  have "r mod 94 < 94" by simp
  then have "r mod 94 + 33 < 256" by linarith
  then show ?thesis by (simp add: RandomPrintChar_def of_char_of)
qed

lemma RandomPrintChar_print [simp]:
  "\<not> is_space (RandomPrintChar r)" "RandomPrintChar r \<noteq> CHR '' ''" "RandomPrintChar r \<noteq> CHR 0x0A"
proof -
  show "\<not> is_space (RandomPrintChar r)"
    by (simp add: is_space_def Let_def RandomPrintChar_code)
  then show "RandomPrintChar r \<noteq> CHR '' ''" "RandomPrintChar r \<noteq> CHR 0x0A"
    by (auto simp: is_space_def)
qed

end
