(* ===== verification/Ycsb_Generators.thy ===== *)
theory Ycsb_Generators
  imports Ycsb_Utils Float64
begin

text \<open>
  The number generators of \<open>YCSB-C/core/*_generator.h\<close>. The class hierarchy below
  \<open>Generator<uint64_t>\<close> is a datatype and the virtual \<open>Next\<close> and \<open>Last\<close> dispatch on it. Random
  numbers come from streams that are parameters of the model.
\<close>

section \<open>Random numbers\<close>

text \<open>
  What the engines of the standard library deliver: the \<open>i\<close>-th value of \<open>RandomDouble\<close>, the \<open>i\<close>-th
  value of \<open>rand\<close>, and the \<open>i\<close>-th value that a freshly seeded \<open>std::mt19937_64\<close> gives through a
  uniform distribution between two bounds. \<open>std::pow\<close> is a parameter too: the standard does not fix
  its rounding.
\<close>

record randomness =
  rand_double :: "nat \<Rightarrow> double"
  rand_int :: "nat \<Rightarrow> nat"
  rand_uniform :: "u64 \<Rightarrow> u64 \<Rightarrow> nat \<Rightarrow> u64"
  pow :: "double \<Rightarrow> double \<Rightarrow> double"

text \<open>The documented ranges.\<close>

definition rand_ok :: "randomness \<Rightarrow> bool" where
  "rand_ok env \<longleftrightarrow>
     (\<forall>i. is_fin (rand_double env i) \<and> 0 \<le> valof (rand_double env i) \<and> valof (rand_double env i) < 1) \<and>
     (\<forall>lo hi i. lo \<le> hi \<longrightarrow> lo \<le> rand_uniform env lo hi i \<and> rand_uniform env lo hi i \<le> hi)"

text \<open>How many values of the two shared streams were used.\<close>

record rng =
  doubles_used :: nat
  ints_used :: nat

definition RandomDouble :: "randomness \<Rightarrow> rng \<Rightarrow> double \<times> rng" where
  "RandomDouble env g = (rand_double env (doubles_used g), g\<lparr>doubles_used := doubles_used g + 1\<rparr>)"

definition next_char :: "randomness \<Rightarrow> rng \<Rightarrow> char \<times> rng" where
  "next_char env g = (RandomPrintChar (rand_int env (ints_used g)), g\<lparr>ints_used := ints_used g + 1\<rparr>)"

section \<open>Conversions\<close>

definition double_rat :: "rat \<Rightarrow> double" where
  "double_rat q = round_double False q"

text \<open>\<open>double\<close> to \<open>uint64_t\<close>: undefined for what does not fit.\<close>

definition u64_of_double :: "double \<Rightarrow> fault + u64" where
  "u64_of_double a =
     (let i = rat_trunc (valof a)
      in if \<not> is_fin a \<or> i < 0 \<or> 2 ^ 64 \<le> i then Inl BadConversion else Inr (word_of_int i))"

section \<open>Constant and counting generators\<close>

text \<open>The argument of the constructor is an \<open>int\<close>.\<close>

definition ConstGenerator :: "int \<Rightarrow> u64" where
  "ConstGenerator c = word_of_int c"

definition counter_Next :: "u64 \<Rightarrow> u64 \<times> u64" where
  "counter_Next counter = (counter, counter + 1)"

definition counter_Last :: "u64 \<Rightarrow> u64" where
  "counter_Last counter = counter - 1"

section \<open>Discrete generator\<close>

record 'v discrete =
  dg_values :: "('v \<times> double) list"
  dg_sum :: double
  dg_last :: "'v option"

definition DiscreteGenerator :: "'v discrete" where
  "DiscreteGenerator = \<lparr>dg_values = [], dg_sum = double_rat 0, dg_last = None\<rparr>"

definition AddValue :: "'v \<Rightarrow> double \<Rightarrow> 'v discrete \<Rightarrow> 'v discrete" where
  "AddValue v weight g =
     (let g = (if dg_values g = [] then g\<lparr>dg_last := Some v\<rparr> else g)
      in g\<lparr>dg_values := dg_values g @ [(v, weight)], dg_sum := dadd (dg_sum g) weight\<rparr>)"

fun discrete_choose :: "('v \<times> double) list \<Rightarrow> double \<Rightarrow> double \<Rightarrow> 'v option" where
  "discrete_choose [] sm chooser = None"
| "discrete_choose (p # ps) sm chooser =
     (if dlt chooser (ddiv (snd p) sm) then Some (fst p)
      else discrete_choose ps sm (dsub chooser (ddiv (snd p) sm)))"

definition discrete_Next :: "randomness \<Rightarrow> 'v discrete \<Rightarrow> rng \<Rightarrow> fault + ('v \<times> 'v discrete \<times> rng)" where
  "discrete_Next env g r =
     (let (chooser, r) = RandomDouble env r
      in case discrete_choose (dg_values g) (dg_sum g) chooser of
           None \<Rightarrow> Inl AssertFail
         | Some v \<Rightarrow> Inr (v, g\<lparr>dg_last := Some v\<rparr>, r))"

section \<open>Uniform generator\<close>

record uniform =
  un_min :: u64
  un_max :: u64
  un_used :: nat
  last_int :: u64

definition uniform_Next :: "randomness \<Rightarrow> uniform \<Rightarrow> u64 \<times> uniform" where
  "uniform_Next env g =
     (let v = rand_uniform env (un_min g) (un_max g) (un_used g)
      in (v, g\<lparr>un_used := un_used g + 1, last_int := v\<rparr>))"

text \<open>The constructor draws a first number.\<close>

definition UniformGenerator :: "randomness \<Rightarrow> u64 \<Rightarrow> u64 \<Rightarrow> uniform" where
  "UniformGenerator env lo hi =
     snd (uniform_Next env \<lparr>un_min = lo, un_max = hi, un_used = 0, last_int = 0\<rparr>)"

section \<open>Zipfian generator\<close>

record zipfian =
  num_items :: u64
  zbase :: u64
  theta :: double
  zeta_n :: double
  eta :: double
  alpha :: double
  zeta_2 :: double
  n_for_zeta :: u64
  last_value :: u64

definition kZipfianConst :: double where "kZipfianConst = double_rat (99 / 100)"
definition kMaxNumItems :: u64 where "kMaxNumItems = drop_bit 24 (- 1)"

text \<open>The loop runs from \<open>last_num + 1\<close> to \<open>cur_num\<close>.\<close>

definition Zeta :: "randomness \<Rightarrow> nat \<Rightarrow> nat \<Rightarrow> double \<Rightarrow> double \<Rightarrow> double" where
  "Zeta env last_num cur_num th last_zeta =
     fold (\<lambda>i zeta. dadd zeta (ddiv (double_rat 1) (pow env (double_rat (of_nat i)) th)))
       [last_num + 1..<cur_num + 1] last_zeta"

definition Eta :: "randomness \<Rightarrow> zipfian \<Rightarrow> double" where
  "Eta env z =
     ddiv (dsub (double_rat 1)
             (pow env (ddiv (double_rat 2) (double_of_u64 (num_items z))) (dsub (double_rat 1) (theta z))))
          (dsub (double_rat 1) (ddiv (zeta_2 z) (zeta_n z)))"

definition RaiseZeta :: "randomness \<Rightarrow> u64 \<Rightarrow> zipfian \<Rightarrow> fault + zipfian" where
  "RaiseZeta env num z =
     (if \<not> n_for_zeta z \<le> num then Inl AssertFail
      else Inr (z\<lparr>zeta_n := Zeta env (unat (n_for_zeta z)) (unat num) (theta z) (zeta_n z),
                  n_for_zeta := num\<rparr>))"

definition zipfian_Next :: "randomness \<Rightarrow> u64 \<Rightarrow> zipfian \<Rightarrow> rng \<Rightarrow> fault + (u64 \<times> zipfian \<times> rng)" where
  "zipfian_Next env num z r =
     (if \<not> (2 \<le> num \<and> num < kMaxNumItems) then Inl AssertFail else
     (case (if n_for_zeta z < num
            then (case RaiseZeta env num z of Inl e \<Rightarrow> Inl e | Inr z \<Rightarrow> Inr (z\<lparr>eta := Eta env z\<rparr>))
            else Inr z) of
        Inl e \<Rightarrow> Inl e
      | Inr z \<Rightarrow>
     (let (u, r) = RandomDouble env r;
          uz = dmul u (zeta_n z)
      in if dlt uz (double_rat 1) then Inr (0, z\<lparr>last_value := 0\<rparr>, r)
      else if dlt uz (dadd (double_rat 1) (pow env (double_rat (1 / 2)) (theta z)))
      then Inr (1, z\<lparr>last_value := 1\<rparr>, r)
      else
        (let p = pow env (dadd (dsub (dmul (eta z) u) (eta z)) (double_rat 1)) (alpha z)
         in case u64_of_double (dadd (double_of_u64 (zbase z)) (dmul (double_of_u64 num) p)) of
              Inl e \<Rightarrow> Inl e
            | Inr v \<Rightarrow> Inr (v, z\<lparr>last_value := v\<rparr>, r)))))"

definition ZipfianGenerator ::
  "randomness \<Rightarrow> u64 \<Rightarrow> u64 \<Rightarrow> double \<Rightarrow> rng \<Rightarrow> fault + (zipfian \<times> rng)" where
  "ZipfianGenerator env lo hi zipfian_const r =
     (let n = hi - lo + 1;
          z = \<lparr>num_items = n, zbase = lo, theta = zipfian_const, zeta_n = double_rat 0,
               eta = double_rat 0, alpha = double_rat 0, zeta_2 = double_rat 0, n_for_zeta = 0,
               last_value = 0\<rparr>
      in if \<not> (2 \<le> n \<and> n < kMaxNumItems) then Inl AssertFail else
      let z = z\<lparr>zeta_2 := Zeta env 0 2 (theta z) (double_rat 0)\<rparr>;
          z = z\<lparr>alpha := ddiv (double_rat 1) (dsub (double_rat 1) (theta z))\<rparr>
      in case RaiseZeta env n z of
           Inl e \<Rightarrow> Inl e
         | Inr z \<Rightarrow>
        (case zipfian_Next env n (z\<lparr>eta := Eta env z\<rparr>) r of
           Inl e \<Rightarrow> Inl e
         | Inr (_, z, r) \<Rightarrow> Inr (z, r)))"

section \<open>Scrambled and skewed generators\<close>

record scrambled =
  sc_base :: u64
  sc_num_items :: u64
  sc_generator :: zipfian

definition ScrambledZipfianGenerator ::
  "randomness \<Rightarrow> u64 \<Rightarrow> u64 \<Rightarrow> rng \<Rightarrow> fault + (scrambled \<times> rng)" where
  "ScrambledZipfianGenerator env lo hi r =
     (case ZipfianGenerator env lo hi kZipfianConst r of
        Inl e \<Rightarrow> Inl e
      | Inr (z, r) \<Rightarrow> Inr (\<lparr>sc_base = lo, sc_num_items = hi - lo + 1, sc_generator = z\<rparr>, r))"

definition Scramble :: "scrambled \<Rightarrow> u64 \<Rightarrow> u64" where
  "Scramble g v = sc_base g + FNVHash64 v mod sc_num_items g"

definition scrambled_Next :: "randomness \<Rightarrow> scrambled \<Rightarrow> rng \<Rightarrow> fault + (u64 \<times> scrambled \<times> rng)" where
  "scrambled_Next env g r =
     (case zipfian_Next env (num_items (sc_generator g)) (sc_generator g) r of
        Inl e \<Rightarrow> Inl e
      | Inr (v, z, r) \<Rightarrow>
          if sc_num_items g = 0 then Inl DivideByZero
          else Inr (Scramble g v, g\<lparr>sc_generator := z\<rparr>, r))"

text \<open>The skewed generator reads a counter that it shares with the workload.\<close>

record skewed =
  sk_zipfian :: zipfian
  sk_last :: u64

definition skewed_Next ::
  "randomness \<Rightarrow> u64 \<Rightarrow> skewed \<Rightarrow> rng \<Rightarrow> fault + (u64 \<times> skewed \<times> rng)" where
  "skewed_Next env basis g r =
     (let mx = counter_Last basis
      in case zipfian_Next env mx (sk_zipfian g) r of
           Inl e \<Rightarrow> Inl e
         | Inr (v, z, r) \<Rightarrow> Inr (mx - v, g\<lparr>sk_zipfian := z, sk_last := mx - v\<rparr>, r))"

definition SkewedLatestGenerator :: "randomness \<Rightarrow> u64 \<Rightarrow> rng \<Rightarrow> fault + (skewed \<times> rng)" where
  "SkewedLatestGenerator env basis r =
     (case ZipfianGenerator env 0 (counter_Last basis - 1) kZipfianConst r of
        Inl e \<Rightarrow> Inl e
      | Inr (z, r) \<Rightarrow>
     (case skewed_Next env basis \<lparr>sk_zipfian = z, sk_last = 0\<rparr> r of
        Inl e \<Rightarrow> Inl e
      | Inr (_, g, r) \<Rightarrow> Inr (g, r)))"

section \<open>The class hierarchy\<close>

datatype generator =
    Const u64
  | Counter u64
  | Uniform uniform
  | Zipfian zipfian
  | Scrambled scrambled
  | Skewed skewed

text \<open>\<open>Next\<close>; the shared counter is the second argument.\<close>

definition Next :: "randomness \<Rightarrow> u64 \<Rightarrow> generator \<Rightarrow> rng \<Rightarrow> fault + (u64 \<times> generator \<times> rng)" where
  "Next env basis gen r =
     (case gen of
        Const c \<Rightarrow> Inr (c, Const c, r)
      | Counter c \<Rightarrow> (let (v, c) = counter_Next c in Inr (v, Counter c, r))
      | Uniform g \<Rightarrow> (let (v, g) = uniform_Next env g in Inr (v, Uniform g, r))
      | Zipfian z \<Rightarrow>
          (case zipfian_Next env (num_items z) z r of
             Inl e \<Rightarrow> Inl e | Inr (v, z, r) \<Rightarrow> Inr (v, Zipfian z, r))
      | Scrambled g \<Rightarrow>
          (case scrambled_Next env g r of Inl e \<Rightarrow> Inl e | Inr (v, g, r) \<Rightarrow> Inr (v, Scrambled g, r))
      | Skewed g \<Rightarrow>
          (case skewed_Next env basis g r of Inl e \<Rightarrow> Inl e | Inr (v, g, r) \<Rightarrow> Inr (v, Skewed g, r)))"

definition Last :: "generator \<Rightarrow> u64" where
  "Last gen =
     (case gen of
        Const c \<Rightarrow> c
      | Counter c \<Rightarrow> counter_Last c
      | Uniform g \<Rightarrow> last_int g
      | Zipfian z \<Rightarrow> last_value z
      | Scrambled g \<Rightarrow> Scramble g (last_value (sc_generator g))
      | Skewed g \<Rightarrow> sk_last g)"

end
