(* ===== verification/Ycsb_Workload.thy ===== *)
theory Ycsb_Workload
  imports Ycsb_Generators Text_Double
begin

text \<open>
  The workload of \<open>YCSB-C/core/core_workload.h\<close> and \<open>core_workload.cc\<close>: its configuration from
  properties, the names of keys and fields, the values, and the choice of operations and keys.
\<close>

section \<open>State\<close>

datatype operation = INSERT | READ | UPDATE | SCAN | READMODIFYWRITE

text \<open>The pointers to generators may be null; \<open>w_rng\<close> is the state of the shared random streams.\<close>

record core_workload =
  table_name :: string
  field_count :: int
  read_all_fields :: bool
  write_all_fields :: bool
  field_len_generator :: "generator option"
  key_generator :: "generator option"
  op_chooser :: "operation discrete"
  key_chooser :: "generator option"
  field_chooser :: "generator option"
  scan_len_chooser :: "generator option"
  insert_key_sequence :: u64
  ordered_inserts :: bool
  record_count :: u64
  zero_padding :: int
  w_rng :: rng

text \<open>The member \<open>zero_padding_\<close> is not initialised.\<close>

definition CoreWorkload :: "int \<Rightarrow> rng \<Rightarrow> core_workload" where
  "CoreWorkload zp r =
     \<lparr>table_name = [], field_count = 0, read_all_fields = False, write_all_fields = False,
      field_len_generator = None, key_generator = None, op_chooser = DiscreteGenerator,
      key_chooser = None, field_chooser = None, scan_len_chooser = None, insert_key_sequence = 3,
      ordered_inserts = True, record_count = 0, zero_padding = zp, w_rng = r\<rparr>"

section \<open>Drawing from a generator\<close>

text \<open>\<open>generator_->Next()\<close> through one of the pointers.\<close>

definition draw ::
  "randomness \<Rightarrow> (core_workload \<Rightarrow> generator option) \<Rightarrow> (generator \<Rightarrow> core_workload \<Rightarrow> core_workload)
     \<Rightarrow> core_workload \<Rightarrow> fault + (u64 \<times> core_workload)" where
  "draw env look upd w =
     (case look w of
        None \<Rightarrow> Inl NullPointer
      | Some g \<Rightarrow>
          and_then (Next env (insert_key_sequence w) g (w_rng w))
            (\<lambda>(v, g, r). Inr (v, upd g (w\<lparr>w_rng := r\<rparr>))))"

definition draw_key where
  "draw_key env = draw env key_generator (\<lambda>g w. w\<lparr>key_generator := Some g\<rparr>)"
definition draw_transaction_key where
  "draw_transaction_key env = draw env key_chooser (\<lambda>g w. w\<lparr>key_chooser := Some g\<rparr>)"
definition draw_field_len where
  "draw_field_len env = draw env field_len_generator (\<lambda>g w. w\<lparr>field_len_generator := Some g\<rparr>)"
definition draw_field where
  "draw_field env = draw env field_chooser (\<lambda>g w. w\<lparr>field_chooser := Some g\<rparr>)"
definition NextScanLength where
  "NextScanLength env = draw env scan_len_chooser (\<lambda>g w. w\<lparr>scan_len_chooser := Some g\<rparr>)"

section \<open>Keys\<close>

definition key_number :: "core_workload \<Rightarrow> u64 \<Rightarrow> u64" where
  "key_number w key_num = (if \<not> ordered_inserts w then Hash key_num else key_num)"

text \<open>The number of zeros is computed as a \<open>size_t\<close> and converted to \<open>int\<close>.\<close>

definition BuildKeyName :: "core_workload \<Rightarrow> u64 \<Rightarrow> string" where
  "BuildKeyName w key_num =
     (let key_num_str = to_string (unat (key_number w key_num));
          zeros = max 0 (sint (word_of_int (zero_padding w - int (length key_num_str)) :: 32 word))
      in ''user'' @ replicate (nat zeros) CHR ''0'' @ key_num_str)"

definition NextSequenceKey :: "randomness \<Rightarrow> core_workload \<Rightarrow> fault + (string \<times> core_workload)" where
  "NextSequenceKey env w =
     and_then (draw_key env w) (\<lambda>(key_num, w). Inr (BuildKeyName w key_num, w))"

text \<open>The loop that draws until the key number is one that exists; it need not end.\<close>

partial_function (option) transaction_key_num ::
  "randomness \<Rightarrow> core_workload \<Rightarrow> (fault + (u64 \<times> core_workload)) option" where
  "transaction_key_num env w =
     (case draw_transaction_key env w of
        Inl e \<Rightarrow> Some (Inl e)
      | Inr (key_num, w) \<Rightarrow>
          if counter_Last (insert_key_sequence w) < key_num then transaction_key_num env w
          else Some (Inr (key_num, w)))"

definition NextTransactionKey ::
  "randomness \<Rightarrow> core_workload \<Rightarrow> (fault + (string \<times> core_workload)) option" where
  "NextTransactionKey env w =
     map_option (\<lambda>res. and_then res (\<lambda>(key_num, w). Inr (BuildKeyName w key_num, w)))
       (transaction_key_num env w)"

section \<open>Operations, fields and values\<close>

definition NextOperation :: "randomness \<Rightarrow> core_workload \<Rightarrow> fault + (operation \<times> core_workload)" where
  "NextOperation env w =
     and_then (discrete_Next env (op_chooser w) (w_rng w))
       (\<lambda>(v, g, r). Inr (v, w\<lparr>op_chooser := g, w_rng := r\<rparr>))"

definition NextTable :: "core_workload \<Rightarrow> string" where
  "NextTable w = table_name w"

definition NextFieldName :: "randomness \<Rightarrow> core_workload \<Rightarrow> fault + (string \<times> core_workload)" where
  "NextFieldName env w =
     and_then (draw_field env w) (\<lambda>(n, w). Inr (''field'' @ to_string (unat n), w))"

type_synonym pairs = "(string \<times> string) list"

text \<open>\<open>append(field_len_generator_->Next(), RandomPrintChar())\<close>: one character, repeated. The memory of C++ is
  taken as unlimited: a length that no string can have, as a negative \<open>fieldlength\<close> gives it, throws
  \<open>std::length_error\<close> in the code.\<close>

definition next_value :: "randomness \<Rightarrow> core_workload \<Rightarrow> fault + (string \<times> core_workload)" where
  "next_value env w =
     and_then (draw_field_len env w) (\<lambda>(n, w).
       let (c, r) = next_char env (w_rng w)
       in Inr (replicate (unat n) c, w\<lparr>w_rng := r\<rparr>))"

fun build_values :: "randomness \<Rightarrow> nat list \<Rightarrow> core_workload \<Rightarrow> pairs \<Rightarrow> fault + (pairs \<times> core_workload)" where
  "build_values env [] w values = Inr (values, w)"
| "build_values env (i # is) w values =
     and_then (next_value env w) (\<lambda>(v, w).
       build_values env is w (values @ [(''field'' @ to_string i, v)]))"

definition BuildValues :: "randomness \<Rightarrow> core_workload \<Rightarrow> fault + (pairs \<times> core_workload)" where
  "BuildValues env w = build_values env [0..<nat (field_count w)] w []"

definition BuildUpdate :: "randomness \<Rightarrow> core_workload \<Rightarrow> fault + (pairs \<times> core_workload)" where
  "BuildUpdate env w =
     and_then (NextFieldName env w) (\<lambda>(f, w).
       and_then (next_value env w) (\<lambda>(v, w). Inr ([(f, v)], w)))"

end
