(* ===== verification/Ycsb_DB.thy ===== *)
theory Ycsb_DB
  imports Ycsb_Workload
begin

text \<open>
  The database interface of \<open>YCSB-C/core/db.h\<close> and the implementations under \<open>YCSB-C/db\<close>: \<open>BasicDB\<close>,
  the hash table databases, which write a trace of the operations to a file, and the commands of
  \<open>RedisDB\<close>. The client of \<open>core/client.h\<close> runs over the interface.
\<close>

section \<open>The interface\<close>

definition kOK :: int where "kOK = 0"
definition kErrorNoData :: int where "kErrorNoData = 1"
definition kErrorConflict :: int where "kErrorConflict = 2"

record 'd database =
  db_Init :: "'d \<Rightarrow> 'd"
  db_Close :: "'d \<Rightarrow> 'd"
  db_Read :: "string \<Rightarrow> string \<Rightarrow> string list option \<Rightarrow> 'd \<Rightarrow> fault + (int \<times> pairs \<times> 'd)"
  db_Scan :: "string \<Rightarrow> string \<Rightarrow> int \<Rightarrow> string list option \<Rightarrow> 'd \<Rightarrow> fault + (int \<times> pairs list \<times> 'd)"
  db_Update :: "string \<Rightarrow> string \<Rightarrow> pairs \<Rightarrow> 'd \<Rightarrow> fault + (int \<times> 'd)"
  db_Insert :: "string \<Rightarrow> string \<Rightarrow> pairs \<Rightarrow> 'd \<Rightarrow> fault + (int \<times> 'd)"
  db_Delete :: "string \<Rightarrow> string \<Rightarrow> 'd \<Rightarrow> fault + (int \<times> 'd)"

section \<open>The trace file\<close>

definition text_bytes :: "string \<Rightarrow> bytes" where
  "text_bytes s = map of_char s"

definition bytes_text :: "bytes \<Rightarrow> string" where
  "bytes_text bs = map (\<lambda>b. char_of (unat b)) bs"

definition OUTPUT_PATH :: string where "OUTPUT_PATH = ''output.txt''"

text \<open>\<open>std::ofstream out("output.txt", std::ios_base::app)\<close>, one line, \<open>close\<close>: when the file cannot be
  opened the output is lost silently.\<close>

definition append_line :: "(string \<Rightarrow> bool) \<Rightarrow> string \<Rightarrow> disk \<Rightarrow> disk" where
  "append_line may_write line d =
     (case fopen_append may_write d OUTPUT_PATH of
        None \<Rightarrow> d
      | Some d \<Rightarrow> fwrite_end d OUTPUT_PATH (text_bytes (line @ [CHR 0x0A])))"

text \<open>The databases over hash tables (\<open>hashtable_db.cc\<close>): the bodies that used the tables are
  commented out, every operation writes its line and reports success.\<close>

definition hashtable_Read where
  "hashtable_Read may_write (table :: string) key (flds :: string list option) d =
     (Inr (kOK, [] :: pairs, append_line may_write (''READ key: '' @ key) d)
       :: fault + (int \<times> pairs \<times> disk))"

definition hashtable_Scan where
  "hashtable_Scan may_write (table :: string) key len (flds :: string list option) d =
     (Inr (kOK, [] :: pairs list,
        append_line may_write
          (''SCAN key: '' @ key @ '' len: ''
             @ (if len < 0 then CHR ''-'' # to_string (nat (- len)) else to_string (nat len))) d)
       :: fault + (int \<times> pairs list \<times> disk))"

definition hashtable_Update where
  "hashtable_Update may_write (table :: string) key (values :: pairs) d =
     (Inr (kOK, append_line may_write (''UPDATE key: '' @ key) d) :: fault + (int \<times> disk))"

definition hashtable_Insert where
  "hashtable_Insert may_write (table :: string) key (values :: pairs) d =
     (Inr (kOK, append_line may_write (''INSERT key: '' @ key) d) :: fault + (int \<times> disk))"

definition hashtable_Delete where
  "hashtable_Delete may_write (table :: string) key d =
     (Inr (kOK, append_line may_write (''DELETE key: '' @ key) d) :: fault + (int \<times> disk))"

definition HashtableDB :: "(string \<Rightarrow> bool) \<Rightarrow> disk database" where
  "HashtableDB may_write = \<lparr>db_Init = id, db_Close = id,
     db_Read = hashtable_Read may_write, db_Scan = hashtable_Scan may_write,
     db_Update = hashtable_Update may_write, db_Insert = hashtable_Insert may_write,
     db_Delete = hashtable_Delete may_write\<rparr>"

text \<open>\<open>BasicDB\<close>: \<open>Init\<close> truncates the trace file through a local stream; the member stream is never
  opened, so \<open>Scan\<close> and \<open>Delete\<close> write nothing.\<close>

definition basic_Init :: "(string \<Rightarrow> bool) \<Rightarrow> disk \<Rightarrow> disk" where
  "basic_Init may_write d = (case fopen_trunc may_write d OUTPUT_PATH of None \<Rightarrow> d | Some d \<Rightarrow> d)"

definition BasicDB :: "(string \<Rightarrow> bool) \<Rightarrow> disk database" where
  "BasicDB may_write = \<lparr>db_Init = basic_Init may_write, db_Close = id,
     db_Read = (\<lambda>_ _ _ d. Inr (0, [], d)), db_Scan = (\<lambda>_ _ _ _ d. Inr (0, [], d)),
     db_Update = (\<lambda>_ _ _ d. Inr (0, d)), db_Insert = (\<lambda>_ _ _ d. Inr (0, d)),
     db_Delete = (\<lambda>_ _ d. Inr (0, d))\<rparr>"

section \<open>Redis commands\<close>

text \<open>The text \<open>RedisDB::Update\<close> builds, with its assertions on spaces and on the length.\<close>

fun update_pairs :: "pairs \<Rightarrow> string \<Rightarrow> fault + string" where
  "update_pairs [] cmd = Inr cmd"
| "update_pairs (p # ps) cmd =
     (if CHR '' '' \<in> set (fst p) then Inl AssertFail
      else let cmd = cmd @ '' '' @ fst p
      in if CHR '' '' \<in> set (snd p) then Inl AssertFail
         else update_pairs ps (cmd @ '' '' @ snd p))"

definition redis_update_cmd :: "string \<Rightarrow> pairs \<Rightarrow> fault + string" where
  "redis_update_cmd key values =
     (let cmd = ''HMSET'';
          len = length cmd + length key + 1
                + sum_list (map (\<lambda>p. length (fst p) + length (snd p) + 2) values)
      in and_then (update_pairs values (cmd @ '' '' @ key)) (\<lambda>cmd.
           if length cmd \<noteq> len then Inl AssertFail else Inr cmd))"

definition redis_delete_cmd :: "string \<Rightarrow> string" where
  "redis_delete_cmd key = ''DEL '' @ key"

section \<open>The client\<close>

type_synonym 'd client = "core_workload \<times> 'd"

definition DoInsert :: "randomness \<Rightarrow> 'd database \<Rightarrow> 'd client \<Rightarrow> fault + (bool \<times> 'd client)" where
  "DoInsert env D cl = (case cl of (w, d) \<Rightarrow>
     and_then (NextSequenceKey env w) (\<lambda>(key, w).
     and_then (BuildValues env w) (\<lambda>(values, w).
     and_then (db_Insert D (NextTable w) key values d) (\<lambda>(status, d).
       Inr (status = kOK, w, d)))))"

text \<open>\<open>"field" + workload_.NextFieldName()\<close>, or a null pointer for all flds.\<close>

definition read_fields :: "randomness \<Rightarrow> core_workload \<Rightarrow> fault + (string list option \<times> core_workload)" where
  "read_fields env w =
     (if \<not> read_all_fields w
      then and_then (NextFieldName env w) (\<lambda>(f, w). Inr (Some [''field'' @ f], w))
      else Inr (None, w))"

definition write_fields :: "randomness \<Rightarrow> core_workload \<Rightarrow> fault + (pairs \<times> core_workload)" where
  "write_fields env w = (if write_all_fields w then BuildValues env w else BuildUpdate env w)"

definition TransactionRead ::
  "randomness \<Rightarrow> 'd database \<Rightarrow> 'd client \<Rightarrow> (fault + (int \<times> 'd client)) option" where
  "TransactionRead env D cl = (case cl of (w, d) \<Rightarrow>
     map_option (\<lambda>res.
       and_then res (\<lambda>(key, w).
       and_then (read_fields env w) (\<lambda>(flds, w).
       and_then (db_Read D (NextTable w) key flds d) (\<lambda>(status, _, d). Inr (status, w, d)))))
     (NextTransactionKey env w))"

text \<open>The status of the read is ignored.\<close>

definition TransactionReadModifyWrite ::
  "randomness \<Rightarrow> 'd database \<Rightarrow> 'd client \<Rightarrow> (fault + (int \<times> 'd client)) option" where
  "TransactionReadModifyWrite env D cl = (case cl of (w, d) \<Rightarrow>
     map_option (\<lambda>res.
       and_then res (\<lambda>(key, w).
       and_then (read_fields env w) (\<lambda>(flds, w).
       and_then (db_Read D (NextTable w) key flds d) (\<lambda>(_, _, d).
       and_then (write_fields env w) (\<lambda>(values, w).
       and_then (db_Update D (NextTable w) key values d) (\<lambda>(status, d). Inr (status, w, d)))))))
     (NextTransactionKey env w))"

text \<open>The scan length is a \<open>size_t\<close> converted to \<open>int\<close>.\<close>

definition TransactionScan ::
  "randomness \<Rightarrow> 'd database \<Rightarrow> 'd client \<Rightarrow> (fault + (int \<times> 'd client)) option" where
  "TransactionScan env D cl = (case cl of (w, d) \<Rightarrow>
     map_option (\<lambda>res.
       and_then res (\<lambda>(key, w).
       and_then (NextScanLength env w) (\<lambda>(n, w).
       and_then (read_fields env w) (\<lambda>(flds, w).
       and_then (db_Scan D (NextTable w) key (sint (ucast n :: u32)) flds d)
         (\<lambda>(status, _, d). Inr (status, w, d))))))
     (NextTransactionKey env w))"

definition TransactionUpdate ::
  "randomness \<Rightarrow> 'd database \<Rightarrow> 'd client \<Rightarrow> (fault + (int \<times> 'd client)) option" where
  "TransactionUpdate env D cl = (case cl of (w, d) \<Rightarrow>
     map_option (\<lambda>res.
       and_then res (\<lambda>(key, w).
       and_then (write_fields env w) (\<lambda>(values, w).
       and_then (db_Update D (NextTable w) key values d) (\<lambda>(status, d). Inr (status, w, d)))))
     (NextTransactionKey env w))"

definition TransactionInsert ::
  "randomness \<Rightarrow> 'd database \<Rightarrow> 'd client \<Rightarrow> fault + (int \<times> 'd client)" where
  "TransactionInsert env D cl = (case cl of (w, d) \<Rightarrow>
     and_then (NextSequenceKey env w) (\<lambda>(key, w).
     and_then (BuildValues env w) (\<lambda>(values, w).
     and_then (db_Insert D (NextTable w) key values d) (\<lambda>(status, d). Inr (status, w, d)))))"

definition DoTransaction ::
  "randomness \<Rightarrow> 'd database \<Rightarrow> 'd client \<Rightarrow> (fault + (bool \<times> 'd client)) option" where
  "DoTransaction env D cl = (case cl of (w, d) \<Rightarrow>
     (case NextOperation env w of
        Inl e \<Rightarrow> Some (Inl e)
      | Inr (opr, w) \<Rightarrow>
          map_option (\<lambda>res. and_then res (\<lambda>(status, cl).
              if status < 0 then Inl AssertFail else Inr (status = kOK, cl)))
            (case opr of
               READ \<Rightarrow> TransactionRead env D (w, d)
             | UPDATE \<Rightarrow> TransactionUpdate env D (w, d)
             | INSERT \<Rightarrow> Some (TransactionInsert env D (w, d))
             | SCAN \<Rightarrow> TransactionScan env D (w, d)
             | READMODIFYWRITE \<Rightarrow> TransactionReadModifyWrite env D (w, d))))"

section \<open>One thread of the program\<close>

text \<open>The loop of \<open>DelegateClient\<close> in \<open>ycsbc.cc\<close>: loading, and transactions; the result counts the
  successes.\<close>

fun load_loop :: "randomness \<Rightarrow> 'd database \<Rightarrow> nat \<Rightarrow> int \<Rightarrow> 'd client \<Rightarrow> fault + (int \<times> 'd client)" where
  "load_loop env D 0 oks cl = Inr (oks, cl)"
| "load_loop env D (Suc n) oks cl =
     and_then (DoInsert env D cl) (\<lambda>(ok, cl). load_loop env D n (oks + of_bool ok) cl)"

fun transaction_loop ::
  "randomness \<Rightarrow> 'd database \<Rightarrow> nat \<Rightarrow> int \<Rightarrow> 'd client \<Rightarrow> (fault + (int \<times> 'd client)) option" where
  "transaction_loop env D 0 oks cl = Some (Inr (oks, cl))"
| "transaction_loop env D (Suc n) oks cl =
     (case DoTransaction env D cl of
        None \<Rightarrow> None
      | Some (Inl e) \<Rightarrow> Some (Inl e)
      | Some (Inr (ok, cl)) \<Rightarrow> transaction_loop env D n (oks + of_bool ok) cl)"

definition DelegateClient ::
  "randomness \<Rightarrow> 'd database \<Rightarrow> int \<Rightarrow> bool \<Rightarrow> 'd client \<Rightarrow> (fault + (int \<times> 'd client)) option" where
  "DelegateClient env D num_ops is_loading cl = (case cl of (w, d) \<Rightarrow>
     map_option (\<lambda>res. and_then res (\<lambda>(oks, w, d). Inr (oks, w, db_Close D d)))
       (if is_loading then Some (load_loop env D (nat num_ops) 0 (w, db_Init D d))
        else transaction_loop env D (nat num_ops) 0 (w, db_Init D d)))"

end
