(* ===== verification/Driver.thy ===== *)
theory Driver
  imports LearnedKV_Scan Text_Double Ycsb_DB
begin

text \<open>
  The benchmark program \<open>learned-LSM/test.cpp\<close>: it reads a trace written by the workload generator
  and runs its operations on a store, with values derived from the keys.
\<close>

section \<open>Values and workloads\<close>

text \<open>\<open>gen_value\<close>: the lowest byte of the key, repeated.\<close>

definition gen_value :: "u64 \<Rightarrow> nat \<Rightarrow> bytes" where
  "gen_value key n = replicate n (ucast (key AND 0xFF))"

definition delim :: string where "delim = '' key: ''"

text \<open>One line: \<open>substr(0, find(delim))\<close>, and what is left after erasing up to the delimiter, the
  delimiter and \<open>"user"\<close>. Without a delimiter the sum of \<open>npos\<close> and the lengths wraps to 9.\<close>

definition parse_line :: "string \<Rightarrow> fault + (string \<times> u64)" where
  "parse_line line =
     (case find_str delim line of
        None \<Rightarrow> and_then (stoull (drop 9 line)) (\<lambda>k. Inr (line, k))
      | Some i \<Rightarrow> and_then (stoull (drop (i + length delim + 4) line)) (\<lambda>k. Inr (take i line, k)))"

text \<open>\<open>while (getline(myfile, line))\<close>: the lines of a text; a line feed at the end starts no further
  line. An empty line ends the loop.\<close>

definition file_lines :: "string \<Rightarrow> string list" where
  "file_lines s = (let ls = getlines s in if last ls = [] then butlast ls else ls)"

fun parse_lines :: "string list \<Rightarrow> (string \<times> u64) list \<Rightarrow> fault + (string \<times> u64) list" where
  "parse_lines [] workloads = Inr workloads"
| "parse_lines (line # ls) workloads =
     (if line = [] then Inr workloads
      else and_then (parse_line line) (\<lambda>w. parse_lines ls (workloads @ [w])))"

definition read_workload :: "disk \<Rightarrow> string \<Rightarrow> fault + (string \<times> u64) list" where
  "read_workload d file_path =
     (case fopen_read d file_path of
        None \<Rightarrow> Inl Exited
      | Some c \<Rightarrow> parse_lines (file_lines (bytes_text c)) [])"

section \<open>Running the operations\<close>

record 'db run =
  store :: "'db kv"
  read_count :: int
  write_count :: int
  scan_count :: int

definition scanRange :: u64 where "scanRange = 10000000000000000"

text \<open>One operation. Results of the store are not looked at; \<open>None\<close> is a scan that does not return,
  and the flag says that the loop goes on.\<close>

definition run_operation ::
  "('db, 'm) rocks_api_scheme \<Rightarrow> config \<Rightarrow> string \<Rightarrow> u64 \<Rightarrow> 'db run \<Rightarrow> (fault + (bool \<times> 'db run)) option" where
  "run_operation R cfg opr key s =
     (if opr = ''UPDATE'' \<or> opr = ''INSERT'' then
        Some (and_then (put R cfg key (word_of_nat KEY_SIZE) (gen_value key VALUE_SIZE) (word_of_nat VALUE_SIZE) (store s))
          (\<lambda>(_, kv). Inr (True, s\<lparr>store := kv, write_count := write_count s + 1\<rparr>)))
      else if opr = ''READ'' then
        Some (and_then (get R cfg key (word_of_nat KEY_SIZE) [] (word_of_nat VALUE_SIZE) (store s))
          (\<lambda>(_, _, kv). Inr (True, s\<lparr>store := kv, read_count := read_count s + 1\<rparr>)))
      else if opr = ''SCAN'' then
        map_option (\<lambda>res. and_then res (\<lambda>(_, _, kv).
            let s = s\<lparr>store := kv, scan_count := scan_count s + 1\<rparr>
            in Inr (scan_count s \<noteq> 1000, s)))
          (scan R cfg key (word_of_nat KEY_SIZE) [] (word_of_nat VALUE_SIZE) scanRange (store s))
      else Some (Inr (True, s)))"

text \<open>The reports between the phases reset counters. \<open>print_throughtput\<close> also resets the counters of the store,
  which are globals of the program; its output is left out.\<close>

definition print_throughtput :: "'db run \<Rightarrow> 'db run" where
  "print_throughtput s =
     s\<lparr>store := (store s)\<lparr>learned_index_count := 0, gc_count := 0, gc_write_size := 0\<rparr>,
       read_count := 0, write_count := 0\<rparr>"

definition phase :: "nat \<Rightarrow> nat \<Rightarrow> 'db run \<Rightarrow> fault + 'db run" where
  "phase kvnum i s =
     (if i = kvnum then Inr (s\<lparr>read_count := 0, write_count := 0\<rparr>)
      else if kvnum = 0 then Inl DivideByZero
      else if i mod kvnum = 0 \<and> i \<noteq> 0 then Inr (print_throughtput s)
      else Inr s)"

fun run_loop ::
  "('db, 'm) rocks_api_scheme \<Rightarrow> config \<Rightarrow> nat \<Rightarrow> nat \<Rightarrow> (string \<times> u64) list \<Rightarrow> 'db run \<Rightarrow> (fault + 'db run) option" where
  "run_loop R cfg kvnum i [] s = Some (Inr s)"
| "run_loop R cfg kvnum i (w # ws) s =
     (case phase kvnum i s of
        Inl e \<Rightarrow> Some (Inl e)
      | Inr s \<Rightarrow>
     (case run_operation R cfg (fst w) (snd w) s of
        None \<Rightarrow> None
      | Some (Inl e) \<Rightarrow> Some (Inl e)
      | Some (Inr (go_on, s)) \<Rightarrow> if go_on then run_loop R cfg kvnum (i + 1) ws s else Some (Inr s)))"

section \<open>The program\<close>

text \<open>The size limit is computed in floating point.\<close>

definition limit_of :: "u64 \<Rightarrow> double \<Rightarrow> fault + u64" where
  "limit_of num_kv ratio =
     u64_of_double (dmul (double_of_u64 (num_kv * word_of_nat (KEY_SIZE + VALUE_SIZE)))
                         (dadd (double_rat 1) ratio))"

text \<open>The arguments are those from \<open>argv[1]\<close> on; \<open>wr\<close> and \<open>mem\<close> are the file permissions and the
  contents of fresh memory. The first part of \<open>main\<close> ends with the globals set, \<open>KVNUM\<close>, which keeps the
  lower 32 bits, and the operations.\<close>

definition test_setup ::
  "(string \<Rightarrow> bool) \<Rightarrow> (nat \<Rightarrow> nat \<Rightarrow> u64) \<Rightarrow> disk \<Rightarrow> string list
     \<Rightarrow> fault + (config \<times> nat \<times> (string \<times> u64) list)" where
  "test_setup wr mem disk0 args =
     (if length args < 2 then Inl Exited else
      let flags = parse_flags args in
      and_then (get_required flags ''keys_file'') (\<lambda>keys_file.
      let index_type = get_with_default flags ''index_type'' ''LearnedKV'' in
      and_then (get_required flags ''num_kv'') (\<lambda>n.
      and_then (stoull n) (\<lambda>num_kv.
      and_then (stod (get_with_default flags ''over_provision_ratio'' ''0.3'')) (\<lambda>ratio.
      if index_type \<noteq> ''LearnedKV'' \<and> index_type \<noteq> ''RocksDB'' then Inl Exited else
      and_then (limit_of num_kv ratio) (\<lambda>limit.
      and_then (read_workload disk0 keys_file) (\<lambda>workloads.
      let kvnum = unat (ucast num_kv :: u32) in
      if \<not> kvnum \<le> length workloads then Inl AssertFail
      else Inr (\<lparr>learned_index_used = (index_type = ''LearnedKV''), group_size = limit, writable = wr, fresh = mem\<rparr>,
                kvnum, workloads))))))))"

text \<open>The rest runs the operations on a new store and ends with a report; what the report appends to a file
  of its own is left out.\<close>

definition test_main ::
  "('db, 'm) rocks_api_scheme \<Rightarrow> (string \<Rightarrow> bool) \<Rightarrow> (nat \<Rightarrow> nat \<Rightarrow> u64) \<Rightarrow> 'db \<Rightarrow> disk \<Rightarrow> string list
     \<Rightarrow> (fault + 'db run) option" where
  "test_main R wr mem d0 disk0 args =
     (case test_setup wr mem disk0 args of
        Inl e \<Rightarrow> Some (Inl e)
      | Inr (cfg, kvnum, workloads) \<Rightarrow>
          map_option (\<lambda>res. and_then res (\<lambda>s. Inr (print_throughtput s)))
            (run_loop R cfg kvnum 0 workloads
              \<lparr>store = new_LearnedKV R d0 disk0, read_count = 0, write_count = 0, scan_count = 0\<rparr>))"

end
