(* ===== verification/Trace_Facts.thy ===== *)
theory Trace_Facts
  imports Driver
begin

text \<open>
  The trace that connects the workload generator with the benchmark program: every line the
  generator writes is read back as the operation and the number of its key.
\<close>

section \<open>Key names\<close>

definition padded :: "core_workload \<Rightarrow> u64 \<Rightarrow> string" where
  "padded w k = (let s = to_string (unat (key_number w k))
    in replicate (nat (max 0 (sint (word_of_int (zero_padding w - int (length s)) :: 32 word)))) CHR ''0'' @ s)"

lemma BuildKeyName_padded: "BuildKeyName w k = ''user'' @ padded w k"
  by (simp add: BuildKeyName_def padded_def Let_def)

lemma is_digit_0 [simp]: "is_digit CHR ''0''"
  by (simp add: is_digit_def)

lemma padded_digits: "c \<in> set (padded w k) \<Longrightarrow> is_digit c"
  by (auto simp: padded_def Let_def dest: to_string_digits)

lemma stoull_padded:
  "rest = [] \<or> \<not> is_digit (hd rest) \<Longrightarrow> stoull (padded w k @ rest) = Inr (key_number w k)"
  using stoull_to_string [of rest] by (simp add: padded_def Let_def)

lemma key_number_cong:
  "ordered_inserts w = ordered_inserts w' \<Longrightarrow> key_number w k = key_number w' k"
  by (simp add: key_number_def)

section \<open>Lines\<close>

lemma find_str_append:
  "pat = c # p \<Longrightarrow> c \<notin> set pre \<Longrightarrow> find_str pat (pre @ pat @ s) = Some (length pre)"
  by (induction pre) auto

definition op_name :: "string \<Rightarrow> bool" where
  "op_name opr \<longleftrightarrow> CHR '' '' \<notin> set opr \<and> opr \<noteq> []"

text \<open>A line with an operation, a key and possibly more text after it.\<close>

definition trace_line :: "string \<Rightarrow> string \<Rightarrow> string \<Rightarrow> string" where
  "trace_line opr key rest = opr @ delim @ key @ rest"

lemma parse_trace_line:
  assumes "op_name opr" "rest = [] \<or> \<not> is_digit (hd rest)"
  shows "parse_line (trace_line opr (BuildKeyName w k) rest) = Inr (opr, key_number w k)"
proof -
  have "find_str delim (opr @ delim @ BuildKeyName w k @ rest) = Some (length opr)"
    using assms(1) by (intro find_str_append [of _ "CHR '' ''" "''key: ''"]) (auto simp: op_name_def delim_def)
  then show ?thesis using stoull_padded [OF assms(2), of w k]
    by (simp add: parse_line_def trace_line_def BuildKeyName_padded delim_def)
qed

definition good_line :: "string \<Rightarrow> bool" where
  "good_line l \<longleftrightarrow> l \<noteq> [] \<and> CHR 0x0A \<notin> set l"

lemma digit_not_newline: "is_digit c \<Longrightarrow> c \<noteq> CHR 0x0A" "is_digit c \<Longrightarrow> c \<noteq> CHR '' ''"
  by (auto simp: is_digit_def)

lemma good_trace_line:
  assumes "CHR 0x0A \<notin> set opr" "CHR 0x0A \<notin> set rest"
  shows "good_line (trace_line opr (BuildKeyName w k) rest)"
  using assms padded_digits [of "CHR 0x0A" w k] digit_not_newline(1) [of "CHR 0x0A"]
  by (auto simp: good_line_def trace_line_def delim_def BuildKeyName_padded)

section \<open>The file\<close>

text \<open>The trace file holds these lines.\<close>

definition file_text :: "string list \<Rightarrow> string" where
  "file_text ls = concat (map (\<lambda>l. l @ [CHR 0x0A]) ls)"

definition holds_lines :: "disk \<Rightarrow> string list \<Rightarrow> bool" where
  "holds_lines d ls \<longleftrightarrow> (\<forall>l \<in> set ls. good_line l) \<and>
     (d OUTPUT_PATH = Some (text_bytes (file_text ls)) \<or> ls = [] \<and> d OUTPUT_PATH = None)"

lemma bytes_text_bytes [simp]: "bytes_text (text_bytes s) = s"
proof -
  have "char_of (unat (of_char c :: u8)) = c" for c
  proof -
    have "(of_char c :: nat) < 256" using nat_of_char_less_256 by simp
    moreover have "(of_char c :: u8) = word_of_nat (of_char c)" by (simp only: of_nat_of_char)
    ultimately have "unat (of_char c :: u8) = of_char c" by (simp only: unat_of_nat) simp
    then show ?thesis by simp
  qed
  then show ?thesis by (simp add: bytes_text_def text_bytes_def o_def)
qed

lemma text_bytes_append [simp]: "text_bytes (s @ t) = text_bytes s @ text_bytes t"
  by (simp add: text_bytes_def)

lemma append_line_holds:
  assumes "holds_lines d ls" "good_line l" "mw OUTPUT_PATH"
  shows "holds_lines (append_line mw l d) (ls @ [l])"
  using assms by (auto simp: holds_lines_def append_line_def fopen_append_def fwrite_end_def file_text_def
      text_bytes_def)

lemma file_lines_text: "\<forall>l \<in> set ls. good_line l \<Longrightarrow> file_lines (file_text ls) = ls"
  unfolding file_lines_def file_text_def using getlines_concat [of ls]
  by (simp add: good_line_def Let_def)

lemma read_holds:
  "holds_lines d ls \<Longrightarrow> d OUTPUT_PATH \<noteq> None \<Longrightarrow> read_workload d OUTPUT_PATH = parse_lines ls []"
  by (auto simp: holds_lines_def read_workload_def fopen_read_def file_lines_text)

text \<open>The operations the lines stand for.\<close>

definition parses :: "string list \<Rightarrow> (string \<times> u64) list \<Rightarrow> bool" where
  "parses ls ws \<longleftrightarrow> list_all2 (\<lambda>l w. parse_line l = Inr w) ls ws"

lemma parses_snoc: "parses ls ws \<Longrightarrow> parse_line l = Inr w \<Longrightarrow> parses (ls @ [l]) (ws @ [w])"
  by (simp add: parses_def list_all2_appendI)

lemma parse_lines_parses:
  "parses ls ws \<Longrightarrow> \<forall>l \<in> set ls. good_line l \<Longrightarrow> parse_lines ls acc = Inr (acc @ ws)"
  unfolding parses_def by (induction ls ws arbitrary: acc rule: list_all2_induct) (auto simp: good_line_def)

definition trace_of :: "disk \<Rightarrow> (string \<times> u64) list \<Rightarrow> bool" where
  "trace_of d ws \<longleftrightarrow> (\<exists>ls. holds_lines d ls \<and> parses ls ws)"

lemma trace_of_empty: "d OUTPUT_PATH = None \<Longrightarrow> trace_of d []"
  unfolding trace_of_def holds_lines_def parses_def by (intro exI [of _ "[]"]) simp

lemma trace_of_read: "trace_of d ws \<Longrightarrow> d OUTPUT_PATH \<noteq> None \<Longrightarrow> read_workload d OUTPUT_PATH = Inr ws"
  unfolding trace_of_def using read_holds parse_lines_parses [of _ ws "[]"]
  by (fastforce simp: holds_lines_def)

lemma append_line_some: "mw OUTPUT_PATH \<Longrightarrow> append_line mw l d OUTPUT_PATH \<noteq> None"
  by (simp add: append_line_def fopen_append_def fwrite_end_def)

lemma trace_of_append:
  assumes "trace_of d ws" "mw OUTPUT_PATH" "op_name opr" "CHR 0x0A \<notin> set opr"
    and "rest = [] \<or> \<not> is_digit (hd rest)" "CHR 0x0A \<notin> set rest"
  shows "trace_of (append_line mw (trace_line opr (BuildKeyName w k) rest) d) (ws @ [(opr, key_number w k)])"
proof -
  obtain ls where "holds_lines d ls" "parses ls ws" using assms(1) by (auto simp: trace_of_def)
  then show ?thesis unfolding trace_of_def
    using append_line_holds [where mw = mw, OF _ good_trace_line [OF assms(4,6)] assms(2)]
      parses_snoc [OF _ parse_trace_line [OF assms(3,5)]] by blast
qed

lemma to_string_no_newline: "CHR 0x0A \<notin> set (to_string n)"
  using to_string_digits digit_not_newline by blast

lemma append_len:
  "''READ key: '' @ key = trace_line ''READ'' key []" "''INSERT key: '' @ key = trace_line ''INSERT'' key []"
  "''UPDATE key: '' @ key = trace_line ''UPDATE'' key []"
  "''SCAN key: '' @ key @ '' len: '' @ n = trace_line ''SCAN'' key ('' len: '' @ n)"
  by (simp_all add: trace_line_def delim_def)

lemmas hashtable_ops = hashtable_Read_def hashtable_Scan_def hashtable_Update_def hashtable_Insert_def

lemma trace_ops:
  assumes "trace_of d ws" "mw OUTPUT_PATH"
  shows "\<exists>d'. hashtable_Read mw t (BuildKeyName w k) f d = Inr (kOK, [], d') \<and> trace_of d' (ws @ [(''READ'', key_number w k)])"
    "\<exists>d'. hashtable_Scan mw t (BuildKeyName w k) n f d = Inr (kOK, [], d') \<and> trace_of d' (ws @ [(''SCAN'', key_number w k)])"
    "\<exists>d'. hashtable_Update mw t (BuildKeyName w k) v d = Inr (kOK, d') \<and> trace_of d' (ws @ [(''UPDATE'', key_number w k)])"
    "\<exists>d'. hashtable_Insert mw t (BuildKeyName w k) v d = Inr (kOK, d') \<and> trace_of d' (ws @ [(''INSERT'', key_number w k)])
       \<and> d' OUTPUT_PATH \<noteq> None"
proof -
  have *: "\<not> is_digit CHR '' ''" by (simp add: is_digit_def)
  note ap = trace_of_append [where mw = mw, OF assms]
  show "\<exists>d'. hashtable_Read mw t (BuildKeyName w k) f d = Inr (kOK, [], d') \<and> trace_of d' (ws @ [(''READ'', key_number w k)])"
    "\<exists>d'. hashtable_Update mw t (BuildKeyName w k) v d = Inr (kOK, d') \<and> trace_of d' (ws @ [(''UPDATE'', key_number w k)])"
    "\<exists>d'. hashtable_Insert mw t (BuildKeyName w k) v d = Inr (kOK, d') \<and> trace_of d' (ws @ [(''INSERT'', key_number w k)])
       \<and> d' OUTPUT_PATH \<noteq> None"
    unfolding hashtable_ops append_len using append_line_some [where mw = mw, OF assms(2)]
    by (auto simp: op_name_def intro!: ap)
  show "\<exists>d'. hashtable_Scan mw t (BuildKeyName w k) n f d = Inr (kOK, [], d') \<and> trace_of d' (ws @ [(''SCAN'', key_number w k)])"
    unfolding hashtable_ops append_len
    by (auto simp: op_name_def * to_string_no_newline intro!: ap)
qed

end
