(* ===== verification/Ycsb_Init.thy ===== *)
theory Ycsb_Init
  imports Ycsb_Workload
begin

text \<open>The configuration of a workload from properties, \<open>CoreWorkload::Init\<close>.\<close>

section \<open>Names and defaults of the properties\<close>

definition TABLENAME_PROPERTY :: string where "TABLENAME_PROPERTY = ''table''"
definition TABLENAME_DEFAULT :: string where "TABLENAME_DEFAULT = ''usertable''"
definition FIELD_COUNT_PROPERTY :: string where "FIELD_COUNT_PROPERTY = ''fieldcount''"
definition FIELD_COUNT_DEFAULT :: string where "FIELD_COUNT_DEFAULT = ''10''"
definition FIELD_LENGTH_DISTRIBUTION_PROPERTY :: string where "FIELD_LENGTH_DISTRIBUTION_PROPERTY = ''field_len_dist''"
definition FIELD_LENGTH_DISTRIBUTION_DEFAULT :: string where "FIELD_LENGTH_DISTRIBUTION_DEFAULT = ''constant''"
definition FIELD_LENGTH_PROPERTY :: string where "FIELD_LENGTH_PROPERTY = ''fieldlength''"
definition FIELD_LENGTH_DEFAULT :: string where "FIELD_LENGTH_DEFAULT = ''100''"
definition READ_ALL_FIELDS_PROPERTY :: string where "READ_ALL_FIELDS_PROPERTY = ''readallfields''"
definition READ_ALL_FIELDS_DEFAULT :: string where "READ_ALL_FIELDS_DEFAULT = ''true''"
definition WRITE_ALL_FIELDS_PROPERTY :: string where "WRITE_ALL_FIELDS_PROPERTY = ''writeallfields''"
definition WRITE_ALL_FIELDS_DEFAULT :: string where "WRITE_ALL_FIELDS_DEFAULT = ''false''"
definition READ_PROPORTION_PROPERTY :: string where "READ_PROPORTION_PROPERTY = ''readproportion''"
definition READ_PROPORTION_DEFAULT :: string where "READ_PROPORTION_DEFAULT = ''0.95''"
definition UPDATE_PROPORTION_PROPERTY :: string where "UPDATE_PROPORTION_PROPERTY = ''updateproportion''"
definition UPDATE_PROPORTION_DEFAULT :: string where "UPDATE_PROPORTION_DEFAULT = ''0.05''"
definition INSERT_PROPORTION_PROPERTY :: string where "INSERT_PROPORTION_PROPERTY = ''insertproportion''"
definition INSERT_PROPORTION_DEFAULT :: string where "INSERT_PROPORTION_DEFAULT = ''0.0''"
definition SCAN_PROPORTION_PROPERTY :: string where "SCAN_PROPORTION_PROPERTY = ''scanproportion''"
definition SCAN_PROPORTION_DEFAULT :: string where "SCAN_PROPORTION_DEFAULT = ''0.0''"
definition READMODIFYWRITE_PROPORTION_PROPERTY :: string where "READMODIFYWRITE_PROPORTION_PROPERTY = ''readmodifywriteproportion''"
definition READMODIFYWRITE_PROPORTION_DEFAULT :: string where "READMODIFYWRITE_PROPORTION_DEFAULT = ''0.0''"
definition REQUEST_DISTRIBUTION_PROPERTY :: string where "REQUEST_DISTRIBUTION_PROPERTY = ''requestdistribution''"
definition REQUEST_DISTRIBUTION_DEFAULT :: string where "REQUEST_DISTRIBUTION_DEFAULT = ''uniform''"
definition ZERO_PADDING_PROPERTY :: string where "ZERO_PADDING_PROPERTY = ''zeropadding''"
definition ZERO_PADDING_DEFAULT :: string where "ZERO_PADDING_DEFAULT = ''1''"
definition MAX_SCAN_LENGTH_PROPERTY :: string where "MAX_SCAN_LENGTH_PROPERTY = ''maxscanlength''"
definition MAX_SCAN_LENGTH_DEFAULT :: string where "MAX_SCAN_LENGTH_DEFAULT = ''1000''"
definition SCAN_LENGTH_DISTRIBUTION_PROPERTY :: string where "SCAN_LENGTH_DISTRIBUTION_PROPERTY = ''scanlengthdistribution''"
definition SCAN_LENGTH_DISTRIBUTION_DEFAULT :: string where "SCAN_LENGTH_DISTRIBUTION_DEFAULT = ''uniform''"
definition INSERT_ORDER_PROPERTY :: string where "INSERT_ORDER_PROPERTY = ''insertorder''"
definition INSERT_ORDER_DEFAULT :: string where "INSERT_ORDER_DEFAULT = ''hashed''"
definition INSERT_START_PROPERTY :: string where "INSERT_START_PROPERTY = ''insertstart''"
definition INSERT_START_DEFAULT :: string where "INSERT_START_DEFAULT = ''0''"
definition RECORD_COUNT_PROPERTY :: string where "RECORD_COUNT_PROPERTY = ''recordcount''"
definition OPERATION_COUNT_PROPERTY :: string where "OPERATION_COUNT_PROPERTY = ''operationcount''"

section \<open>Initialisation\<close>

definition double_of_int :: "int \<Rightarrow> double" where
  "double_of_int i = round_double False (of_int i)"

text \<open>The constructor of a Zipfian generator, and the part of the state it changes.\<close>

definition new_Zipfian ::
  "randomness \<Rightarrow> u64 \<Rightarrow> u64 \<Rightarrow> core_workload \<Rightarrow> fault + (generator \<times> core_workload)" where
  "new_Zipfian env lo hi w =
     and_then (ZipfianGenerator env lo hi kZipfianConst (w_rng w))
       (\<lambda>(z, r). Inr (Zipfian z, w\<lparr>w_rng := r\<rparr>))"

definition GetFieldLenGenerator ::
  "randomness \<Rightarrow> properties \<Rightarrow> core_workload \<Rightarrow> fault + (generator \<times> core_workload)" where
  "GetFieldLenGenerator env p w =
     (let field_len_dist = GetProperty p FIELD_LENGTH_DISTRIBUTION_PROPERTY FIELD_LENGTH_DISTRIBUTION_DEFAULT
      in and_then (stoi (GetProperty p FIELD_LENGTH_PROPERTY FIELD_LENGTH_DEFAULT)) (\<lambda>field_len.
           if field_len_dist = ''constant'' then Inr (Const (ConstGenerator field_len), w)
           else if field_len_dist = ''uniform''
           then Inr (Uniform (UniformGenerator env 1 (word_of_int field_len)), w)
           else if field_len_dist = ''zipfian'' then new_Zipfian env 1 (word_of_int field_len) w
           else Inl (Thrown (''Unknown field length distribution: '' @ field_len_dist))))"

text \<open>The operations with a positive proportion, in the order of the code.\<close>

definition add_operation :: "operation \<Rightarrow> double \<Rightarrow> operation discrete \<Rightarrow> operation discrete" where
  "add_operation opr proportion g = (if dlt (double_rat 0) proportion then AddValue opr proportion g else g)"

definition add_operations ::
  "double \<Rightarrow> double \<Rightarrow> double \<Rightarrow> double \<Rightarrow> double \<Rightarrow> operation discrete \<Rightarrow> operation discrete" where
  "add_operations read_p update_p insert_p scan_p rmw_p g =
     (let g = add_operation READ read_p g;
          g = add_operation UPDATE update_p g;
          g = add_operation INSERT insert_p g;
          g = add_operation SCAN scan_p g
      in add_operation READMODIFYWRITE rmw_p g)"

definition make_key_chooser ::
  "randomness \<Rightarrow> properties \<Rightarrow> double \<Rightarrow> core_workload \<Rightarrow> fault + (generator \<times> core_workload)" where
  "make_key_chooser env p insert_proportion w =
     (let request_dist = GetProperty p REQUEST_DISTRIBUTION_PROPERTY REQUEST_DISTRIBUTION_DEFAULT
      in if request_dist = ''uniform''
         then Inr (Uniform (UniformGenerator env 0 (record_count w - 1)), w)
         else if request_dist = ''zipfian'' then
           and_then (stoi (GetProperty p OPERATION_COUNT_PROPERTY [])) (\<lambda>op_count.
             let new_keys = int_of_double (dmul (dmul (double_of_int op_count) insert_proportion) (double_rat 2));
                 n = record_count w + word_of_int new_keys
             in and_then (ScrambledZipfianGenerator env 0 (n - 1) (w_rng w))
                  (\<lambda>(g, r). Inr (Scrambled g, w\<lparr>w_rng := r\<rparr>)))
         else if request_dist = ''latest'' then
           and_then (SkewedLatestGenerator env (insert_key_sequence w) (w_rng w))
             (\<lambda>(g, r). Inr (Skewed g, w\<lparr>w_rng := r\<rparr>))
         else Inl (Thrown (''Unknown request distribution: '' @ request_dist)))"

definition make_scan_len_chooser ::
  "randomness \<Rightarrow> string \<Rightarrow> int \<Rightarrow> core_workload \<Rightarrow> fault + (generator \<times> core_workload)" where
  "make_scan_len_chooser env scan_len_dist max_scan_len w =
     (if scan_len_dist = ''uniform'' then Inr (Uniform (UniformGenerator env 1 (word_of_int max_scan_len)), w)
      else if scan_len_dist = ''zipfian'' then new_Zipfian env 1 (word_of_int max_scan_len) w
      else Inl (Thrown (''Distribution not allowed for scan length: '' @ scan_len_dist)))"

definition Init :: "randomness \<Rightarrow> properties \<Rightarrow> core_workload \<Rightarrow> fault + core_workload" where
  "Init env p w =
     (let w = w\<lparr>table_name := GetProperty p TABLENAME_PROPERTY TABLENAME_DEFAULT\<rparr>
      in
      and_then (stoi (GetProperty p FIELD_COUNT_PROPERTY FIELD_COUNT_DEFAULT)) (\<lambda>fc.
      and_then (GetFieldLenGenerator env p (w\<lparr>field_count := fc\<rparr>)) (\<lambda>(g, w).
      let w = w\<lparr>field_len_generator := Some g\<rparr> in
      and_then (stod (GetProperty p READ_PROPORTION_PROPERTY READ_PROPORTION_DEFAULT)) (\<lambda>read_p.
      and_then (stod (GetProperty p UPDATE_PROPORTION_PROPERTY UPDATE_PROPORTION_DEFAULT)) (\<lambda>update_p.
      and_then (stod (GetProperty p INSERT_PROPORTION_PROPERTY INSERT_PROPORTION_DEFAULT)) (\<lambda>insert_p.
      and_then (stod (GetProperty p SCAN_PROPORTION_PROPERTY SCAN_PROPORTION_DEFAULT)) (\<lambda>scan_p.
      and_then (stod (GetProperty p READMODIFYWRITE_PROPORTION_PROPERTY READMODIFYWRITE_PROPORTION_DEFAULT)) (\<lambda>rmw_p.
      and_then (stoi (GetProperty p RECORD_COUNT_PROPERTY [])) (\<lambda>rc.
      let w = w\<lparr>record_count := word_of_int rc\<rparr> in
      and_then (stoi (GetProperty p ZERO_PADDING_PROPERTY ZERO_PADDING_DEFAULT)) (\<lambda>zp.
      let w = w\<lparr>zero_padding := zp\<rparr> in
      and_then (stoi (GetProperty p MAX_SCAN_LENGTH_PROPERTY MAX_SCAN_LENGTH_DEFAULT)) (\<lambda>max_scan_len.
      and_then (stoi (GetProperty p INSERT_START_PROPERTY INSERT_START_DEFAULT)) (\<lambda>insert_start.
      and_then (StrToBool (GetProperty p READ_ALL_FIELDS_PROPERTY READ_ALL_FIELDS_DEFAULT)) (\<lambda>raf.
      and_then (StrToBool (GetProperty p WRITE_ALL_FIELDS_PROPERTY WRITE_ALL_FIELDS_DEFAULT)) (\<lambda>waf.
      let w = w\<lparr>read_all_fields := raf, write_all_fields := waf,
                ordered_inserts := (GetProperty p INSERT_ORDER_PROPERTY INSERT_ORDER_DEFAULT \<noteq> ''hashed''),
                key_generator := Some (Counter (word_of_int insert_start)),
                op_chooser := add_operations read_p update_p insert_p scan_p rmw_p (op_chooser w),
                insert_key_sequence := record_count w\<rparr> in
      and_then (make_key_chooser env p insert_p w) (\<lambda>(g, w).
      let w = w\<lparr>key_chooser := Some g,
                field_chooser := Some (Uniform (UniformGenerator env 0 (word_of_int (field_count w - 1))))\<rparr> in
      and_then (make_scan_len_chooser env
                  (GetProperty p SCAN_LENGTH_DISTRIBUTION_PROPERTY SCAN_LENGTH_DISTRIBUTION_DEFAULT)
                  max_scan_len w) (\<lambda>(g, w).
      Inr (w\<lparr>scan_len_chooser := Some g\<rparr>)))))))))))))))))"

end
