(* ===== verification/Ycsb_Facts.thy ===== *)
theory Ycsb_Facts
  imports Trace_Facts Ycsb_Init
begin

text \<open>
  What the steps of the workload change and keep, the ranges of the generators, and the trace that
  a client leaves.
\<close>

section \<open>Generators with a range\<close>

text \<open>Draws in sequence, and the contract that every value is within bounds.\<close>

fun draws :: "('g \<Rightarrow> rng \<Rightarrow> fault + (u64 \<times> 'g \<times> rng)) \<Rightarrow> nat \<Rightarrow> 'g \<Rightarrow> rng \<Rightarrow> fault + (u64 list \<times> 'g \<times> rng)" where
  "draws nxt 0 g r = Inr ([], g, r)"
| "draws nxt (Suc n) g r =
     and_then (nxt g r) (\<lambda>(v, g, r). and_then (draws nxt n g r) (\<lambda>(vs, g, r). Inr (v # vs, g, r)))"

locale ranged_generator =
  fixes nxt :: "'g \<Rightarrow> rng \<Rightarrow> fault + (u64 \<times> 'g \<times> rng)"
    and inv :: "u64 \<Rightarrow> u64 \<Rightarrow> 'g \<Rightarrow> bool"
  assumes nxt_range: "inv lo hi g \<Longrightarrow> nxt g r = Inr (v, g', r') \<Longrightarrow> inv lo hi g' \<and> lo \<le> v \<and> v \<le> hi"
begin

lemma draws_range:
  "inv lo hi g \<Longrightarrow> draws nxt n g r = Inr (vs, g', r') \<Longrightarrow>
     inv lo hi g' \<and> (\<forall>v \<in> set vs. lo \<le> v \<and> v \<le> hi)"
proof (induction n arbitrary: g r vs)
  case (Suc n)
  obtain v g1 r1 ws where n: "nxt g r = Inr (v, g1, r1)" "draws nxt n g1 r1 = Inr (ws, g', r')" "vs = v # ws"
    using Suc.prems(2) by (auto simp: and_then_Inr)
  have "inv lo hi g1 \<and> lo \<le> v \<and> v \<le> hi" by (rule nxt_range [OF Suc.prems(1) n(1)])
  then show ?case using Suc.IH [OF _ n(2)] n(3) by simp
qed simp

end

text \<open>A generator that never fails.\<close>

locale total_generator = ranged_generator +
  assumes nxt_total: "inv lo hi g \<Longrightarrow> \<exists>v g' r'. nxt g r = Inr (v, g', r')"
begin

lemma draws_total: "inv lo hi g \<Longrightarrow> \<exists>vs g' r'. draws nxt n g r = Inr (vs, g', r') \<and> length vs = n"
proof (induction n arbitrary: g r)
  case (Suc n)
  obtain v g1 r1 where n: "nxt g r = Inr (v, g1, r1)" using nxt_total [OF Suc.prems] by blast
  with nxt_range [OF Suc.prems] have "inv lo hi g1" by blast
  then obtain vs g2 r2 where "draws nxt n g1 r1 = Inr (vs, g2, r2)" "length vs = n" using Suc.IH by blast
  with n show ?case by simp
qed simp

end

definition uniform_step :: "randomness \<Rightarrow> uniform \<Rightarrow> rng \<Rightarrow> fault + (u64 \<times> uniform \<times> rng)" where
  "uniform_step env g r = (let (v, g) = uniform_Next env g in Inr (v, g, r))"

definition uniform_between :: "randomness \<Rightarrow> u64 \<Rightarrow> u64 \<Rightarrow> uniform \<Rightarrow> bool" where
  "uniform_between env lo hi g \<longleftrightarrow> rand_ok env \<and> un_min g = lo \<and> un_max g = hi \<and> lo \<le> hi"

interpretation uniform: total_generator "uniform_step env" "uniform_between env"
  by unfold_locales (auto simp: uniform_step_def uniform_between_def uniform_Next_def rand_ok_def Let_def)

definition scrambled_between :: "u64 \<Rightarrow> u64 \<Rightarrow> scrambled \<Rightarrow> bool" where
  "scrambled_between lo hi g \<longleftrightarrow> sc_base g = lo \<and> sc_num_items g = hi - lo + 1 \<and> lo \<le> hi \<and> hi - lo \<noteq> - 1"

lemma word_mod_range:
  fixes lo hi h :: u64
  assumes "lo \<le> hi" "hi - lo \<noteq> - 1"
  shows "lo \<le> lo + h mod (hi - lo + 1) \<and> lo + h mod (hi - lo + 1) \<le> hi"
proof -
  let ?n = "hi - lo + 1"
  have d: "unat (hi - lo) = unat hi - unat lo" using assms(1) by (simp add: unat_sub)
  have "unat (hi - lo) \<noteq> 2 ^ 64 - 1"
  proof
    assume "unat (hi - lo) = 2 ^ 64 - 1"
    then have "word_of_nat (unat (hi - lo)) = (word_of_nat (2 ^ 64 - 1) :: u64)" by (rule arg_cong)
    then show False using assms(2) by simp
  qed
  then have n: "unat ?n = unat hi - unat lo + 1"
    using unat_u64_less [of "hi - lo"] by (simp add: unat_suc_no_wrap d unat_word_ariths)
  have "unat (h mod ?n) < unat hi - unat lo + 1" using n by (simp add: unat_mod)
  moreover have "unat lo \<le> unat hi" using assms(1) by (simp add: word_le_nat_alt)
  moreover have "unat hi < 2 ^ 64" by (rule unat_u64_less)
  ultimately have "unat (lo + h mod ?n) = unat lo + unat (h mod ?n)"
    by (subst unat_word_ariths) (simp add: unat_mod)
  then show ?thesis using \<open>unat (h mod ?n) < unat hi - unat lo + 1\<close> \<open>unat lo \<le> unat hi\<close>
    by (simp add: word_le_nat_alt)
qed

interpretation scrambled: ranged_generator "scrambled_Next env" scrambled_between
proof
  fix lo hi g r v g' r'
  assume g: "scrambled_between lo hi g" and n: "scrambled_Next env g r = Inr (v, g', r')"
  from n have v: "\<exists>u z. v = Scramble g u \<and> g' = g\<lparr>sc_generator := z\<rparr>"
    by (auto simp: scrambled_Next_def split: sum.splits if_splits)
  have "lo \<le> Scramble g u \<and> Scramble g u \<le> hi" for u
    using g word_mod_range by (simp add: Scramble_def scrambled_between_def)
  then show "scrambled_between lo hi g' \<and> lo \<le> v \<and> v \<le> hi"
    using v g by (auto simp: scrambled_between_def)
qed

end
