(* ===== verification/Client_Facts.thy ===== *)
theory Client_Facts
  imports Ycsb_Facts
begin

text \<open>What the steps of the workload and the client change and keep, and the trace a client leaves.\<close>

section \<open>The configuration is never changed\<close>

definition same_setup :: "core_workload \<Rightarrow> core_workload \<Rightarrow> bool" where
  "same_setup w w' \<longleftrightarrow>
     table_name w' = table_name w \<and> field_count w' = field_count w \<and>
     read_all_fields w' = read_all_fields w \<and> write_all_fields w' = write_all_fields w \<and>
     insert_key_sequence w' = insert_key_sequence w \<and> ordered_inserts w' = ordered_inserts w \<and>
     record_count w' = record_count w \<and> zero_padding w' = zero_padding w"

lemma same_setup_refl [simp]: "same_setup w w"
  by (simp add: same_setup_def)

lemma same_setup_trans: "same_setup w w' \<Longrightarrow> same_setup w' w'' \<Longrightarrow> same_setup w w''"
  by (simp add: same_setup_def)

lemma same_setup_name: "same_setup w w' \<Longrightarrow> BuildKeyName w' k = BuildKeyName w k \<and> key_number w' k = key_number w k"
  by (simp add: same_setup_def BuildKeyName_def key_number_def)

lemma draw_setup:
  "draw env look upd w = Inr (v, w') \<Longrightarrow> (\<And>g w. same_setup w (upd g w)) \<Longrightarrow> same_setup w w'"
  by (auto simp: draw_def and_then_Inr same_setup_def split: option.splits)

lemma draws_setup:
  "draw_key env w = Inr (v, w') \<Longrightarrow> same_setup w w'"
  "draw_transaction_key env w = Inr (v, w') \<Longrightarrow> same_setup w w'"
  "draw_field_len env w = Inr (v, w') \<Longrightarrow> same_setup w w'"
  "draw_field env w = Inr (v, w') \<Longrightarrow> same_setup w w'"
  "NextScanLength env w = Inr (v, w') \<Longrightarrow> same_setup w w'"
  unfolding draw_key_def draw_transaction_key_def draw_field_len_def draw_field_def NextScanLength_def
  by (erule draw_setup; simp add: same_setup_def)+

lemma next_value_setup: "next_value env w = Inr (v, w') \<Longrightarrow> same_setup w w'"
  using draws_setup(3) [of env w]
  by (fastforce simp: next_value_def and_then_Inr next_char_def Let_def same_setup_def)

lemma NextFieldName_setup: "NextFieldName env w = Inr (v, w') \<Longrightarrow> same_setup w w'"
  by (auto simp: NextFieldName_def and_then_Inr dest: draws_setup)

lemma NextOperation_setup: "NextOperation env w = Inr (v, w') \<Longrightarrow> same_setup w w'"
  by (auto simp: NextOperation_def and_then_Inr same_setup_def)

lemma NextSequenceKey_setup:
  assumes "NextSequenceKey env w = Inr (key, w')"
  obtains k where "same_setup w w'" "key = BuildKeyName w k"
proof -
  obtain k where k: "draw_key env w = Inr (k, w')" "key = BuildKeyName w' k"
    using assms by (auto simp: NextSequenceKey_def and_then_Inr)
  have s: "same_setup w w'" by (rule draws_setup(1) [OF k(1)])
  show ?thesis using that [OF s] k(2) same_setup_name [OF s] by simp
qed

lemma build_values_setup: "build_values env is w acc = Inr (vs, w') \<Longrightarrow> same_setup w w'"
proof (induction "is" arbitrary: w acc)
  case (Cons i "is")
  obtain v w1 where "next_value env w = Inr (v, w1)"
    "build_values env is w1 (acc @ [(''field'' @ to_string i, v)]) = Inr (vs, w')"
    using Cons.prems by (auto simp: and_then_Inr)
  then show ?case using Cons.IH next_value_setup same_setup_trans by blast
qed simp

lemma BuildValues_setup: "BuildValues env w = Inr (vs, w') \<Longrightarrow> same_setup w w'"
  unfolding BuildValues_def by (rule build_values_setup)

lemma BuildUpdate_setup: "BuildUpdate env w = Inr (vs, w') \<Longrightarrow> same_setup w w'"
  by (auto simp: BuildUpdate_def and_then_Inr dest!: NextFieldName_setup next_value_setup intro: same_setup_trans)

lemma write_fields_setup: "write_fields env w = Inr (vs, w') \<Longrightarrow> same_setup w w'"
  by (auto simp: write_fields_def dest: BuildValues_setup BuildUpdate_setup split: if_splits)

lemma read_fields_setup: "read_fields env w = Inr (f, w') \<Longrightarrow> same_setup w w'"
  by (auto simp: read_fields_def and_then_Inr dest: NextFieldName_setup split: if_splits)

section \<open>Transaction keys\<close>

lemma transaction_key_num_range:
  assumes "transaction_key_num env w = Some (Inr (k, w'))"
  shows "same_setup w w' \<and> k \<le> counter_Last (insert_key_sequence w)"
proof -
  let ?P = "\<lambda>env w (res :: fault + (u64 \<times> core_workload)). \<forall>k w'. res = Inr (k, w') \<longrightarrow> same_setup w w' \<and> k \<le> counter_Last (insert_key_sequence w)"
  have "?P env w (Inr (k, w'))"
  proof (rule transaction_key_num.raw_induct [where P = ?P, OF _ assms])
    fix tkn env w and res :: "fault + (u64 \<times> core_workload)"
    assume IH: "\<And>env w res. tkn env w = Some res \<Longrightarrow> ?P env w res"
      and step: "(case draw_transaction_key env w of Inl e \<Rightarrow> Some (Inl e)
        | Inr (key_num, w) \<Rightarrow> if counter_Last (insert_key_sequence w) < key_num then tkn env w
            else Some (Inr (key_num, w))) = Some res"
    show "?P env w res"
    proof (cases "draw_transaction_key env w")
      case (Inl e)
      then show ?thesis using step by auto
    next
      case (Inr kw)
      obtain k1 w1 where kw: "kw = (k1, w1)" by (cases kw) auto
      have s: "same_setup w w1" using draws_setup(2) Inr kw by blast
      then have q: "insert_key_sequence w1 = insert_key_sequence w" by (simp add: same_setup_def)
      show ?thesis
        using step Inr kw IH [of env w1 res] s q same_setup_trans [OF s]
        by (cases "counter_Last (insert_key_sequence w) < k1") auto
    qed
  qed
  then show ?thesis by simp
qed

lemma NextTransactionKey_setup:
  assumes "NextTransactionKey env w = Some (Inr (key, w'))"
  obtains k where "same_setup w w'" "key = BuildKeyName w k" "k \<le> counter_Last (insert_key_sequence w)"
proof -
  obtain res where res: "transaction_key_num env w = Some res"
    "and_then res (\<lambda>(key_num, w). Inr (BuildKeyName w key_num, w)) = Inr (key, w')"
    using assms by (auto simp: NextTransactionKey_def)
  obtain k where k: "res = Inr (k, w')" "key = BuildKeyName w' k" using res(2) by (auto simp: and_then_Inr)
  have s: "same_setup w w'" "k \<le> counter_Last (insert_key_sequence w)"
    using transaction_key_num_range [OF res(1) [unfolded k(1)]] by auto
  show ?thesis using that [OF s(1)] k(2) s(2) same_setup_name [OF s(1)] by simp
qed

section \<open>Transactions over the trace\<close>

definition op_names :: "string set" where
  "op_names = {''READ'', ''UPDATE'', ''INSERT'', ''SCAN''}"

text \<open>What a step adds to the trace: one or two entries, for keys of the workload; other operations than
  insertions are for keys below the sequence number.\<close>

definition entry_of :: "core_workload \<Rightarrow> string \<times> u64 \<Rightarrow> bool" where
  "entry_of w e \<longleftrightarrow> fst e \<in> op_names \<and> (\<exists>k. snd e = key_number w k \<and>
     (fst e = ''INSERT'' \<or> k \<le> counter_Last (insert_key_sequence w)))"

lemma entry_of_setup: "same_setup w w' \<Longrightarrow> entry_of w' e = entry_of w e"
  by (simp add: entry_of_def same_setup_def key_number_def)

definition adds_entries :: "core_workload \<Rightarrow> (string \<times> u64) list \<Rightarrow> disk \<Rightarrow> bool" where
  "adds_entries w ws d \<longleftrightarrow> (\<exists>es. trace_of d (ws @ es) \<and> es \<noteq> [] \<and> length es \<le> 2 \<and>
     (\<forall>e \<in> set es. entry_of w e))"

lemma adds_one:
  "trace_of d (ws @ [(opr, key_number w k)]) \<Longrightarrow> opr \<in> op_names \<Longrightarrow>
     opr = ''INSERT'' \<or> k \<le> counter_Last (insert_key_sequence w) \<Longrightarrow> adds_entries w ws d"
  unfolding adds_entries_def by (intro exI [of _ "[(opr, key_number w k)]"]) (auto simp: entry_of_def)

lemma adds_two:
  "trace_of d (ws @ [(o1, key_number w k)] @ [(o2, key_number w k)]) \<Longrightarrow> o1 \<in> op_names \<Longrightarrow> o2 \<in> op_names \<Longrightarrow>
     k \<le> counter_Last (insert_key_sequence w) \<Longrightarrow> adds_entries w ws d"
  unfolding adds_entries_def
  by (intro exI [of _ "[(o1, key_number w k), (o2, key_number w k)]"]) (auto simp: entry_of_def)

lemma HashtableDB_simps [simp]:
  "db_Read (HashtableDB mw) = hashtable_Read mw" "db_Scan (HashtableDB mw) = hashtable_Scan mw"
  "db_Update (HashtableDB mw) = hashtable_Update mw" "db_Insert (HashtableDB mw) = hashtable_Insert mw"
  "db_Init (HashtableDB mw) d = d" "db_Close (HashtableDB mw) d = d"
  by (simp_all add: HashtableDB_def)

lemma with_key:
  assumes "map_option (\<lambda>res. and_then res f) (NextTransactionKey env w) = Some (Inr y)"
  obtains k w1 where "same_setup w w1" "k \<le> counter_Last (insert_key_sequence w)"
    "f (BuildKeyName w k, w1) = Inr y"
proof -
  obtain key w1 where k: "NextTransactionKey env w = Some (Inr (key, w1))" "f (key, w1) = Inr y"
    using assms by (auto simp: and_then_Inr)
  show ?thesis by (rule NextTransactionKey_setup [OF k(1)]) (use k(2) that in blast)
qed

text \<open>Any transaction that returns leaves the configuration and adds to the trace.\<close>

definition transacts :: "core_workload \<Rightarrow> (string \<times> u64) list \<Rightarrow> int \<times> disk client \<Rightarrow> bool" where
  "transacts w ws res = (case res of (st, w', d') \<Rightarrow> st = kOK \<and> same_setup w w' \<and> adds_entries w ws d')"

lemma read_adds:
  assumes "trace_of d ws" "mw OUTPUT_PATH" "hashtable_Read mw tb (BuildKeyName w k) f d = Inr (st, r, d')"
  shows "st = kOK \<and> trace_of d' (ws @ [(''READ'', key_number w k)])"
  using trace_ops(1) [where mw = mw, OF assms(1,2), of tb w k f] assms(3) by auto

lemma scan_adds:
  assumes "trace_of d ws" "mw OUTPUT_PATH" "hashtable_Scan mw tb (BuildKeyName w k) n f d = Inr (st, r, d')"
  shows "st = kOK \<and> trace_of d' (ws @ [(''SCAN'', key_number w k)])"
  using trace_ops(2) [where mw = mw, OF assms(1,2), of tb w k n f] assms(3) by auto

lemma update_adds:
  assumes "trace_of d ws" "mw OUTPUT_PATH" "hashtable_Update mw tb (BuildKeyName w k) v d = Inr (st, d')"
  shows "st = kOK \<and> trace_of d' (ws @ [(''UPDATE'', key_number w k)])"
  using trace_ops(3) [where mw = mw, OF assms(1,2), of tb w k v] assms(3) by auto

lemma insert_adds:
  assumes "trace_of d ws" "mw OUTPUT_PATH" "hashtable_Insert mw tb (BuildKeyName w k) v d = Inr (st, d')"
  shows "st = kOK \<and> trace_of d' (ws @ [(''INSERT'', key_number w k)]) \<and> d' OUTPUT_PATH \<noteq> None"
  using trace_ops(4) [where mw = mw, OF assms(1,2), of tb w k v] assms(3) by auto

lemmas setups = read_fields_setup write_fields_setup BuildValues_setup draws_setup

lemma TransactionRead_trace:
  assumes t: "trace_of d ws" and mw: "mw OUTPUT_PATH"
    and run: "TransactionRead env (HashtableDB mw) (w, d) = Some (Inr res)"
  shows "transacts w ws res"
  using run unfolding TransactionRead_def prod.case
  by (rule with_key) (auto simp: and_then_Inr transacts_def op_names_def
      dest!: read_adds [where mw = mw, OF t mw] setups intro: adds_one same_setup_trans)

lemma TransactionScan_trace:
  assumes t: "trace_of d ws" and mw: "mw OUTPUT_PATH"
    and run: "TransactionScan env (HashtableDB mw) (w, d) = Some (Inr res)"
  shows "transacts w ws res"
  using run unfolding TransactionScan_def prod.case
  by (rule with_key) (auto simp: and_then_Inr transacts_def op_names_def
      dest!: scan_adds [where mw = mw, OF t mw] setups intro: adds_one same_setup_trans)

lemma TransactionUpdate_trace:
  assumes t: "trace_of d ws" and mw: "mw OUTPUT_PATH"
    and run: "TransactionUpdate env (HashtableDB mw) (w, d) = Some (Inr res)"
  shows "transacts w ws res"
  using run unfolding TransactionUpdate_def prod.case
  by (rule with_key) (auto simp: and_then_Inr transacts_def op_names_def
      dest!: update_adds [where mw = mw, OF t mw] setups intro: adds_one same_setup_trans)

lemma TransactionInsert_trace:
  assumes t: "trace_of d ws" and mw: "mw OUTPUT_PATH"
    and run: "TransactionInsert env (HashtableDB mw) (w, d) = Inr res"
  shows "transacts w ws res"
proof -
  obtain key w1 where k: "NextSequenceKey env w = Inr (key, w1)"
    and r: "and_then (BuildValues env w1) (\<lambda>(vals, w). and_then (hashtable_Insert mw (NextTable w) key vals d)
        (\<lambda>(st, d). Inr (st, w, d))) = Inr res"
    using run by (auto simp: TransactionInsert_def and_then_Inr)
  show ?thesis
    by (rule NextSequenceKey_setup [OF k])
      (use r in \<open>auto simp: and_then_Inr transacts_def op_names_def
        dest!: insert_adds [where mw = mw, OF t mw] setups intro: adds_one same_setup_trans\<close>)
qed

lemma TransactionReadModifyWrite_trace:
  assumes t: "trace_of d ws" and mw: "mw OUTPUT_PATH"
    and run: "TransactionReadModifyWrite env (HashtableDB mw) (w, d) = Some (Inr res)"
  shows "transacts w ws res"
proof -
  let ?f = "\<lambda>(key, w). and_then (read_fields env w) (\<lambda>(flds, w).
      and_then (db_Read (HashtableDB mw) (NextTable w) key flds d) (\<lambda>(_, _, d).
      and_then (write_fields env w) (\<lambda>(values, w).
      and_then (db_Update (HashtableDB mw) (NextTable w) key values d) (\<lambda>(status, d). Inr (status, w, d)))))"
  have run': "map_option (\<lambda>res. and_then res ?f) (NextTransactionKey env w) = Some (Inr res)"
    using run by (simp add: TransactionReadModifyWrite_def)
  obtain k w1 where k: "same_setup w w1" "?f (BuildKeyName w k, w1) = Inr res"
    "k \<le> counter_Last (insert_key_sequence w)"
    by (rule with_key [OF run']) (rule that)
  obtain fl w2 d2 vs w3 st d3 where steps: "read_fields env w1 = Inr (fl, w2)"
    "hashtable_Read mw (NextTable w2) (BuildKeyName w k) fl d = Inr (kOK, [], d2)"
    "write_fields env w2 = Inr (vs, w3)"
    "hashtable_Update mw (NextTable w3) (BuildKeyName w k) vs d2 = Inr (st, d3)" "res = (st, w3, d3)"
    using k(2) by (auto simp: and_then_Inr hashtable_Read_def)
  have t2: "trace_of d2 (ws @ [(''READ'', key_number w k)])"
    using read_adds [where mw = mw, OF t mw steps(2)] by simp
  have "st = kOK" "trace_of d3 (ws @ [(''READ'', key_number w k)] @ [(''UPDATE'', key_number w k)])"
    using update_adds [where mw = mw, OF t2 mw steps(4)] by simp_all
  moreover have "same_setup w w3"
    using k(1) read_fields_setup [OF steps(1)] write_fields_setup [OF steps(3)] same_setup_trans by blast
  ultimately show ?thesis using steps(5) k(3) by (auto simp: transacts_def op_names_def intro: adds_two)
qed

lemma DoTransaction_trace:
  assumes t: "trace_of d ws" and mw: "mw OUTPUT_PATH"
    and run: "DoTransaction env (HashtableDB mw) (w, d) = Some (Inr (ok, w', d'))"
  shows "ok \<and> same_setup w w' \<and> adds_entries w ws d'"
proof -
  let ?D = "HashtableDB mw"
  obtain opr w1 where o: "NextOperation env w = Inr (opr, w1)"
    using run by (auto simp: DoTransaction_def split: sum.splits)
  have s: "same_setup w w1" by (rule NextOperation_setup [OF o])
  obtain st where c: "(case opr of
      READ \<Rightarrow> TransactionRead env ?D (w1, d) | UPDATE \<Rightarrow> TransactionUpdate env ?D (w1, d)
    | INSERT \<Rightarrow> Some (TransactionInsert env ?D (w1, d)) | SCAN \<Rightarrow> TransactionScan env ?D (w1, d)
    | READMODIFYWRITE \<Rightarrow> TransactionReadModifyWrite env ?D (w1, d)) = Some (Inr (st, w', d'))" "ok = (st = kOK)"
    using run o by (auto simp: DoTransaction_def and_then_Inr split: if_splits)
  have "transacts w1 ws (st, w', d')"
    using c(1) TransactionRead_trace [where mw = mw, OF t mw] TransactionUpdate_trace [where mw = mw, OF t mw]
      TransactionInsert_trace [where mw = mw, OF t mw] TransactionScan_trace [where mw = mw, OF t mw]
      TransactionReadModifyWrite_trace [where mw = mw, OF t mw]
    by (cases opr) auto
  then show ?thesis using c(2) s same_setup_trans [OF s] entry_of_setup [OF s]
    by (auto simp: transacts_def adds_entries_def)
qed

text \<open>A run of transactions: at most two entries each, all for keys of the workload.\<close>

lemma transaction_loop_trace:
  assumes mw: "mw OUTPUT_PATH"
  shows "trace_of d ws \<Longrightarrow> transaction_loop env (HashtableDB mw) n oks (w, d) = Some (Inr (res, w', d')) \<Longrightarrow>
    res = oks + int n \<and> same_setup w w' \<and> (\<exists>es. trace_of d' (ws @ es) \<and> n \<le> length es \<and> length es \<le> 2 * n \<and>
      (\<forall>e \<in> set es. entry_of w e))"
proof (induction n arbitrary: w d ws oks)
  case 0
  then show ?case by (auto intro!: exI [of _ "[]"])
next
  case (Suc n)
  obtain ok w1 d1 where step: "DoTransaction env (HashtableDB mw) (w, d) = Some (Inr (ok, w1, d1))"
    and rest: "transaction_loop env (HashtableDB mw) n (oks + of_bool ok) (w1, d1) = Some (Inr (res, w', d'))"
    using Suc.prems(2) by (auto split: option.splits sum.splits prod.splits)
  have one: "ok" "same_setup w w1" "adds_entries w ws d1"
    using DoTransaction_trace [where mw = mw, OF Suc.prems(1) mw step] by auto
  then obtain e1 where e1: "trace_of d1 (ws @ e1)" "e1 \<noteq> []" "length e1 \<le> 2"
    "\<forall>e \<in> set e1. entry_of w e" by (auto simp: adds_entries_def)
  obtain e2 where e2: "trace_of d' (ws @ e1 @ e2)" "n \<le> length e2" "length e2 \<le> 2 * n"
    "\<forall>e \<in> set e2. entry_of w e" "same_setup w1 w'" "res = oks + of_bool ok + int n"
    using Suc.IH [OF e1(1) rest] entry_of_setup [OF one(2)] by auto
  have "0 < length e1" using e1(2) by simp
  then have "Suc n \<le> length (e1 @ e2)" "length (e1 @ e2) \<le> 2 * Suc n"
    using e1(3) e2(2,3) unfolding length_append mult_Suc_right by linarith+
  moreover have "\<forall>e \<in> set (e1 @ e2). entry_of w e"
    using e1(4) e2(4) by auto
  ultimately show ?case using e2(1,5,6) one(1,2) same_setup_trans by (intro conjI exI [of _ "e1 @ e2"]) auto
qed

section \<open>The load phase\<close>

text \<open>Generators that always deliver.\<close>

definition steady :: "generator option \<Rightarrow> bool" where
  "steady g \<longleftrightarrow> (case g of Some (Const _) \<Rightarrow> True | Some (Counter _) \<Rightarrow> True | Some (Uniform _) \<Rightarrow> True | _ \<Rightarrow> False)"

lemma Next_steady:
  "steady (Some g) \<Longrightarrow> \<exists>v g'. Next env basis g r = Inr (v, g', r) \<and> steady (Some g')"
  by (cases g) (auto simp: steady_def Next_def counter_Next_def uniform_Next_def Let_def)

lemma steady_draw:
  assumes "look w = g" "steady g"
  shows "\<exists>v g. draw env look upd w = Inr (v, upd g (w\<lparr>w_rng := w_rng w\<rparr>)) \<and> steady (Some g)"
proof -
  obtain h where h: "g = Some h" using assms(2) by (cases g) (auto simp: steady_def)
  obtain v h' where "Next env (insert_key_sequence w) h (w_rng w) = Inr (v, h', w_rng w)" "steady (Some h')"
    using Next_steady assms(2) h by blast
  then show ?thesis using assms(1) h by (intro exI [of _ v] exI [of _ h']) (simp add: draw_def)
qed

lemma next_value_steady:
  assumes "steady (field_len_generator w)"
  shows "\<exists>v w'. next_value env w = Inr (v, w') \<and> steady (field_len_generator w') \<and> key_generator w' = key_generator w"
proof -
  obtain v g where "draw_field_len env w = Inr (v, w\<lparr>field_len_generator := Some g\<rparr>)" "steady (Some g)"
    using steady_draw [where look = field_len_generator, OF refl assms, of env "\<lambda>g w. w\<lparr>field_len_generator := Some g\<rparr>"]
    unfolding draw_field_len_def by auto
  then show ?thesis by (simp add: next_value_def next_char_def)
qed

lemma build_values_steady:
  assumes "steady (field_len_generator w)"
  shows "\<exists>vs w'. build_values env is w acc = Inr (vs, w') \<and> steady (field_len_generator w') \<and>
    key_generator w' = key_generator w"
  using assms
proof (induction "is" arbitrary: w acc)
  case (Cons i "is")
  obtain v w1 where w1: "next_value env w = Inr (v, w1)" "steady (field_len_generator w1)" "key_generator w1 = key_generator w"
    using next_value_steady [OF Cons.prems] by blast
  then show ?case using Cons.IH [OF w1(2)] by simp
qed simp

lemma BuildValues_steady:
  assumes "steady (field_len_generator w)"
  shows "\<exists>vs w'. BuildValues env w = Inr (vs, w') \<and> steady (field_len_generator w') \<and>
    key_generator w' = key_generator w \<and> same_setup w w'"
  using build_values_steady [OF assms, of env "[0..<nat (field_count w)]" "[]"] BuildValues_setup [of env w]
  by (auto simp: BuildValues_def)

lemma NextSequenceKey_counter:
  "key_generator w = Some (Counter c) \<Longrightarrow>
     NextSequenceKey env w = Inr (BuildKeyName w c, w\<lparr>key_generator := Some (Counter (c + 1))\<rparr>)"
  by (simp add: NextSequenceKey_def draw_key_def draw_def Next_def counter_Next_def BuildKeyName_def key_number_def)

lemma DoInsert_trace:
  assumes t: "trace_of d ws" and mw: "mw OUTPUT_PATH"
    and k: "key_generator w = Some (Counter c)" and f: "steady (field_len_generator w)"
  shows "\<exists>w' d'. DoInsert env (HashtableDB mw) (w, d) = Inr (True, w', d') \<and> same_setup w w' \<and>
    key_generator w' = Some (Counter (c + 1)) \<and> steady (field_len_generator w') \<and>
    trace_of d' (ws @ [(''INSERT'', key_number w c)]) \<and> d' OUTPUT_PATH \<noteq> None"
proof -
  let ?w = "w\<lparr>key_generator := Some (Counter (c + 1))\<rparr>"
  note key = NextSequenceKey_counter [OF k, of env]
  obtain vs w' where v: "BuildValues env ?w = Inr (vs, w')" "steady (field_len_generator w')"
    "key_generator w' = Some (Counter (c + 1))" "same_setup ?w w'"
    using BuildValues_steady [of ?w env] f by auto
  have s: "same_setup w w'" using v(4) by (simp add: same_setup_def)
  obtain d' where d': "hashtable_Insert mw (NextTable w') (BuildKeyName w c) vs d = Inr (kOK, d')"
    "trace_of d' (ws @ [(''INSERT'', key_number w c)])" "d' OUTPUT_PATH \<noteq> None"
    using trace_ops(4) [where mw = mw, OF t mw, of "NextTable w'" w c vs] by blast
  have "DoInsert env (HashtableDB mw) (w, d) = Inr (True, w', d')"
    by (simp add: DoInsert_def key v(1) d'(1))
  then show ?thesis using s v d' by blast
qed

lemma load_loop_trace:
  assumes mw: "mw OUTPUT_PATH"
  shows "trace_of d ws \<Longrightarrow> key_generator w = Some (Counter c) \<Longrightarrow> steady (field_len_generator w) \<Longrightarrow>
    \<exists>w' d'. load_loop env (HashtableDB mw) n oks (w, d) = Inr (oks + int n, w', d') \<and> same_setup w w' \<and>
      key_generator w' = Some (Counter (c + word_of_nat n)) \<and> steady (field_len_generator w') \<and>
      trace_of d' (ws @ map (\<lambda>i. (''INSERT'', key_number w (c + word_of_nat i))) [0..<n]) \<and>
      (n \<noteq> 0 \<longrightarrow> d' OUTPUT_PATH \<noteq> None)"
proof (induction n arbitrary: oks w d ws c)
  case 0
  then show ?case by simp
next
  case (Suc n)
  obtain w1 d1 where step: "DoInsert env (HashtableDB mw) (w, d) = Inr (True, w1, d1)" "same_setup w w1"
    "key_generator w1 = Some (Counter (c + 1))" "steady (field_len_generator w1)"
    "trace_of d1 (ws @ [(''INSERT'', key_number w c)])" "d1 OUTPUT_PATH \<noteq> None"
    using DoInsert_trace [where mw = mw, OF Suc.prems(1) mw Suc.prems(2,3)] by blast
  obtain w2 d2 where rest: "load_loop env (HashtableDB mw) n (oks + 1) (w1, d1) = Inr (oks + 1 + int n, w2, d2)"
    "same_setup w1 w2" "key_generator w2 = Some (Counter (c + 1 + word_of_nat n))" "steady (field_len_generator w2)"
    "trace_of d2 (ws @ (''INSERT'', key_number w c) #
       map (\<lambda>i. (''INSERT'', key_number w (c + 1 + word_of_nat i))) [0..<n])" "n \<noteq> 0 \<longrightarrow> d2 OUTPUT_PATH \<noteq> None"
    using Suc.IH [OF step(5,3,4), of "oks + 1"] same_setup_name [OF step(2)] by auto
  have d2: "d2 OUTPUT_PATH \<noteq> None"
  proof (cases n)
    case 0
    then show ?thesis using rest(1) step(6) by simp
  qed (use rest(6) in simp)
  have "map (\<lambda>i. (''INSERT'', key_number w (c + word_of_nat i))) [0..<Suc n] =
      (''INSERT'', key_number w c) # map (\<lambda>i. (''INSERT'', key_number w (c + 1 + word_of_nat i))) [0..<n]"
    unfolding upt_conv_Cons [OF zero_less_Suc] map_Suc_upt [symmetric] by (simp add: o_def add.assoc)
  then show ?case using step(1) rest d2 same_setup_trans [OF step(2) rest(2)]
    by (simp add: add.assoc add.commute [of 1] del: upt_Suc)
qed

end
