(* ===== verification/Init_Facts.thy ===== *)
theory Init_Facts
  imports Client_Facts
begin

text \<open>What \<open>CoreWorkload::Init\<close> establishes.\<close>

definition request_dist :: "properties \<Rightarrow> string" where
  "request_dist p = GetProperty p REQUEST_DISTRIBUTION_PROPERTY REQUEST_DISTRIBUTION_DEFAULT"

definition field_len_dist :: "properties \<Rightarrow> string" where
  "field_len_dist p = GetProperty p FIELD_LENGTH_DISTRIBUTION_PROPERTY FIELD_LENGTH_DISTRIBUTION_DEFAULT"

text \<open>The proportion of an operation.\<close>

fun proportion :: "properties \<Rightarrow> operation \<Rightarrow> fault + double" where
  "proportion p READ = stod (GetProperty p READ_PROPORTION_PROPERTY READ_PROPORTION_DEFAULT)"
| "proportion p UPDATE = stod (GetProperty p UPDATE_PROPORTION_PROPERTY UPDATE_PROPORTION_DEFAULT)"
| "proportion p INSERT = stod (GetProperty p INSERT_PROPORTION_PROPERTY INSERT_PROPORTION_DEFAULT)"
| "proportion p SCAN = stod (GetProperty p SCAN_PROPORTION_PROPERTY SCAN_PROPORTION_DEFAULT)"
| "proportion p READMODIFYWRITE = stod (GetProperty p READMODIFYWRITE_PROPORTION_PROPERTY READMODIFYWRITE_PROPORTION_DEFAULT)"

definition positive_ops :: "properties \<Rightarrow> (operation \<times> double) list \<Rightarrow> bool" where
  "positive_ops p ops \<longleftrightarrow> (\<forall>(opr, d) \<in> set ops. proportion p opr = Inr d \<and> dlt (double_rat 0) d)"

lemma add_operation_positive:
  "positive_ops p (dg_values g) \<Longrightarrow> proportion p opr = Inr d \<Longrightarrow> positive_ops p (dg_values (add_operation opr d g))"
  by (auto simp: positive_ops_def add_operation_def AddValue_def Let_def)

lemma no_draw: "Inr (h, w) = Inr (g, w') \<Longrightarrow> g = h \<and> (\<exists>r. w' = w\<lparr>w_rng := r\<rparr>)"
  by (auto intro!: exI [of _ "w_rng w"])

lemma new_Zipfian_keeps:
  assumes "new_Zipfian env lo hi w = Inr (g, w')"
  shows "\<exists>r. w' = w\<lparr>w_rng := r\<rparr>"
  using assms by (auto simp: new_Zipfian_def and_then_Inr)

lemma GetFieldLenGenerator_keeps:
  assumes "GetFieldLenGenerator env p w = Inr (g, w')"
  shows "(\<exists>r. w' = w\<lparr>w_rng := r\<rparr>) \<and> (field_len_dist p \<noteq> ''zipfian'' \<longrightarrow> steady (Some g))"
  using assms unfolding GetFieldLenGenerator_def field_len_dist_def [symmetric] Let_def
  apply (elim and_then_elim if_elim)
     apply (drule no_draw, simp add: steady_def)
    apply (drule no_draw, simp add: steady_def)
   apply (drule new_Zipfian_keeps, simp)
  apply simp
  done

lemma with_rng:
  assumes "and_then m (\<lambda>(g, r). Inr (f g, w\<lparr>w_rng := r\<rparr>)) = Inr (h, w')"
  shows "\<exists>r. w' = w\<lparr>w_rng := r\<rparr>"
  using assms by (auto simp: and_then_Inr)

lemma make_key_chooser_keeps:
  assumes "make_key_chooser env p q w = Inr (g, w')"
  shows "(\<exists>r. w' = w\<lparr>w_rng := r\<rparr>) \<and>
    (request_dist p = ''uniform'' \<longrightarrow> g = Uniform (UniformGenerator env 0 (record_count w - 1)))"
  using assms unfolding make_key_chooser_def request_dist_def [symmetric] Let_def
  apply (elim if_elim)
     apply (drule no_draw, simp)
    apply (erule and_then_elim, drule with_rng, simp only:, simp)
   apply (drule with_rng, simp)
  apply simp
  done

lemma make_scan_len_chooser_keeps:
  assumes "make_scan_len_chooser env dst n w = Inr (g, w')"
  shows "\<exists>r. w' = w\<lparr>w_rng := r\<rparr>"
  using assms unfolding make_scan_len_chooser_def
  apply (elim if_elim)
    apply (drule no_draw, simp)
   apply (erule new_Zipfian_keeps)
  apply simp
  done

lemma add_operations_positive:
  assumes "proportion p READ = Inr r" "proportion p UPDATE = Inr u" "proportion p INSERT = Inr i"
    "proportion p SCAN = Inr s" "proportion p READMODIFYWRITE = Inr m"
  shows "positive_ops p (dg_values (add_operations r u i s m DiscreteGenerator))"
proof -
  have "positive_ops p (dg_values DiscreteGenerator)" by (simp add: positive_ops_def DiscreteGenerator_def)
  then show ?thesis unfolding add_operations_def Let_def
    by (intro add_operation_positive assms)
qed

lemma Init_setup:
  assumes "Init env p w0 = Inr w" "op_chooser w0 = DiscreteGenerator"
  shows "\<exists>start. stoi (GetProperty p INSERT_START_PROPERTY INSERT_START_DEFAULT) = Inr start
    \<and> key_generator w = Some (Counter (word_of_int start))
    \<and> insert_key_sequence w = record_count w
    \<and> (ordered_inserts w \<longleftrightarrow> GetProperty p INSERT_ORDER_PROPERTY INSERT_ORDER_DEFAULT \<noteq> ''hashed'')
    \<and> (request_dist p = ''uniform'' \<longrightarrow>
      key_chooser w = Some (Uniform (UniformGenerator env 0 (record_count w - 1))))
    \<and> (field_len_dist p \<noteq> ''zipfian'' \<longrightarrow> steady (field_len_generator w))
    \<and> positive_ops p (dg_values (op_chooser w))"
  using assms(1) unfolding Init_def Let_def
  apply (elim and_then_elim case_prod_elim)
  apply hypsubst
  apply (drule make_scan_len_chooser_keeps make_key_chooser_keeps)+
  apply (drule GetFieldLenGenerator_keeps)
  apply (elim exE conjE)
  apply hypsubst
  apply (drule Inr_inject)
  apply (erule subst [where t = w])
  apply (rule exI, intro conjI, assumption)
       apply simp
      apply simp
     apply simp
    apply simp
   apply (simp add: steady_def)
  apply (simp add: assms(2) add_operations_positive)
  done

end
