(* ===== verification/Ycsb_Samples.thy ===== *)
theory Ycsb_Samples
  imports Init_Facts Float_Error
begin

text \<open>
  A configuration of the workload generator, and what its initialisation gives: five records of two
  fields, all operations reads. It instantiates the properties of the generator.
\<close>

definition sample_env :: randomness where
  "sample_env = \<lparr>rand_double = (\<lambda>_. double_rat 0), rand_int = (\<lambda>i. i), rand_uniform = (\<lambda>lo hi i. lo),
     pow = (\<lambda>_ _. double_rat 1)\<rparr>"

definition no_rng :: rng where "no_rng = \<lparr>doubles_used = 0, ints_used = 0\<rparr>"

definition sample_properties :: properties where
  "sample_properties = [''recordcount'' \<mapsto> ''5'', ''fieldcount'' \<mapsto> ''2'', ''fieldlength'' \<mapsto> ''3'',
     ''readproportion'' \<mapsto> ''1'', ''updateproportion'' \<mapsto> ''0'']"

lemmas property_names =
  TABLENAME_PROPERTY_def TABLENAME_DEFAULT_def FIELD_COUNT_PROPERTY_def
  FIELD_COUNT_DEFAULT_def FIELD_LENGTH_DISTRIBUTION_PROPERTY_def FIELD_LENGTH_DISTRIBUTION_DEFAULT_def
  FIELD_LENGTH_PROPERTY_def FIELD_LENGTH_DEFAULT_def READ_ALL_FIELDS_PROPERTY_def
  READ_ALL_FIELDS_DEFAULT_def WRITE_ALL_FIELDS_PROPERTY_def WRITE_ALL_FIELDS_DEFAULT_def
  READ_PROPORTION_PROPERTY_def READ_PROPORTION_DEFAULT_def UPDATE_PROPORTION_PROPERTY_def
  UPDATE_PROPORTION_DEFAULT_def INSERT_PROPORTION_PROPERTY_def INSERT_PROPORTION_DEFAULT_def
  SCAN_PROPORTION_PROPERTY_def SCAN_PROPORTION_DEFAULT_def READMODIFYWRITE_PROPORTION_PROPERTY_def
  READMODIFYWRITE_PROPORTION_DEFAULT_def REQUEST_DISTRIBUTION_PROPERTY_def REQUEST_DISTRIBUTION_DEFAULT_def
  ZERO_PADDING_PROPERTY_def ZERO_PADDING_DEFAULT_def MAX_SCAN_LENGTH_PROPERTY_def
  MAX_SCAN_LENGTH_DEFAULT_def SCAN_LENGTH_DISTRIBUTION_PROPERTY_def SCAN_LENGTH_DISTRIBUTION_DEFAULT_def
  INSERT_ORDER_PROPERTY_def INSERT_ORDER_DEFAULT_def INSERT_START_PROPERTY_def
  INSERT_START_DEFAULT_def RECORD_COUNT_PROPERTY_def OPERATION_COUNT_PROPERTY_def

lemma sample_texts:
  "GetProperty sample_properties FIELD_COUNT_PROPERTY FIELD_COUNT_DEFAULT = ''2''"
  "GetProperty sample_properties FIELD_LENGTH_PROPERTY FIELD_LENGTH_DEFAULT = ''3''"
  "GetProperty sample_properties RECORD_COUNT_PROPERTY [] = ''5''"
  "GetProperty sample_properties ZERO_PADDING_PROPERTY ZERO_PADDING_DEFAULT = ''1''"
  "GetProperty sample_properties MAX_SCAN_LENGTH_PROPERTY MAX_SCAN_LENGTH_DEFAULT = ''1000''"
  "GetProperty sample_properties INSERT_START_PROPERTY INSERT_START_DEFAULT = ''0''"
  "GetProperty sample_properties READ_ALL_FIELDS_PROPERTY READ_ALL_FIELDS_DEFAULT = ''true''"
  "GetProperty sample_properties WRITE_ALL_FIELDS_PROPERTY WRITE_ALL_FIELDS_DEFAULT = ''false''"
  "GetProperty sample_properties READ_PROPORTION_PROPERTY READ_PROPORTION_DEFAULT = ''1''"
  "GetProperty sample_properties UPDATE_PROPORTION_PROPERTY UPDATE_PROPORTION_DEFAULT = ''0''"
  "GetProperty sample_properties INSERT_PROPORTION_PROPERTY INSERT_PROPORTION_DEFAULT = ''0.0''"
  "GetProperty sample_properties SCAN_PROPORTION_PROPERTY SCAN_PROPORTION_DEFAULT = ''0.0''"
  "GetProperty sample_properties READMODIFYWRITE_PROPORTION_PROPERTY READMODIFYWRITE_PROPORTION_DEFAULT = ''0.0''"
  "GetProperty sample_properties FIELD_LENGTH_DISTRIBUTION_PROPERTY FIELD_LENGTH_DISTRIBUTION_DEFAULT = ''constant''"
  "GetProperty sample_properties REQUEST_DISTRIBUTION_PROPERTY REQUEST_DISTRIBUTION_DEFAULT = ''uniform''"
  "GetProperty sample_properties SCAN_LENGTH_DISTRIBUTION_PROPERTY SCAN_LENGTH_DISTRIBUTION_DEFAULT = ''uniform''"
  "GetProperty sample_properties INSERT_ORDER_PROPERTY INSERT_ORDER_DEFAULT = ''hashed''"
  by (simp_all add: GetProperty_def sample_properties_def property_names)

lemma sample_stoi: "stoi ''0'' = Inr 0" "stoi ''1'' = Inr 1" "stoi ''2'' = Inr 2" "stoi ''3'' = Inr 3"
    "stoi ''5'' = Inr 5" "stoi ''1000'' = Inr 1000"
  by (simp_all add: text_eval)

lemma small_double [simp]:
  "valof (double_rat 0) = 0" "valof (double_rat 1) = 1" "is_fin (double_rat 0)" "is_fin (double_rat 1)"
  "\<not> is_nan (double_rat q)" "\<not> dsign (double_rat 0)" "\<not> dsign (double_rat 1)"
  using rnd_int [of 0] rnd_int [of 1] is_fin_round_60 [of 0] is_fin_round_60 [of 1]
  by (simp_all add: double_rat_def round_double_parts)

lemma stod_small:
  assumes "parse_decimal s = Some (False, of_int i)" "0 \<le> i" "i < 9007199254740992"
  shows "stod s = Inr (double_rat (of_int i))"
proof -
  let ?d = "round_double False (of_int i)"
  have "valof ?d = of_int i" "is_fin ?d" using rnd_int [of i] assms(2,3) by (simp_all add: is_fin_round_60)
  then show ?thesis using assms fin_imp [of ?d] by (simp add: stod_def double_rat_def)
qed

lemma sample_stod: "stod ''1'' = Inr (double_rat 1)" "stod ''0'' = Inr (double_rat 0)" "stod ''0.0'' = Inr (double_rat 0)"
proof -
  have "parse_decimal ''1'' = Some (False, of_int 1)" "parse_decimal ''0'' = Some (False, of_int 0)"
    "parse_decimal ''0.0'' = Some (False, of_int 0)"
    by (simp_all add: parse_decimal_def parse_exponent_def text_eval to_lower_def)
  then show "stod ''1'' = Inr (double_rat 1)" "stod ''0'' = Inr (double_rat 0)" "stod ''0.0'' = Inr (double_rat 0)"
    using stod_small [of "''1''" 1] stod_small [of "''0''" 0] stod_small [of "''0.0''" 0] by simp_all
qed

lemma sample_bool: "StrToBool ''true'' = Inr True" "StrToBool ''false'' = Inr False"
  by code_simp+

lemma sample_ops:
  "add_operations (double_rat 1) (double_rat 0) (double_rat 0) (double_rat 0) (double_rat 0) DiscreteGenerator =
     AddValue READ (double_rat 1) DiscreteGenerator"
  by (simp add: add_operations_def add_operation_def dlt_def)

lemma sample_ops_sum: "AddValue READ (double_rat 1) DiscreteGenerator =
    \<lparr>dg_values = [(READ, double_rat 1)], dg_sum = double_rat 1, dg_last = Some READ\<rparr>"
proof -
  have "dadd (double_rat 0) (double_rat 1) = double_rat 1" by (simp add: dadd_fin) (simp add: double_rat_def)
  then show ?thesis by (simp add: AddValue_def DiscreteGenerator_def)
qed

lemma sample_NextOperation:
  assumes "op_chooser w = AddValue READ (double_rat 1) DiscreteGenerator"
  shows "NextOperation sample_env w = Inr (READ, w\<lparr>w_rng := snd (RandomDouble sample_env (w_rng w))\<rparr>)"
proof -
  have "ddiv (double_rat 1) (double_rat 1) = double_rat 1" by (simp add: ddiv_fin) (simp add: double_rat_def)
  then have "discrete_choose [(READ, double_rat 1)] (double_rat 1) (double_rat 0) = Some READ" by (simp add: dlt_def)
  then show ?thesis using assms
    by (simp add: NextOperation_def discrete_Next_def RandomDouble_def sample_ops_sum sample_env_def and_then_def)
qed

lemma sample_Init:
  "\<exists>w. Init sample_env sample_properties (CoreWorkload 0 no_rng) = Inr w \<and> record_count w = 5 \<and> field_count w = 2 \<and>
     zero_padding w = 1 \<and> read_all_fields w \<and> \<not> ordered_inserts w \<and> w_rng w = no_rng \<and>
     op_chooser w = AddValue READ (double_rat 1) DiscreteGenerator"
  unfolding Init_def Let_def sample_texts sample_stoi sample_stod sample_bool and_then_simps
    GetFieldLenGenerator_def make_key_chooser_def make_scan_len_chooser_def
  by (simp only: Init_def Let_def and_then_simps prod.case if_True refl if_False
    sum.inject ex_simps HOL.simp_thms)
    (simp add: CoreWorkload_def sample_ops)

end
