(* ===== verification/Driver_Facts.thy ===== *)
theory Driver_Facts
  imports Client_Facts LearnedKV_Sessions
begin

text \<open>Running a trace on a store, in either of its modes, and the values a workload builds.\<close>

section \<open>The log of a trace\<close>

definition written :: "(string \<times> u64) list \<Rightarrow> rec list" where
  "written ws = map (\<lambda>(opr, k). (k, gen_value k 1016)) (filter (\<lambda>(opr, k). opr \<noteq> ''READ'') ws)"

lemma written_simps [simp]:
  "written [] = []"
  "written ((opr, k) # ws) = (if opr = ''READ'' then [] else [(k, gen_value k 1016)]) @ written ws"
  by (simp_all add: written_def)

lemma sizes_words: "word_of_nat KEY_SIZE = key_size" "word_of_nat VALUE_SIZE = value_size"
  by (simp_all add: key_size_def value_size_def)

lemma store_keeps_counters:
  "store_keeps R cfg view (s\<lparr>learned_index_count := l, gc_count := n, gc_write_size := m\<rparr>) recs =
     store_keeps R cfg view s recs"
  by (simp add: store_keeps_def kv_inv_def)

lemma store_keeps_report:
  "store_keeps R cfg view (store (print_throughtput s)) recs = store_keeps R cfg view (store s) recs"
  by (simp add: print_throughtput_def store_keeps_counters)

lemma phase_store:
  "kvnum \<noteq> 0 \<Longrightarrow> \<exists>s'. phase kvnum i s = Inr s' \<and> store_keeps R cfg view (store s') recs = store_keeps R cfg view (store s) recs"
  by (simp add: phase_def store_keeps_report)

text \<open>The requests of a trace.\<close>

definition trace_requests :: "(string \<times> u64) list \<Rightarrow> request list" where
  "trace_requests ws = map (\<lambda>(opr, k). if opr = ''READ'' then Get k [] else Put k (gen_value k 1016)) ws"

lemma trace_requests_simps [simp]:
  "trace_requests [] = []"
  "trace_requests ((opr, k) # ws) = (if opr = ''READ'' then Get k [] else Put k (gen_value k 1016)) # trace_requests ws"
  by (simp_all add: trace_requests_def)

lemma sized_trace: "sized (trace_requests ws)"
  by (induction ws) (auto simp: gen_value_def)

lemma run_operation_log:
  assumes k: "store_keeps R cfg view (store s) recs" and opr: "opr \<in> {''READ'', ''UPDATE'', ''INSERT''}"
    and ok: "session_ok cfg (trace_requests [(opr, key)]) recs"
  shows "\<exists>s'. run_operation R cfg opr key s = Some (Inr (True, s')) \<and>
    store_keeps R cfg view (store s') (foldl (spec_put (capacity cfg)) recs (written [(opr, key)]))"
proof (cases "opr = ''READ''")
  case True
  have "session_ok cfg [Get key []] recs" using ok True by simp
  from store_serve_one [OF k this] obtain t where t: "store_keeps R cfg view t recs"
    "\<exists>res v. get_rec R cfg key [] (store s) = Inr (res, v, t)"
    by (auto simp: and_then_Inr)
  then show ?thesis using True unfolding run_operation_def sizes_words by auto
next
  case False
  have "session_ok cfg [Put key (gen_value key 1016)] recs" using ok False by simp
  from store_serve_one [OF k this] obtain t where "put_rec R cfg key (gen_value key 1016) (store s) = Inr (0, t)"
    "store_keeps R cfg view t (spec_put (capacity cfg) recs (key, gen_value key 1016))"
    by (auto simp: and_then_Inr)
  then show ?thesis using False opr unfolding run_operation_def sizes_words by auto
qed

lemma run_loop_log:
  assumes kvnum: "kvnum \<noteq> 0"
  shows "store_keeps R cfg view (store s) recs \<Longrightarrow> session_ok cfg (trace_requests ws) recs \<Longrightarrow>
    \<forall>(opr, k) \<in> set ws. opr \<in> {''READ'', ''UPDATE'', ''INSERT''} \<Longrightarrow>
    \<exists>s'. run_loop R cfg kvnum i ws s = Some (Inr s') \<and>
      store_keeps R cfg view (store s') (foldl (spec_put (capacity cfg)) recs (written ws))"
proof (induction ws arbitrary: i s recs)
  case Nil
  then show ?case by simp
next
  case (Cons opk ws)
  obtain opr k where op: "opk = (opr, k)" by (cases opk)
  obtain s1 where s1: "phase kvnum i s = Inr s1" "store_keeps R cfg view (store s1) recs"
    using phase_store [OF kvnum, of i s R cfg view recs] Cons.prems(1) by auto
  let ?recs = "foldl (spec_put (capacity cfg)) recs (written [(opr, k)])"
  have o: "opr \<in> {''READ'', ''UPDATE'', ''INSERT''}" and rest: "\<forall>(opr, k) \<in> set ws. opr \<in> {''READ'', ''UPDATE'', ''INSERT''}"
    using Cons.prems(3) op by auto
  have one: "session_ok cfg (trace_requests [(opr, k)]) recs" and ok: "session_ok cfg (trace_requests ws) ?recs"
    using Cons.prems(2) op by (cases "opr = ''READ''"; simp)+
  obtain s2 where s2: "run_operation R cfg opr k s1 = Some (Inr (True, s2))" "store_keeps R cfg view (store s2) ?recs"
    using run_operation_log [OF s1(2) o one] by blast
  from Cons.IH [OF s2(2) ok rest] show ?case using s1(1) s2(1) op
    by (cases "opr = ''READ''") auto
qed

text \<open>Only records that were put are in the log.\<close>

lemma set_live_subset: "set (live recs) \<subseteq> set recs"
proof
  fix r
  assume "r \<in> set (live recs)"
  then have "r \<in> set (collected recs)" by simp
  then have "map_of (collected recs) (fst r) = Some (snd r)" using distinct_collected [of recs] by simp
  then have "current recs (fst r) = Some (snd r)" by (simp add: map_of_collected)
  then show "r \<in> set recs" by (auto simp: current_def dest: map_of_SomeD)
qed

lemma set_spec_puts: "set (foldl (spec_put n) recs rs) \<subseteq> set recs \<union> set rs"
proof (induction rs arbitrary: recs)
  case (Cons r rs)
  have "set (spec_put n recs r) \<subseteq> insert r (set recs)"
  proof -
    have "set (butlast (live recs)) \<subseteq> set (live recs)" by (auto dest: in_set_butlastD)
    then show ?thesis using set_live_subset [of recs] unfolding spec_put_def by (auto simp del: set_live)
  qed
  then show ?case using Cons [of "spec_put n recs r"] by auto
qed simp

lemma current_written:
  assumes "current (foldl (spec_put n) [] (written ws)) k = Some x"
  shows "x = gen_value k 1016"
proof -
  have "(k, x) \<in> set (foldl (spec_put n) [] (written ws))"
    using assms by (auto simp: current_def dest: map_of_SomeD)
  then have "(k, x) \<in> set (written ws)" using set_spec_puts by fastforce
  then show ?thesis by (auto simp: written_def)
qed

section \<open>The values of a workload\<close>

definition printable_pair :: "string \<times> string \<Rightarrow> bool" where
  "printable_pair p \<longleftrightarrow> (\<exists>i n r. p = (''field'' @ to_string i, replicate n (RandomPrintChar r)))"

lemma next_value_shape: "next_value env w = Inr (v, w') \<Longrightarrow> \<exists>n r. v = replicate n (RandomPrintChar r)"
  by (auto simp: next_value_def next_char_def and_then_Inr)

lemma build_values_shape:
  "build_values env is w acc = Inr (vs, w') \<Longrightarrow>
     \<exists>us. vs = acc @ us \<and> map fst us = map (\<lambda>i. ''field'' @ to_string i) is \<and> (\<forall>p \<in> set us. printable_pair p)"
proof (induction "is" arbitrary: w acc)
  case Nil
  then show ?case by simp
next
  case (Cons i "is")
  obtain v w1 where v: "next_value env w = Inr (v, w1)"
    "build_values env is w1 (acc @ [(''field'' @ to_string i, v)]) = Inr (vs, w')"
    using Cons.prems by (auto simp: and_then_Inr)
  obtain us where us: "vs = acc @ [(''field'' @ to_string i, v)] @ us"
    "map fst us = map (\<lambda>i. ''field'' @ to_string i) is" "\<forall>p \<in> set us. printable_pair p"
    using Cons.IH [OF v(2)] by auto
  have "printable_pair (''field'' @ to_string i, v)"
    using next_value_shape [OF v(1)] by (auto simp: printable_pair_def)
  then show ?case using us by (intro exI [of _ "(''field'' @ to_string i, v) # us"]) simp
qed

lemma BuildValues_shape:
  assumes "BuildValues env w = Inr (vs, w')"
  shows "map fst vs = map (\<lambda>i. ''field'' @ to_string i) [0..<nat (field_count w)] \<and> (\<forall>p \<in> set vs. printable_pair p)"
  using build_values_shape [OF assms [unfolded BuildValues_def]] by auto

lemma BuildUpdate_shape: "BuildUpdate env w = Inr (vs, w') \<Longrightarrow> \<forall>p \<in> set vs. printable_pair p"
  by (auto simp: BuildUpdate_def NextFieldName_def and_then_Inr printable_pair_def dest!: next_value_shape)

lemma printable_no_space:
  assumes "printable_pair p"
  shows "CHR '' '' \<notin> set (fst p)" "CHR '' '' \<notin> set (snd p)"
proof -
  have "CHR '' '' \<notin> set (to_string i)" for i using to_string_digits digit_not_newline(2) by blast
  then show "CHR '' '' \<notin> set (fst p)" using assms by (auto simp: printable_pair_def)
  obtain i n r where "p = (''field'' @ to_string i, replicate n (RandomPrintChar r))"
    using assms unfolding printable_pair_def by blast
  moreover have "CHR '' '' \<noteq> RandomPrintChar r" using RandomPrintChar_print(2) [of r] by (rule not_sym)
  ultimately show "CHR '' '' \<notin> set (snd p)" by (simp add: in_set_replicate)
qed

section \<open>Redis commands\<close>

definition pair_words :: "pairs \<Rightarrow> string" where
  "pair_words ps = concat (map (\<lambda>(f, v). '' '' @ f @ '' '' @ v) ps)"

lemma update_pairs_printable:
  "\<forall>p \<in> set ps. printable_pair p \<Longrightarrow> update_pairs ps cmd = Inr (cmd @ pair_words ps)"
  by (induction ps arbitrary: cmd) (auto simp: pair_words_def printable_no_space split: prod.splits)

lemma length_pair_words: "length (pair_words ps) = sum_list (map (\<lambda>p. length (fst p) + length (snd p) + 2) ps)"
  by (induction ps) (auto simp: pair_words_def)

lemma redis_update_printable:
  "\<forall>p \<in> set ps. printable_pair p \<Longrightarrow> redis_update_cmd key ps = Inr (''HMSET '' @ key @ pair_words ps)"
  by (simp add: redis_update_cmd_def update_pairs_printable length_pair_words)

text \<open>Splitting at spaces gives the words back.\<close>

fun split_words :: "string \<Rightarrow> string list" where
  "split_words [] = [[]]"
| "split_words (c # s) =
     (if c = CHR '' '' then [] # split_words s
      else (case split_words s of [] \<Rightarrow> [[c]] | l # ls \<Rightarrow> (c # l) # ls))"

lemma split_words_ne [simp]: "split_words s \<noteq> []"
  by (induction s) (auto split: list.splits)

lemma split_words_single: "CHR '' '' \<notin> set a \<Longrightarrow> split_words a = [a]"
  by (induction a) auto

lemma split_words_append: "CHR '' '' \<notin> set a \<Longrightarrow> split_words (a @ CHR '' '' # s) = a # split_words s"
  by (induction a) (auto split: list.splits)

lemma split_pair_words:
  "CHR '' '' \<notin> set a \<Longrightarrow> \<forall>p \<in> set ps. printable_pair p \<Longrightarrow>
     split_words (a @ pair_words ps) = a # concat (map (\<lambda>(f, v). [f, v]) ps)"
proof (induction ps arbitrary: a)
  case Nil
  then show ?case by (simp add: pair_words_def split_words_single)
next
  case (Cons p ps)
  obtain f v where p: "p = (f, v)" by (cases p)
  have "CHR '' '' \<notin> set f" "CHR '' '' \<notin> set v" using Cons.prems(2) printable_no_space [of p] p by auto
  then show ?case using Cons.IH [of v] Cons.prems
    by (simp add: p pair_words_def split_words_append)
qed

end
