(* ===== verification/Ycsb_Hashtable.thy ===== *)
theory Ycsb_Hashtable
  imports Prelude "HOL-Library.Multiset"
begin

text \<open>
  The string hash tables of \<open>YCSB-C/lib\<close>: hashed strings (\<open>string.h\<close>), the interface
  \<open>StringHashtable\<close>, and its implementation over \<open>std::unordered_map\<close> with and without a lock. The
  values are pointers, \<open>None\<close> being null; a null key is \<open>None\<close> too.
\<close>

section \<open>Hashed strings\<close>

text \<open>A C string: the characters before the terminating zero.\<close>

type_synonym cstring = string

text \<open>Characters are signed and extended to 64 bits.\<close>

definition char_u64 :: "char \<Rightarrow> u64" where
  "char_u64 c = scast (of_char c :: u8)"

fun sdbm_loop :: "cstring \<Rightarrow> u64 \<Rightarrow> u64" where
  "sdbm_loop [] hash = hash"
| "sdbm_loop (c # cs) hash =
     sdbm_loop cs (char_u64 c + push_bit 6 hash + push_bit 16 hash - hash)"

definition SDBMHash :: "cstring \<Rightarrow> u64" where
  "SDBMHash cs = sdbm_loop cs 0"

record hstring =
  hash_of :: u64
  value_of :: cstring
  len_of :: nat

definition set_value :: "cstring \<Rightarrow> hstring" where
  "set_value v = \<lparr>hash_of = SDBMHash v, value_of = v, len_of = length v\<rparr>"

definition Wrap :: "cstring option \<Rightarrow> fault + hstring" where
  "Wrap v = (case v of None \<Rightarrow> Inl AssertFail | Some v \<Rightarrow> Inr (set_value v))"

definition Copy :: "cstring option \<Rightarrow> fault + hstring" where
  "Copy v = (case v of None \<Rightarrow> Inl AssertFail | Some v \<Rightarrow>
     (let h = set_value v in if len_of h \<noteq> length v then Inl AssertFail else Inr h))"

definition hstring_eq :: "hstring \<Rightarrow> hstring \<Rightarrow> bool" where
  "hstring_eq a b = (if hash_of a \<noteq> hash_of b then False else value_of a = value_of b)"

section \<open>The table\<close>

text \<open>
  A \<open>std::unordered_map\<close> is the list of its entries in the order of iteration. Where a new entry is
  placed, and how the others move when the table grows, is up to the library: the parameter
  \<open>place\<close>, which is only known to add the entry.
\<close>

type_synonym 'v table = "(hstring \<times> 'v option) list"

definition places :: "('v table \<Rightarrow> hstring \<times> 'v option \<Rightarrow> 'v table) \<Rightarrow> bool" where
  "places place \<longleftrightarrow> (\<forall>t e. mset (place t e) = add_mset e (mset t))"

definition find_entry :: "hstring \<Rightarrow> 'v table \<Rightarrow> (hstring \<times> 'v option) option" where
  "find_entry k t = find (\<lambda>e. hstring_eq (fst e) k) t"

definition stl_Get :: "'v table \<Rightarrow> cstring option \<Rightarrow> fault + 'v option" where
  "stl_Get t key =
     and_then (Wrap key) (\<lambda>k.
       case find_entry k t of None \<Rightarrow> Inr None | Some e \<Rightarrow> Inr (snd e))"

definition stl_Insert ::
  "('v table \<Rightarrow> hstring \<times> 'v option \<Rightarrow> 'v table) \<Rightarrow> 'v table \<Rightarrow> cstring option \<Rightarrow> 'v option
     \<Rightarrow> fault + (bool \<times> 'v table)" where
  "stl_Insert place t key v =
     (if key = None then Inr (False, t)
      else and_then (Copy key) (\<lambda>k.
        case find_entry k t of Some e \<Rightarrow> Inr (False, t) | None \<Rightarrow> Inr (True, place t (k, v))))"

definition stl_Update :: "'v table \<Rightarrow> cstring option \<Rightarrow> 'v option \<Rightarrow> fault + ('v option \<times> 'v table)" where
  "stl_Update t key v =
     and_then (Wrap key) (\<lambda>k.
       case find_entry k t of
         None \<Rightarrow> Inr (None, t)
       | Some e \<Rightarrow> Inr (snd e, map (\<lambda>x. if hstring_eq (fst x) k then (fst x, v) else x) t))"

definition stl_Remove :: "'v table \<Rightarrow> cstring option \<Rightarrow> fault + ('v option \<times> 'v table)" where
  "stl_Remove t key =
     and_then (Wrap key) (\<lambda>k.
       case find_entry k t of
         None \<Rightarrow> Inr (None, t)
       | Some e \<Rightarrow> Inr (snd e, filter (\<lambda>x. \<not> hstring_eq (fst x) k) t))"

text \<open>From the entry of the key on, or from the first one, at most \<open>n\<close> entries.\<close>

definition stl_Entries :: "'v table \<Rightarrow> cstring option \<Rightarrow> nat \<Rightarrow> (cstring \<times> 'v option) list" where
  "stl_Entries t key n =
     (let from = (case key of None \<Rightarrow> t | Some v \<Rightarrow> dropWhile (\<lambda>e. \<not> hstring_eq (fst e) (set_value v)) t)
      in map (\<lambda>(k, v). (value_of k, v)) (take n from))"

definition stl_Size :: "'v table \<Rightarrow> nat" where
  "stl_Size t = length t"

text \<open>The variant with a lock runs each of these as one atomic step.\<close>

definition lock_Get :: "'v table \<Rightarrow> cstring option \<Rightarrow> fault + 'v option" where
  "lock_Get t key = stl_Get t key"
definition lock_Insert where "lock_Insert place t key v = stl_Insert place t key v"
definition lock_Update where "lock_Update t key v = stl_Update t key v"
definition lock_Remove where "lock_Remove t key = stl_Remove t key"
definition lock_Entries where "lock_Entries t key n = stl_Entries t key n"
definition lock_Size where "lock_Size t = stl_Size t"

section \<open>The contract of the interface\<close>

datatype 'v table_op =
    OGet cstring
  | OInsert cstring "'v option"
  | OUpdate cstring "'v option"
  | ORemove cstring

datatype 'v answer = Ok bool | Old "'v option"

text \<open>What the operations do to a map, and what they answer.\<close>

fun map_op :: "'v table_op \<Rightarrow> (cstring \<rightharpoonup> 'v option) \<Rightarrow> 'v answer \<times> (cstring \<rightharpoonup> 'v option)" where
  "map_op (OGet k) m = (Old (case m k of None \<Rightarrow> None | Some v \<Rightarrow> v), m)"
| "map_op (OInsert k v) m = (if m k = None then (Ok True, m(k \<mapsto> v)) else (Ok False, m))"
| "map_op (OUpdate k v) m = (case m k of None \<Rightarrow> (Old None, m) | Some u \<Rightarrow> (Old u, m(k \<mapsto> v)))"
| "map_op (ORemove k) m = (case m k of None \<Rightarrow> (Old None, m) | Some u \<Rightarrow> (Old u, m(k := None)))"

fun map_ops :: "'v table_op list \<Rightarrow> (cstring \<rightharpoonup> 'v option) \<Rightarrow> 'v answer list \<times> (cstring \<rightharpoonup> 'v option)" where
  "map_ops [] m = ([], m)"
| "map_ops (x # xs) m = (let (a, m) = map_op x m; (as, m) = map_ops xs m in (a # as, m))"

fun table_ops :: "('v table_op \<Rightarrow> 't \<Rightarrow> fault + ('v answer \<times> 't)) \<Rightarrow> 'v table_op list \<Rightarrow> 't
    \<Rightarrow> fault + ('v answer list \<times> 't)" where
  "table_ops step [] t = Inr ([], t)"
| "table_ops step (x # xs) t =
     and_then (step x t) (\<lambda>(a, t). and_then (table_ops step xs t) (\<lambda>(as, t). Inr (a # as, t)))"

locale string_hashtable =
  fixes step :: "'v table_op \<Rightarrow> 't \<Rightarrow> fault + ('v answer \<times> 't)"
    and content :: "'t \<Rightarrow> cstring \<rightharpoonup> 'v option"
    and inv :: "'t \<Rightarrow> bool"
  assumes step_content: "inv t \<Longrightarrow> \<exists>a t'. step x t = Inr (a, t') \<and> inv t' \<and> map_op x (content t) = (a, content t')"
begin

lemma ops_content:
  "inv t \<Longrightarrow> \<exists>as t'. table_ops step xs t = Inr (as, t') \<and> inv t' \<and> map_ops xs (content t) = (as, content t')"
proof (induction xs arbitrary: t)
  case (Cons x xs)
  obtain a t1 where s: "step x t = Inr (a, t1)" "inv t1" "map_op x (content t) = (a, content t1)"
    using step_content [OF Cons.prems] by blast
  then show ?case using Cons.IH [OF s(2)] by (auto simp: Let_def)
qed simp

end

section \<open>The implementation keeps the contract\<close>

definition stl_step :: "('v table \<Rightarrow> hstring \<times> 'v option \<Rightarrow> 'v table) \<Rightarrow> 'v table_op \<Rightarrow> 'v table
    \<Rightarrow> fault + ('v answer \<times> 'v table)" where
  "stl_step place x t =
     (case x of
        OGet k \<Rightarrow> and_then (stl_Get t (Some k)) (\<lambda>v. Inr (Old v, t))
      | OInsert k v \<Rightarrow> and_then (stl_Insert place t (Some k) v) (\<lambda>(b, t). Inr (Ok b, t))
      | OUpdate k v \<Rightarrow> and_then (stl_Update t (Some k) v) (\<lambda>(u, t). Inr (Old u, t))
      | ORemove k \<Rightarrow> and_then (stl_Remove t (Some k)) (\<lambda>(u, t). Inr (Old u, t)))"

definition contents :: "'v table \<Rightarrow> cstring \<rightharpoonup> 'v option" where
  "contents t = map_of (map (\<lambda>(k, v). (value_of k, v)) t)"

text \<open>Keys are hashed and different.\<close>

definition table_inv :: "'v table \<Rightarrow> bool" where
  "table_inv t \<longleftrightarrow> (\<forall>e \<in> set t. fst e = set_value (value_of (fst e))) \<and> distinct (map (value_of \<circ> fst) t)"

lemma value_of_set_value [simp]: "value_of (set_value k) = k" "len_of (set_value k) = length k"
  by (simp_all add: set_value_def)

lemma hstring_eq_set_value [simp]: "hstring_eq (set_value a) (set_value k) \<longleftrightarrow> a = k"
  by (auto simp: hstring_eq_def set_value_def)

lemma table_inv_Cons [simp]:
  "table_inv (e # t) \<longleftrightarrow> fst e = set_value (value_of (fst e)) \<and> value_of (fst e) \<notin> (value_of \<circ> fst) ` set t \<and> table_inv t"
  by (auto simp: table_inv_def)

lemma find_entry_contents:
  "table_inv t \<Longrightarrow> map_option snd (find_entry (set_value k) t) = contents t k"
proof (induction t)
  case (Cons e t)
  obtain h v where e: "e = (h, v)" by (cases e)
  obtain a where "h = set_value a" using Cons.prems e by (auto intro: that)
  then show ?case using Cons e by (auto simp: find_entry_def contents_def)
qed (simp add: find_entry_def contents_def)

lemma table_inv_mset: "mset s = mset t \<Longrightarrow> table_inv t \<Longrightarrow> table_inv s"
  unfolding table_inv_def using mset_eq_setD [of s t] mset_eq_imp_distinct_iff [of "map (value_of \<circ> fst) s" "map (value_of \<circ> fst) t"]
  by auto

lemma map_fst_contents: "map fst (map (\<lambda>(k, v). (value_of k, v)) t) = map (value_of \<circ> fst) t"
  by (induction t) auto

lemma contents_mset:
  assumes "mset s = mset t" "table_inv t"
  shows "contents s = contents t"
proof
  fix k
  let ?f = "map (\<lambda>(k, v). (value_of k, v))"
  have "distinct (map fst (?f s))" "distinct (map fst (?f t))"
    using assms(2) table_inv_mset [OF assms] unfolding map_fst_contents table_inv_def by auto
  moreover have "set (?f s) = set (?f t)" using mset_eq_setD [OF assms(1)] by simp
  ultimately show "contents s k = contents t k" unfolding contents_def using map_of_eqI [of "?f s" "?f t"]
    by (metis map_of_inject_set)
qed

lemma contents_place:
  assumes "places place" "table_inv t" "contents t k = None"
  shows "table_inv (place t (set_value k, v)) \<and> contents (place t (set_value k, v)) = (contents t)(k \<mapsto> v)"
proof -
  have m: "mset (place t (set_value k, v)) = mset ((set_value k, v) # t)" using assms(1) by (simp add: places_def)
  have "k \<notin> (value_of \<circ> fst) ` set t" using assms(3) unfolding contents_def map_of_eq_None_iff
    by (auto simp: image_iff split: prod.splits)
  then have i: "table_inv ((set_value k, v) # t)" using assms(2) by simp
  show ?thesis using table_inv_mset [OF m i] contents_mset [OF m i] by (simp add: contents_def)
qed

definition overwrite :: "cstring \<Rightarrow> 'v option \<Rightarrow> 'v table \<Rightarrow> 'v table" where
  "overwrite k v t = map (\<lambda>x. if hstring_eq (fst x) (set_value k) then (fst x, v) else x) t"

definition erase :: "cstring \<Rightarrow> 'v table \<Rightarrow> 'v table" where
  "erase k t = filter (\<lambda>x. \<not> hstring_eq (fst x) (set_value k)) t"

lemma keys_overwrite [simp]: "map fst (overwrite k v t) = map fst t"
  by (induction t) (auto simp: overwrite_def)

lemma table_inv_keys:
  "table_inv t \<longleftrightarrow> (\<forall>h \<in> set (map fst t). h = set_value (value_of h)) \<and> distinct (map value_of (map fst t))"
  by (simp add: table_inv_def)

lemma table_inv_overwrite: "table_inv t \<Longrightarrow> table_inv (overwrite k v t)"
  unfolding table_inv_keys keys_overwrite .

lemma table_inv_erase: "table_inv t \<Longrightarrow> table_inv (erase k t)"
  by (auto simp: table_inv_def erase_def distinct_map_filter)

lemma contents_overwrite:
  "table_inv t \<Longrightarrow> contents (overwrite k v t) =
     (if contents t k = None then contents t else (contents t)(k \<mapsto> v))"
proof (induction t)
  case (Cons e t)
  obtain h w where e: "e = (h, w)" by (cases e)
  obtain a where a: "h = set_value a" using Cons.prems e by (auto intro: that)
  have "contents t a = None" using Cons.prems e a
    by (auto simp: contents_def map_of_eq_None_iff image_iff)
  then show ?case using Cons e a by (auto simp: overwrite_def contents_def fun_eq_iff)
qed (simp add: overwrite_def contents_def)

lemma contents_erase:
  "table_inv t \<Longrightarrow> contents (erase k t) = (contents t)(k := None)"
proof (induction t)
  case (Cons e t)
  obtain h w where e: "e = (h, w)" by (cases e)
  obtain a where a: "h = set_value a" using Cons.prems e by (auto intro: that)
  then show ?case using Cons e by (auto simp: erase_def contents_def fun_eq_iff)
qed (simp add: erase_def contents_def)

lemma stl_step_content:
  assumes "places place \<and> table_inv t"
  shows "\<exists>a t'. stl_step place x t = Inr (a, t') \<and> (places place \<and> table_inv t') \<and>
    map_op x (contents t) = (a, contents t')"
proof -
  have found: "contents t k = map_option snd (find_entry (set_value k) t)" for k
    using find_entry_contents [OF conjunct2 [OF assms]] by simp
  have wrap: "Wrap (Some k) = Inr (set_value k)" "Copy (Some k) = Inr (set_value k)" for k
    by (simp_all add: Wrap_def Copy_def)
  show ?thesis
  proof (cases x)
    case (OGet k)
    then show ?thesis using assms found [of k]
      by (cases "find_entry (set_value k) t") (auto simp: stl_step_def stl_Get_def wrap)
  next
    case (OInsert k v)
    then show ?thesis using assms found [of k] contents_place [of place t k v]
      by (cases "find_entry (set_value k) t") (auto simp: stl_step_def stl_Insert_def wrap)
  next
    case (OUpdate k v)
    then show ?thesis using assms found [of k] contents_overwrite [of t k v] table_inv_overwrite [of t k v]
      by (cases "find_entry (set_value k) t") (auto simp: stl_step_def stl_Update_def wrap overwrite_def [symmetric])
  next
    case (ORemove k)
    then show ?thesis using assms found [of k] contents_erase [of t k] table_inv_erase [of t k]
      by (cases "find_entry (set_value k) t") (auto simp: stl_step_def stl_Remove_def wrap erase_def [symmetric])
  qed
qed

interpretation stl: string_hashtable "stl_step place" contents "\<lambda>t. places place \<and> table_inv t"
  for place
  by unfold_locales (rule stl_step_content)

lemma stl_ops:
  assumes "places place"
  shows "\<exists>as t. table_ops (stl_step place) xs [] = Inr (as, t) \<and> map_ops xs Map.empty = (as, contents t)"
  using stl.ops_content [of place "[]" xs] assms by (auto simp: table_inv_def contents_def)

text \<open>The number of entries is the size of the map.\<close>

lemma stl_Size_contents: "table_inv t \<Longrightarrow> stl_Size t = card (dom (contents t))"
proof -
  assume i: "table_inv t"
  have "dom (contents t) = set (map (value_of \<circ> fst) t)"
    unfolding contents_def dom_map_of_conv_image_fst set_map [symmetric] map_fst_contents ..
  then show ?thesis using i distinct_card [of "map (value_of \<circ> fst) t"] by (simp add: stl_Size_def table_inv_def)
qed

end
