(* ===== verification/Ycsb_Props.thy ===== *)
theory Ycsb_Props
  imports Ycsb_Samples Driver_Facts Ycsb_Hashtable
begin

text \<open>The properties of the workload generator.\<close>

section \<open>Keys of transactions\<close>

text \<open>A uniform chooser within the inserted keys gives a key at the first draw.\<close>

definition uniform_keys :: "core_workload \<Rightarrow> bool" where
  "uniform_keys w \<longleftrightarrow> (\<exists>g. key_chooser w = Some (Uniform g) \<and> un_min g = 0 \<and>
     un_max g = counter_Last (insert_key_sequence w))"

lemma uniform_transaction_key:
  assumes "rand_ok env" "uniform_keys w"
  shows "\<exists>k w'. transaction_key_num env w = Some (Inr (k, w')) \<and> uniform_keys w' \<and>
    (\<exists>c. w' = w\<lparr>key_chooser := c\<rparr>) \<and> k \<le> counter_Last (insert_key_sequence w)"
proof -
  obtain g where g: "key_chooser w = Some (Uniform g)" "un_min g = 0" "un_max g = counter_Last (insert_key_sequence w)"
    using assms(2) by (auto simp: uniform_keys_def)
  define v where "v = fst (uniform_Next env g)"
  define h where "h = snd (uniform_Next env g)"
  have n: "uniform_Next env g = (v, h)" by (simp add: v_def h_def)
  have v: "v \<le> counter_Last (insert_key_sequence w)"
    using assms(1) g by (simp add: v_def uniform_Next_def rand_ok_def Let_def)
  have h: "un_min h = 0" "un_max h = counter_Last (insert_key_sequence w)"
    using g by (simp_all add: h_def uniform_Next_def Let_def)
  have "draw_transaction_key env w = Inr (v, w\<lparr>w_rng := w_rng w, key_chooser := Some (Uniform h)\<rparr>)"
    by (simp add: draw_transaction_key_def draw_def g(1) Next_def n)
  then have "transaction_key_num env w = Some (Inr (v, w\<lparr>key_chooser := Some (Uniform h)\<rparr>))"
    using leD [OF v] by (subst transaction_key_num.simps) simp
  then show ?thesis using v h by (auto simp: uniform_keys_def)
qed

lemma Init_uniform_keys:
  assumes "Init env p (CoreWorkload zp r) = Inr w" "request_dist p = ''uniform''"
  shows "uniform_keys w"
  using Init_setup [OF assms(1)] assms(2)
  by (auto simp: CoreWorkload_def uniform_keys_def UniformGenerator_def uniform_Next_def Let_def counter_Last_def)

lemma sample_env_ok: "rand_ok sample_env"
  by (simp add: rand_ok_def sample_env_def)

section \<open>The trace\<close>

lemma trace_of_nonempty: "trace_of d ws \<Longrightarrow> ws \<noteq> [] \<Longrightarrow> read_workload d OUTPUT_PATH = Inr ws"
  by (rule trace_of_read) (auto simp: trace_of_def holds_lines_def parses_def)

lemma load_reads_back:
  assumes "Init env p (CoreWorkload zp r) = Inr w" "field_len_dist p \<noteq> ''zipfian''"
    and "may_write OUTPUT_PATH" "d OUTPUT_PATH = None" "0 < n"
  shows "\<exists>start w' d'. stoi (GetProperty p INSERT_START_PROPERTY INSERT_START_DEFAULT) = Inr start \<and>
    load_loop env (HashtableDB may_write) n 0 (w, d) = Inr (int n, w', d') \<and>
    read_workload d' OUTPUT_PATH =
      Inr (map (\<lambda>i. (''INSERT'', key_number w (word_of_int start + word_of_nat i))) [0..<n])"
proof -
  obtain start where s: "stoi (GetProperty p INSERT_START_PROPERTY INSERT_START_DEFAULT) = Inr start"
    "key_generator w = Some (Counter (word_of_int start))" "steady (field_len_generator w)"
    using Init_setup [OF assms(1)] assms(2) by (auto simp: CoreWorkload_def)
  show ?thesis
    using load_loop_trace [where mw = may_write, OF assms(3) trace_of_empty [where d = d, OF assms(4)] s(2,3), of env n 0]
      assms(5) s(1) by (auto intro: trace_of_read)
qed

text \<open>C7: A workload as \<open>Init\<close> configures it, with constant or uniform field lengths, loads \<open>n\<close> records
  into the database that writes the trace: every insertion succeeds, and the benchmark program reads
  back exactly one insertion per record, with the numbers of its keys in sequence.\<close>

theorem load_trace:
  assumes "Init env p (CoreWorkload zp r) = Inr w" "field_len_dist p \<noteq> ''zipfian''"
    and "may_write OUTPUT_PATH" "d OUTPUT_PATH = None" "0 < n"
  shows "\<exists>start w' d'. stoi (GetProperty p INSERT_START_PROPERTY INSERT_START_DEFAULT) = Inr start \<and>
    load_loop env (HashtableDB may_write) n 0 (w, d) = Inr (int n, w', d') \<and>
    read_workload d' OUTPUT_PATH =
      Inr (map (\<lambda>i. (''INSERT'', key_number w (word_of_int start + word_of_nat i))) [0..<n])"
  using load_reads_back [where may_write = may_write and d = d, OF assms] .

lemma load_trace_witness:
  "\<exists>w w' d'. Init sample_env sample_properties (CoreWorkload 0 no_rng) = Inr w \<and>
    load_loop sample_env (HashtableDB (\<lambda>_. True)) 2 0 (w, Map.empty) = Inr (2, w', d') \<and>
    read_workload d' OUTPUT_PATH = Inr [(''INSERT'', Hash 0), (''INSERT'', Hash 1)]"
proof -
  obtain w where w: "Init sample_env sample_properties (CoreWorkload 0 no_rng) = Inr w" "\<not> ordered_inserts w"
    using sample_Init by blast
  have f: "field_len_dist sample_properties \<noteq> ''zipfian''" by (simp add: field_len_dist_def sample_texts)
  show ?thesis
    using load_trace [where may_write = "\<lambda>_. True" and d = Map.empty and n = 2, OF w(1) f] w
    by (auto simp: sample_texts sample_stoi key_number_def numeral_2_eq_2)
qed

lemma sample_DoTransaction:
  "\<exists>w w' d'. Init sample_env sample_properties (CoreWorkload 0 no_rng) = Inr w \<and>
    DoTransaction sample_env (HashtableDB (\<lambda>_. True)) (w, Map.empty) = Some (Inr (True, w', d'))"
proof -
  obtain w where w: "Init sample_env sample_properties (CoreWorkload 0 no_rng) = Inr w" "read_all_fields w"
    "op_chooser w = AddValue READ (double_rat 1) DiscreteGenerator"
    using sample_Init by blast
  define w1 where "w1 = w\<lparr>w_rng := snd (RandomDouble sample_env (w_rng w))\<rparr>"
  have "uniform_keys w" by (rule Init_uniform_keys [OF w(1)]) (simp add: request_dist_def sample_texts)
  then have "uniform_keys w1" by (simp add: w1_def uniform_keys_def)
  then obtain k c where k: "transaction_key_num sample_env w1 = Some (Inr (k, w1\<lparr>key_chooser := c\<rparr>))"
    using uniform_transaction_key [OF sample_env_ok] by metis
  have "read_all_fields w1" using w(2) by (simp add: w1_def)
  then have "\<exists>w' d'. DoTransaction sample_env (HashtableDB (\<lambda>_. True)) (w, Map.empty) = Some (Inr (True, w', d'))"
    using sample_NextOperation [OF w(3)]
    by (simp add: DoTransaction_def w1_def [symmetric] TransactionRead_def NextTransactionKey_def k read_fields_def
        hashtable_Read_def kOK_def)
  then show ?thesis using w(1) by blast
qed

text \<open>A run of \<open>n\<close> transactions that returns has counted \<open>n\<close> successes and left one or two entries
  for each in the trace; every entry is for an operation the benchmark program knows, and everything
  but an insertion is for a key below the number of records of the configuration.\<close>

theorem transaction_trace:
  assumes "transaction_loop env (HashtableDB may_write) n 0 (w, d) = Some (Inr (oks, w', d'))"
    and "may_write OUTPUT_PATH" "d OUTPUT_PATH = None" "0 < n"
  shows "oks = int n \<and> (\<exists>es. read_workload d' OUTPUT_PATH = Inr es \<and> n \<le> length es \<and> length es \<le> 2 * n \<and>
    (\<forall>e \<in> set es. entry_of w e))"
proof -
  obtain es where es: "oks = 0 + int n" "trace_of d' es" "n \<le> length es" "length es \<le> 2 * n" "\<forall>e \<in> set es. entry_of w e"
    using transaction_loop_trace [where mw = may_write, OF assms(2) trace_of_empty [where d = d, OF assms(3)] assms(1)] by auto
  have "es \<noteq> []" using es(3) assms(4) by auto
  then show ?thesis using es trace_of_nonempty [OF es(2)] by auto
qed

lemma transaction_trace_witness:
  "\<exists>w es. Init sample_env sample_properties (CoreWorkload 0 no_rng) = Inr w \<and>
    (\<exists>w' d'. transaction_loop sample_env (HashtableDB (\<lambda>_. True)) 1 0 (w, Map.empty) = Some (Inr (1, w', d')) \<and>
      read_workload d' OUTPUT_PATH = Inr es \<and> 1 \<le> length es \<and> length es \<le> 2)"
proof -
  obtain w w' d' where w: "Init sample_env sample_properties (CoreWorkload 0 no_rng) = Inr w"
    "DoTransaction sample_env (HashtableDB (\<lambda>_. True)) (w, Map.empty) = Some (Inr (True, w', d'))"
    using sample_DoTransaction by blast
  then have "transaction_loop sample_env (HashtableDB (\<lambda>_. True)) 1 0 (w, Map.empty) = Some (Inr (1, w', d'))"
    by simp
  from this transaction_trace [where may_write = "\<lambda>_. True" and d = Map.empty, OF this] w(1) show ?thesis
    by auto
qed

section \<open>Choosing keys and operations\<close>

text \<open>Keys of transactions in sequence.\<close>

fun next_keys :: "randomness \<Rightarrow> nat \<Rightarrow> core_workload \<Rightarrow> (fault + (string list \<times> core_workload)) option" where
  "next_keys env 0 w = Some (Inr ([], w))"
| "next_keys env (Suc n) w =
     (case NextTransactionKey env w of
        None \<Rightarrow> None
      | Some (Inl e) \<Rightarrow> Some (Inl e)
      | Some (Inr (key, w)) \<Rightarrow> map_option (\<lambda>res. and_then res (\<lambda>(ks, w). Inr (key # ks, w))) (next_keys env n w))"

lemma next_keys_uniform:
  "rand_ok env \<Longrightarrow> uniform_keys w \<Longrightarrow> \<exists>ks w'. next_keys env n w = Some (Inr (ks, w')) \<and> length ks = n \<and>
     (\<forall>key \<in> set ks. \<exists>k. key = BuildKeyName w k \<and> k \<le> counter_Last (insert_key_sequence w))"
proof (induction n arbitrary: w)
  case (Suc n)
  obtain k c where k: "transaction_key_num env w = Some (Inr (k, w\<lparr>key_chooser := c\<rparr>))"
    "uniform_keys (w\<lparr>key_chooser := c\<rparr>)" "k \<le> counter_Last (insert_key_sequence w)"
    using uniform_transaction_key [OF Suc.prems] by auto
  have name: "BuildKeyName (w\<lparr>key_chooser := c\<rparr>) = BuildKeyName w"
    by (simp add: fun_eq_iff BuildKeyName_def key_number_def)
  show ?case using Suc.IH [OF Suc.prems(1) k(2)] k(1,3) by (auto simp: NextTransactionKey_def name)
qed simp

text \<open>The keys a load phase draws, one after the other.\<close>

fun sequence_keys :: "randomness \<Rightarrow> nat \<Rightarrow> core_workload \<Rightarrow> fault + (string list \<times> core_workload)" where
  "sequence_keys env 0 w = Inr ([], w)"
| "sequence_keys env (Suc n) w =
     and_then (NextSequenceKey env w) (\<lambda>(key, w). and_then (sequence_keys env n w) (\<lambda>(ks, w). Inr (key # ks, w)))"

lemma sequence_keys_counter:
  "key_generator w = Some (Counter c) \<Longrightarrow>
     \<exists>w'. sequence_keys env n w = Inr (map (\<lambda>i. BuildKeyName w (c + word_of_nat i)) [0..<n], w')"
proof (induction n arbitrary: w c)
  case (Suc n)
  let ?w = "w\<lparr>key_generator := Some (Counter (c + 1))\<rparr>"
  have name: "BuildKeyName ?w = BuildKeyName w" by (simp add: fun_eq_iff BuildKeyName_def key_number_def)
  obtain w' where "sequence_keys env n ?w = Inr (map (\<lambda>i. BuildKeyName w (c + 1 + word_of_nat i)) [0..<n], w')"
    using Suc.IH [of ?w "c + 1"] by (auto simp: name)
  moreover have "map (\<lambda>i. BuildKeyName w (c + word_of_nat i)) [0..<Suc n] =
      BuildKeyName w c # map (\<lambda>i. BuildKeyName w (c + 1 + word_of_nat i)) [0..<n]"
    by (simp add: upt_conv_Cons map_Suc_upt [symmetric] add.assoc del: upt_Suc)
  ultimately show ?case by (simp add: NextSequenceKey_counter [OF Suc.prems] del: upt_Suc)
qed simp

text \<open>C27: With the uniform request distribution the loop that draws a key until its number is not above the
  last one of the configuration ends: any number of transaction keys can be drawn, and each is the name
  of a number up to the record count less one (in 64 bits). When the insertions start at 0, as they do by
  default, and there are records, these are names of loaded records: each is among the keys that a load
  phase of all records draws from the same configuration.\<close>

theorem transaction_keys_return:
  assumes "rand_ok env" "Init env p (CoreWorkload zp r) = Inr w" "request_dist p = ''uniform''"
  shows "\<exists>ks w'. next_keys env n w = Some (Inr (ks, w')) \<and> length ks = n \<and>
    (\<forall>key \<in> set ks. \<exists>k. key = BuildKeyName w k \<and> k \<le> record_count w - 1) \<and>
    (stoi (GetProperty p INSERT_START_PROPERTY INSERT_START_DEFAULT) = Inr 0 \<and> record_count w \<noteq> 0 \<longrightarrow>
      (\<exists>loaded w''. sequence_keys env (unat (record_count w)) w = Inr (loaded, w'') \<and> set ks \<subseteq> set loaded))"
proof -
  obtain s where s: "stoi (GetProperty p INSERT_START_PROPERTY INSERT_START_DEFAULT) = Inr s"
    "key_generator w = Some (Counter (word_of_int s))" "insert_key_sequence w = record_count w"
    using Init_setup [OF assms(2)] by (auto simp: CoreWorkload_def)
  obtain ks w' where ks: "next_keys env n w = Some (Inr (ks, w'))" "length ks = n"
    "\<forall>key \<in> set ks. \<exists>k. key = BuildKeyName w k \<and> k \<le> record_count w - 1"
    using next_keys_uniform [OF assms(1) Init_uniform_keys [OF assms(2,3)], of n] s(3) by (auto simp: counter_Last_def)
  let ?m = "unat (record_count w)"
  obtain w'' where l: "sequence_keys env ?m w = Inr (map (\<lambda>i. BuildKeyName w (word_of_int s + word_of_nat i)) [0..<?m], w'')"
    using sequence_keys_counter [OF s(2)] by blast
  have "key \<in> set (map (\<lambda>i. BuildKeyName w (word_of_int s + word_of_nat i)) [0..<?m])"
    if "key \<in> set ks" "s = 0" "record_count w \<noteq> 0" for key
  proof -
    obtain k where k: "key = BuildKeyName w k" "k \<le> record_count w - 1" using ks(3) \<open>key \<in> set ks\<close> by blast
    have "0 < ?m" using that(3) by (simp add: unat_gt_0)
    moreover have "unat (record_count w - 1) = ?m - 1" using that(3) by (simp add: unat_minus_one)
    ultimately have "unat k < ?m" using k(2) by (simp add: word_le_nat_alt)
    then show ?thesis using k(1) that(2) by (auto intro!: image_eqI [of _ _ "unat k"])
  qed
  then show ?thesis using ks l s(1) by auto
qed

lemma transaction_keys_return_witness:
  "\<exists>w ks w'. Init sample_env sample_properties (CoreWorkload 0 no_rng) = Inr w \<and>
    next_keys sample_env 7 w = Some (Inr (ks, w')) \<and> length ks = 7"
proof -
  obtain w where w: "Init sample_env sample_properties (CoreWorkload 0 no_rng) = Inr w" using sample_Init by blast
  show ?thesis using transaction_keys_return [OF sample_env_ok w, of 7] w
    by (auto simp: request_dist_def sample_texts)
qed

lemma discrete_choose_in: "discrete_choose ps sm c = Some v \<Longrightarrow> \<exists>d. (v, d) \<in> set ps"
  by (induction ps arbitrary: c) (auto split: if_splits)

text \<open>C35: Only operations with a positive proportion are chosen, at any time: choosing leaves the
  weights alone.\<close>

theorem operations_have_proportion:
  assumes "Init env p (CoreWorkload zp r) = Inr w" "dg_values (op_chooser v) = dg_values (op_chooser w)"
    and "NextOperation env v = Inr (opr, v')"
  shows "(\<exists>d. proportion p opr = Inr d \<and> dlt (double_rat 0) d) \<and>
    dg_values (op_chooser v') = dg_values (op_chooser w)"
proof -
  have pos: "positive_ops p (dg_values (op_chooser w))"
    using Init_setup [OF assms(1)] by (auto simp: CoreWorkload_def)
  obtain c where c: "discrete_choose (dg_values (op_chooser v)) (dg_sum (op_chooser v)) c = Some opr"
    and v': "dg_values (op_chooser v') = dg_values (op_chooser v)"
    using assms(3) by (auto simp: NextOperation_def discrete_Next_def and_then_Inr Let_def split_beta split: option.splits)
  show ?thesis using discrete_choose_in [OF c] pos v' assms(2) by (fastforce simp: positive_ops_def)
qed

lemma operations_have_proportion_witness:
  "\<exists>w v'. Init sample_env sample_properties (CoreWorkload 0 no_rng) = Inr w \<and>
    NextOperation sample_env w = Inr (READ, v') \<and> (\<exists>d. proportion sample_properties READ = Inr d \<and> dlt (double_rat 0) d)"
proof -
  obtain w where w: "Init sample_env sample_properties (CoreWorkload 0 no_rng) = Inr w"
    "op_chooser w = AddValue READ (double_rat 1) DiscreteGenerator"
    using sample_Init by blast
  show ?thesis using operations_have_proportion [OF w(1) refl sample_NextOperation [OF w(2)]]
      sample_NextOperation [OF w(2)] w(1) by blast
qed

section \<open>Generators\<close>

lemma small_dadd:
  assumes "0 \<le> a" "0 \<le> b" "a + b < 9007199254740992"
  shows "dadd (double_rat (of_int a)) (double_rat (of_int b)) = double_rat (of_int (a + b))"
proof -
  have "valof (double_rat (of_int i)) = of_int i \<and> is_fin (double_rat (of_int i)) \<and> \<not> dsign (double_rat (of_int i))"
    if "0 \<le> i" "i < 9007199254740992" for i
    using rnd_int [of i] that by (simp add: double_rat_def round_double_parts is_fin_round_60)
  then show ?thesis using assms by (simp add: dadd_fin) (simp add: double_rat_def)
qed

lemma sample_zeta: "Zeta sample_env 0 2 th (double_rat 0) = double_rat 2"
proof -
  have q: "ddiv (double_rat 1) (double_rat 1) = double_rat 1" by (simp add: ddiv_fin) (simp add: double_rat_def)
  have "[0 + 1..<2 + 1] = [1, 2 :: nat]" by (simp add: upt_rec)
  then show ?thesis using small_dadd [of 0 1] small_dadd [of 1 1] by (simp add: Zeta_def sample_env_def q)
qed

lemma sample_below_one: "dlt (dmul (double_rat 0) (double_rat 2)) (double_rat 1)"
proof -
  have "is_fin (double_rat 2)" using is_fin_round_60 [of 2] by (simp add: double_rat_def)
  then show ?thesis by (simp add: dlt_def dmul_fin)
qed

text \<open>A generator over two numbers.\<close>

lemma sample_zipfian:
  "\<exists>z r'. ZipfianGenerator sample_env lo (lo + 1) kZipfianConst r = Inr (z, r') \<and>
     num_items z = 2 \<and> n_for_zeta z = 2 \<and> zeta_n z = double_rat 2 \<and> zbase z = lo"
proof -
  have n: "lo + 1 - lo + 1 = (2 :: u64)" by simp
  have k: "(2 :: u64) < kMaxNumItems" unfolding kMaxNumItems_def by code_simp
  show ?thesis
    using sample_below_one sample_zeta k
    by (simp add: ZipfianGenerator_def n RaiseZeta_def zipfian_Next_def RandomDouble_def Let_def)
      (simp add: sample_env_def)
qed

text \<open>The scrambled generator stays within its bounds.\<close>

theorem scrambled_range:
  assumes "ScrambledZipfianGenerator env lo hi r = Inr (g, r1)" "lo \<le> hi"
    and "draws (scrambled_Next env) n g r1 = Inr (vs, g', r')"
  shows "\<forall>v \<in> set vs. lo \<le> v \<and> v \<le> hi"
proof -
  have "sc_base g = lo" "sc_num_items g = hi - lo + 1" "hi - lo \<noteq> - 1"
    using assms(1) by (auto simp: ScrambledZipfianGenerator_def ZipfianGenerator_def split: sum.splits if_splits)
  then have "scrambled_between lo hi g" using assms(2) by (simp add: scrambled_between_def)
  then show ?thesis using scrambled.draws_range assms(3) by blast
qed

lemma sample_draw:
  assumes "num_items z = 2" "n_for_zeta z = 2" "zeta_n z = double_rat 2"
  shows "zipfian_Next sample_env 2 z r = Inr (0, z\<lparr>last_value := 0\<rparr>, snd (RandomDouble sample_env r))"
proof -
  have "(2 :: u64) < kMaxNumItems" unfolding kMaxNumItems_def by code_simp
  then show ?thesis using assms sample_below_one by (simp add: zipfian_Next_def RandomDouble_def sample_env_def)
qed

lemma scrambled_range_witness:
  "\<exists>g r1 v g' r'. ScrambledZipfianGenerator sample_env 7 8 no_rng = Inr (g, r1) \<and>
    draws (scrambled_Next sample_env) 1 g r1 = Inr ([v], g', r') \<and> 7 \<le> v \<and> v \<le> 8"
proof -
  obtain z r1 where z: "ZipfianGenerator sample_env 7 (7 + 1) kZipfianConst no_rng = Inr (z, r1)"
    "num_items z = 2" "n_for_zeta z = 2" "zeta_n z = double_rat 2"
    using sample_zipfian [of 7 no_rng] by auto
  let ?g = "\<lparr>sc_base = 7, sc_num_items = 8 - 7 + 1, sc_generator = z\<rparr>"
  have g: "ScrambledZipfianGenerator sample_env 7 8 no_rng = Inr (?g, r1)"
    using z(1) by (simp add: ScrambledZipfianGenerator_def)
  obtain v g' r' where "draws (scrambled_Next sample_env) 1 ?g r1 = Inr ([v], g', r')"
    using sample_draw [OF z(2-4), of r1] z(2) by (simp add: scrambled_Next_def)
  then show ?thesis using scrambled_range [OF g, of 1] g by fastforce
qed

text \<open>The Zipfian generator does not keep to its lower bound: for a random number below
  \<open>1 / zeta(n)\<close> it gives 0, whatever its base is.\<close>

theorem zipfian_ignores_base:
  assumes "2 \<le> num_items z" "num_items z < kMaxNumItems" "num_items z \<le> n_for_zeta z"
    and "dlt (dmul (fst (RandomDouble env r)) (zeta_n z)) (double_rat 1)"
  shows "\<exists>z' r'. Next env basis (Zipfian z) r = Inr (0, Zipfian z', r') \<and> zbase z' = zbase z"
  using assms by (auto simp: Next_def zipfian_Next_def not_less Let_def split_beta)

lemma zipfian_ignores_base_witness:
  "\<exists>z r1 z' r'. ZipfianGenerator sample_env 7 8 kZipfianConst no_rng = Inr (z, r1) \<and> zbase z = 7 \<and>
    Next sample_env 0 (Zipfian z) r1 = Inr (0, Zipfian z', r')"
proof -
  obtain z r1 where z: "ZipfianGenerator sample_env 7 (7 + 1) kZipfianConst no_rng = Inr (z, r1)"
    "num_items z = 2" "n_for_zeta z = 2" "zeta_n z = double_rat 2" "zbase z = 7"
    using sample_zipfian [of 7 no_rng] by auto
  have "(2 :: u64) < kMaxNumItems" unfolding kMaxNumItems_def by code_simp
  moreover have "dlt (dmul (fst (RandomDouble sample_env r1)) (zeta_n z)) (double_rat 1)"
    using sample_below_one z(4) by (simp add: RandomDouble_def sample_env_def)
  ultimately show ?thesis using zipfian_ignores_base [of z sample_env r1 0] z by auto
qed

section \<open>Names of keys and fields\<close>

lemma length_padded:
  "int (length (to_string (unat (key_number w k)))) \<le> zero_padding w \<Longrightarrow> zero_padding w < 2 ^ 31 \<Longrightarrow>
     length (padded w k) = nat (zero_padding w)"
proof -
  assume a: "int (length (to_string (unat (key_number w k)))) \<le> zero_padding w" "zero_padding w < 2 ^ 31"
  let ?i = "zero_padding w - int (length (to_string (unat (key_number w k))))"
  have "- (2 ^ 31) \<le> ?i" "?i < 2 ^ 31" using a by simp_all
  then have "sint (word_of_int ?i :: 32 word) = ?i" by (simp add: signed_of_int signed_take_bit_int_eq_self del: of_int_diff)
  then show ?thesis using a(1) by (simp add: padded_def Let_def del: of_int_diff)
qed

lemma digits_val_padded: "digits_val (padded w k) = unat (key_number w k)"
  by (simp add: padded_def Let_def)

text \<open>The name of a key reads back as its number; and when the zero padding is enough for the
  numbers, the names are ordered as the numbers.\<close>

theorem key_names_ordered:
  "stoull (drop 4 (BuildKeyName w j)) = Inr (key_number w j) \<and>
   (zero_padding w < 2 ^ 31 \<and> int (length (to_string (unat (key_number w j)))) \<le> zero_padding w \<and>
    int (length (to_string (unat (key_number w k)))) \<le> zero_padding w \<longrightarrow>
    (lexless (BuildKeyName w j) (BuildKeyName w k) \<longleftrightarrow> key_number w j < key_number w k))"
  using stoull_padded [of "[]" w j] padded_digits [of _ w j] padded_digits [of _ w k]
    lexless_digits [of "padded w j" "padded w k"] length_padded [of w j] length_padded [of w k]
    lexless_append_same [of "''user''" "padded w j" "padded w k"]
  by (auto simp: BuildKeyName_padded digits_val_padded word_less_nat_alt)

lemma key_names_ordered_witness:
  "lexless (BuildKeyName (CoreWorkload 3 no_rng) 9) (BuildKeyName (CoreWorkload 3 no_rng) 10)"
proof -
  have "to_string 9 = ''9''" "to_string 10 = ''10''" by code_simp+
  then show ?thesis using key_names_ordered [of "CoreWorkload 3 no_rng" 9 10]
    by (simp add: CoreWorkload_def key_number_def)
qed

text \<open>The fields a client asks for are never among those that insertions write: the prefix of the
  name is there twice.\<close>

theorem read_fields_never_written:
  assumes "read_fields env w = Inr (Some fs, w1)" "BuildValues env v = Inr (vs, v1)"
  shows "fs \<noteq> [] \<and> set fs \<inter> fst ` set vs = {}"
proof -
  obtain i where i: "fs = [''field'' @ ''field'' @ to_string i]"
    using assms(1) by (auto simp: read_fields_def NextFieldName_def and_then_Inr split: if_splits)
  have "''field'' @ to_string i \<noteq> to_string j" for j
  proof
    assume "''field'' @ to_string i = to_string j"
    then have "CHR ''f'' \<in> set (to_string j)" by (metis list.set_intros(1) append_Cons)
    then show False using to_string_digits [of "CHR ''f''" j] by (simp add: is_digit_def)
  qed
  moreover have "\<forall>f \<in> fst ` set vs. \<exists>j. f = ''field'' @ to_string j"
    using BuildValues_shape [OF assms(2)] by (auto simp: printable_pair_def)
  ultimately show ?thesis using i by auto
qed

definition small_workload :: core_workload where
  "small_workload = (CoreWorkload 0 no_rng)\<lparr>field_chooser := Some (Const 1), field_count := 2,
     field_len_generator := Some (Const 1)\<rparr>"

lemma read_fields_never_written_witness:
  "\<exists>w1 vs v1. read_fields sample_env small_workload = Inr (Some [''fieldfield1''], w1) \<and>
    BuildValues sample_env small_workload = Inr (vs, v1) \<and> ''fieldfield1'' \<notin> fst ` set vs"
proof -
  have one: "to_string (Suc 0) = ''1''" by code_simp
  obtain w1 where r: "read_fields sample_env small_workload = Inr (Some [''fieldfield1''], w1)"
    by (simp add: read_fields_def NextFieldName_def draw_field_def draw_def Next_def small_workload_def CoreWorkload_def one)
  obtain vs v1 where b: "BuildValues sample_env small_workload = Inr (vs, v1)"
  proof -
    have "steady (field_len_generator small_workload)" by (simp add: small_workload_def steady_def)
    then show ?thesis using that build_values_steady unfolding BuildValues_def by blast
  qed
  show ?thesis using read_fields_never_written [OF r b] r b by auto
qed

section \<open>Property files\<close>

text \<open>A line of a property file: a comment, a line without a setting, or a name and a value with white
  space around them.\<close>

datatype config_line =
    Comment string
  | Plain string
  | Setting string string string string string string

fun config_text :: "config_line \<Rightarrow> string" where
  "config_text (Comment t) = CHR ''#'' # t"
| "config_text (Plain t) = t"
| "config_text (Setting a n b c v e) = (a @ n @ b) @ ''='' @ (c @ v @ e)"

definition trimmed :: "string \<Rightarrow> bool" where
  "trimmed s \<longleftrightarrow> s = [] \<or> \<not> is_space (hd s) \<and> \<not> is_space (last s)"

definition blank :: "string \<Rightarrow> bool" where
  "blank s \<longleftrightarrow> (\<forall>c \<in> set s. is_space c) \<and> CHR 0x0A \<notin> set s"

fun config_ok :: "config_line \<Rightarrow> bool" where
  "config_ok (Comment t) \<longleftrightarrow> CHR 0x0A \<notin> set t"
| "config_ok (Plain t) \<longleftrightarrow> CHR 0x0A \<notin> set t \<and> CHR ''='' \<notin> set t"
| "config_ok (Setting a n b c v e) \<longleftrightarrow> blank a \<and> blank b \<and> blank c \<and> blank e \<and> trimmed n \<and> trimmed v \<and>
     CHR ''='' \<notin> set n \<and> (n \<noteq> [] \<longrightarrow> hd n \<noteq> CHR ''#'') \<and> CHR 0x0A \<notin> set n \<and> CHR 0x0A \<notin> set v"

fun settings :: "config_line list \<Rightarrow> (string \<times> string) list" where
  "settings [] = []"
| "settings (Setting a n b c v e # ls) = (n, v) # settings ls"
| "settings (_ # ls) = settings ls"

lemma blank_no_eq: "blank s \<Longrightarrow> CHR ''='' \<notin> set s" "blank s \<Longrightarrow> CHR ''#'' \<notin> set s"
  by (auto simp: blank_def is_space_def Let_def)

lemma takeWhile_name: "CHR ''='' \<notin> set name \<Longrightarrow> takeWhile (\<lambda>c. c \<noteq> CHR ''='') (name @ CHR ''='' # t) = name"
  by (induction name) auto

lemma load_setting:
  assumes "config_ok (Setting a n b c v e)"
  shows "load_line (config_text (Setting a n b c v e)) p = p(n \<mapsto> v)"
proof -
  let ?name = "a @ n @ b"
  have eq: "CHR ''='' \<notin> set ?name" using assms blank_no_eq by auto
  have hash: "\<not> (config_text (Setting a n b c v e) \<noteq> [] \<and> hd (config_text (Setting a n b c v e)) = CHR ''#'')"
    using assms blank_no_eq(2) [of a] blank_no_eq(2) [of b] by (cases a; cases n; cases b) auto
  have tr: "Trim ?name = n" "Trim (c @ v @ e) = v"
    using assms by (auto simp: blank_def trimmed_def intro!: Trim_spaces)
  show ?thesis using hash tr takeWhile_name [OF eq, of "c @ v @ e"]
    by (simp add: load_line_def SetProperty_def del: append_assoc)
qed

lemma load_plain: "CHR ''='' \<notin> set t \<Longrightarrow> load_line t p = p"
proof -
  assume "CHR ''='' \<notin> set t"
  then have e: "takeWhile (\<lambda>c. c \<noteq> CHR ''='') t = t" unfolding takeWhile_eq_all_conv by metis
  show ?thesis unfolding load_line_def Let_def e by simp
qed

lemma load_config:
  "\<forall>l \<in> set ls. config_ok l \<Longrightarrow> fold load_line (map config_text ls) p = p ++ map_of (rev (settings ls))"
proof (induction ls arbitrary: p)
  case (Cons l ls)
  have "load_line (config_text l) p = p ++ map_of (rev (settings [l]))"
    using Cons.prems load_plain load_setting by (cases l) (auto simp: load_line_def simp del: config_text.simps(3))
  moreover have "settings (l # ls) = settings [l] @ settings ls" by (cases l) auto
  ultimately show ?case using Cons by simp
qed simp

text \<open>Loading a property file gives exactly its settings, the last one of a name, without the white
  space around names and values; comments and other lines are skipped.\<close>

theorem load_properties:
  assumes "\<forall>l \<in> set ls. config_ok l"
  shows "Load (Some (concat (map (\<lambda>l. config_text l @ [CHR 0x0A]) ls))) Map.empty =
    Inr (map_of (rev (settings ls)))"
proof -
  have "\<forall>l \<in> set (map config_text ls). CHR 0x0A \<notin> set l"
  proof -
    have "CHR 0x0A \<notin> set (config_text l)" if "config_ok l" for l
      using that by (cases l) (auto simp: blank_def)
    then show ?thesis using assms by simp
  qed
  then have "getlines (concat (map (\<lambda>l. config_text l @ [CHR 0x0A]) ls)) = map config_text ls @ [[]]"
    using getlines_concat [of "map config_text ls"] by (simp add: o_def)
  then show ?thesis using load_config [OF assms, of Map.empty] load_plain [of "[]"] by (simp add: Load_def)
qed

lemma load_properties_witness:
  "Load (Some (''# a workload'' @ [CHR 0x0A] @ ''recordcount = 1000'' @ [CHR 0x0A])) Map.empty =
     Inr [''recordcount'' \<mapsto> ''1000'']"
proof -
  let ?ls = "[Comment '' a workload'', Setting [] ''recordcount'' '' '' '' '' ''1000'' []]"
  have "\<forall>l \<in> set ?ls. config_ok l" by (simp add: blank_def trimmed_def is_space_def)
  from load_properties [OF this] show ?thesis by simp
qed

section \<open>Hash tables\<close>

text \<open>C30: The hash table of strings answers every sequence of operations as a map does, wherever the
  library places its entries: equal hash values of different keys make no difference.\<close>

theorem table_refines_map:
  assumes "places place"
  shows "\<exists>as t. table_ops (stl_step place) xs [] = Inr (as, t) \<and> map_ops xs Map.empty = (as, contents t) \<and>
    stl_Size t = card (dom (contents t))"
proof -
  have i: "places place \<and> table_inv []" using assms by (simp add: table_inv_def)
  obtain as t where t: "table_ops (stl_step place) xs [] = Inr (as, t)" "table_inv t"
    "map_ops xs (contents []) = (as, contents t)"
    using stl.ops_content [OF i, of xs] by blast
  have e: "contents [] = Map.empty" by (simp add: contents_def)
  show ?thesis using t stl_Size_contents [OF t(2)] unfolding e by blast
qed

lemma table_refines_map_witness:
  "\<exists>t. table_ops (stl_step (\<lambda>t e. e # t))
      [OInsert ''a'' (Some (1 :: nat)), OInsert ''a'' (Some 2), OUpdate ''a'' (Some 3), OInsert ''b'' None, ORemove ''a'', OGet ''a''] [] =
      Inr ([Ok True, Ok False, Old (Some 1), Ok True, Old (Some 3), Old None], t) \<and> stl_Size t = 1"
proof -
  have p: "places (\<lambda>t e. e # t)" by (simp add: places_def)
  let ?xs = "[OInsert ''a'' (Some (1 :: nat)), OInsert ''a'' (Some 2), OUpdate ''a'' (Some 3), OInsert ''b'' None,
      ORemove ''a'', OGet ''a'']"
  obtain as t where t: "table_ops (stl_step (\<lambda>t e. e # t)) ?xs [] = Inr (as, t)"
    "map_ops ?xs Map.empty = (as, contents t)" "stl_Size t = card (dom (contents t))"
    using table_refines_map [OF p] by blast
  have as: "as = [Ok True, Ok False, Old (Some 1), Ok True, Old (Some 3), Old None]" "contents t = [''b'' \<mapsto> None]"
    using t(2) by (auto simp: fun_eq_iff)
  then show ?thesis using t(1,3) by auto
qed

section \<open>Redis commands\<close>

text \<open>The update command that the Redis client is given for values of the workload passes its
  assertions, and is the command, the key, and the fields and values, separated by single spaces.\<close>

theorem redis_update_words:
  assumes "write_fields env w = Inr (vs, w')" "CHR '' '' \<notin> set key"
  shows "\<exists>cmd. redis_update_cmd key vs = Inr cmd \<and>
    split_words cmd = ''HMSET'' # key # concat (map (\<lambda>(f, v). [f, v]) vs)"
proof -
  have pr: "\<forall>p \<in> set vs. printable_pair p"
    using assms(1) BuildValues_shape BuildUpdate_shape by (auto simp: write_fields_def split: if_splits)
  have "split_words (''HMSET'' @ CHR '' '' # key @ pair_words vs) = ''HMSET'' # key # concat (map (\<lambda>(f, v). [f, v]) vs)"
    unfolding split_words_append [of "''HMSET''", simplified] using split_pair_words [OF assms(2) pr] by simp
  then show ?thesis using redis_update_printable [OF pr, of key] by simp
qed

lemma redis_update_words_witness:
  "\<exists>vs w' cmd. write_fields sample_env small_workload = Inr (vs, w') \<and>
    redis_update_cmd ''user7'' vs = Inr cmd \<and> hd (split_words cmd) = ''HMSET''"
proof -
  obtain vs w' where v: "write_fields sample_env small_workload = Inr (vs, w')"
    by (simp add: write_fields_def BuildUpdate_def NextFieldName_def draw_field_def draw_def Next_def next_value_def
        draw_field_len_def small_workload_def CoreWorkload_def split_beta)
  show ?thesis using redis_update_words [OF v, of "''user7''"] v by auto
qed

end
