(* ===== verification/Driver_Props.thy ===== *)
theory Driver_Props
  imports LearnedKV_Props Ycsb_Props
begin

text \<open>The properties of the benchmark program, alone and after the workload generator.\<close>

section \<open>The limit\<close>

lemma test_setup_elim:
  assumes "test_setup wr mem disk0 args = Inr (cfg, kvnum, ws)"
  obtains keys_file n num_kv ratio limit where
    "get_required (parse_flags args) ''keys_file'' = Inr keys_file"
    "get_required (parse_flags args) ''num_kv'' = Inr n" "stoull n = Inr num_kv"
    "stod (get_with_default (parse_flags args) ''over_provision_ratio'' ''0.3'') = Inr ratio"
    "limit_of num_kv ratio = Inr limit" "read_workload disk0 keys_file = Inr ws"
    "cfg = \<lparr>learned_index_used = (get_with_default (parse_flags args) ''index_type'' ''LearnedKV'' = ''LearnedKV''),
       group_size = limit, writable = wr, fresh = mem\<rparr>"
    "kvnum = unat (ucast num_kv :: u32)" "kvnum \<le> length ws" "2 \<le> length args"
    "get_with_default (parse_flags args) ''index_type'' ''LearnedKV'' \<in> {''LearnedKV'', ''RocksDB''}"
  using assms unfolding test_setup_def Let_def
  by (elim if_elim and_then_elim) (auto simp: not_less)

text \<open>With a ratio that is not negative the limit is at least the size of the records.\<close>

lemma limit_of_ge:
  assumes "limit_of num_kv ratio = Inr limit" "is_fin ratio" "0 \<le> valof ratio"
    and "unat num_kv * 1024 < 9007199254740992"
  shows "unat num_kv * 1024 \<le> unat limit"
proof -
  let ?x = "double_of_u64 (num_kv * word_of_nat (KEY_SIZE + VALUE_SIZE))"
  let ?y = "dadd (double_rat 1) ratio"
  let ?i = "of_nat (unat num_kv * 1024) :: rat"
  have u: "uint (num_kv * word_of_nat (KEY_SIZE + VALUE_SIZE)) = int (unat num_kv * 1024)"
  proof -
    have "unat (num_kv * word_of_nat (KEY_SIZE + VALUE_SIZE)) = unat num_kv * 1024"
      using assms(4) by (subst unat_word_ariths) simp
    then show ?thesis by (metis uint_nat)
  qed
  have b: "int (unat num_kv * 1024) < 9007199254740992" using assms(4) by linarith
  have x: "is_fin ?x" "valof ?x = ?i" using double_of_u64_exact [OF u b] by (simp_all only: of_int_of_nat_eq)
  have y: "?y = round_double (dsign (double_rat 1) \<and> dsign ratio) (1 + valof ratio)"
    using assms(2) by (simp add: dadd_fin)
  have "1 \<le> rnd (1 + valof ratio)" using rnd_mono [of 1 "1 + valof ratio"] rnd_int [of 1] assms(3) by simp
  then have y1: "1 \<le> valof ?y" unfolding y by simp
  let ?p = "dmul ?x ?y"
  have p: "is_fin ?p" "0 \<le> rat_trunc (valof ?p)" "rat_trunc (valof ?p) < 2 ^ 64"
    "limit = word_of_int (rat_trunc (valof ?p))"
    using assms(1) by (auto simp: limit_of_def u64_of_double_def Let_def split: if_splits)
  have "\<not> is_inf ?y"
  proof
    assume "is_inf ?y"
    then have "?p = dnan \<or> (\<exists>s. ?p = dinf s)" unfolding dmul_def Let_def by auto
    moreover have "\<not> is_fin dnan" by (simp add: is_fin_def dnan_def dmag_def inf_mag_def ibit_def)
    moreover have "\<not> is_fin (dinf s)" for s
      using make_double_parts(1) [of inf_mag s] inf_mag_less inf_mag_pos by (simp add: is_fin_def dinf_def)
    ultimately show False using p(1) by auto
  qed
  moreover have "\<not> is_nan ?y" unfolding y by simp
  ultimately have "is_fin ?y" by (auto simp: is_fin_def is_inf_def is_nan_def)
  then have v: "valof ?p = rnd (?i * valof ?y)" using x by (simp add: dmul_fin)
  have "?i \<le> ?i * valof ?y" using mult_left_mono [OF y1 of_nat_0_le_iff [of "unat num_kv * 1024"]] by (simp only: mult_1_right)
  then have "rnd ?i \<le> valof ?p" unfolding v by (rule rnd_mono)
  moreover have "rnd ?i = ?i" using rnd_int [of "int (unat num_kv * 1024)"] b by (simp only: of_int_of_nat_eq abs_of_nat)
  ultimately have q: "?i \<le> valof ?p" by simp
  have "0 \<le> valof ?p" by (rule order_trans [OF of_nat_0_le_iff q])
  then have "int (unat num_kv * 1024) \<le> rat_trunc (valof ?p)"
    using q unfolding rat_trunc_def le_floor_iff by (simp only: of_int_of_nat_eq if_True le_floor_iff)
  moreover have "uint limit = rat_trunc (valof ?p)"
    using p(2,3) unfolding p(4) by (simp add: uint_word_of_int)
  ultimately show ?thesis by (metis uint_nat zle_int)
qed

lemma test_setup_config:
  assumes "test_setup wr mem disk0 args = Inr (cfg, kvnum, ws)"
  shows "writable cfg = wr \<and> kvnum \<le> length ws"
  by (rule test_setup_elim [OF assms]) simp

section \<open>Runs\<close>

lemma test_main_log:
  assumes "test_setup wr mem disk0 args = Inr (cfg, kvnum, ws)" "kvnum \<noteq> 0"
    and "\<forall>(opr, k) \<in> set ws. opr \<in> {''READ'', ''UPDATE'', ''INSERT''}" "session_ok cfg (trace_requests ws) []"
    and "0 < capacity cfg" "capacity cfg \<le> 100000000"
    and "rocks_ok R view" "view d0 = Map.empty" "disk0 VLOG_PATH = None" "wr VLOG_PATH"
  shows "\<exists>s'. test_main R wr mem d0 disk0 args = Some (Inr s') \<and>
    store_keeps R cfg view (store s') (foldl (spec_put (capacity cfg)) [] (written ws))"
proof -
  have w: "writable cfg VLOG_PATH" using test_setup_config [OF assms(1)] assms(10) by simp
  let ?s = "\<lparr>store = new_LearnedKV R d0 disk0, read_count = 0, write_count = 0, scan_count = 0\<rparr>"
  have k: "store_keeps R cfg view (store ?s) []"
    using store_keeps_new [OF assms(7), of d0 disk0 cfg] assms(5,6,8,9) w by simp
  obtain t where t: "run_loop R cfg kvnum 0 ws ?s = Some (Inr t)"
    "store_keeps R cfg view (store t) (foldl (spec_put (capacity cfg)) [] (written ws))"
    using run_loop_log [OF assms(2) k assms(4,3), of 0] by blast
  have "test_main R wr mem d0 disk0 args = Some (Inr (print_throughtput t))"
    unfolding test_main_def assms(1) by (simp add: t(1))
  then show ?thesis using t(2) by (simp add: store_keeps_report)
qed

text \<open>What the store answers when it keeps a log.\<close>

lemma store_answers:
  assumes "store_keeps R cfg view s recs"
  shows "current recs key = Some x \<Longrightarrow> \<exists>t. get R cfg key key_size v value_size s = Inr (0, x, t)"
    "current recs key = None \<Longrightarrow> \<not> learned_index_used cfg \<Longrightarrow> \<exists>t. get R cfg key key_size v value_size s = Inr (- 1, v, t)"
proof -
  show "\<exists>t. get R cfg key key_size v value_size s = Inr (0, x, t)" if "current recs key = Some x"
    using store_hit [OF assms that, of v] by blast
  show "\<exists>t. get R cfg key key_size v value_size s = Inr (- 1, v, t)" if "current recs key = None" "\<not> learned_index_used cfg"
    using plain_get [of R cfg view s recs key v] assms that by (auto simp: plain_store_keeps)
qed

section \<open>Files the generator leaves alone\<close>

lemma append_line_other: "p \<noteq> OUTPUT_PATH \<Longrightarrow> append_line mw l d p = d p"
  by (simp add: append_line_def fopen_append_def fwrite_end_def split: option.splits)

lemma load_loop_files:
  assumes "load_loop env (HashtableDB mw) n oks (w, d) = Inr (res, w', d')"
  shows "d' VLOG_PATH = d VLOG_PATH"
  using assms
proof (induction n arbitrary: oks w d)
  case (Suc n)
  obtain ok w1 d1 where s: "DoInsert env (HashtableDB mw) (w, d) = Inr (ok, w1, d1)"
    "load_loop env (HashtableDB mw) n (oks + of_bool ok) (w1, d1) = Inr (res, w', d')"
    using Suc.prems by (auto simp: and_then_Inr)
  have "\<exists>l. d1 = append_line mw l d" using s(1) by (auto simp: DoInsert_def and_then_Inr hashtable_Insert_def)
  moreover have "VLOG_PATH \<noteq> OUTPUT_PATH" by (simp add: VLOG_PATH_def OUTPUT_PATH_def)
  ultimately show ?case using Suc.IH [OF s(2)] append_line_other by metis
qed simp

section \<open>A sample run\<close>

text \<open>The arguments; without an index type the program runs in the learned mode.\<close>

definition sample_args :: "bool \<Rightarrow> string list" where
  "sample_args l = [''--keys_file=output.txt'', ''--num_kv=2'', ''--over_provision_ratio=0''] @
     (if l then [] else [''--index_type=RocksDB''])"

lemma sample_flags: "parse_flags (sample_args l) =
    (if l then Map.empty else [''index_type'' \<mapsto> ''RocksDB'']) ++
      [''keys_file'' \<mapsto> ''output.txt'', ''num_kv'' \<mapsto> ''2'', ''over_provision_ratio'' \<mapsto> ''0'']"
  by (cases l) (simp_all add: sample_args_def parse_flags_def parse_flag_def fun_eq_iff)

lemma sample_limit: "limit_of 2 (double_rat 0) = Inr 2048"
proof -
  have a: "dadd (double_rat 1) (double_rat 0) = double_rat 1" using small_dadd [of 1 0] by simp
  have u: "uint (2048 :: u64) = 2048" by simp
  have x: "is_fin (double_of_u64 2048)" "valof (double_of_u64 2048) = 2048" using double_of_u64_exact [OF u] by simp_all
  have "dmul (double_of_u64 2048) (double_rat 1) = round_double (dsign (double_of_u64 2048) \<noteq> dsign (double_rat 1)) 2048"
    using x by (simp add: dmul_fin)
  then show ?thesis using rnd_int [of 2048] is_fin_round_60 [of 2048]
    by (simp add: limit_of_def a u64_of_double_def rat_trunc_def Let_def)
qed

lemma sample_setup:
  assumes "read_workload d OUTPUT_PATH = Inr [x, y]"
  shows "test_setup (\<lambda>_. True) (\<lambda>_ _. 0) d (sample_args l) = Inr (sample_config l, 2, [x, y])"
proof -
  have "stoull ''2'' = Inr 2" by (simp add: stoull_def text_eval)
  moreover have "stod ''0'' = Inr (double_rat 0)" by (rule sample_stod)
  moreover have "read_workload d ''output.txt'' = Inr [x, y]" using assms by (simp add: OUTPUT_PATH_def)
  ultimately show ?thesis
    by (cases l) (simp_all add: test_setup_def sample_flags get_required_def get_with_default_def sample_limit sample_config_def,
      simp_all add: sample_args_def)
qed

text \<open>C6: A run of the benchmark program over a trace of reads, updates and insertions returns, and then
  every key in the abstract log of the writes in the trace is found with the value derived from it;
  without the learned index no other key is found. The trace may be any without the learned index. In
  the learned mode it reads keys of the log only, and a collection on the way finds 3 to 1001 keys
  that are small enough for exact arithmetic (\<open>session_ok\<close>), with all files writable. The store is new, the
  number of pairs is not 0, and the size limit is between one record and \<open>10 ^ 8\<close> records.\<close>

theorem test_main_answers:
  assumes "test_setup wr mem disk0 args = Inr (cfg, kvnum, ws)" "kvnum \<noteq> 0"
    and "\<forall>(opr, k) \<in> set ws. opr \<in> {''READ'', ''UPDATE'', ''INSERT''}" "session_ok cfg (trace_requests ws) []"
    and "0 < capacity cfg" "capacity cfg \<le> 100000000"
    and "rocks_ok R view" "view d0 = Map.empty" "disk0 VLOG_PATH = None" "wr VLOG_PATH"
  shows "\<exists>s'. test_main R wr mem d0 disk0 args = Some (Inr s') \<and>
    (\<forall>key v. if current (foldl (spec_put (capacity cfg)) [] (written ws)) key \<noteq> None
       then \<exists>t. get R cfg key key_size v value_size (store s') = Inr (0, gen_value key 1016, t)
       else \<not> learned_index_used cfg \<longrightarrow> (\<exists>t. get R cfg key key_size v value_size (store s') = Inr (- 1, v, t)))"
proof -
  obtain s' where s': "test_main R wr mem d0 disk0 args = Some (Inr s')"
    "store_keeps R cfg view (store s') (foldl (spec_put (capacity cfg)) [] (written ws))"
    using test_main_log [OF assms] by blast
  then show ?thesis using store_answers [OF s'(2)] current_written [of "capacity cfg" ws] by fastforce
qed

text \<open>The trace of two loaded records.\<close>

lemma sample_trace:
  obtains w w' d where "Init sample_env sample_properties (CoreWorkload 0 no_rng) = Inr w"
    "load_loop sample_env (HashtableDB (\<lambda>_. True)) 2 0 (w, Map.empty) = Inr (2, w', d)"
    "read_workload d OUTPUT_PATH = Inr [(''INSERT'', Hash 0), (''INSERT'', Hash 1)]" "\<not> ordered_inserts w"
    "d VLOG_PATH = None"
proof -
  obtain w where w: "Init sample_env sample_properties (CoreWorkload 0 no_rng) = Inr w" "\<not> ordered_inserts w"
    using sample_Init by blast
  have f: "field_len_dist sample_properties \<noteq> ''zipfian''" by (simp add: field_len_dist_def sample_texts)
  obtain w' d where d: "load_loop sample_env (HashtableDB (\<lambda>_. True)) 2 0 (w, Map.empty) = Inr (2, w', d)"
    "read_workload d OUTPUT_PATH = Inr [(''INSERT'', Hash 0), (''INSERT'', Hash 1)]"
    using load_reads_back [where may_write = "\<lambda>_. True" and d = Map.empty and n = 2, OF w(1) f] w
    by (auto simp: sample_texts sample_stoi key_number_def numeral_2_eq_2)
  have "d VLOG_PATH = None" using load_loop_files [OF d(1)] by simp
  then show ?thesis using that w d by blast
qed

lemma test_main_answers_witness:
  "\<exists>d s'. read_workload d OUTPUT_PATH = Inr [(''INSERT'', Hash 0), (''INSERT'', Hash 1)] \<and>
    test_main ordered_rocks (\<lambda>_. True) (\<lambda>_ _. 0) store_empty d (sample_args False) = Some (Inr s') \<and>
    (\<exists>t. get ordered_rocks (sample_config False) (Hash 0) key_size [] value_size (store s') =
      Inr (0, gen_value (Hash 0) 1016, t))"
proof -
  obtain d where d: "read_workload d OUTPUT_PATH = Inr [(''INSERT'', Hash 0), (''INSERT'', Hash 1)]" "d VLOG_PATH = None"
    by (rule sample_trace)
  let ?ws = "[(''INSERT'', Hash 0), (''INSERT'', Hash 1)]" and ?cfg = "sample_config False"
  have ok: "session_ok ?cfg (trace_requests ?ws) []"
    by (simp only: session_ok_plain sized_trace sample_simps not_False_eq_True)
  have cur: "current (foldl (spec_put (capacity ?cfg)) [] (written ?ws)) (Hash 0) \<noteq> None"
    by (simp add: spec_put_def current_def)
  have "\<exists>s'. test_main ordered_rocks (\<lambda>_. True) (\<lambda>_ _. 0) store_empty d (sample_args False) = Some (Inr s') \<and>
    (\<forall>key v. if current (foldl (spec_put (capacity ?cfg)) [] (written ?ws)) key \<noteq> None
       then \<exists>t. get ordered_rocks ?cfg key key_size v value_size (store s') = Inr (0, gen_value key 1016, t)
       else \<not> learned_index_used ?cfg \<longrightarrow>
         (\<exists>t. get ordered_rocks ?cfg key key_size v value_size (store s') = Inr (- 1, v, t)))"
    by (rule test_main_answers [OF sample_setup [OF d(1)] _ _ ok _ _ ordered_rocks_ok]) (use d(2) in simp_all)
  then show ?thesis using cur d(1) by metis
qed

lemma puts_below_capacity:
  "length recs + length rs \<le> n \<Longrightarrow> foldl (spec_put n) recs rs = recs @ rs"
  by (induction rs arbitrary: recs) (auto simp: spec_put_def)

lemma written_inserts: "written (map (\<lambda>k. (''INSERT'', k)) ks) = map (\<lambda>k. (k, gen_value k 1016)) ks"
  by (induction ks) auto

lemma current_inserts: "current (map (\<lambda>k. (k, f k)) ks) k = None \<longleftrightarrow> k \<notin> set ks"
  by (auto simp: current_def map_of_eq_None_iff image_iff)

lemma inserts_ok:
  "length recs + length ks \<le> capacity cfg \<Longrightarrow> session_ok cfg (trace_requests (map (\<lambda>k. (''INSERT'', k)) ks)) recs"
  by (induction ks arbitrary: recs) (auto simp: gen_value_def store_room_def spec_put_def)

text \<open>C5: From the generator to the store: when a workload as \<open>Init\<close> configures it, with field lengths that
  are not Zipfian, has loaded \<open>n\<close> records into a new trace, and the benchmark program runs that trace with
  a size limit that leaves room for the \<open>n\<close> records (so that nothing is collected), then, with and
  without the learned index, every key of the records is found afterwards with the value derived from
  it. Without the learned index no other key is found.\<close>

theorem loaded_records_found:
  assumes "Init env p (CoreWorkload zp r) = Inr w" "field_len_dist p \<noteq> ''zipfian''"
    and "may_write OUTPUT_PATH" "d OUTPUT_PATH = None" "0 < n"
    and "load_loop env (HashtableDB may_write) n 0 (w, d) = Inr (oks, w', d')"
    and "stoi (GetProperty p INSERT_START_PROPERTY INSERT_START_DEFAULT) = Inr first"
    and "test_setup wr mem d' args = Inr (cfg, kvnum, ws)" "kvnum \<noteq> 0"
    and "get_required (parse_flags args) ''keys_file'' = Inr OUTPUT_PATH"
    and "n \<le> capacity cfg" "capacity cfg \<le> 100000000"
    and "rocks_ok R view" "view d0 = Map.empty" "d' VLOG_PATH = None" "wr VLOG_PATH"
  shows "\<exists>s'. test_main R wr mem d0 d' args = Some (Inr s') \<and>
    (\<forall>key v. if \<exists>i < n. key = key_number w (word_of_int first + word_of_nat i)
       then \<exists>t. get R cfg key key_size v value_size (store s') = Inr (0, gen_value key 1016, t)
       else \<not> learned_index_used cfg \<longrightarrow> (\<exists>t. get R cfg key key_size v value_size (store s') = Inr (- 1, v, t)))"
proof -
  define ks where "ks = map (\<lambda>i. key_number w (word_of_int first + word_of_nat i)) [0..<n]"
  have ks: "key \<in> set ks \<longleftrightarrow> (\<exists>i < n. key = key_number w (word_of_int first + word_of_nat i))" "length ks = n" for key
    by (auto simp: ks_def)
  have "read_workload d' OUTPUT_PATH = Inr (map (\<lambda>k. (''INSERT'', k)) ks)"
    unfolding ks_def map_map o_def
    using load_reads_back [where may_write = may_write and d = d and n = n, OF assms(1-5)] assms(6,7) by auto
  then have ws: "ws = map (\<lambda>k. (''INSERT'', k)) ks"
    using assms(10) by (auto intro: test_setup_elim [OF assms(8)])
  let ?log = "foldl (spec_put (capacity cfg)) [] (written ws)"
  have log: "?log = map (\<lambda>k. (k, gen_value k 1016)) ks"
    unfolding ws written_inserts using puts_below_capacity [of "[]"] assms(11) ks(2) by simp
  have ops: "\<forall>(opr, k) \<in> set ws. opr \<in> {''READ'', ''UPDATE'', ''INSERT''}" unfolding ws by auto
  have ok: "session_ok cfg (trace_requests ws) []"
    unfolding ws using inserts_ok [where recs = "[]" and ks = ks and cfg = cfg] assms(11) ks(2) by simp
  have cap: "0 < capacity cfg" using assms(5,11) by simp
  obtain s' where s': "test_main R wr mem d0 d' args = Some (Inr s')" "store_keeps R cfg view (store s') ?log"
    using test_main_log [OF assms(8,9) ops ok cap assms(12-16)] by blast
  have "if key \<in> set ks then \<exists>t. get R cfg key key_size v value_size (store s') = Inr (0, gen_value key 1016, t)
      else \<not> learned_index_used cfg \<longrightarrow> (\<exists>t. get R cfg key key_size v value_size (store s') = Inr (- 1, v, t))" for key v
    using store_answers(1) [OF s'(2), of key _ v] store_answers(2) [OF s'(2), of key v] current_written [of "capacity cfg" ws key]
      current_inserts [of "\<lambda>k. gen_value k 1016" ks key] unfolding log by fastforce
  then show ?thesis using s'(1) unfolding ks(1) by blast
qed

lemma loaded_records_found_witness:
  "\<exists>d s'. test_main ordered_rocks (\<lambda>_. True) (\<lambda>_ _. 0) store_empty d (sample_args True) = Some (Inr s') \<and>
    (\<exists>t. get ordered_rocks (sample_config True) (Hash 1) key_size [] value_size (store s') =
      Inr (0, gen_value (Hash 1) 1016, t))"
proof -
  obtain w w' d where d: "Init sample_env sample_properties (CoreWorkload 0 no_rng) = Inr w"
    "load_loop sample_env (HashtableDB (\<lambda>_. True)) 2 0 (w, Map.empty) = Inr (2, w', d)"
    "read_workload d OUTPUT_PATH = Inr [(''INSERT'', Hash 0), (''INSERT'', Hash 1)]" "\<not> ordered_inserts w"
    "d VLOG_PATH = None"
    by (rule sample_trace)
  have f: "field_len_dist sample_properties \<noteq> ''zipfian''" by (simp add: field_len_dist_def sample_texts)
  have st: "stoi (GetProperty sample_properties INSERT_START_PROPERTY INSERT_START_DEFAULT) = Inr 0"
    by (simp add: sample_texts sample_stoi)
  have k: "get_required (parse_flags (sample_args True)) ''keys_file'' = Inr OUTPUT_PATH"
    by (simp add: sample_flags get_required_def OUTPUT_PATH_def)
  let ?cfg = "sample_config True" and ?loaded = "\<lambda>key. \<exists>i < 2. key = key_number w (word_of_int 0 + word_of_nat i)"
  have "\<exists>s'. test_main ordered_rocks (\<lambda>_. True) (\<lambda>_ _. 0) store_empty d (sample_args True) = Some (Inr s') \<and>
    (\<forall>key v. if ?loaded key
       then \<exists>t. get ordered_rocks ?cfg key key_size v value_size (store s') = Inr (0, gen_value key 1016, t)
       else \<not> learned_index_used ?cfg \<longrightarrow>
         (\<exists>t. get ordered_rocks ?cfg key key_size v value_size (store s') = Inr (- 1, v, t)))"
    by (rule loaded_records_found [where may_write = "\<lambda>_. True", OF d(1) f _ _ _ d(2) st sample_setup [OF d(3)] _ k _ _ ordered_rocks_ok])
      (use d(5) in simp_all)
  moreover have "?loaded (Hash 1)" using d(4) by (intro exI [of _ 1]) (simp add: key_number_def)
  ultimately show ?thesis by (metis (no_types, lifting))
qed

section \<open>Room for loading\<close>

lemma stod_fin: "stod s = Inr d \<Longrightarrow> is_fin d"
proof -
  assume s: "stod s = Inr d"
  then obtain neg q where "d = round_double neg q" "\<not> is_inf d"
    by (auto simp: stod_def Let_def split: option.splits if_splits)
  moreover from this have "\<not> is_nan d" by simp
  ultimately show ?thesis by (auto simp: is_fin_def is_inf_def is_nan_def)
qed

text \<open>With an over-provision ratio that is not negative the limit leaves room for all the records of
  the load phase: that many puts only append to the log, without a collection.\<close>

theorem loading_fits:
  assumes "test_setup wr mem disk0 args = Inr (cfg, kvnum, ws)"
    and "get_required (parse_flags args) ''num_kv'' = Inr n" "stoull n = Inr num_kv"
    and "stod (get_with_default (parse_flags args) ''over_provision_ratio'' ''0.3'') = Inr ratio" "0 \<le> valof ratio"
    and "unat num_kv * 1024 < 9007199254740992" "length rs \<le> kvnum"
  shows "kvnum \<le> capacity cfg \<and> foldl (spec_put (capacity cfg)) [] rs = rs"
proof -
  have lim: "limit_of num_kv ratio = Inr (group_size cfg)" and kv: "kvnum = unat (ucast num_kv :: u32)"
    using assms(2-4) by (auto intro: test_setup_elim [OF assms(1)])
  have "kvnum \<le> unat num_kv" unfolding kv by (simp add: unsigned_ucast_eq take_bit_nat_less_eq_self)
  moreover have "unat num_kv \<le> capacity cfg"
    using limit_of_ge [OF lim stod_fin [OF assms(4)] assms(5,6)] by (simp add: capacity_def)
  ultimately show ?thesis using puts_below_capacity [of "[]" rs] assms(7) by simp
qed

lemma loading_fits_witness:
  "\<exists>d cfg ws. test_setup (\<lambda>_. True) (\<lambda>_ _. 0) d (sample_args False) = Inr (cfg, 2, ws) \<and> 2 \<le> capacity cfg"
proof -
  obtain d where d: "read_workload d OUTPUT_PATH = Inr [(''INSERT'', Hash 0), (''INSERT'', Hash 1)]"
    by (rule sample_trace)
  have f: "get_required (parse_flags (sample_args False)) ''num_kv'' = Inr ''2''" "stoull ''2'' = Inr 2"
    "stod (get_with_default (parse_flags (sample_args False)) ''over_provision_ratio'' ''0.3'') = Inr (double_rat 0)"
    by (simp_all add: sample_flags get_required_def get_with_default_def stoull_def text_eval sample_stod)
  have "2 \<le> capacity (sample_config False)"
    using loading_fits [OF sample_setup [OF d] f, of "[]"] by simp
  then show ?thesis using sample_setup [OF d] by blast
qed

end
