(* ===== verification/Ycsb_Main.thy ===== *)
theory Ycsb_Main
  imports Driver
begin

text \<open>
  The program \<open>YCSB-C/ycsbc.cc\<close> around the client: its command line, and the choice of the
  database in \<open>db/db_factory.cc\<close>. The loop of one thread is \<open>DelegateClient\<close>.
\<close>

section \<open>The command line\<close>

definition StrStartWith :: "string \<Rightarrow> string \<Rightarrow> bool" where
  "StrStartWith str pre \<longleftrightarrow> take (length pre) str = pre"

definition option_property :: "string \<Rightarrow> string option" where
  "option_property opt =
     (if opt = ''-threads'' then Some ''threadcount''
      else if opt = ''-db'' then Some ''dbname''
      else if opt = ''-host'' then Some ''host''
      else if opt = ''-port'' then Some ''port''
      else if opt = ''-slaves'' then Some ''slaves''
      else None)"

text \<open>The loop over the arguments from \<open>argv[1]\<close> on; it stops at one that is not an option. The catch
  clause is for strings, so the exception of \<open>Load\<close> goes through.\<close>

fun parse_options :: "disk \<Rightarrow> string list \<Rightarrow> string \<Rightarrow> properties \<Rightarrow> fault + (string list \<times> string \<times> properties)" where
  "parse_options d [] filename props = Inr ([], filename, props)"
| "parse_options d [opt] filename props =
     (if StrStartWith opt ''-'' then Inl Exited else Inr ([opt], filename, props))"
| "parse_options d (opt # v # args) filename props =
     (if \<not> StrStartWith opt ''-'' then Inr (opt # v # args, filename, props)
      else case option_property opt of
        Some name \<Rightarrow> parse_options d args filename (SetProperty name v props)
      | None \<Rightarrow>
          if opt = ''-P''
          then and_then (Load (map_option bytes_text (fopen_read d v)) props) (\<lambda>props. parse_options d args v props)
          else Inl Exited)"

definition ParseCommandLine :: "disk \<Rightarrow> string list \<Rightarrow> properties \<Rightarrow> fault + (string \<times> properties)" where
  "ParseCommandLine d args props =
     and_then (parse_options d args [] props) (\<lambda>(rest, filename, props).
       if rest = args \<or> rest \<noteq> [] then Inl Exited else Inr (filename, props))"

section \<open>The database\<close>

datatype created_db = NewBasicDB | NewLockStlDB | NewRedisDB string int int | NewTbbRandDB | NewTbbScanDB | NoDB

definition CreateDB :: "properties \<Rightarrow> fault + created_db" where
  "CreateDB props =
     and_then (property_at props ''dbname'') (\<lambda>name.
       if name = ''basic'' then Inr NewBasicDB
       else if name = ''lock_stl'' then Inr NewLockStlDB
       else if name = ''redis'' then
         and_then (property_at props ''port'') (\<lambda>p. and_then (stoi p) (\<lambda>port.
         and_then (property_at props ''slaves'') (\<lambda>s. and_then (stoi s) (\<lambda>slaves.
         and_then (property_at props ''host'') (\<lambda>host. Inr (NewRedisDB host port slaves))))))
       else if name = ''tbb_rand'' then Inr NewTbbRandDB
       else if name = ''tbb_scan'' then Inr NewTbbScanDB
       else Inr NoDB)"

text \<open>The databases over files: all hash tables share the code of \<open>HashtableDB\<close>. The Redis database works on a
  connection and is modelled on its own.\<close>

definition database_of :: "(string \<Rightarrow> bool) \<Rightarrow> created_db \<Rightarrow> disk database option" where
  "database_of mw c =
     (case c of
        NewBasicDB \<Rightarrow> Some (BasicDB mw)
      | NewLockStlDB \<Rightarrow> Some (HashtableDB mw)
      | NewTbbRandDB \<Rightarrow> Some (HashtableDB mw)
      | NewTbbScanDB \<Rightarrow> Some (HashtableDB mw)
      | _ \<Rightarrow> None)"

section \<open>Facts\<close>

text \<open>Options with their values are set as properties, in order.\<close>

lemma parse_options_set:
  assumes "\<forall>(opt, v) \<in> set os. option_property opt \<noteq> None"
  shows "parse_options d (concat (map (\<lambda>(opt, v). [opt, v]) os)) filename props =
    Inr ([], filename, props ++ map_of (rev (map (\<lambda>(opt, v). (the (option_property opt), v)) os)))"
  using assms
proof (induction os arbitrary: props)
  case (Cons ov os)
  obtain opt v where ov: "ov = (opt, v)" by (cases ov)
  obtain name where name: "option_property opt = Some name" using Cons.prems ov by auto
  then have "StrStartWith opt ''-''" by (auto simp: option_property_def StrStartWith_def split: if_splits)
  then show ?case using Cons name ov by (auto simp: SetProperty_def)
qed simp

lemma ParseCommandLine_options:
  assumes "\<forall>(opt, v) \<in> set os. option_property opt \<noteq> None" "os \<noteq> []"
  shows "ParseCommandLine d (concat (map (\<lambda>(opt, v). [opt, v]) os)) Map.empty =
    Inr ([], map_of (rev (map (\<lambda>(opt, v). (the (option_property opt), v)) os)))"
proof -
  have "concat (map (\<lambda>(opt, v). [opt, v]) os) \<noteq> []" using assms(2) by (cases os) auto
  then show ?thesis using parse_options_set [OF assms(1), of d "[]" Map.empty] by (simp add: ParseCommandLine_def)
qed

lemma CreateDB_lock_stl: "p ''dbname'' = Some ''lock_stl'' \<Longrightarrow> CreateDB p = Inr NewLockStlDB"
  by (simp add: CreateDB_def property_at_def)

end
