(* ===== verification/Ycsb_Threads.thy ===== *)
theory Ycsb_Threads
  imports Ycsb_Main Client_Facts "HOL-Library.Multiset"
begin

text \<open>
  The main program of the workload generator (\<open>main\<close> of \<open>YCSB-C/ycsbc.cc\<close>) with its threads. Every thread runs
  \<open>DelegateClient\<close> on the one workload and the one database; a run of the threads is a sequence of
  their steps in any order. A step of the load phase draws a key number (an atomic counter), builds the
  values, or inserts; a step of the transaction phase is a whole transaction. Draws of values by two
  threads at once, a data race in the code, are one after the other here.
\<close>

section \<open>A thread\<close>

text \<open>Where a thread is: the operations left, the successes so far, the key and the values of the
  insertion it is doing. A thread that throws an exception keeps it in its future; any other fault - a
  failed assertion, undefined behaviour - ends the whole program. What the failing operation has
  changed before is not kept, since the program then ends without a result.\<close>

datatype thread = Starting nat | Looping nat int | Drawn nat int string | Built nat int string pairs
  | Finished int | Threw fault

fun thread_step :: "randomness \<Rightarrow> 'd database \<Rightarrow> bool \<Rightarrow> 'd client \<Rightarrow> thread \<Rightarrow> ('d client \<times> thread) option" where
  "thread_step env D is_loading (w, d) (Starting n) = Some ((w, db_Init D d), Looping n 0)"
| "thread_step env D is_loading (w, d) (Looping 0 oks) = Some ((w, db_Close D d), Finished oks)"
| "thread_step env D is_loading (w, d) (Looping (Suc n) oks) =
     (if is_loading then
        (case NextSequenceKey env w of
           Inl e \<Rightarrow> Some ((w, d), Threw e)
         | Inr (key, w) \<Rightarrow> Some ((w, d), Drawn n oks key))
      else
        (case DoTransaction env D (w, d) of
           None \<Rightarrow> None
         | Some (Inl e) \<Rightarrow> Some ((w, d), Threw e)
         | Some (Inr (ok, cl)) \<Rightarrow> Some (cl, Looping n (oks + of_bool ok))))"
| "thread_step env D is_loading (w, d) (Drawn n oks key) =
     (case BuildValues env w of
        Inl e \<Rightarrow> Some ((w, d), Threw e)
      | Inr (values, w) \<Rightarrow> Some ((w, d), Built n oks key values))"
| "thread_step env D is_loading (w, d) (Built n oks key values) =
     (case db_Insert D (NextTable w) key values d of
        Inl e \<Rightarrow> Some ((w, d), Threw e)
      | Inr (status, d) \<Rightarrow> Some ((w, d), Looping n (oks + of_bool (status = kOK))))"
| "thread_step env D is_loading (w, d) (Finished oks) = None"
| "thread_step env D is_loading (w, d) (Threw e) = None"

text \<open>Exceptions of C++, and threads that are not stopped by anything else.\<close>

fun is_exception :: "fault \<Rightarrow> bool" where
  "is_exception (Thrown msg) = True"
| "is_exception InvalidArgument = True"
| "is_exception OutOfRange = True"
| "is_exception e = False"

definition alive :: "thread list \<Rightarrow> bool" where
  "alive ts \<longleftrightarrow> (\<forall>e. Threw e \<in> set ts \<longrightarrow> is_exception e)"

text \<open>Any thread may be the next to take a step.\<close>

inductive run_step :: "randomness \<Rightarrow> 'd database \<Rightarrow> bool \<Rightarrow> 'd client \<times> thread list \<Rightarrow> 'd client \<times> thread list \<Rightarrow> bool"
  for env D is_loading where
  step: "alive (us @ t # vs) \<Longrightarrow> thread_step env D is_loading cl t = Some (cl', t') \<Longrightarrow>
    run_step env D is_loading (cl, us @ t # vs) (cl', us @ t' # vs)"

inductive_cases run_stepE: "run_step env D is_loading (cl, ts) (cl', ts')"

section \<open>The main program\<close>

text \<open>\<open>total_ops / num_threads\<close> truncates towards zero; a loop with a negative bound does nothing.\<close>

definition ops_per_thread :: "int \<Rightarrow> int \<Rightarrow> int" where
  "ops_per_thread total_ops num_threads =
     (if total_ops < 0 then - (- total_ops div num_threads) else total_ops div num_threads)"

definition start_threads :: "int \<Rightarrow> int \<Rightarrow> thread list" where
  "start_threads total_ops num_threads =
     replicate (nat num_threads) (Starting (nat (ops_per_thread total_ops num_threads)))"

text \<open>The loop over the futures once the threads have ended: \<open>get\<close> throws what the thread threw, which
  nothing catches.\<close>

fun collect :: "thread list \<Rightarrow> fault + int" where
  "collect [] = Inr 0"
| "collect (t # ts) =
     (case t of
        Finished oks \<Rightarrow> and_then (collect ts) (\<lambda>rest. Inr (oks + rest))
      | _ \<Rightarrow> Inl Terminated)"

text \<open>The loop is through when all threads have finished, or all before one that threw.\<close>

fun all_got :: "thread list \<Rightarrow> bool" where
  "all_got [] = True"
| "all_got (t # ts) = (case t of Finished _ \<Rightarrow> all_got ts | Threw _ \<Rightarrow> True | _ \<Rightarrow> False)"

text \<open>What comes before the threads: the database, the workload, the threads and the records to load.\<close>

definition prepare_run ::
  "randomness \<Rightarrow> (string \<Rightarrow> bool) \<Rightarrow> disk \<Rightarrow> string list \<Rightarrow> core_workload
    \<Rightarrow> fault + (properties \<times> disk database \<times> core_workload \<times> int \<times> int)" where
  "prepare_run env mw d args w0 =
     and_then (ParseCommandLine d args Map.empty) (\<lambda>(file, props).
     and_then (CreateDB props) (\<lambda>c.
       case database_of mw c of
         None \<Rightarrow> Inl Exited
       | Some D \<Rightarrow>
           and_then (Init env props w0) (\<lambda>w.
           and_then (stoi (GetProperty props ''threadcount'' ''1'')) (\<lambda>num_threads.
           and_then (property_at props RECORD_COUNT_PROPERTY) (\<lambda>rc.
           and_then (stoi rc) (\<lambda>total_ops. Inr (props, D, w, num_threads, total_ops)))))))"

text \<open>A phase runs the threads until the loop over their futures is through, or until a thread ends the program.\<close>

definition phase_run :: "randomness \<Rightarrow> 'd database \<Rightarrow> bool \<Rightarrow> int \<Rightarrow> int \<Rightarrow> 'd client \<Rightarrow> 'd client \<Rightarrow> fault + int \<Rightarrow> bool" where
  "phase_run env D is_loading total_ops num_threads cl cl' res \<longleftrightarrow>
     (\<exists>ts. (run_step env D is_loading)\<^sup>*\<^sup>* (cl, start_threads total_ops num_threads) (cl', ts) \<and>
        (alive ts \<and> all_got ts \<and> res = collect ts \<or> (\<exists>e. Threw e \<in> set ts \<and> \<not> is_exception e \<and> res = Inl e)))"

text \<open>What a run of the program can give: the sums it counts for the two phases, and the files.\<close>

inductive ycsb_main :: "randomness \<Rightarrow> (string \<Rightarrow> bool) \<Rightarrow> disk \<Rightarrow> string list \<Rightarrow> core_workload \<Rightarrow> fault + (int \<times> int \<times> disk) \<Rightarrow> bool"
  for env mw d args w0 where
  not_prepared: "prepare_run env mw d args w0 = Inl e \<Longrightarrow> ycsb_main env mw d args w0 (Inl e)"
| load_failed: "prepare_run env mw d args w0 = Inr (props, D, w, num_threads, total_ops) \<Longrightarrow>
    phase_run env D True total_ops num_threads (w, d) cl (Inl e) \<Longrightarrow> ycsb_main env mw d args w0 (Inl e)"
| no_operations: "prepare_run env mw d args w0 = Inr (props, D, w, num_threads, total_ops) \<Longrightarrow>
    phase_run env D True total_ops num_threads (w, d) cl (Inr loaded) \<Longrightarrow>
    and_then (property_at props OPERATION_COUNT_PROPERTY) stoi = Inl e \<Longrightarrow> ycsb_main env mw d args w0 (Inl e)"
| transactions_failed: "prepare_run env mw d args w0 = Inr (props, D, w, num_threads, total_ops) \<Longrightarrow>
    phase_run env D True total_ops num_threads (w, d) cl (Inr loaded) \<Longrightarrow>
    and_then (property_at props OPERATION_COUNT_PROPERTY) stoi = Inr ops \<Longrightarrow>
    phase_run env D False ops num_threads cl cl' (Inl e) \<Longrightarrow> ycsb_main env mw d args w0 (Inl e)"
| finished: "prepare_run env mw d args w0 = Inr (props, D, w, num_threads, total_ops) \<Longrightarrow>
    phase_run env D True total_ops num_threads (w, d) cl (Inr loaded) \<Longrightarrow>
    and_then (property_at props OPERATION_COUNT_PROPERTY) stoi = Inr ops \<Longrightarrow>
    phase_run env D False ops num_threads cl (w', d') (Inr done_ops) \<Longrightarrow> ycsb_main env mw d args w0 (Inr (loaded, done_ops, d'))"

end
