(* ===== verification/Ycsb_Thread_Facts.thy ===== *)
theory Ycsb_Thread_Facts
  imports Ycsb_Threads
begin

text \<open>
  The invariant of the threads, over all orders of their steps: which key numbers have been drawn, which
  threads hold one, and what the trace has.
\<close>

section \<open>One thread of the load phase\<close>

text \<open>The steps a thread of the load phase has still to take, and the insertions it has done.\<close>

fun steps_left :: "thread \<Rightarrow> nat" where
  "steps_left (Starting n) = 3 * n + 2"
| "steps_left (Looping n oks) = 3 * n + 1"
| "steps_left (Drawn n oks key) = 3 * n + 3"
| "steps_left (Built n oks key values) = 3 * n + 2"
| "steps_left (Finished oks) = 0"
| "steps_left (Threw e) = 0"

fun oks_of :: "thread \<Rightarrow> int" where
  "oks_of (Looping n oks) = oks"
| "oks_of (Drawn n oks key) = oks"
| "oks_of (Built n oks key values) = oks"
| "oks_of (Finished oks) = oks"
| "oks_of _ = 0"

text \<open>A thread of \<open>per\<close> operations that has not thrown, and the numbers it has drawn but not inserted.\<close>

fun in_budget :: "nat \<Rightarrow> thread \<Rightarrow> bool" where
  "in_budget per (Starting n) \<longleftrightarrow> n = per"
| "in_budget per (Looping n oks) \<longleftrightarrow> oks + int n = int per"
| "in_budget per (Drawn n oks key) \<longleftrightarrow> oks + 1 + int n = int per"
| "in_budget per (Built n oks key values) \<longleftrightarrow> oks + 1 + int n = int per"
| "in_budget per (Finished oks) \<longleftrightarrow> oks = int per"
| "in_budget per (Threw e) \<longleftrightarrow> False"

fun holds_keys :: "core_workload \<Rightarrow> u64 \<Rightarrow> thread \<Rightarrow> nat list \<Rightarrow> bool" where
  "holds_keys W c (Drawn n oks key) js \<longleftrightarrow> (\<exists>j. js = [j] \<and> key = BuildKeyName W (c + of_nat j))"
| "holds_keys W c (Built n oks key values) js \<longleftrightarrow> (\<exists>j. js = [j] \<and> key = BuildKeyName W (c + of_nat j))"
| "holds_keys W c _ js \<longleftrightarrow> js = []"

definition inserted :: "core_workload \<Rightarrow> u64 \<Rightarrow> nat list \<Rightarrow> (string \<times> u64) list" where
  "inserted W c js = map (\<lambda>j. (''INSERT'', key_number W (c + of_nat j))) js"

text \<open>The shared state when \<open>m\<close> numbers have been drawn and those of \<open>js\<close> inserted, in this order.\<close>

definition load_shared :: "core_workload \<Rightarrow> u64 \<Rightarrow> nat \<Rightarrow> nat list \<Rightarrow> disk client \<Rightarrow> bool" where
  "load_shared W c m js cl \<longleftrightarrow> (case cl of (w, d) \<Rightarrow>
     same_setup W w \<and> key_generator w = Some (Counter (c + of_nat m)) \<and> steady (field_len_generator w) \<and>
     trace_of d (inserted W c js))"

text \<open>A step of one thread: what it takes from and gives to the rest.\<close>

definition load_moves ::
  "core_workload \<Rightarrow> u64 \<Rightarrow> nat \<Rightarrow> (nat \<times> nat list \<times> nat list \<times> thread) \<Rightarrow> (nat \<times> nat list \<times> nat list \<times> thread) \<Rightarrow> bool" where
  "load_moves W c per before after \<longleftrightarrow>
     (case (before, after) of ((m, js, ps, t), (m', js', ps', t')) \<Rightarrow>
        holds_keys W c t' ps' \<and> in_budget per t' \<and> steps_left t = Suc (steps_left t') \<and>
        mset js' + mset ps' + mset [0..<m] = mset js + mset ps + mset [0..<m'] \<and>
        oks_of t' + int (length js) = oks_of t + int (length js'))"

lemma thread_loads:
  assumes sh: "load_shared W c m js (w, d)" and hk: "holds_keys W c t ps" and b: "in_budget per t"
    and mw: "mw OUTPUT_PATH" and left: "0 < steps_left t"
  shows "\<exists>cl' t' m' js' ps'. thread_step env (HashtableDB mw) True (w, d) t = Some (cl', t') \<and>
    load_shared W c m' js' cl' \<and> load_moves W c per (m, js, ps, t) (m', js', ps', t')"
proof -
  have s: "same_setup W w" "key_generator w = Some (Counter (c + of_nat m))" "steady (field_len_generator w)"
    "trace_of d (inserted W c js)"
    using sh by (auto simp: load_shared_def)
  note parts = load_shared_def load_moves_def
  consider n where "t = Starting n" | oks where "t = Looping 0 oks" | n oks where "t = Looping (Suc n) oks"
    | n oks key where "t = Drawn n oks key" | n oks key vals where "t = Built n oks key vals"
    using left by (cases t; simp) (metis not0_implies_Suc)
  then show ?thesis
  proof cases
    case 1
    show ?thesis
      by (rule exI [of _ "(w, d)"], rule exI [of _ "Looping n 0"], rule exI [of _ m], rule exI [of _ js], rule exI [of _ "[]"],
        use 1 s hk b in \<open>simp add: parts\<close>)
  next
    case 2
    show ?thesis
      by (rule exI [of _ "(w, d)"], rule exI [of _ "Finished oks"], rule exI [of _ m], rule exI [of _ js], rule exI [of _ "[]"],
        use 2 s hk b in \<open>simp add: parts\<close>)
  next
    case 3
    let ?w = "w\<lparr>key_generator := Some (Counter (c + of_nat m + 1))\<rparr>"
    let ?key = "BuildKeyName w (c + of_nat m)"
    have k: "?key = BuildKeyName W (c + of_nat m)" using same_setup_name [OF s(1)] by simp
    have w': "same_setup W ?w" using s(1) by (simp add: same_setup_def)
    show ?thesis
      by (rule exI [of _ "(?w, d)"], rule exI [of _ "Drawn n oks ?key"], rule exI [of _ "Suc m"], rule exI [of _ js], rule exI [of _ "[m]"],
        use 3 s w' hk b k NextSequenceKey_counter [OF s(2), of env] in \<open>simp add: parts ac_simps del: mset_upt\<close>)
  next
    case 4
    obtain vs w' where v: "BuildValues env w = Inr (vs, w')" "steady (field_len_generator w')"
      "key_generator w' = key_generator w" "same_setup w w'"
      using BuildValues_steady [OF s(3), of env] by blast
    show ?thesis
      by (rule exI [of _ "(w', d)"], rule exI [of _ "Built n oks key vs"], rule exI [of _ m], rule exI [of _ js], rule exI [of _ ps],
        use 4 s hk b v same_setup_trans [OF s(1) v(4)] in \<open>simp add: parts\<close>)
  next
    case 5
    obtain j where j: "ps = [j]" "key = BuildKeyName W (c + of_nat j)" using hk 5 by auto
    obtain d' where d': "hashtable_Insert mw (NextTable w) key vals d = Inr (kOK, d')"
      "trace_of d' (inserted W c js @ [(''INSERT'', key_number W (c + of_nat j))])"
      using trace_ops(4) [where mw = mw, OF s(4) mw, of "NextTable w" W "c + of_nat j" vals] j(2) by blast
    have t: "trace_of d' (inserted W c (js @ [j]))" using d'(2) by (simp add: inserted_def)
    show ?thesis
      by (rule exI [of _ "(w, d')"], rule exI [of _ "Looping n (oks + 1)"], rule exI [of _ m], rule exI [of _ "js @ [j]"], rule exI [of _ "[]"],
        use 5 s b j d'(1) t in \<open>simp add: parts\<close>)
  qed
qed

lemma no_steps_left: "steps_left t = 0 \<Longrightarrow> in_budget per t \<Longrightarrow> t = Finished (int per)"
  by (cases t) auto

lemma finished_stays: "thread_step env D l cl (Finished oks) = None"
  by (cases cl) simp

section \<open>All threads of the load phase\<close>

definition load_inv :: "core_workload \<Rightarrow> u64 \<Rightarrow> nat \<Rightarrow> nat \<Rightarrow> disk client \<Rightarrow> thread list \<Rightarrow> bool" where
  "load_inv W c per T cl ts \<longleftrightarrow> (\<exists>m js pss. load_shared W c m js cl \<and> list_all2 (holds_keys W c) ts pss \<and>
     list_all (in_budget per) ts \<and> length ts = T \<and>
     mset js + mset (concat pss) = mset [0..<m] \<and> sum_list (map oks_of ts) = int (length js))"

definition all_left :: "thread list \<Rightarrow> nat" where
  "all_left ts = sum_list (map steps_left ts)"

lemma load_step:
  assumes i: "load_inv W c per T cl (us @ t # vs)" and mw: "mw OUTPUT_PATH" and left: "0 < steps_left t"
  shows "\<exists>cl' t'. thread_step env (HashtableDB mw) True cl t = Some (cl', t') \<and>
    load_inv W c per T cl' (us @ t' # vs) \<and> steps_left t = Suc (steps_left t')"
proof -
  obtain w d where cl: "cl = (w, d)" by (cases cl)
  obtain m js pss where inv: "load_shared W c m js cl" "list_all2 (holds_keys W c) (us @ t # vs) pss"
    "list_all (in_budget per) (us @ t # vs)" "length (us @ t # vs) = T"
    "mset js + mset (concat pss) = mset [0..<m]" "sum_list (map oks_of (us @ t # vs)) = int (length js)"
    using i unfolding load_inv_def by blast
  obtain p1 ps p2 where pss: "pss = p1 @ ps # p2" "list_all2 (holds_keys W c) us p1" "holds_keys W c t ps"
    "list_all2 (holds_keys W c) vs p2"
    using inv(2) by (auto simp: list_all2_append1 list_all2_Cons1)
  have b: "in_budget per t" using inv(3) by simp
  obtain cl' t' m' js' ps' where st: "thread_step env (HashtableDB mw) True cl t = Some (cl', t')"
    "load_shared W c m' js' cl'" "load_moves W c per (m, js, ps, t) (m', js', ps', t')"
    using thread_loads [where mw = mw, OF inv(1) [unfolded cl] pss(3) b mw left] unfolding cl by blast
  have mv: "holds_keys W c t' ps'" "in_budget per t'" "steps_left t = Suc (steps_left t')"
    "mset js' + mset ps' + mset [0..<m] = mset js + mset ps + mset [0..<m']"
    "oks_of t' + int (length js) = oks_of t + int (length js')"
    using st(3) by (auto simp: load_moves_def)
  have "mset js + mset ps + mset [0..<m'] = mset js' + mset ps' + (mset js + mset (concat pss))"
    using mv(4) inv(5) by simp
  then have ms: "mset js' + mset (concat (p1 @ ps' # p2)) = mset [0..<m']"
    using pss(1) by (simp add: ac_simps)
  have "list_all2 (holds_keys W c) (us @ t' # vs) (p1 @ ps' # p2)"
    using pss mv(1) by (simp add: list_all2_appendI)
  then have "load_inv W c per T cl' (us @ t' # vs)"
    unfolding load_inv_def using st(2) inv(3,4,6) mv ms by (intro exI conjI) auto
  then show ?thesis using st(1) mv(3) by blast
qed

lemma load_inv_step:
  assumes i: "load_inv W c per T cl ts" and mw: "mw OUTPUT_PATH"
    and st: "run_step env (HashtableDB mw) True (cl, ts) (cl', ts')"
  shows "load_inv W c per T cl' ts' \<and> all_left ts = Suc (all_left ts')"
  using st
proof (rule run_stepE)
  fix t t' us vs
  assume e: "ts = us @ t # vs" "ts' = us @ t' # vs" and s: "thread_step env (HashtableDB mw) True cl t = Some (cl', t')"
  have "in_budget per t" using i e(1) by (auto simp: load_inv_def)
  then have "0 < steps_left t" using no_steps_left [of t per] s by (cases "steps_left t") (auto simp: finished_stays)
  then show ?thesis using load_step [where mw = mw, OF i [unfolded e(1)] mw, of env] s e by (auto simp: all_left_def)
qed

lemma load_inv_run:
  assumes "load_inv W c per T cl ts" "mw OUTPUT_PATH" "(run_step env (HashtableDB mw) True ^^ k) (cl, ts) (cl', ts')"
  shows "load_inv W c per T cl' ts' \<and> all_left ts = all_left ts' + k"
  using assms(3)
proof (induction k arbitrary: cl' ts')
  case 0
  then show ?case using assms(1) by simp
next
  case (Suc k)
  obtain cl1 ts1 where r: "(run_step env (HashtableDB mw) True ^^ k) (cl, ts) (cl1, ts1)"
    "run_step env (HashtableDB mw) True (cl1, ts1) (cl', ts')"
    using Suc.prems by auto
  show ?case using Suc.IH [OF r(1)] load_inv_step [where mw = mw, OF _ assms(2) r(2)] by fastforce
qed

lemma budget_alive: "list_all (in_budget per) ts \<Longrightarrow> alive ts \<and> Threw e \<notin> set ts"
  by (induction ts) (auto simp: alive_def)

lemma load_progress:
  assumes "load_inv W c per T cl ts" "mw OUTPUT_PATH" "0 < all_left ts"
  shows "\<exists>st. run_step env (HashtableDB mw) True (cl, ts) st"
proof -
  obtain t where t: "t \<in> set ts" "0 < steps_left t"
    using assms(3) by (induction ts) (auto simp: all_left_def)
  obtain us vs where ts: "ts = us @ t # vs" using split_list [OF t(1)] by blast
  obtain cl' t' where "thread_step env (HashtableDB mw) True cl t = Some (cl', t')"
    using load_step [where mw = mw, OF assms(1) [unfolded ts] assms(2) t(2)] by blast
  moreover have "alive ts" using assms(1) budget_alive by (auto simp: load_inv_def)
  ultimately show ?thesis unfolding ts by (blast intro: run_step.step)
qed

section \<open>The ends of the phase\<close>

lemma collect_finished: "list_all (\<lambda>t. t = Finished (int per)) ts \<Longrightarrow> collect ts = Inr (int (length ts) * int per) \<and> all_got ts"
  by (induction ts) (auto simp: algebra_simps)

lemma all_finished: "all_left ts = 0 \<Longrightarrow> list_all (in_budget per) ts \<Longrightarrow> list_all (\<lambda>t. t = Finished (int per)) ts"
  by (induction ts) (auto simp: all_left_def dest: no_steps_left)

lemma holds_nothing: "list_all (\<lambda>t. t = Finished k) ts \<Longrightarrow> list_all2 (holds_keys W c) ts pss \<Longrightarrow> concat pss = []"
  by (induction ts arbitrary: pss) (auto simp: list_all2_Cons1)

lemma oks_finished: "list_all (\<lambda>t. t = Finished k) ts \<Longrightarrow> sum_list (map oks_of ts) = int (length ts) * k"
  by (induction ts) (auto simp: algebra_simps)

lemma got_all: "all_got ts \<Longrightarrow> list_all (in_budget per) ts \<Longrightarrow> all_left ts = 0"
  by (induction ts) (auto simp: all_left_def split: thread.splits)

lemma load_ends:
  assumes i: "load_inv W c per T (w, d) ts" and z: "all_left ts = 0"
  shows "collect ts = Inr (int T * int per) \<and> (\<exists>js. mset js = mset [0..<T * per] \<and> trace_of d (inserted W c js))"
proof -
  obtain m js pss where inv: "load_shared W c m js (w, d)" "list_all2 (holds_keys W c) ts pss"
    "list_all (in_budget per) ts" "length ts = T"
    "mset js + mset (concat pss) = mset [0..<m]" "sum_list (map oks_of ts) = int (length js)"
    using i unfolding load_inv_def by blast
  note fin = all_finished [OF z inv(3)]
  have js: "mset js = mset [0..<m]" using inv(5) holds_nothing [OF fin inv(2)] by simp
  have "int (length js) = int (T * per)" using oks_finished [OF fin] inv(4,6) by simp
  then have "m = T * per" using js by (metis length_upt minus_nat.diff_0 of_nat_eq_iff size_mset)
  then show ?thesis using js inv(1,4) collect_finished [OF fin] by (auto simp: load_shared_def)
qed

lemma load_begins:
  assumes "key_generator w = Some (Counter c)" "steady (field_len_generator w)" "d OUTPUT_PATH = None"
  shows "load_inv w c per T (w, d) (replicate T (Starting per)) \<and> all_left (replicate T (Starting per)) = T * (3 * per + 2)"
proof -
  have "list_all2 (holds_keys w c) (replicate T (Starting per)) (replicate T [])" by (simp add: list_all2_conv_all_nth)
  moreover have "concat (replicate T ([] :: nat list)) = []" by (induction T) auto
  moreover have "load_shared w c 0 [] (w, d)" using assms by (simp add: load_shared_def inserted_def trace_of_empty)
  ultimately show ?thesis unfolding load_inv_def all_left_def
    by (intro conjI exI [of _ 0] exI [of _ "[]"] exI [of _ "replicate T []"])
      (auto simp: list_all_iff sum_list_replicate)
qed

section \<open>The transaction phase\<close>

text \<open>Whatever the threads have done, every entry of the trace is one of the workload's; there is one or
  two for each operation a thread has counted, as long as none has thrown.\<close>

definition at_work :: "nat \<Rightarrow> thread \<Rightarrow> bool" where
  "at_work per t \<longleftrightarrow> (case t of Drawn _ _ _ \<Rightarrow> False | Built _ _ _ _ \<Rightarrow> False | Threw _ \<Rightarrow> True
     | _ \<Rightarrow> in_budget per t \<and> 0 \<le> oks_of t)"

definition traced :: "core_workload \<Rightarrow> disk \<Rightarrow> int \<Rightarrow> bool \<Rightarrow> bool" where
  "traced W d n thrown \<longleftrightarrow> (\<exists>es. trace_of d es \<and> (\<forall>e \<in> set es. entry_of W e) \<and>
     n \<le> int (length es) \<and> (thrown \<or> int (length es) \<le> 2 * n))"

definition work_inv :: "core_workload \<Rightarrow> nat \<Rightarrow> nat \<Rightarrow> disk client \<Rightarrow> thread list \<Rightarrow> bool" where
  "work_inv W per T cl ts \<longleftrightarrow> (case cl of (w, d) \<Rightarrow> same_setup W w \<and>
     list_all (at_work per) ts \<and> length ts = T \<and>
     traced W d (sum_list (map oks_of ts)) (\<exists>e. Threw e \<in> set ts))"

lemma work_begins:
  assumes "d OUTPUT_PATH = None"
  shows "work_inv w per T (w, d) (replicate T (Starting per))"
proof -
  have "traced w d (sum_list (map oks_of (replicate T (Starting per)))) (\<exists>e. Threw e \<in> set (replicate T (Starting per)))"
    using trace_of_empty [where d = d, OF assms] unfolding traced_def
    by (intro exI [of _ "[]"]) (simp add: sum_list_replicate)
  then show ?thesis by (simp add: work_inv_def list_all_iff at_work_def)
qed

lemma traced_more:
  assumes "traced W d n thrown" "same_setup W w" "mw OUTPUT_PATH"
    and "DoTransaction env (HashtableDB mw) (w, d) = Some (Inr (ok, w', d'))"
  shows "ok \<and> same_setup W w' \<and> traced W d' (n + 1) thrown"
proof -
  obtain es where es: "trace_of d es" "\<forall>e \<in> set es. entry_of W e"
    "n \<le> int (length es)" "thrown \<or> int (length es) \<le> 2 * n"
    using assms(1) by (auto simp: traced_def)
  have tr: "ok" "same_setup w w'" "adds_entries w es d'"
    using DoTransaction_trace [where mw = mw, OF es(1) assms(3,4)] by auto
  obtain more where more: "trace_of d' (es @ more)" "more \<noteq> []" "length more \<le> 2" "\<forall>e \<in> set more. entry_of W e"
    using tr(3) entry_of_setup [OF assms(2)] by (auto simp: adds_entries_def)
  have "1 \<le> length more" using more(2) by (cases more) auto
  then have "traced W d' (n + 1) thrown" unfolding traced_def
    using es(2-4) more by (intro exI [of _ "es @ more"]) auto
  then show ?thesis using tr(1) same_setup_trans [OF assms(2) tr(2)] by simp
qed

lemma work_step:
  assumes i: "work_inv W per T cl ts" and mw: "mw OUTPUT_PATH"
    and st: "run_step env (HashtableDB mw) False (cl, ts) (cl', ts')"
  shows "work_inv W per T cl' ts'"
  using st
proof (rule run_stepE)
  fix t t' us vs
  assume e: "ts = us @ t # vs" "ts' = us @ t' # vs"
    and s: "thread_step env (HashtableDB mw) False cl t = Some (cl', t')"
  obtain w d where cl: "cl = (w, d)" by (cases cl)
  have inv: "same_setup W w" "list_all (at_work per) (us @ t # vs)" "length (us @ t # vs) = T"
    "traced W d (sum_list (map oks_of (us @ t # vs))) (\<exists>e. Threw e \<in> set (us @ t # vs))"
    using i unfolding e cl by (simp_all add: work_inv_def)
  consider n where "t = Starting n" "cl' = cl" "t' = Looping n 0"
    | oks where "t = Looping 0 oks" "cl' = cl" "t' = Finished oks"
    | n oks e where "t = Looping (Suc n) oks" "cl' = cl" "t' = Threw e"
    | n oks ok where "t = Looping (Suc n) oks" "t' = Looping n (oks + of_bool ok)"
        "DoTransaction env (HashtableDB mw) (w, d) = Some (Inr (ok, cl'))"
    using inv(2) s unfolding cl
    by (cases "(env, HashtableDB mw, False, (w, d), t)" rule: thread_step.cases)
      (auto simp: at_work_def split: option.splits sum.splits prod.splits)
  then show ?thesis
  proof cases
    case 3
    have "traced W d (sum_list (map oks_of (us @ t' # vs))) True"
      using inv(2,4) 3 by (auto simp: traced_def at_work_def)
    moreover have "\<exists>e. Threw e \<in> set (us @ t' # vs)" using 3 by auto
    ultimately have "traced W d (sum_list (map oks_of (us @ t' # vs))) (\<exists>e. Threw e \<in> set (us @ t' # vs))"
      by simp
    then show ?thesis using inv(1-3) 3(2,3) e cl by (simp add: work_inv_def at_work_def)
  next
    case 4
    obtain w' d' where cl': "cl' = (w', d')" by (cases cl')
    show ?thesis using traced_more [where mw = mw, OF inv(4,1) mw 4(3) [unfolded cl']] inv(2,3) 4 e cl'
      by (auto simp: work_inv_def at_work_def algebra_simps)
  qed (use inv e cl in \<open>auto simp: work_inv_def at_work_def\<close>)
qed

lemma work_run:
  assumes i: "work_inv W per T cl ts" and mw: "mw OUTPUT_PATH"
    and r: "(run_step env (HashtableDB mw) False)\<^sup>*\<^sup>* (cl, ts) (cl', ts')"
  shows "work_inv W per T cl' ts'"
  using r
proof (induction rule: rtranclp_induct2)
  case refl
  then show ?case by (rule i)
next
  case (step cl1 ts1 cl2 ts2)
  show ?case by (rule work_step [where mw = mw, OF step.IH mw step.hyps(2)])
qed

lemma collect_Inr: "all_got ts \<Longrightarrow> collect ts = Inr n \<Longrightarrow>
    (\<forall>t \<in> set ts. \<exists>oks. t = Finished oks) \<and> n = sum_list (map oks_of ts)"
  by (induction ts arbitrary: n) (auto simp: and_then_Inr split: thread.splits)

lemma work_ends:
  assumes "work_inv W per T (w, d) ts" "all_got ts" "collect ts = Inr n"
  shows "n = int T * int per \<and> traced W d n False"
proof -
  have fin: "\<forall>t \<in> set ts. \<exists>oks. t = Finished oks" "n = sum_list (map oks_of ts)"
    using collect_Inr [OF assms(2,3)] by auto
  have "list_all (\<lambda>t. t = Finished (int per)) ts"
    unfolding list_all_iff
  proof
    fix t assume t: "t \<in> set ts"
    then obtain oks where o: "t = Finished oks" using fin(1) by blast
    have "at_work per t" using assms(1) t by (auto simp: work_inv_def list_all_iff)
    then show "t = Finished (int per)" using o by (simp add: at_work_def)
  qed
  moreover have "length ts = T" "\<not> (\<exists>e. Threw e \<in> set ts)" using assms(1) fin(1) by (auto simp: work_inv_def)
  ultimately show ?thesis using assms(1) fin(2) oks_finished [of "int per" ts] by (auto simp: work_inv_def)
qed

end
