(* ===== verification/Ycsb_Thread_Props.thy ===== *)
theory Ycsb_Thread_Props
  imports Ycsb_Thread_Facts Ycsb_Props
begin

text \<open>The properties of the threads of the workload generator, over all orders of their steps.\<close>

section \<open>The two phases\<close>

lemma ops_per_thread_nat: "0 \<le> n \<Longrightarrow> ops_per_thread n k = n div k"
  by (simp add: ops_per_thread_def)

lemma workload_load_begins:
  assumes "Init env p (CoreWorkload zp r) = Inr w" "field_len_dist p \<noteq> ''zipfian''"
    and "d OUTPUT_PATH = None" "0 < num_threads" "0 \<le> total_ops"
  obtains c where "load_inv w c (nat (total_ops div num_threads)) (nat num_threads) (w, d) (start_threads total_ops num_threads)"
    "all_left (start_threads total_ops num_threads) = nat num_threads * (3 * nat (total_ops div num_threads) + 2)"
    "stoi (GetProperty p INSERT_START_PROPERTY INSERT_START_DEFAULT) = Inr start' \<Longrightarrow> c = word_of_int start'"
proof -
  obtain s where s: "stoi (GetProperty p INSERT_START_PROPERTY INSERT_START_DEFAULT) = Inr s"
    "key_generator w = Some (Counter (word_of_int s))" "steady (field_len_generator w)"
    using Init_setup [OF assms(1)] assms(2) by (auto simp: CoreWorkload_def)
  show ?thesis
    using that [of "word_of_int s"] load_begins [where d = d, OF s(2,3) assms(3)] s(1) assms(5)
    by (simp add: start_threads_def ops_per_thread_nat)
qed

lemma load_run_exists:
  assumes "mw OUTPUT_PATH"
  shows "load_inv W c per T cl ts \<Longrightarrow>
    \<exists>cl' ts'. (run_step env (HashtableDB mw) True ^^ all_left ts) (cl, ts) (cl', ts') \<and> all_got ts'"
proof (induction "all_left ts" arbitrary: cl ts)
  case 0
  have "all_got ts"
    using all_finished [OF 0(1) [symmetric], of per] collect_finished [of per ts] 0(2) by (auto simp: load_inv_def)
  then show ?case using 0(1) by (auto simp flip: 0(1))
next
  case (Suc n)
  obtain cl1 ts1 where st: "run_step env (HashtableDB mw) True (cl, ts) (cl1, ts1)"
    using load_progress [where mw = mw, OF Suc.prems assms, of env] Suc.hyps(2) by fastforce
  have i: "load_inv W c per T cl1 ts1" "all_left ts = Suc (all_left ts1)"
    using load_inv_step [where mw = mw, OF Suc.prems assms st] by simp_all
  have n: "n = all_left ts1" using i(2) Suc.hyps(2) by simp
  obtain cl' ts' where r: "(run_step env (HashtableDB mw) True ^^ all_left ts1) (cl1, ts1) (cl', ts')" "all_got ts'"
    using Suc.hyps(1) [OF n i(1)] by blast
  show ?case unfolding i(2)
    using relpowp_Suc_I2 [where P = "run_step env (HashtableDB mw) True", OF st r(1)] r(2) by blast
qed

lemma sample_load_run:
  "\<exists>w w' d' ts. Init sample_env sample_properties (CoreWorkload 0 no_rng) = Inr w \<and> \<not> ordered_inserts w \<and>
    (run_step sample_env (HashtableDB (\<lambda>_. True)) True ^^ 16) ((w, Map.empty), start_threads 5 2) ((w', d'), ts) \<and> all_got ts"
proof -
  obtain w where w: "Init sample_env sample_properties (CoreWorkload 0 no_rng) = Inr w" "\<not> ordered_inserts w"
    using sample_Init by blast
  obtain c where i: "load_inv w c 2 2 (w, Map.empty) (start_threads 5 2)" "all_left (start_threads 5 2) = 16"
    by (rule workload_load_begins [where d = Map.empty and num_threads = 2 and total_ops = 5, OF w(1)])
      (auto simp: field_len_dist_def sample_texts)
  show ?thesis using load_run_exists [where mw = "\<lambda>_. True", OF _ i(1), of sample_env] i(2) w
    by (metis surj_pair)
qed

lemma sample_run_alive:
  assumes "Init sample_env sample_properties (CoreWorkload 0 no_rng) = Inr w"
    and "(run_step sample_env (HashtableDB (\<lambda>_. True)) True ^^ 16) ((w, Map.empty), start_threads 5 2) (cl, ts)"
  shows "alive ts"
proof -
  obtain c where i: "load_inv w c 2 2 (w, Map.empty) (start_threads 5 2)"
    by (rule workload_load_begins [where d = Map.empty and num_threads = 2 and total_ops = 5, OF assms(1)])
      (auto simp: field_len_dist_def sample_texts)
  show ?thesis using load_inv_run [where mw = "\<lambda>_. True", OF i _ assms(2)] budget_alive by (auto simp: load_inv_def)
qed

text \<open>C9: The load phase ends, in whatever order its threads run. A run of the threads takes at most
  three steps an insertion and two more a thread; as long as it has taken fewer, some thread can go on,
  and when it has taken that many all threads have finished.\<close>

theorem load_phase_ends:
  assumes "Init env p (CoreWorkload zp r) = Inr w" "field_len_dist p \<noteq> ''zipfian''"
    and "may_write OUTPUT_PATH" "d OUTPUT_PATH = None" "0 < num_threads" "0 \<le> total_ops"
    and "(run_step env (HashtableDB may_write) True ^^ k) ((w, d), start_threads total_ops num_threads) (cl, ts)"
  shows "k \<le> nat num_threads * (3 * nat (total_ops div num_threads) + 2) \<and>
    (if k < nat num_threads * (3 * nat (total_ops div num_threads) + 2)
     then \<exists>st. run_step env (HashtableDB may_write) True (cl, ts) st else all_got ts)"
proof -
  obtain c where i: "load_inv w c (nat (total_ops div num_threads)) (nat num_threads) (w, d) (start_threads total_ops num_threads)"
    "all_left (start_threads total_ops num_threads) = nat num_threads * (3 * nat (total_ops div num_threads) + 2)"
    by (rule workload_load_begins [where d = d, OF assms(1,2,4-6)])
  have r: "load_inv w c (nat (total_ops div num_threads)) (nat num_threads) cl ts"
    "all_left (start_threads total_ops num_threads) = all_left ts + k"
    using load_inv_run [where mw = may_write, OF i(1) assms(3,7)] by auto
  have "all_left ts = 0 \<Longrightarrow> all_got ts"
    using r(1) all_finished [of ts] collect_finished [of _ ts] by (fastforce simp: load_inv_def)
  then show ?thesis using i(2) r(2) load_progress [where mw = may_write, OF r(1) assms(3), of env] by auto
qed

lemma load_phase_ends_witness:
  "\<exists>w cl ts. Init sample_env sample_properties (CoreWorkload 0 no_rng) = Inr w \<and>
    (run_step sample_env (HashtableDB (\<lambda>_. True)) True ^^ 16) ((w, Map.empty), start_threads 5 2) (cl, ts) \<and> all_got ts"
proof -
  obtain w w' d' ts where w: "Init sample_env sample_properties (CoreWorkload 0 no_rng) = Inr w"
    "(run_step sample_env (HashtableDB (\<lambda>_. True)) True ^^ 16) ((w, Map.empty), start_threads 5 2) ((w', d'), ts)"
    using sample_load_run by blast
  have f: "field_len_dist sample_properties \<noteq> ''zipfian''" by (simp add: field_len_dist_def sample_texts)
  show ?thesis
    using load_phase_ends [where may_write = "\<lambda>_. True" and d = Map.empty, OF w(1) f _ _ _ _ w(2)] w by auto
qed

text \<open>C8: However the threads of the load phase are interleaved, a run of the phase counts as many
  successes as the threads share out: the records to load less the remainder of their number by the
  number of threads, which nobody loads. The benchmark program reads the trace back as one insertion for
  each of the first that many numbers of the sequence, in some order. (Field lengths are not Zipfian,
  and there are at least as many records as threads.)\<close>

theorem threads_share_the_load:
  assumes "Init env p (CoreWorkload zp r) = Inr w" "field_len_dist p \<noteq> ''zipfian''"
    and "may_write OUTPUT_PATH" "d OUTPUT_PATH = None" "0 < num_threads" "num_threads \<le> total_ops"
    and "phase_run env (HashtableDB may_write) True total_ops num_threads (w, d) (w', d') res"
  shows "res = Inr (total_ops - total_ops mod num_threads) \<and>
    (\<exists>start es. stoi (GetProperty p INSERT_START_PROPERTY INSERT_START_DEFAULT) = Inr start \<and>
      read_workload d' OUTPUT_PATH = Inr es \<and>
      mset es = mset (map (\<lambda>j. (''INSERT'', key_number w (word_of_int start + word_of_nat j)))
        [0..<nat (total_ops - total_ops mod num_threads)]))"
proof -
  let ?per = "nat (total_ops div num_threads)" and ?T = "nat num_threads"
  have pos: "0 \<le> total_ops" "0 < total_ops div num_threads"
    using assms(5,6) by (simp_all add: pos_imp_zdiv_pos_iff)
  obtain start where s: "stoi (GetProperty p INSERT_START_PROPERTY INSERT_START_DEFAULT) = Inr start"
    using Init_setup [OF assms(1)] by (auto simp: CoreWorkload_def)
  obtain c where i: "load_inv w c ?per ?T (w, d) (start_threads total_ops num_threads)" "c = word_of_int start"
    by (rule workload_load_begins [where d = d, OF assms(1,2,4,5) pos(1)]) (use s in blast)
  obtain ts k where k: "(run_step env (HashtableDB may_write) True ^^ k) ((w, d), start_threads total_ops num_threads) ((w', d'), ts)"
    "all_got ts \<and> res = collect ts \<or> (\<exists>e. Threw e \<in> set ts)"
    using assms(7) unfolding phase_run_def rtranclp_power by blast
  have j: "load_inv w c ?per ?T (w', d') ts" using load_inv_run [where mw = may_write, OF i(1) assms(3) k(1)] by simp
  then have r: "all_got ts" "res = collect ts" using k(2) budget_alive by (auto simp: load_inv_def)
  have z: "all_left ts = 0" using got_all [OF r(1)] j by (auto simp: load_inv_def)
  obtain js where e: "collect ts = Inr (int ?T * int ?per)" "mset js = mset [0..<?T * ?per]" "trace_of d' (inserted w c js)"
    using load_ends [OF j z] by blast
  have n: "int ?T * int ?per = total_ops - total_ops mod num_threads"
    using assms(5) pos(2) by (simp add: minus_mod_eq_mult_div)
  then have n': "?T * ?per = nat (total_ops - total_ops mod num_threads)" by (metis nat_int of_nat_mult)
  have "length js = ?T * ?per" using arg_cong [OF e(2), of size] by (simp del: mset_upt)
  then have "inserted w c js \<noteq> []" using assms(5) pos(2) by (auto simp: inserted_def)
  then have "read_workload d' OUTPUT_PATH = Inr (inserted w c js)" by (rule trace_of_nonempty [OF e(3)])
  then show ?thesis using s e(1,2) r(2) n n' i(2) by (auto simp: inserted_def simp del: mset_upt)
qed

lemma threads_share_the_load_witness:
  "\<exists>w d es. Init sample_env sample_properties (CoreWorkload 0 no_rng) = Inr w \<and>
    read_workload d OUTPUT_PATH = Inr es \<and>
    mset es = {#(''INSERT'', Hash 0), (''INSERT'', Hash 1), (''INSERT'', Hash 2), (''INSERT'', Hash 3)#}"
proof -
  obtain w w' d' ts where w: "Init sample_env sample_properties (CoreWorkload 0 no_rng) = Inr w" "\<not> ordered_inserts w"
    "(run_step sample_env (HashtableDB (\<lambda>_. True)) True ^^ 16) ((w, Map.empty), start_threads 5 2) ((w', d'), ts)"
    "all_got ts"
    using sample_load_run by blast
  have f: "field_len_dist sample_properties \<noteq> ''zipfian''" by (simp add: field_len_dist_def sample_texts)
  have "alive ts" using w(4) sample_run_alive [OF w(1,3)] by blast
  then have p: "phase_run sample_env (HashtableDB (\<lambda>_. True)) True 5 2 (w, Map.empty) (w', d') (collect ts)"
    unfolding phase_run_def using w(3,4) relpowp_imp_rtranclp by fast
  have u: "[0..<4] = [0, 1, 2, Suc 2]" by (simp add: upt_rec)
  have h: "key_number w 0 = Hash 0" "key_number w 1 = Hash 1" "key_number w 2 = Hash 2" "key_number w 3 = Hash 3"
    using w(2) by (simp_all add: key_number_def)
  show ?thesis
    using threads_share_the_load [where may_write = "\<lambda>_. True" and d = Map.empty, OF w(1) f _ _ _ _ p] w(1)
    by (auto simp: sample_texts sample_stoi u h simp del: mset_upt)
qed

text \<open>C26: The transaction phase of all threads, when it gives a count, counts the operations the threads
  share out, and the trace has one or two entries for each, every one for an operation the benchmark
  program knows and, insertions apart, for a key the configuration knows.\<close>

theorem threads_share_the_work:
  assumes "may_write OUTPUT_PATH" "d OUTPUT_PATH = None" "0 < num_threads" "num_threads \<le> total_ops"
    and "phase_run env (HashtableDB may_write) False total_ops num_threads (w, d) (w', d') (Inr n)"
  shows "n = total_ops - total_ops mod num_threads \<and>
    (\<exists>es. read_workload d' OUTPUT_PATH = Inr es \<and> (\<forall>e \<in> set es. entry_of w e) \<and>
      n \<le> int (length es) \<and> int (length es) \<le> 2 * n)"
proof -
  let ?per = "nat (total_ops div num_threads)" and ?T = "nat num_threads"
  have pos: "0 \<le> total_ops" "0 < total_ops div num_threads"
    using assms(3,4) by (simp_all add: pos_imp_zdiv_pos_iff)
  obtain ts where r: "(run_step env (HashtableDB may_write) False)\<^sup>*\<^sup>* ((w, d), replicate ?T (Starting ?per)) ((w', d'), ts)"
    "all_got ts" "collect ts = Inr n"
    using assms(5) pos(1) unfolding phase_run_def by (auto simp: start_threads_def ops_per_thread_nat)
  have e: "n = int ?T * int ?per" "traced w d' n False"
    using work_ends [OF work_run [where mw = may_write, OF work_begins [where d = d, OF assms(2)] assms(1) r(1)] r(2,3)]
    by blast+
  have n: "n = total_ops - total_ops mod num_threads"
    using e(1) assms(3) pos(2) by (simp add: minus_mod_eq_mult_div)
  have "0 < n" using e(1) assms(3) pos(2) by simp
  then show ?thesis using e(2) n trace_of_nonempty by (fastforce simp: traced_def)
qed

lemma threads_share_the_work_witness:
  "\<exists>w d es. Init sample_env sample_properties (CoreWorkload 0 no_rng) = Inr w \<and>
    read_workload d OUTPUT_PATH = Inr es \<and> 1 \<le> length es \<and> length es \<le> 2 \<and> (\<forall>e \<in> set es. entry_of w e)"
proof -
  obtain w w' d' where w: "Init sample_env sample_properties (CoreWorkload 0 no_rng) = Inr w"
    "DoTransaction sample_env (HashtableDB (\<lambda>_. True)) (w, Map.empty) = Some (Inr (True, w', d'))"
    using sample_DoTransaction by blast
  let ?step = "run_step sample_env (HashtableDB (\<lambda>_. True)) False"
  have s: "?step ((w, Map.empty), [Starting 1]) ((w, Map.empty), [Looping 1 0])"
    "?step ((w, Map.empty), [Looping 1 0]) ((w', d'), [Looping 0 1])"
    "?step ((w', d'), [Looping 0 1]) ((w', d'), [Finished 1])"
    using w(2) by (auto simp: alive_def intro!: run_step.step [where us = "[]" and vs = "[]", simplified])
  have "phase_run sample_env (HashtableDB (\<lambda>_. True)) False 1 1 (w, Map.empty) (w', d') (Inr 1)"
    unfolding phase_run_def using s
    by (intro exI [of _ "[Finished 1]"]) (auto simp: start_threads_def ops_per_thread_def alive_def intro: converse_rtranclp_into_rtranclp)
  from threads_share_the_work [where may_write = "\<lambda>_. True" and d = Map.empty, OF _ _ _ _ this] w(1)
  show ?thesis by auto
qed

end
