(* ===== verification/Ycsb_Tables.thy ===== *)
theory Ycsb_Tables
  imports Ycsb_Hashtable
begin

text \<open>
  The string hash tables that threads share (\<open>YCSB-C/lib\<close>): \<open>LockStlHashtable\<close>, and the two over the TBB
  library, \<open>TbbRandHashtable\<close> and \<open>TbbScanHashtable\<close>. First each operation run alone; then the operations of
  many threads, cut at every call of the library, at the lock of the table and at the accessors, which lock
  one element. These operations of threads are \<open>Get\<close>, \<open>Insert\<close>, \<open>Update\<close> and \<open>Remove\<close>; \<open>Entries\<close> and \<open>Size\<close> are
  modelled alone only. The maps of the TBB library are documented to find, insert and erase elements atomically.
\<close>

section \<open>The operations alone\<close>

text \<open>\<open>find\<close>, \<open>insert\<close> and \<open>erase\<close> of the TBB maps are those of the map of the standard library.\<close>

definition rand_Get :: "'v table \<Rightarrow> cstring option \<Rightarrow> fault + 'v option" where
  "rand_Get t key = and_then (Wrap key) (\<lambda>k. case find_entry k t of None \<Rightarrow> Inr None | Some e \<Rightarrow> Inr (snd e))"

definition rand_Insert ::
  "('v table \<Rightarrow> hstring \<times> 'v option \<Rightarrow> 'v table) \<Rightarrow> 'v table \<Rightarrow> cstring option \<Rightarrow> 'v option \<Rightarrow> fault + (bool \<times> 'v table)" where
  "rand_Insert place t key v =
     (if key = None then Inr (False, t)
      else and_then (Copy key) (\<lambda>k. if find_entry k t = None then Inr (True, place t (k, v)) else Inr (False, t)))"

definition rand_Update :: "'v table \<Rightarrow> cstring option \<Rightarrow> 'v option \<Rightarrow> fault + ('v option \<times> 'v table)" where
  "rand_Update t key v =
     and_then (Wrap key) (\<lambda>k. case find_entry k t of
       Some e \<Rightarrow> Inr (snd e, map (\<lambda>x. if hstring_eq (fst x) k then (fst x, v) else x) t)
     | None \<Rightarrow> Inr (None, t))"

definition rand_Remove :: "'v table \<Rightarrow> cstring option \<Rightarrow> fault + ('v option \<times> 'v table)" where
  "rand_Remove t key =
     and_then (Wrap key) (\<lambda>k. case find_entry k t of
       Some e \<Rightarrow> Inr (snd e, filter (\<lambda>x. \<not> hstring_eq (fst x) k) t)
     | None \<Rightarrow> Inr (None, t))"

text \<open>\<open>equal_range\<close> of a key that is not there is empty.\<close>

definition rand_Entries :: "'v table \<Rightarrow> cstring option \<Rightarrow> nat \<Rightarrow> fault + (cstring \<times> 'v option) list" where
  "rand_Entries t key n =
     and_then (case key of
       None \<Rightarrow> Inr t
     | Some v \<Rightarrow> and_then (Wrap key) (\<lambda>k. Inr (dropWhile (\<lambda>e. \<not> hstring_eq (fst e) k) t)))
     (\<lambda>from. Inr (map (\<lambda>(k, v). (value_of k, v)) (take n from)))"

definition rand_Size :: "'v table \<Rightarrow> nat" where
  "rand_Size t = length t"

definition scan_Get :: "'v table \<Rightarrow> cstring option \<Rightarrow> fault + 'v option" where
  "scan_Get t key = and_then (Wrap key) (\<lambda>k. case find_entry k t of None \<Rightarrow> Inr None | Some e \<Rightarrow> Inr (snd e))"

definition scan_Insert ::
  "('v table \<Rightarrow> hstring \<times> 'v option \<Rightarrow> 'v table) \<Rightarrow> 'v table \<Rightarrow> cstring option \<Rightarrow> 'v option \<Rightarrow> fault + (bool \<times> 'v table)" where
  "scan_Insert place t key v =
     (if key = None then Inr (False, t)
      else and_then (Copy key) (\<lambda>k. if find_entry k t = None then Inr (True, place t (k, v)) else Inr (False, t)))"

definition scan_Update :: "'v table \<Rightarrow> cstring option \<Rightarrow> 'v option \<Rightarrow> fault + ('v option \<times> 'v table)" where
  "scan_Update t key v =
     and_then (Wrap key) (\<lambda>k. case find_entry k t of
       Some e \<Rightarrow> Inr (snd e, map (\<lambda>x. if hstring_eq (fst x) k then (fst x, v) else x) t)
     | None \<Rightarrow> Inr (None, t))"

definition scan_Remove :: "'v table \<Rightarrow> cstring option \<Rightarrow> fault + ('v option \<times> 'v table)" where
  "scan_Remove t key =
     and_then (Wrap key) (\<lambda>k. case find_entry k t of
       Some e \<Rightarrow> Inr (snd e, filter (\<lambda>x. \<not> hstring_eq (fst x) k) t)
     | None \<Rightarrow> Inr (None, t))"

definition scan_Entries :: "'v table \<Rightarrow> cstring option \<Rightarrow> nat \<Rightarrow> fault + (cstring \<times> 'v option) list" where
  "scan_Entries t key n = rand_Entries t key n"

definition scan_Size :: "'v table \<Rightarrow> nat" where
  "scan_Size t = length t"

text \<open>Alone, the TBB tables are the table of the standard library.\<close>

lemma tbb_alone:
  "rand_Get = stl_Get" "rand_Insert = stl_Insert" "rand_Update = stl_Update" "rand_Remove = stl_Remove"
  "scan_Get = stl_Get" "scan_Insert = stl_Insert" "scan_Update = stl_Update" "scan_Remove = stl_Remove"
  unfolding rand_Get_def stl_Get_def rand_Insert_def stl_Insert_def rand_Update_def stl_Update_def rand_Remove_def
    stl_Remove_def scan_Get_def scan_Insert_def scan_Update_def scan_Remove_def
  by (intro ext; auto simp: Let_def Wrap_def Copy_def split: option.splits)+

section \<open>The operations of many threads\<close>

datatype table_kind = LockStl | TbbRand | TbbScan

fun key_of :: "'v table_op \<Rightarrow> cstring" where
  "key_of (OGet k) = k"
| "key_of (OInsert k v) = k"
| "key_of (OUpdate k v) = k"
| "key_of (ORemove k) = k"

text \<open>Which operations take the lock of the table for themselves; the others share it.\<close>

fun exclusive :: "table_kind \<Rightarrow> 'v table_op \<Rightarrow> bool" where
  "exclusive LockStl x \<longleftrightarrow> True"
| "exclusive TbbRand x \<longleftrightarrow> False"
| "exclusive TbbScan (OUpdate k v) \<longleftrightarrow> True"
| "exclusive TbbScan (ORemove k) \<longleftrightarrow> True"
| "exclusive TbbScan x \<longleftrightarrow> False"

text \<open>Where a thread is in an operation: called, with the lock of the table, with the element found, with the
  old value read, with its result, and with the lock released again. \<open>TFault\<close> is undefined behaviour. Beside
  the locks the state has the keys in the table whose characters have been freed.\<close>

datatype 'v stage = TIdle | TCalled "'v table_op" | TLocked "'v table_op" | TFound "'v table_op"
  | TOld "'v table_op" "'v option" | TResult "'v table_op" "'v answer" | TUnlocked "'v table_op" "'v answer" | TFault

record 'v shared_table =
  sh_tab :: "'v table"
  sh_stage :: "nat \<Rightarrow> 'v stage"
  sh_readers :: "nat set"
  sh_writer :: "nat option"
  sh_owner :: "cstring \<rightharpoonup> nat"
  sh_freed :: "cstring set"

definition new_table :: "'v shared_table" where
  "new_table = \<lparr>sh_tab = [], sh_stage = (\<lambda>_. TIdle), sh_readers = {}, sh_writer = None, sh_owner = Map.empty,
     sh_freed = {}\<rparr>"

definition goto :: "nat \<Rightarrow> 'v stage \<Rightarrow> 'v shared_table \<Rightarrow> 'v shared_table" where
  "goto i st s = s\<lparr>sh_stage := (sh_stage s)(i := st)\<rparr>"

definition may_lock :: "table_kind \<Rightarrow> 'v table_op \<Rightarrow> 'v shared_table \<Rightarrow> bool" where
  "may_lock kind x s \<longleftrightarrow> sh_writer s = None \<and> (exclusive kind x \<longrightarrow> sh_readers s = {})"

definition take_lock :: "table_kind \<Rightarrow> 'v table_op \<Rightarrow> nat \<Rightarrow> 'v shared_table \<Rightarrow> 'v shared_table" where
  "take_lock kind x i s =
     (if exclusive kind x then s\<lparr>sh_writer := Some i\<rparr> else s\<lparr>sh_readers := insert i (sh_readers s)\<rparr>)"

definition drop_lock :: "table_kind \<Rightarrow> 'v table_op \<Rightarrow> nat \<Rightarrow> 'v shared_table \<Rightarrow> 'v shared_table" where
  "drop_lock kind x i s =
     (if exclusive kind x then s\<lparr>sh_writer := None\<rparr> else s\<lparr>sh_readers := sh_readers s - {i}\<rparr>)"

text \<open>A search compares the characters of the keys with the hash value it looks for; it must not meet a key
  whose characters are freed.\<close>

definition meets_freed :: "cstring \<Rightarrow> 'v shared_table \<Rightarrow> bool" where
  "meets_freed k s \<longleftrightarrow> (\<exists>k' \<in> sh_freed s. SDBMHash k' = SDBMHash k)"

text \<open>The element of a key: with an accessor it is locked too, and a thread waits for another's.\<close>

definition find_step :: "table_kind \<Rightarrow> nat \<Rightarrow> 'v table_op \<Rightarrow> 'v shared_table \<Rightarrow> 'v shared_table option" where
  "find_step kind i x s =
     (if meets_freed (key_of x) s then Some (goto i TFault s)
      else if find_entry (set_value (key_of x)) (sh_tab s) = None then Some (goto i (TResult x (Old None)) s)
      else if kind \<noteq> TbbRand then Some (goto i (TFound x) s)
      else if sh_owner s (key_of x) = None
      then Some (goto i (TFound x) (s\<lparr>sh_owner := (sh_owner s)(key_of x \<mapsto> i)\<rparr>))
      else None)"

text \<open>An element that is gone when a thread comes back to it is a dangling iterator. \<open>Remove\<close> frees the characters
  of the key before it takes the element out.\<close>

definition read_step :: "nat \<Rightarrow> 'v table_op \<Rightarrow> 'v shared_table \<Rightarrow> 'v shared_table" where
  "read_step i x s =
     (case find_entry (set_value (key_of x)) (sh_tab s) of
        None \<Rightarrow> goto i TFault s
      | Some e \<Rightarrow>
          (case x of
             OGet k \<Rightarrow> goto i (TResult x (Old (snd e))) s
           | ORemove k \<Rightarrow> goto i (TOld x (snd e)) (s\<lparr>sh_freed := insert k (sh_freed s)\<rparr>)
           | _ \<Rightarrow> goto i (TOld x (snd e)) s))"

definition write_step :: "nat \<Rightarrow> 'v table_op \<Rightarrow> 'v option \<Rightarrow> 'v shared_table \<Rightarrow> 'v shared_table" where
  "write_step i x old s =
     (if find_entry (set_value (key_of x)) (sh_tab s) = None then goto i TFault s
      else case x of
        OUpdate k v \<Rightarrow> goto i (TResult x (Old old)) (s\<lparr>sh_tab := overwrite k v (sh_tab s)\<rparr>)
      | ORemove k \<Rightarrow> goto i (TResult x (Old old))
          (s\<lparr>sh_tab := erase k (sh_tab s), sh_owner := (sh_owner s)(k := None), sh_freed := sh_freed s - {k}\<rparr>)
      | _ \<Rightarrow> goto i TFault s)"

definition insert_step ::
  "('v table \<Rightarrow> hstring \<times> 'v option \<Rightarrow> 'v table) \<Rightarrow> nat \<Rightarrow> 'v table_op \<Rightarrow> cstring \<Rightarrow> 'v option
    \<Rightarrow> 'v shared_table \<Rightarrow> 'v shared_table" where
  "insert_step place i x k v s =
     (if meets_freed k s then goto i TFault s
      else case scan_Insert place (sh_tab s) (Some k) v of
        Inl e \<Rightarrow> goto i TFault s
      | Inr (b, t) \<Rightarrow> goto i (TResult x (Ok b)) (s\<lparr>sh_tab := t\<rparr>))"

text \<open>The next step of thread \<open>i\<close> inside its operation; \<open>None\<close> when it has none or waits.\<close>

definition advance ::
  "table_kind \<Rightarrow> ('v table \<Rightarrow> hstring \<times> 'v option \<Rightarrow> 'v table) \<Rightarrow> nat \<Rightarrow> 'v shared_table \<Rightarrow> 'v shared_table option" where
  "advance kind place i s =
     (case sh_stage s i of
        TCalled x \<Rightarrow> if may_lock kind x s then Some (goto i (TLocked x) (take_lock kind x i s)) else None
      | TLocked x \<Rightarrow> (case x of OInsert k v \<Rightarrow> Some (insert_step place i x k v s) | _ \<Rightarrow> find_step kind i x s)
      | TFound x \<Rightarrow> Some (read_step i x s)
      | TOld x old \<Rightarrow> Some (write_step i x old s)
      | TResult x a \<Rightarrow> Some (goto i (TUnlocked x a) (drop_lock kind x i s))
      | _ \<Rightarrow> None)"

definition drop_accessor :: "nat \<Rightarrow> 'v table_op \<Rightarrow> 'v shared_table \<Rightarrow> 'v shared_table" where
  "drop_accessor i x s =
     (if sh_owner s (key_of x) = Some i then s\<lparr>sh_owner := (sh_owner s)(key_of x := None)\<rparr> else s)"

datatype 'v event = Call nat "'v table_op" | Return nat "'v table_op" "'v answer"

inductive table_step ::
  "table_kind \<Rightarrow> ('v table \<Rightarrow> hstring \<times> 'v option \<Rightarrow> 'v table) \<Rightarrow> 'v shared_table \<Rightarrow> 'v event option \<Rightarrow> 'v shared_table \<Rightarrow> bool"
  for kind place where
  call: "sh_stage s i = TIdle \<Longrightarrow> table_step kind place s (Some (Call i x)) (goto i (TCalled x) s)"
| inside: "advance kind place i s = Some s' \<Longrightarrow> table_step kind place s None s'"
| returns: "sh_stage s i = TUnlocked x a \<Longrightarrow>
    table_step kind place s (Some (Return i x a)) (goto i TIdle (drop_accessor i x s))"

text \<open>The calls and returns of a run.\<close>

inductive traces :: "('s \<Rightarrow> 'e option \<Rightarrow> 's \<Rightarrow> bool) \<Rightarrow> 's \<Rightarrow> 'e list \<Rightarrow> 's \<Rightarrow> bool" for step where
  nothing: "traces step s [] s"
| silent: "traces step s es s' \<Longrightarrow> step s' None s'' \<Longrightarrow> traces step s es s''"
| visible: "traces step s es s' \<Longrightarrow> step s' (Some e) s'' \<Longrightarrow> traces step s (es @ [e]) s''"

section \<open>The atomic map\<close>

text \<open>The specification: an operation takes effect in one step between its call and its return.\<close>

datatype 'v pending = Free | Asked "'v table_op" | Answered "'v table_op" "'v answer"

record 'v atomic_map =
  at_map :: "cstring \<rightharpoonup> 'v option"
  at_pending :: "nat \<Rightarrow> 'v pending"

definition new_map :: "'v atomic_map" where
  "new_map = \<lparr>at_map = Map.empty, at_pending = (\<lambda>_. Free)\<rparr>"

inductive atomic_step :: "'v atomic_map \<Rightarrow> 'v event option \<Rightarrow> 'v atomic_map \<Rightarrow> bool" where
  "at_pending a i = Free \<Longrightarrow> atomic_step a (Some (Call i x)) (a\<lparr>at_pending := (at_pending a)(i := Asked x)\<rparr>)"
| "at_pending a i = Asked x \<Longrightarrow> map_op x (at_map a) = (r, m) \<Longrightarrow>
    atomic_step a None \<lparr>at_map = m, at_pending = (at_pending a)(i := Answered x r)\<rparr>"
| "at_pending a i = Answered x r \<Longrightarrow>
    atomic_step a (Some (Return i x r)) (a\<lparr>at_pending := (at_pending a)(i := Free)\<rparr>)"

end
