(* ===== verification/Ycsb_Table_Facts.thy ===== *)
theory Ycsb_Table_Facts
  imports Ycsb_Tables
begin

text \<open>
  The invariant of a shared table - who holds its lock and its elements, and what the threads that have found
  an element know of it - and the simulation of the atomic map.
\<close>

section \<open>Stages\<close>

text \<open>The operation that holds the lock of the table, and the one that has found its element.\<close>

fun locking :: "'v stage \<Rightarrow> 'v table_op option" where
  "locking (TLocked x) = Some x"
| "locking (TFound x) = Some x"
| "locking (TOld x old) = Some x"
| "locking (TResult x a) = Some x"
| "locking _ = None"

fun inside_of :: "'v stage \<Rightarrow> 'v table_op option" where
  "inside_of (TFound x) = Some x"
| "inside_of (TOld x old) = Some x"
| "inside_of _ = None"

fun shape_ok :: "'v stage \<Rightarrow> bool" where
  "shape_ok (TFound x) \<longleftrightarrow> (\<forall>k v. x \<noteq> OInsert k v)"
| "shape_ok (TOld x old) \<longleftrightarrow> (\<exists>k v. x = OUpdate k v \<or> x = ORemove k)"
| "shape_ok TFault \<longleftrightarrow> False"
| "shape_ok _ \<longleftrightarrow> True"

fun owning :: "'v stage \<Rightarrow> 'v table_op option" where
  "owning (TFound x) = Some x"
| "owning (TOld x old) = Some x"
| "owning (TResult x a) = Some x"
| "owning (TUnlocked x a) = Some x"
| "owning _ = None"

text \<open>What a thread knows of the element it has found.\<close>

fun knows :: "(cstring \<rightharpoonup> 'v option) \<Rightarrow> 'v stage \<Rightarrow> bool" where
  "knows m (TFound x) \<longleftrightarrow> m (key_of x) \<noteq> None"
| "knows m (TOld x old) \<longleftrightarrow> m (key_of x) = Some old"
| "knows m _ \<longleftrightarrow> True"

text \<open>The lock of the table: its writer alone, or readers.\<close>

definition locks_ok :: "table_kind \<Rightarrow> 'v shared_table \<Rightarrow> bool" where
  "locks_ok kind s \<longleftrightarrow>
     (sh_writer s \<noteq> None \<longrightarrow> sh_readers s = {}) \<and>
     (\<forall>i. sh_writer s = Some i \<longleftrightarrow> (\<exists>x. locking (sh_stage s i) = Some x \<and> exclusive kind x)) \<and>
     (\<forall>i. i \<in> sh_readers s \<longleftrightarrow> (\<exists>x. locking (sh_stage s i) = Some x \<and> \<not> exclusive kind x))"

definition owners_ok :: "table_kind \<Rightarrow> 'v shared_table \<Rightarrow> bool" where
  "owners_ok kind s \<longleftrightarrow>
     (kind \<noteq> TbbRand \<longrightarrow> sh_owner s = Map.empty) \<and>
     (\<forall>i k. sh_owner s k = Some i \<longrightarrow> (\<exists>x. owning (sh_stage s i) = Some x \<and> key_of x = k)) \<and>
     (kind = TbbRand \<longrightarrow> (\<forall>i x. inside_of (sh_stage s i) = Some x \<longrightarrow> sh_owner s (key_of x) = Some i))"

text \<open>Characters are freed only while a removal is under way.\<close>

definition freed_ok :: "'v shared_table \<Rightarrow> bool" where
  "freed_ok s \<longleftrightarrow> (\<forall>k. k \<in> sh_freed s \<longleftrightarrow> (\<exists>i old. sh_stage s i = TOld (ORemove k) old))"

definition shared_inv :: "table_kind \<Rightarrow> 'v shared_table \<Rightarrow> bool" where
  "shared_inv kind s \<longleftrightarrow> table_inv (sh_tab s) \<and> locks_ok kind s \<and> owners_ok kind s \<and> freed_ok s \<and>
     (\<forall>i. shape_ok (sh_stage s i) \<and> knows (contents (sh_tab s)) (sh_stage s i))"

lemma goto_simps [simp]:
  "sh_tab (goto i st s) = sh_tab s" "sh_stage (goto i st s) = (sh_stage s)(i := st)"
  "sh_readers (goto i st s) = sh_readers s" "sh_writer (goto i st s) = sh_writer s" "sh_owner (goto i st s) = sh_owner s"
  "sh_freed (goto i st s) = sh_freed s"
  by (simp_all add: goto_def)

lemma inside_locking: "inside_of st = Some x \<Longrightarrow> locking st = Some x"
  by (cases st) auto

section \<open>Exclusion\<close>

text \<open>A thread that changes an element that is there is alone with it.\<close>

lemma alone:
  assumes l: "locks_ok kind s" and o: "owners_ok kind s"
    and i: "inside_of (sh_stage s i) = Some x" "\<exists>k v. x = OUpdate k v \<or> x = ORemove k"
    and j: "inside_of (sh_stage s j) = Some y" "i \<noteq> j"
  shows "key_of y \<noteq> key_of x"
proof (cases kind)
  case TbbRand
  have "sh_owner s (key_of x) = Some i" "sh_owner s (key_of y) = Some j" using o i(1) j(1) TbbRand by (auto simp: owners_ok_def)
  then show ?thesis using j(2) by auto
next
  case LockStl
  have "sh_writer s = Some i" "sh_writer s = Some j"
    using l inside_locking [OF i(1)] inside_locking [OF j(1)] LockStl by (auto simp: locks_ok_def)
  then show ?thesis using j(2) by auto
next
  case TbbScan
  have "exclusive kind x" using i(2) TbbScan by auto
  then have w: "sh_writer s = Some i" using l inside_locking [OF i(1)] by (auto simp: locks_ok_def)
  then have "sh_readers s = {}" using l by (auto simp: locks_ok_def)
  then have "exclusive kind y" using l inside_locking [OF j(1)] by (auto simp: locks_ok_def)
  then have "sh_writer s = Some j" using l inside_locking [OF j(1)] by (auto simp: locks_ok_def)
  then show ?thesis using w j(2) by auto
qed

lemma knows_inside: "knows m st \<Longrightarrow> (\<And>x. inside_of st = Some x \<Longrightarrow> m' (key_of x) = m (key_of x)) \<Longrightarrow> knows m' st"
  by (cases st) auto

lemma knows_more: "knows m st \<Longrightarrow> m k = None \<Longrightarrow> knows (m(k \<mapsto> v)) st"
  by (cases st) auto

section \<open>The simulation\<close>

fun pending_of :: "'v stage \<Rightarrow> 'v pending" where
  "pending_of TIdle = Free"
| "pending_of (TResult x a) = Answered x a"
| "pending_of (TUnlocked x a) = Answered x a"
| "pending_of (TCalled x) = Asked x"
| "pending_of (TLocked x) = Asked x"
| "pending_of (TFound x) = Asked x"
| "pending_of (TOld x old) = Asked x"
| "pending_of TFault = Free"

definition map_of_table :: "'v shared_table \<Rightarrow> 'v atomic_map" where
  "map_of_table s = \<lparr>at_map = contents (sh_tab s), at_pending = (\<lambda>i. pending_of (sh_stage s i))\<rparr>"

text \<open>A step that answers is the atomic step, every other one inside an operation is none.\<close>

definition answers_op :: "nat \<Rightarrow> 'v shared_table \<Rightarrow> 'v shared_table \<Rightarrow> bool" where
  "answers_op i s s' \<longleftrightarrow> map_of_table s' = map_of_table s \<or>
     (\<exists>x a. pending_of (sh_stage s i) = Asked x \<and> map_op x (contents (sh_tab s)) = (a, contents (sh_tab s')) \<and>
        sh_stage s' = (sh_stage s)(i := TResult x a))"

lemma map_of_table_upd:
  "sh_stage s' = (sh_stage s)(i := st) \<Longrightarrow>
     map_of_table s' = \<lparr>at_map = contents (sh_tab s'), at_pending = (at_pending (map_of_table s))(i := pending_of st)\<rparr>"
  by (auto simp: map_of_table_def fun_eq_iff)

lemma map_of_table_simps [simp]:
  "at_map (map_of_table s) = contents (sh_tab s)" "at_pending (map_of_table s) i = pending_of (sh_stage s i)"
  by (simp_all add: map_of_table_def)

lemma same_pending:
  "contents (sh_tab s') = contents (sh_tab s) \<Longrightarrow> sh_stage s' = (sh_stage s)(i := st) \<Longrightarrow>
     pending_of st = pending_of (sh_stage s i) \<Longrightarrow> answers_op i s s'"
  by (auto simp: answers_op_def map_of_table_def fun_eq_iff)

section \<open>Locks and owners under the steps\<close>

lemma locks_same:
  "locks_ok kind s \<Longrightarrow> sh_stage s' = (sh_stage s)(i := st) \<Longrightarrow> locking st = locking (sh_stage s i) \<Longrightarrow>
     sh_readers s' = sh_readers s \<Longrightarrow> sh_writer s' = sh_writer s \<Longrightarrow> locks_ok kind s'"
  by (simp add: locks_ok_def)

lemma locks_taken:
  assumes "locks_ok kind s" "may_lock kind x s" "locking (sh_stage s i) = None"
  shows "locks_ok kind (goto i (TLocked x) (take_lock kind x i s))"
  using assms by (cases "exclusive kind x") (auto simp: locks_ok_def may_lock_def take_lock_def)

lemma locks_dropped:
  assumes "locks_ok kind s" "locking (sh_stage s i) = Some x" "locking st = None"
  shows "locks_ok kind (goto i st (drop_lock kind x i s))"
proof (cases "exclusive kind x")
  case True
  then have "sh_writer s = Some i" "sh_readers s = {}" using assms(1,2) by (auto simp: locks_ok_def)
  then show ?thesis using assms True by (auto simp: locks_ok_def drop_lock_def)
next
  case False
  then have "i \<in> sh_readers s" using assms(1,2) by (auto simp: locks_ok_def)
  then have "sh_writer s = None" using assms(1) by (auto simp: locks_ok_def)
  then show ?thesis using assms False by (auto simp: locks_ok_def drop_lock_def)
qed

lemma owners_same:
  "owners_ok kind s \<Longrightarrow> sh_stage s' = (sh_stage s)(i := st) \<Longrightarrow> sh_owner s' = sh_owner s \<Longrightarrow>
     (\<And>x. owning (sh_stage s i) = Some x \<Longrightarrow> owning st = Some x) \<Longrightarrow>
     (\<And>x. inside_of st = Some x \<Longrightarrow> inside_of (sh_stage s i) = Some x) \<Longrightarrow> owners_ok kind s'"
  unfolding owners_ok_def by auto metis

lemma owners_taken:
  assumes "owners_ok TbbRand s" "owning (sh_stage s i) = None" "sh_owner s (key_of x) = None"
  shows "owners_ok TbbRand (goto i (TFound x) (s\<lparr>sh_owner := (sh_owner s)(key_of x \<mapsto> i)\<rparr>))"
  using assms by (auto simp: owners_ok_def) (metis option.distinct(1))+

lemma owners_dropped:
  assumes "owners_ok kind s" "sh_stage s' = (sh_stage s)(i := st)" "sh_owner s' = (sh_owner s)(k := None)"
    and "\<And>y. owning (sh_stage s i) = Some y \<Longrightarrow> key_of y = k" "inside_of st = None"
    and "\<And>j y. j \<noteq> i \<Longrightarrow> inside_of (sh_stage s j) = Some y \<Longrightarrow> kind = TbbRand \<Longrightarrow> key_of y \<noteq> k"
  shows "owners_ok kind s'"
proof -
  have "\<exists>x. owning (sh_stage s' j) = Some x \<and> key_of x = k'" if o: "sh_owner s' k' = Some j" for j k'
  proof -
    have k: "k' \<noteq> k" "sh_owner s k' = Some j" using o assms(3) by (auto split: if_splits)
    then obtain x where x: "owning (sh_stage s j) = Some x" "key_of x = k'" using assms(1) by (auto simp: owners_ok_def)
    then have "j \<noteq> i" using assms(4) k(1) by auto
    then show ?thesis using x assms(2) by auto
  qed
  then show ?thesis using assms by (auto simp: owners_ok_def)
qed

text \<open>A step that neither starts nor ends a removal.\<close>

definition removing :: "'v stage \<Rightarrow> cstring option" where
  "removing st = (case st of TOld (ORemove k) old \<Rightarrow> Some k | _ \<Rightarrow> None)"

lemma removing_simps [simp]:
  "removing (TOld (ORemove k) old) = Some k" "removing (TOld (OUpdate k v) old) = None" "removing TIdle = None"
  "removing (TCalled x) = None" "removing (TLocked x) = None" "removing (TFound x) = None"
  "removing (TResult x a) = None" "removing (TUnlocked x a) = None"
  by (simp_all add: removing_def)

lemma removing_iff: "(\<exists>old. st = TOld (ORemove k) old) \<longleftrightarrow> removing st = Some k"
  by (cases st) (auto simp: removing_def split: table_op.splits)

lemma freed_ok_alt: "freed_ok s \<longleftrightarrow> (\<forall>k. k \<in> sh_freed s \<longleftrightarrow> (\<exists>i. removing (sh_stage s i) = Some k))"
  unfolding freed_ok_def removing_iff ..

lemma freed_same:
  "freed_ok s \<Longrightarrow> sh_stage s' = (sh_stage s)(i := st) \<Longrightarrow> sh_freed s' = sh_freed s \<Longrightarrow>
     removing st = removing (sh_stage s i) \<Longrightarrow> freed_ok s'"
  unfolding freed_ok_alt by auto

lemma freed_started:
  assumes "freed_ok s" "removing (sh_stage s i) = None" "sh_stage s' = (sh_stage s)(i := st)" "removing st = Some k"
    and "sh_freed s' = insert k (sh_freed s)"
  shows "freed_ok s'"
  unfolding freed_ok_alt
proof
  fix k'
  have "(\<exists>j. removing (sh_stage s' j) = Some k') \<longleftrightarrow> k' = k \<or> (\<exists>j. removing (sh_stage s j) = Some k')"
    using assms(2-4) by auto (metis option.distinct(1))
  then show "k' \<in> sh_freed s' \<longleftrightarrow> (\<exists>j. removing (sh_stage s' j) = Some k')"
    using assms(1,5) unfolding freed_ok_alt by auto
qed

lemma freed_ended:
  assumes "freed_ok s" "removing (sh_stage s i) = Some k" "sh_stage s' = (sh_stage s)(i := st)" "removing st = None"
    and "sh_freed s' = sh_freed s - {k}" "\<And>j. j \<noteq> i \<Longrightarrow> removing (sh_stage s j) \<noteq> Some k"
  shows "freed_ok s'"
  unfolding freed_ok_alt
proof
  fix k'
  have "(\<exists>j. removing (sh_stage s' j) = Some k') \<longleftrightarrow> k' \<noteq> k \<and> (\<exists>j. removing (sh_stage s j) = Some k')"
    using assms(2-4,6) by auto (metis option.inject)+
  then show "k' \<in> sh_freed s' \<longleftrightarrow> (\<exists>j. removing (sh_stage s' j) = Some k')"
    using assms(1,5) unfolding freed_ok_alt by auto
qed

lemma shared_inv_gen:
  assumes "shared_inv kind s" "sh_stage s' = (sh_stage s)(i := st)"
    and "table_inv (sh_tab s')" "locks_ok kind s'" "owners_ok kind s'" "freed_ok s'" "shape_ok st" "knows (contents (sh_tab s')) st"
    and "\<And>j. j \<noteq> i \<Longrightarrow> knows (contents (sh_tab s')) (sh_stage s j)"
  shows "shared_inv kind s'"
  using assms by (auto simp: shared_inv_def)

lemma shared_invI:
  assumes "shared_inv kind s" "sh_stage s' = (sh_stage s)(i := st)"
    and "table_inv (sh_tab s')" "locks_ok kind s'" "owners_ok kind s'"
    and "sh_freed s' = sh_freed s" "removing st = removing (sh_stage s i)" "shape_ok st" "knows (contents (sh_tab s')) st"
    and "\<And>j. j \<noteq> i \<Longrightarrow> knows (contents (sh_tab s')) (sh_stage s j)"
  shows "shared_inv kind s'"
proof -
  have "freed_ok s'" by (rule freed_same [of s _ i st]) (use assms in \<open>auto simp: shared_inv_def\<close>)
  then show ?thesis by (rule shared_inv_gen [OF assms(1-5) _ assms(8-10)])
qed

lemma found_iff: "table_inv t \<Longrightarrow> find_entry (set_value k) t = None \<longleftrightarrow> contents t k = None"
  using find_entry_contents [of t k] by (metis option.map_disc_iff)

lemma found_value: "table_inv t \<Longrightarrow> find_entry (set_value k) t = Some e \<Longrightarrow> contents t k = Some (snd e)"
  using find_entry_contents [of t k] by simp

section \<open>The steps of a thread\<close>

lemma TCalled_step:
  assumes "shared_inv kind s" "sh_stage s i = TCalled x" "may_lock kind x s"
  shows "let s' = goto i (TLocked x) (take_lock kind x i s) in shared_inv kind s' \<and> answers_op i s s'"
proof -
  have l: "locks_ok kind (goto i (TLocked x) (take_lock kind x i s))"
    by (rule locks_taken) (use assms in \<open>auto simp: shared_inv_def\<close>)
  have o: "owners_ok kind (goto i (TLocked x) (take_lock kind x i s))"
    by (rule owners_same [of kind s _ i "TLocked x"]) (use assms in \<open>auto simp: shared_inv_def take_lock_def\<close>)
  have "shared_inv kind (goto i (TLocked x) (take_lock kind x i s))"
    by (rule shared_invI [where i = i and st = "TLocked x", OF assms(1) _ _ l o]) (use assms in \<open>auto simp: shared_inv_def take_lock_def\<close>)
  then show ?thesis using assms(2)
    by (auto simp: take_lock_def intro!: same_pending [of _ _ i "TLocked x"])
qed

lemma TInsert_step:
  assumes i: "shared_inv kind s" and st: "sh_stage s i = TLocked (OInsert k v)" and p: "places place"
    and nf: "\<not> meets_freed k s"
  shows "let s' = insert_step place i (OInsert k v) k v s in shared_inv kind s' \<and> answers_op i s s'"
proof -
  have t: "table_inv (sh_tab s)" using i by (simp add: shared_inv_def)
  obtain b t' where r: "scan_Insert place (sh_tab s) (Some k) v = Inr (b, t')" "table_inv t'"
    "map_op (OInsert k v) (contents (sh_tab s)) = (Ok b, contents t')"
    "b \<longrightarrow> contents (sh_tab s) k = None \<and> contents t' = (contents (sh_tab s))(k \<mapsto> v)"
    "\<not> b \<longrightarrow> contents t' = contents (sh_tab s)"
  proof (cases "contents (sh_tab s) k = None")
    case True
    then show ?thesis using that [of True "place (sh_tab s) (set_value k, v)"] found_iff [OF t, of k] contents_place [OF p t True, of v]
      by (simp add: scan_Insert_def Copy_def)
  next
    case False
    then show ?thesis using that [of False "sh_tab s"] found_iff [OF t, of k] t by (simp add: scan_Insert_def Copy_def)
  qed
  have kn: "knows (contents t') (sh_stage s j)" for j
    using i r(4,5) knows_more [of "contents (sh_tab s)" "sh_stage s j" k v] by (cases b) (auto simp: shared_inv_def)
  let ?s = "goto i (TResult (OInsert k v) (Ok b)) (s\<lparr>sh_tab := t'\<rparr>)"
  have l: "locks_ok kind ?s"
    by (rule locks_same [of kind s _ i]) (use i st in \<open>auto simp: shared_inv_def\<close>)
  have o: "owners_ok kind ?s"
    by (rule owners_same [of kind s _ i]) (use i st in \<open>auto simp: shared_inv_def\<close>)
  have "shared_inv kind ?s"
    by (rule shared_invI [where i = i and st = "TResult (OInsert k v) (Ok b)", OF i _ _ l o]) (use st r(2) kn in auto)
  moreover have "answers_op i s ?s" using st r(3) by (auto simp: answers_op_def)
  ultimately show ?thesis using r(1) nf by (simp add: insert_step_def)
qed

lemma find_step_inv:
  assumes i: "shared_inv kind s" and st: "sh_stage s i = TLocked x" and x: "\<forall>k v. x \<noteq> OInsert k v"
    and f: "find_step kind i x s = Some s'" and nf: "\<not> meets_freed (key_of x) s"
  shows "shared_inv kind s' \<and> answers_op i s s'"
proof -
  have t: "table_inv (sh_tab s)" and lo: "locks_ok kind s" and ow: "owners_ok kind s"
    using i by (simp_all add: shared_inv_def)
  note fk = found_iff [OF t, of "key_of x"]
  consider (gone) "contents (sh_tab s) (key_of x) = None" "s' = goto i (TResult x (Old None)) s"
    | (plain) "contents (sh_tab s) (key_of x) \<noteq> None" "kind \<noteq> TbbRand" "s' = goto i (TFound x) s"
    | (accessor) "contents (sh_tab s) (key_of x) \<noteq> None" "kind = TbbRand" "sh_owner s (key_of x) = None"
        "s' = goto i (TFound x) (s\<lparr>sh_owner := (sh_owner s)(key_of x \<mapsto> i)\<rparr>)"
    using f fk nf by (auto simp: find_step_def split: if_splits)
  then show ?thesis
  proof cases
    case gone
    have l: "locks_ok kind s'" by (rule locks_same [OF lo, of _ i]) (use gone st in auto)
    have o: "owners_ok kind s'" by (rule owners_same [OF ow, of _ i]) (use gone st in auto)
    have "shared_inv kind s'" by (rule shared_invI [where i = i and st = "TResult x (Old None)", OF i _ _ l o]) (use i st gone in \<open>auto simp: shared_inv_def\<close>)
    moreover have "map_op x (contents (sh_tab s)) = (Old None, contents (sh_tab s))" using gone(1) x by (cases x) auto
    ultimately show ?thesis using gone(2) st by (auto simp: answers_op_def)
  next
    case plain
    have l: "locks_ok kind s'" by (rule locks_same [OF lo, of _ i]) (use plain st in auto)
    have o: "owners_ok kind s'" using ow plain by (auto simp: owners_ok_def)
    have "shared_inv kind s'" by (rule shared_invI [where i = i and st = "TFound x", OF i _ _ l o]) (use i st plain x in \<open>auto simp: shared_inv_def\<close>)
    then show ?thesis using plain(3) st by (auto intro!: same_pending [of _ _ i "TFound x"])
  next
    case accessor
    have l: "locks_ok kind s'" by (rule locks_same [OF lo, of _ i]) (use accessor st in auto)
    have o: "owners_ok kind s'" using owners_taken [of s i x] ow accessor st by simp
    have "shared_inv kind s'" by (rule shared_invI [where i = i and st = "TFound x", OF i _ _ l o]) (use i st accessor x in \<open>auto simp: shared_inv_def\<close>)
    then show ?thesis using accessor(4) st by (auto intro!: same_pending [of _ _ i "TFound x"])
  qed
qed

lemma read_step_inv:
  assumes i: "shared_inv kind s" and st: "sh_stage s i = TFound x"
  shows "shared_inv kind (read_step i x s) \<and> answers_op i s (read_step i x s)"
proof -
  have t: "table_inv (sh_tab s)" and lo: "locks_ok kind s" and ow: "owners_ok kind s" and fr: "freed_ok s"
    and kn: "contents (sh_tab s) (key_of x) \<noteq> None" and sh: "\<forall>k v. x \<noteq> OInsert k v"
    using i st by (auto simp: shared_inv_def dest: spec [of _ i])
  obtain e where e: "find_entry (set_value (key_of x)) (sh_tab s) = Some e"
    using found_iff [OF t, of "key_of x"] kn by auto
  note v = found_value [OF t e]
  define st' where "st' = (case x of OGet k \<Rightarrow> TResult x (Old (snd e)) | _ \<Rightarrow> TOld x (snd e))"
  let ?s = "read_step i x s"
  have r: "sh_stage ?s = (sh_stage s)(i := st')" "sh_tab ?s = sh_tab s" "sh_owner ?s = sh_owner s"
    "sh_readers ?s = sh_readers s" "sh_writer ?s = sh_writer s"
    "sh_freed ?s = (case x of ORemove k \<Rightarrow> insert k (sh_freed s) | _ \<Rightarrow> sh_freed s)"
    using sh by (auto simp: read_step_def e st'_def split: table_op.splits)
  have l: "locks_ok kind ?s"
    by (rule locks_same [OF lo r(1) _ r(4,5)]) (use st in \<open>auto simp: st'_def split: table_op.splits\<close>)
  have o: "owners_ok kind ?s"
    by (rule owners_same [OF ow r(1,3)]) (use st in \<open>auto simp: st'_def split: table_op.splits\<close>)
  have f: "freed_ok ?s"
  proof (cases "\<exists>k. x = ORemove k")
    case True
    then obtain k where "x = ORemove k" by blast
    then show ?thesis using r(6) st by (intro freed_started [OF fr _ r(1), of k]) (auto simp: st'_def)
  next
    case False
    then show ?thesis using r(6) st sh by (intro freed_same [OF fr r(1)]) (auto simp: st'_def split: table_op.splits)
  qed
  have "shared_inv kind ?s"
    by (rule shared_inv_gen [OF i r(1) _ l o f])
      (use i t v sh r(2) in \<open>auto simp: shared_inv_def st'_def split: table_op.splits\<close>)
  moreover have "answers_op i s ?s"
  proof (cases "\<exists>k. x = OGet k")
    case True
    then show ?thesis using st v r(1,2) by (auto simp: answers_op_def st'_def)
  next
    case False
    then have "st' = TOld x (snd e)" using sh by (cases x) (auto simp: st'_def)
    then show ?thesis using st r(1,2) by (auto intro!: same_pending [of _ _ i st'])
  qed
  ultimately show ?thesis by simp
qed

lemma write_step_inv:
  assumes i: "shared_inv kind s" and st: "sh_stage s i = TOld x old"
  shows "shared_inv kind (write_step i x old s) \<and> answers_op i s (write_step i x old s)"
proof -
  have t: "table_inv (sh_tab s)" and lo: "locks_ok kind s" and ow: "owners_ok kind s"
    and kn: "contents (sh_tab s) (key_of x) = Some old" and sh: "\<exists>k v. x = OUpdate k v \<or> x = ORemove k"
    using i st by (auto simp: shared_inv_def dest: spec [of _ i])
  have f: "find_entry (set_value (key_of x)) (sh_tab s) \<noteq> None" using found_iff [OF t, of "key_of x"] kn by simp
  have others: "key_of y \<noteq> key_of x" if "j \<noteq> i" "inside_of (sh_stage s j) = Some y" for j y
    using alone [OF lo ow _ sh that(2), of i] st that(1) by auto
  have keep: "knows m (sh_stage s j)"
    if "j \<noteq> i" "\<And>k. k \<noteq> key_of x \<Longrightarrow> m k = contents (sh_tab s) k" for j m
    using knows_inside [of "contents (sh_tab s)" "sh_stage s j" m] i others that by (auto simp: shared_inv_def)
  consider k v where "x = OUpdate k v" | k where "x = ORemove k" using sh by blast
  then show ?thesis
  proof cases
    case 1
    let ?s = "goto i (TResult x (Old old)) (s\<lparr>sh_tab := overwrite (k) v (sh_tab s)\<rparr>)"
    have w: "write_step i x old s = ?s" using f by (auto simp: write_step_def 1)
    have c: "contents (sh_tab ?s) = (contents (sh_tab s))(k \<mapsto> v)"
      using contents_overwrite [OF t, of k v] kn 1 by simp
    have l: "locks_ok kind ?s" by (rule locks_same [OF lo, of _ i]) (use st in auto)
    have o: "owners_ok kind ?s" by (rule owners_same [OF ow, of _ i]) (use st in auto)
    have "shared_inv kind ?s"
      by (rule shared_invI [where i = i and st = "TResult x (Old old)", OF i _ _ l o]) (use st table_inv_overwrite [OF t] keep c 1 in auto)
    moreover have "map_op x (contents (sh_tab s)) = (Old old, contents (sh_tab ?s))"
      unfolding c using kn 1 by simp
    ultimately show ?thesis unfolding w using st by (auto simp: answers_op_def)
  next
    case 2
    let ?s = "goto i (TResult x (Old old))
      (s\<lparr>sh_tab := erase k (sh_tab s), sh_owner := (sh_owner s)(k := None), sh_freed := sh_freed s - {k}\<rparr>)"
    have w: "write_step i x old s = ?s" using f by (auto simp: write_step_def 2)
    have c: "contents (sh_tab ?s) = (contents (sh_tab s))(k := None)"
      using contents_erase [OF t, of "k"] by simp
    have l: "locks_ok kind ?s" by (rule locks_same [OF lo, of _ i]) (use st in auto)
    have o: "owners_ok kind ?s" by (rule owners_dropped [OF ow, of _ i]) (use st others 2 in auto)
    have rm: "removing (sh_stage s j) \<noteq> Some k" if "j \<noteq> i" for j
    proof
      assume "removing (sh_stage s j) = Some k"
      then obtain u where "sh_stage s j = TOld (ORemove k) u" using removing_iff [of "sh_stage s j" k] by blast
      then show False using others [OF that, of "ORemove k"] 2 by simp
    qed
    have fr: "freed_ok s" using i by (simp add: shared_inv_def)
    have f': "freed_ok ?s"
      by (rule freed_ended [OF fr, of i k _ "TResult x (Old old)"]) (use st rm 2 in auto)
    have "shared_inv kind ?s"
      by (rule shared_inv_gen [where i = i and st = "TResult x (Old old)", OF i _ _ l o f']) (use table_inv_erase [OF t] keep c 2 in auto)
    moreover have "map_op x (contents (sh_tab s)) = (Old old, contents (sh_tab ?s))"
      unfolding c using kn 2 by simp
    ultimately show ?thesis unfolding w using st by (auto simp: answers_op_def)
  qed
qed

lemma unlock_step_inv:
  assumes i: "shared_inv kind s" and st: "sh_stage s i = TResult x a"
  shows "let s' = goto i (TUnlocked x a) (drop_lock kind x i s) in shared_inv kind s' \<and> answers_op i s s'"
proof -
  let ?s = "goto i (TUnlocked x a) (drop_lock kind x i s)"
  have l: "locks_ok kind ?s" by (rule locks_dropped) (use i st in \<open>auto simp: shared_inv_def\<close>)
  have o: "owners_ok kind ?s"
    by (rule owners_same [of kind s _ i]) (use i st in \<open>auto simp: shared_inv_def drop_lock_def\<close>)
  have "shared_inv kind ?s"
    by (rule shared_invI [where i = i and st = "TUnlocked x a", OF i _ _ l o]) (use i st in \<open>auto simp: shared_inv_def drop_lock_def\<close>)
  then show ?thesis using st by (auto simp: drop_lock_def intro!: same_pending [of _ _ i "TUnlocked x a"])
qed

lemma advance_inv:
  assumes "shared_inv kind s" "places place" "advance kind place i s = Some s'" "sh_stage s' i \<noteq> TFault"
  shows "shared_inv kind s' \<and> answers_op i s s'"
proof (cases "sh_stage s i")
  case (TCalled x)
  then show ?thesis using assms(3) TCalled_step [OF assms(1) TCalled]
    by (auto simp: advance_def Let_def split: if_splits)
next
  case (TLocked x)
  show ?thesis
  proof (cases "\<exists>k v. x = OInsert k v")
    case True
    then obtain k v where x: "x = OInsert k v" by blast
    have s': "s' = insert_step place i x k v s" using assms(3) TLocked x by (simp add: advance_def)
    then have "\<not> meets_freed k s" using assms(4) by (auto simp: insert_step_def)
    then show ?thesis using s' TInsert_step [OF assms(1) _ assms(2), of i k v] TLocked x by (simp add: Let_def)
  next
    case False
    then have f: "find_step kind i x s = Some s'" using assms(3) TLocked by (cases x) (auto simp: advance_def)
    then have "\<not> meets_freed (key_of x) s" using assms(4) by (auto simp: find_step_def)
    then show ?thesis using find_step_inv [OF assms(1) TLocked _ f] False by blast
  qed
next
  case (TFound x)
  then show ?thesis using assms(3) read_step_inv [OF assms(1) TFound] by (auto simp: advance_def)
next
  case (TOld x old)
  then show ?thesis using assms(3) write_step_inv [OF assms(1) TOld] by (auto simp: advance_def)
next
  case (TResult x a)
  then show ?thesis using assms(3) unlock_step_inv [OF assms(1) TResult] by (auto simp: advance_def Let_def)
qed (use assms(3) in \<open>auto simp: advance_def\<close>)

text \<open>Outside the table with accessors no search meets a key that is being removed.\<close>

lemma advance_no_fault:
  assumes i: "shared_inv kind s" and k: "kind \<noteq> TbbRand" and p: "places place"
    and adv: "advance kind place i s = Some s'"
  shows "sh_stage s' i \<noteq> TFault"
proof -
  have lo: "locks_ok kind s" and fr: "freed_ok s" and t: "table_inv (sh_tab s)" using i by (simp_all add: shared_inv_def)
  show ?thesis
  proof (cases "\<exists>x. sh_stage s i = TLocked x")
    case True
    then obtain x where x: "sh_stage s i = TLocked x" by blast
    have "sh_freed s = {}"
    proof (rule ccontr)
      assume "sh_freed s \<noteq> {}"
      then obtain j k old where j: "sh_stage s j = TOld (ORemove k) old" using fr by (auto simp: freed_ok_def)
      have "exclusive kind (ORemove k :: 'a table_op)" using k by (cases kind) auto
      then have w: "sh_writer s = Some j" using lo j by (auto simp: locks_ok_def)
      then have "sh_readers s = {}" using lo by (auto simp: locks_ok_def)
      moreover have "\<not> exclusive kind x \<Longrightarrow> i \<in> sh_readers s" using lo x by (auto simp: locks_ok_def)
      ultimately have "exclusive kind x" by blast
      then have "sh_writer s = Some i" using lo x by (auto simp: locks_ok_def)
      then show False using w j x by auto
    qed
    then have nf: "\<not> meets_freed k s" for k by (simp add: meets_freed_def)
    show ?thesis
    proof (cases "\<exists>k v. x = OInsert k v")
      case True
      then obtain k v where o: "x = OInsert k v" by blast
      then have "s' = insert_step place i x k v s" using adv x by (simp add: advance_def)
      moreover have "scan_Insert place (sh_tab s) (Some k) v \<noteq> Inl e" for e
        by (cases "find_entry (set_value k) (sh_tab s) = None") (simp_all add: scan_Insert_def Copy_def)
      ultimately show ?thesis using nf by (auto simp: insert_step_def split: sum.splits)
    next
      case False
      then have "find_step kind i x s = Some s'" using adv x by (cases x) (simp_all add: advance_def)
      then show ?thesis using nf k by (auto simp: find_step_def split: if_splits)
    qed
  next
    case False
    have sh: "shape_ok (sh_stage s i)" "knows (contents (sh_tab s)) (sh_stage s i)" using i by (simp_all add: shared_inv_def)
    have found: "contents (sh_tab s) k \<noteq> None \<Longrightarrow> \<exists>e. find_entry (set_value k) (sh_tab s) = Some e" for k
      using found_iff [OF t, of k] by auto
    show ?thesis
    proof (cases "sh_stage s i")
      case (TFound x)
      then obtain e where "find_entry (set_value (key_of x)) (sh_tab s) = Some e" using found [of "key_of x"] sh(2) by auto
      then show ?thesis using adv TFound by (auto simp: advance_def read_step_def split: table_op.splits)
    next
      case (TOld x old)
      then obtain e where "find_entry (set_value (key_of x)) (sh_tab s) = Some e" using found [of "key_of x"] sh(2) by auto
      then show ?thesis using adv TOld sh(1) by (auto simp: advance_def write_step_def)
    qed (use adv False in \<open>auto simp: advance_def split: if_splits\<close>)
  qed
qed

lemma call_inv:
  assumes i: "shared_inv kind s" and st: "sh_stage s i = TIdle"
  shows "shared_inv kind (goto i (TCalled x) s)"
proof -
  have l: "locks_ok kind (goto i (TCalled x) s)" by (rule locks_same [of kind s _ i]) (use i st in \<open>auto simp: shared_inv_def\<close>)
  have o: "owners_ok kind (goto i (TCalled x) s)" by (rule owners_same [of kind s _ i]) (use i st in \<open>auto simp: shared_inv_def\<close>)
  show ?thesis by (rule shared_invI [where i = i and st = "TCalled x", OF i _ _ l o]) (use i st in \<open>auto simp: shared_inv_def\<close>)
qed

lemma return_inv:
  assumes i: "shared_inv kind s" and st: "sh_stage s i = TUnlocked x a"
  shows "shared_inv kind (goto i TIdle (drop_accessor i x s))"
proof -
  let ?s = "goto i TIdle (drop_accessor i x s)"
  have ow: "owners_ok kind s" using i by (simp add: shared_inv_def)
  have l: "locks_ok kind ?s"
    by (rule locks_same [of kind s _ i]) (use i st in \<open>auto simp: shared_inv_def drop_accessor_def\<close>)
  have o: "owners_ok kind ?s"
  proof (cases "sh_owner s (key_of x) = Some i")
    case True
    show ?thesis
    proof (rule owners_dropped [OF ow, of ?s i TIdle "key_of x"])
      fix j y assume "j \<noteq> i" "inside_of (sh_stage s j) = Some y" "kind = TbbRand"
      then have "sh_owner s (key_of y) = Some j" using ow by (auto simp: owners_ok_def)
      then show "key_of y \<noteq> key_of x" using True \<open>j \<noteq> i\<close> by auto
    qed (use True st in \<open>auto simp: drop_accessor_def\<close>)
  next
    case False
    have "owners_ok kind (goto i TIdle s)" unfolding owners_ok_def
    proof (intro conjI allI impI)
      fix j k assume "sh_owner (goto i TIdle s) k = Some j"
      then obtain y where y: "owning (sh_stage s j) = Some y" "key_of y = k" "sh_owner s k = Some j"
        using ow by (auto simp: owners_ok_def)
      then have "j \<noteq> i" using st False by auto
      then show "\<exists>x. owning (sh_stage (goto i TIdle s) j) = Some x \<and> key_of x = k" using y by auto
    qed (use ow in \<open>auto simp: owners_ok_def split: if_splits\<close>)
    then show ?thesis using False by (simp add: drop_accessor_def)
  qed
  show ?thesis by (rule shared_invI [where i = i and st = TIdle, OF i _ _ l o]) (use i st in \<open>auto simp: shared_inv_def drop_accessor_def\<close>)
qed

lemma new_table_inv: "shared_inv kind new_table"
  by (simp add: shared_inv_def new_table_def locks_ok_def owners_ok_def freed_ok_def table_inv_def)

section \<open>Runs\<close>

definition faulted :: "'v shared_table \<Rightarrow> bool" where
  "faulted s \<longleftrightarrow> (\<exists>i. sh_stage s i = TFault)"

text \<open>The steps a thread has left in its operation; undefined behaviour is never left.\<close>

fun stage_left :: "'v stage \<Rightarrow> nat" where
  "stage_left TIdle = 0"
| "stage_left (TCalled x) = 6"
| "stage_left (TLocked x) = 5"
| "stage_left (TFound x) = 4"
| "stage_left (TOld x old) = 3"
| "stage_left (TResult x a) = 2"
| "stage_left (TUnlocked x a) = 1"
| "stage_left TFault = 0"

lemma advance_moves:
  assumes "advance kind place i s = Some s'"
  shows "\<exists>st. sh_stage s' = (sh_stage s)(i := st) \<and> stage_left st < stage_left (sh_stage s i)"
  using assms
  by (auto simp: advance_def take_lock_def drop_lock_def insert_step_def find_step_def read_step_def write_step_def
      split: stage.splits if_splits table_op.splits sum.splits option.splits)

lemma faulted_stays:
  assumes "table_step kind place s e s'" "faulted s"
  shows "faulted s'"
proof -
  obtain i where i: "sh_stage s i = TFault" using assms(2) by (auto simp: faulted_def)
  from assms(1) have "sh_stage s' i = TFault"
  proof cases
    case (inside j)
    then obtain st where st: "sh_stage s' = (sh_stage s)(j := st)" "stage_left st < stage_left (sh_stage s j)"
      using advance_moves by blast
    then have "j \<noteq> i" using i by auto
    then show ?thesis using st(1) i by simp
  qed (use i in \<open>auto simp: drop_accessor_def\<close>)
  then show ?thesis by (auto simp: faulted_def)
qed

lemma table_step_inv:
  assumes "shared_inv kind s" "places place" "table_step kind place s e s'" "\<not> faulted s'"
  shows "shared_inv kind s'"
  using assms(3)
proof cases
  case (call i x)
  then show ?thesis using call_inv [OF assms(1)] by blast
next
  case (inside i)
  then show ?thesis using advance_inv [OF assms(1,2) inside(2)] assms(4) by (auto simp: faulted_def)
next
  case (returns i x a)
  then show ?thesis using return_inv [OF assms(1)] by blast
qed

lemma inv_not_faulted: "shared_inv kind s \<Longrightarrow> \<not> faulted s"
  by (auto simp: shared_inv_def faulted_def) (metis shape_ok.simps(3))

lemma step_not_faulted:
  assumes "shared_inv kind s" "places place" "table_step kind place s e s'" "kind \<noteq> TbbRand"
  shows "\<not> faulted s'"
  using assms(3)
proof cases
  case (inside i)
  obtain st where "sh_stage s' = (sh_stage s)(i := st)" using advance_moves [OF inside(2)] by blast
  then show ?thesis using advance_no_fault [OF assms(1,4,2) inside(2)] inv_not_faulted [OF assms(1)]
    by (auto simp: faulted_def split: if_splits)
qed (use inv_not_faulted [OF assms(1)] in \<open>auto simp: faulted_def drop_accessor_def split: if_splits\<close>)

lemma traces_inv:
  assumes "traces (table_step kind place) s es s'" "shared_inv kind s" "places place"
  shows "\<not> faulted s' \<Longrightarrow> shared_inv kind s'"
  using assms(1,2) by induction (auto intro: table_step_inv [OF _ assms(3)] dest: faulted_stays)

lemma traces_not_faulted:
  assumes "traces (table_step kind place) s es s'" "shared_inv kind s" "places place" "kind \<noteq> TbbRand"
  shows "\<not> faulted s'"
  using assms(1,2)
proof induction
  case (silent s es s' s'')
  then show ?case using step_not_faulted [OF traces_inv [OF silent.hyps(1) silent.prems assms(3)] assms(3) silent.hyps(2) assms(4)] by blast
next
  case (visible s es s' e s'')
  then show ?case using step_not_faulted [OF traces_inv [OF visible.hyps(1) visible.prems assms(3)] assms(3) visible.hyps(2) assms(4)] by blast
qed (rule inv_not_faulted)

lemma table_step_simulated:
  assumes "shared_inv kind s" "places place" "table_step kind place s e s'" "\<not> faulted s'"
  shows "(e = None \<and> map_of_table s' = map_of_table s) \<or> atomic_step (map_of_table s) e (map_of_table s')"
  using assms(3)
proof cases
  case (call i x)
  then show ?thesis using atomic_step.intros(1) [of "map_of_table s" i x] map_of_table_upd [of s' s i "TCalled x"]
    by (simp add: map_of_table_def)
next
  case (inside i)
  have "answers_op i s s'" using advance_inv [OF assms(1,2) inside(2)] assms(4) by (auto simp: faulted_def)
  then show ?thesis unfolding answers_op_def
  proof (elim disjE exE conjE)
    fix x a
    assume "pending_of (sh_stage s i) = Asked x" "map_op x (contents (sh_tab s)) = (a, contents (sh_tab s'))"
      "sh_stage s' = (sh_stage s)(i := TResult x a)"
    then show ?thesis using atomic_step.intros(2) [of "map_of_table s" i x a "contents (sh_tab s')"] inside(1)
        map_of_table_upd [of s' s i "TResult x a"]
      by simp
  qed (use inside in simp)
next
  case (returns i x a)
  have t: "sh_tab (drop_accessor i x s) = sh_tab s" "sh_stage (drop_accessor i x s) = sh_stage s"
    by (simp_all add: drop_accessor_def)
  then show ?thesis using returns atomic_step.intros(3) [of "map_of_table s" i x a] map_of_table_upd [of s' s i TIdle]
    by (simp add: map_of_table_def)
qed

lemma traces_simulated:
  assumes "traces (table_step kind place) s es s'" "shared_inv kind s" "places place"
  shows "\<not> faulted s' \<Longrightarrow> traces atomic_step (map_of_table s) es (map_of_table s')"
  using assms(1,2)
proof induction
  case (silent s es s' s'')
  have nf: "\<not> faulted s'" using faulted_stays [OF silent.hyps(2)] silent.prems(1) by blast
  then show ?case
    using table_step_simulated [OF traces_inv [OF silent.hyps(1) silent.prems(2) assms(3) nf] assms(3) silent.hyps(2) silent.prems(1)]
      silent.IH [OF nf silent.prems(2)]
    by (auto intro: traces.silent)
next
  case (visible s es s' e s'')
  have nf: "\<not> faulted s'" using faulted_stays [OF visible.hyps(2)] visible.prems(1) by blast
  then show ?case
    using table_step_simulated [OF traces_inv [OF visible.hyps(1) visible.prems(2) assms(3) nf] assms(3) visible.hyps(2) visible.prems(1)]
      visible.IH [OF nf visible.prems(2)]
    by (auto intro: traces.visible)
qed (rule traces.nothing)

section \<open>Progress\<close>

text \<open>A step that is not a new call.\<close>

definition proceeds ::
  "table_kind \<Rightarrow> ('v table \<Rightarrow> hstring \<times> 'v option \<Rightarrow> 'v table) \<Rightarrow> 'v shared_table \<Rightarrow> 'v shared_table \<Rightarrow> bool" where
  "proceeds kind place s s' \<longleftrightarrow> (\<exists>e. table_step kind place s e s' \<and> (\<forall>i x. e \<noteq> Some (Call i x)))"

definition steps_below :: "nat \<Rightarrow> 'v shared_table \<Rightarrow> nat" where
  "steps_below n s = (\<Sum>i < n. stage_left (sh_stage s i))"

lemma proceeds_moves:
  assumes "proceeds kind place s s'"
  shows "\<exists>i st. sh_stage s' = (sh_stage s)(i := st) \<and> stage_left st < stage_left (sh_stage s i)"
proof -
  obtain e where e: "table_step kind place s e s'" "\<forall>i x. e \<noteq> Some (Call i x)"
    using assms by (auto simp: proceeds_def)
  from e(1) show ?thesis
  proof cases
    case (call i x)
    then show ?thesis using e(2) by blast
  next
    case (inside i)
    then show ?thesis using advance_moves by blast
  next
    case (returns i x a)
    then show ?thesis by (intro exI [of _ i] exI [of _ TIdle]) (simp add: drop_accessor_def)
  qed
qed

lemma steps_below_upd:
  assumes "sh_stage s' = (sh_stage s)(i := st)" "i < n"
  shows "steps_below n s' + stage_left (sh_stage s i) = steps_below n s + stage_left st"
proof -
  have a: "steps_below n u = (\<Sum>j \<in> {..<n} - {i}. stage_left (sh_stage u j)) + stage_left (sh_stage u i)" for u
    unfolding steps_below_def using assms(2) by (subst sum.remove [of _ i]) auto
  have b: "(\<Sum>j \<in> {..<n} - {i}. stage_left (sh_stage s' j)) = (\<Sum>j \<in> {..<n} - {i}. stage_left (sh_stage s j))"
    by (rule sum.cong) (use assms(1) in auto)
  show ?thesis using a [of s] a [of s'] b assms(1) by simp
qed

lemma proceeds_below:
  assumes "(proceeds kind place ^^ k) s s'" "\<And>i. n \<le> i \<Longrightarrow> sh_stage s i = TIdle"
  shows "steps_below n s' + k \<le> steps_below n s \<and> (\<forall>i \<ge> n. stage_left (sh_stage s' i) = 0)"
  using assms(1)
proof (induction k arbitrary: s')
  case 0
  then show ?case using assms(2) by simp
next
  case (Suc k)
  obtain s1 where s1: "(proceeds kind place ^^ k) s s1" "proceeds kind place s1 s'" using Suc.prems by auto
  obtain i st where i: "sh_stage s' = (sh_stage s1)(i := st)" "stage_left st < stage_left (sh_stage s1 i)"
    using proceeds_moves [OF s1(2)] by blast
  have n: "i < n" using Suc.IH [OF s1(1)] i(2) by (metis leI not_less_zero)
  show ?case using Suc.IH [OF s1(1)] steps_below_upd [OF i(1) n] i n by auto
qed

lemma proceeds_run:
  assumes "(proceeds kind place ^^ k) s s'" "shared_inv kind s" "places place"
  shows "\<not> faulted s' \<Longrightarrow> shared_inv kind s'" "kind \<noteq> TbbRand \<Longrightarrow> \<not> faulted s'"
proof -
  have "\<exists>es. traces (table_step kind place) s es s'"
    using assms(1)
  proof (induction k arbitrary: s')
    case (Suc k)
    obtain s1 where s1: "(proceeds kind place ^^ k) s s1" "proceeds kind place s1 s'" using Suc.prems by auto
    then obtain e where "table_step kind place s1 e s'" by (auto simp: proceeds_def)
    then show ?case using Suc.IH [OF s1(1)] by (cases e) (auto intro: traces.intros)
  qed (auto intro: traces.nothing)
  then obtain es where es: "traces (table_step kind place) s es s'" by blast
  show "\<not> faulted s' \<Longrightarrow> shared_inv kind s'" "kind \<noteq> TbbRand \<Longrightarrow> \<not> faulted s'"
    using traces_inv [OF es assms(2,3)] traces_not_faulted [OF es assms(2,3)] by blast+
qed

lemma steps_below_bound: "steps_below n s \<le> 6 * n"
proof -
  have "stage_left st \<le> 6" for st :: "'v stage" by (cases st) auto
  then have "steps_below n s \<le> (\<Sum>i < n. 6)" unfolding steps_below_def by (intro sum_mono) blast
  then show ?thesis by simp
qed

lemma never_stuck:
  assumes inv: "shared_inv kind s" and busy: "sh_stage s i \<noteq> TIdle"
  shows "\<exists>s'. proceeds kind place s s'"
proof -
  have adv: ?thesis if "advance kind place j s = Some s'" for j s'
    using table_step.inside [OF that] by (auto simp: proceeds_def)
  have sh: "shape_ok (sh_stage s j)" for j using inv by (simp add: shared_inv_def)
  consider (owning) j x where "owning (sh_stage s j) = Some x"
    | (locked) j x where "sh_stage s j = TLocked x" "\<And>j. owning (sh_stage s j) = None"
    | (called) "\<And>j. owning (sh_stage s j) = None" "\<And>j x. sh_stage s j \<noteq> TLocked x"
    by (metis not_None_eq)
  then show ?thesis
  proof cases
    case owning
    show ?thesis
    proof (cases "sh_stage s j")
      case (TUnlocked y a)
      then show ?thesis using table_step.returns [of s j y a] by (auto simp: proceeds_def)
    qed (use owning in \<open>auto simp: advance_def intro: adv [of j]\<close>)
  next
    case locked
    have "sh_owner s k = None" for k using inv locked(2) by (force simp: shared_inv_def owners_ok_def)
    then have "\<exists>s'. advance kind place j s = Some s'"
      using locked(1) by (cases x) (auto simp: advance_def find_step_def)
    then show ?thesis using adv by blast
  next
    case called
    have nl: "locking (sh_stage s j) = None" for j
      using called(1) [of j] called(2) [of j] by (cases "sh_stage s j") auto
    then have f: "sh_writer s = None" "sh_readers s = {}"
      using inv by (auto simp: shared_inv_def locks_ok_def)
    obtain x where "sh_stage s i = TCalled x"
      using busy sh [of i] called(1) [of i] called(2) [of i] by (cases "sh_stage s i") auto
    then show ?thesis using adv [of i] f by (simp add: advance_def may_lock_def)
  qed
qed

end
