(* ===== verification/Ycsb_Table_Props.thy ===== *)
theory Ycsb_Table_Props
  imports Ycsb_Table_Facts
begin

text \<open>The properties of the string hash tables that threads share, and runs that instantiate them.\<close>

section \<open>Playing a schedule\<close>

datatype 'v move = Calls nat "'v table_op" | Goes nat | Returns nat

fun play_move :: "table_kind \<Rightarrow> ('v table \<Rightarrow> hstring \<times> 'v option \<Rightarrow> 'v table) \<Rightarrow> 'v move \<Rightarrow> 'v shared_table
    \<Rightarrow> ('v event option \<times> 'v shared_table) option" where
  "play_move kind place (Calls i x) s =
     (case sh_stage s i of TIdle \<Rightarrow> Some (Some (Call i x), goto i (TCalled x) s) | _ \<Rightarrow> None)"
| "play_move kind place (Goes i) s = map_option (\<lambda>s. (None, s)) (advance kind place i s)"
| "play_move kind place (Returns i) s =
     (case sh_stage s i of
        TUnlocked x a \<Rightarrow> Some (Some (Return i x a), goto i TIdle (drop_accessor i x s)) | _ \<Rightarrow> None)"

fun play :: "table_kind \<Rightarrow> ('v table \<Rightarrow> hstring \<times> 'v option \<Rightarrow> 'v table) \<Rightarrow> 'v move list \<Rightarrow> 'v event list \<Rightarrow> 'v shared_table
    \<Rightarrow> ('v event list \<times> 'v shared_table) option" where
  "play kind place [] es s = Some (es, s)"
| "play kind place (m # ms) es s =
     (case play_move kind place m s of
        None \<Rightarrow> None
      | Some (e, s) \<Rightarrow> play kind place ms (case e of None \<Rightarrow> es | Some e \<Rightarrow> es @ [e]) s)"

lemma play_move_step: "play_move kind place m s = Some (e, s') \<Longrightarrow> table_step kind place s e s'"
  by (cases m) (auto split: stage.splits intro: table_step.intros)

lemma play_traces:
  "traces (table_step kind place) s0 es s \<Longrightarrow> play kind place ms es s = Some (es', s') \<Longrightarrow>
     traces (table_step kind place) s0 es' s'"
proof (induction ms arbitrary: es s)
  case (Cons m ms)
  obtain e s1 where m: "play_move kind place m s = Some (e, s1)"
    "play kind place ms (case e of None \<Rightarrow> es | Some e \<Rightarrow> es @ [e]) s1 = Some (es', s')"
    using Cons.prems(2) by (auto split: option.splits)
  have "traces (table_step kind place) s0 (case e of None \<Rightarrow> es | Some e \<Rightarrow> es @ [e]) s1"
    using Cons.prems(1) play_move_step [OF m(1)] by (cases e) (auto intro: traces.intros)
  then show ?case by (rule Cons.IH [OF _ m(2)])
qed simp

text \<open>Thread 0 inserts a key; then it removes the key, while thread 1, which has the lock of the table too, asks
  for it.\<close>

definition insert_first :: "cstring \<Rightarrow> 'v option \<Rightarrow> 'v move list" where
  "insert_first k v = [Calls 0 (OInsert k v), Goes 0, Goes 0, Goes 0, Returns 0]"

lemmas step_defs = new_table_def advance_def may_lock_def take_lock_def drop_lock_def drop_accessor_def goto_def
  find_step_def read_step_def write_step_def insert_step_def scan_Insert_def Copy_def find_entry_def erase_def
  meets_freed_def Let_def

definition sample_schedule :: "nat move list" where
  "sample_schedule = insert_first ''k'' (Some 7) @
     [Calls 0 (ORemove ''k''), Calls 1 (OGet ''k''), Goes 1, Goes 0, Goes 0, Goes 0, Goes 0, Goes 1, Goes 0, Goes 1,
      Returns 1]"

definition sample_events :: "nat event list" where
  "sample_events =
     [Call 0 (OInsert ''k'' (Some 7)), Return 0 (OInsert ''k'' (Some 7)) (Ok True),
      Call 0 (ORemove ''k''), Call 1 (OGet ''k''), Return 1 (OGet ''k'') (Old None)]"

lemma sample_run:
  "\<exists>s. play TbbRand (\<lambda>t e. e # t) sample_schedule [] new_table = Some (sample_events, s) \<and>
    sh_stage s 0 = TUnlocked (ORemove ''k'') (Old (Some 7)) \<and> (\<forall>i. 1 \<le> i \<longrightarrow> sh_stage s i = TIdle)"
  by (simp add: sample_schedule_def insert_first_def sample_events_def step_defs)

lemma sample_traces:
  "\<exists>s. traces (table_step TbbRand (\<lambda>t e. e # t)) new_table sample_events s \<and> \<not> faulted s \<and>
    sh_stage s 0 = TUnlocked (ORemove ''k'') (Old (Some 7)) \<and> (\<forall>i. 1 \<le> i \<longrightarrow> sh_stage s i = TIdle)"
proof -
  obtain s where s: "play TbbRand (\<lambda>t e. e # t) sample_schedule [] new_table = Some (sample_events, s)"
    "sh_stage s 0 = TUnlocked (ORemove ''k'') (Old (Some 7))" "\<forall>i. 1 \<le> i \<longrightarrow> sh_stage s i = TIdle"
    using sample_run by blast
  have "sh_stage s i \<noteq> TFault" for i using s(2,3) by (cases "i = 0") simp_all
  then show ?thesis using s play_traces [OF traces.nothing s(1)] by (auto simp: faulted_def)
qed

section \<open>Linearization\<close>

text \<open>C28: The shared hash tables are linearizable: whatever the order in which threads take the steps of their
  operations, the calls and returns of a run without undefined behaviour are those of a map on which every
  operation acts at one moment between its call and its return, and the entries of the table are those of the
  map. In the table of the standard library behind its lock and in the table for scans every run is without
  undefined behaviour.\<close>

theorem tables_linearize:
  assumes "places place" "traces (table_step kind place) new_table es s"
  shows "(\<not> faulted s \<longrightarrow> (\<exists>a. traces atomic_step new_map es a \<and> at_map a = contents (sh_tab s))) \<and>
    (kind \<noteq> TbbRand \<longrightarrow> \<not> faulted s)"
proof -
  have new: "map_of_table new_table = new_map"
    by (simp add: map_of_table_def new_table_def new_map_def contents_def)
  have "\<not> faulted s \<longrightarrow> traces atomic_step new_map es (map_of_table s)"
    using traces_simulated [OF assms(2) new_table_inv assms(1)] by (simp add: new)
  then have "\<not> faulted s \<longrightarrow> (\<exists>a. traces atomic_step new_map es a \<and> at_map a = contents (sh_tab s))"
    using map_of_table_simps(1) [of s] by blast
  then show ?thesis using traces_not_faulted [OF assms(2) new_table_inv assms(1)] by blast
qed

lemma tables_linearize_witness:
  "\<exists>s a. traces (table_step TbbRand (\<lambda>t e. e # t)) new_table sample_events s \<and>
    traces atomic_step new_map sample_events a \<and> at_map a = contents (sh_tab s)"
proof -
  have p: "places (\<lambda>t e. e # t)" by (simp add: places_def)
  obtain s where s: "traces (table_step TbbRand (\<lambda>t e. e # t)) new_table sample_events s" "\<not> faulted s"
    using sample_traces by blast
  show ?thesis using tables_linearize [OF p s(1)] s by blast
qed

text \<open>C40: In the table with accessors a removal is a race: threads share the lock of the table, and \<open>Remove\<close> frees
  the characters of the key while the element is still there, so that a thread that asks for the key at that
  moment compares with freed memory.\<close>

theorem removal_races:
  assumes "places place"
  shows "\<exists>s. traces (table_step TbbRand place) new_table
      [Call 0 (OInsert k v), Return 0 (OInsert k v) (Ok True), Call 0 (ORemove k), Call 1 (OGet k)] s \<and>
    sh_stage s 1 = TFault"
proof -
  let ?ms = "insert_first k v @ [Calls 0 (ORemove k), Calls 1 (OGet k), Goes 0, Goes 0, Goes 0, Goes 1, Goes 1]"
  have "mset (place [] (set_value k, v)) = {#(set_value k, v)#}" using assms by (simp add: places_def)
  then have one: "place [] (set_value k, v) = [(set_value k, v)]" by (metis mset_single_iff_right)
  have "\<exists>s. play TbbRand place ?ms [] new_table =
      Some ([Call 0 (OInsert k v), Return 0 (OInsert k v) (Ok True), Call 0 (ORemove k), Call 1 (OGet k)], s) \<and>
    sh_stage s 1 = TFault"
    by (simp add: insert_first_def step_defs one)
  then show ?thesis using play_traces [OF traces.nothing] by blast
qed

lemma removal_races_witness:
  "\<exists>s. traces (table_step TbbRand (\<lambda>t e. e # t)) new_table
      [Call 0 (OInsert ''k'' (Some (7 :: nat))), Return 0 (OInsert ''k'' (Some 7)) (Ok True), Call 0 (ORemove ''k''),
       Call 1 (OGet ''k'')] s \<and> sh_stage s 1 = TFault"
proof -
  have p: "places (\<lambda>t e. e # t)" by (simp add: places_def)
  show ?thesis using removal_races [OF p] .
qed

section \<open>Progress\<close>

text \<open>C29: The operations on the shared tables always end: with at most \<open>n\<close> threads inside operations and no
  new calls, a run takes at most six steps a thread, and until all have returned some thread can go on,
  unless the table with accessors has met undefined behaviour; the lock of the table and the locks of the
  elements never block each other.\<close>

theorem tables_never_stuck:
  assumes "places place" "traces (table_step kind place) new_table es s" "\<And>i. n \<le> i \<Longrightarrow> sh_stage s i = TIdle"
    and "(proceeds kind place ^^ k) s s'" "\<not> faulted s"
  shows "k \<le> 6 * n \<and> ((\<forall>i. sh_stage s' i = TIdle) \<or> (\<exists>s''. proceeds kind place s' s'') \<or> kind = TbbRand \<and> faulted s')"
proof -
  note inv = traces_inv [OF assms(2) new_table_inv assms(1,5)]
  have "k \<le> 6 * n" using proceeds_below [OF assms(4,3)] steps_below_bound [of n s] by fastforce
  then show ?thesis using never_stuck [of kind s' _ place] proceeds_run [OF assms(4) inv assms(1)] by blast
qed

lemma tables_never_stuck_witness:
  "\<exists>s. traces (table_step TbbRand (\<lambda>t e. e # t)) new_table sample_events s \<and> (\<exists>s'. proceeds TbbRand (\<lambda>t e. e # t) s s')"
proof -
  have p: "places (\<lambda>t e. e # t)" by (simp add: places_def)
  obtain s where s: "traces (table_step TbbRand (\<lambda>t e. e # t)) new_table sample_events s" "\<not> faulted s"
    "sh_stage s 0 = TUnlocked (ORemove ''k'') (Old (Some 7))" "\<forall>i. 1 \<le> i \<longrightarrow> sh_stage s i = TIdle"
    using sample_traces by blast
  have "\<not> (\<forall>i. sh_stage s i = TIdle)" using s(3) by (metis stage.distinct(11))
  then show ?thesis using tables_never_stuck [OF p s(1), of 1 0 s] s(2,4) s(1) by auto
qed

end
