(* ===== verification/C_Memory.thy ===== *)
theory C_Memory
  imports Text_Format
begin

text \<open>
  What the C code of the Redis client library uses of the language: the conversions between integer
  types on the 64-bit target, blocks of memory that \<open>malloc\<close>, \<open>calloc\<close> and \<open>realloc\<close> may refuse, and
  reading and writing bytes within a block. Characters are bytes.
\<close>

section \<open>Integer types\<close>

text \<open>Conversion to \<open>int\<close>, to \<open>long\<close> (and \<open>long long\<close>) and to \<open>size_t\<close>.\<close>

definition c_int :: "int \<Rightarrow> int" where
  "c_int i = sint (word_of_int i :: 32 word)"

definition c_long :: "int \<Rightarrow> int" where
  "c_long i = sint (word_of_int i :: 64 word)"

definition size_t :: "int \<Rightarrow> nat" where
  "size_t i = nat (i mod 2 ^ 64)"

text \<open>Signed arithmetic that leaves the type is undefined.\<close>

definition long_arith :: "int \<Rightarrow> fault + int" where
  "long_arith i = (if - (2 ^ 63) \<le> i \<and> i < 2 ^ 63 then Inr i else Inl SignedOverflow)"

lemma c_int_small: "- (2 ^ 31) \<le> i \<Longrightarrow> i < 2 ^ 31 \<Longrightarrow> c_int i = i"
  by (simp add: c_int_def signed_of_int signed_take_bit_int_eq_self)

lemma c_long_small: "- (2 ^ 63) \<le> i \<Longrightarrow> i < 2 ^ 63 \<Longrightarrow> c_long i = i"
  by (simp add: c_long_def signed_of_int signed_take_bit_int_eq_self)

lemma size_t_small: "0 \<le> i \<Longrightarrow> i < 2 ^ 64 \<Longrightarrow> size_t i = nat i"
  by (simp add: size_t_def)

lemma size_t_nat: "n < 2 ^ 64 \<Longrightarrow> size_t (int n) = n"
  by (simp add: size_t_def)

lemma long_arith_small: "- (2 ^ 63) \<le> i \<Longrightarrow> i < 2 ^ 63 \<Longrightarrow> long_arith i = Inr i"
  by (simp add: long_arith_def)

section \<open>Memory\<close>

abbreviation NUL :: char where "NUL \<equiv> CHR 0x00"

text \<open>Which sizes the allocator grants, and what fresh memory contains.\<close>

record memory =
  may_alloc :: "nat \<Rightarrow> bool"
  garbage :: "nat \<Rightarrow> nat \<Rightarrow> char"

definition malloc :: "memory \<Rightarrow> nat \<Rightarrow> string option" where
  "malloc M n = (if may_alloc M n then Some (map (garbage M n) [0..<n]) else None)"

definition calloc :: "memory \<Rightarrow> nat \<Rightarrow> string option" where
  "calloc M n = (if may_alloc M n then Some (replicate n NUL) else None)"

definition realloc :: "memory \<Rightarrow> string \<Rightarrow> nat \<Rightarrow> string option" where
  "realloc M block n =
     (if may_alloc M n then Some (take n block @ map (garbage M n) [length block..<n]) else None)"

definition ample :: "memory \<Rightarrow> bool" where
  "ample M \<longleftrightarrow> (\<forall>n < 2 ^ 32. may_alloc M n)"

text \<open>\<open>memcpy\<close> of the \<open>n\<close> bytes from an offset, \<open>memcpy\<close> to an offset, the byte at an offset, and
  \<open>strlen\<close>.\<close>

definition mem_read :: "string \<Rightarrow> nat \<Rightarrow> nat \<Rightarrow> fault + string" where
  "mem_read b i n = (if i + n \<le> length b then Inr (take n (drop i b)) else Inl OutOfBounds)"

definition mem_write :: "string \<Rightarrow> nat \<Rightarrow> string \<Rightarrow> fault + string" where
  "mem_write b i xs =
     (if i + length xs \<le> length b then Inr (take i b @ xs @ drop (i + length xs) b) else Inl OutOfBounds)"

definition byte_at :: "string \<Rightarrow> nat \<Rightarrow> fault + char" where
  "byte_at b i = (if i < length b then Inr (b ! i) else Inl OutOfBounds)"

definition c_strlen :: "string \<Rightarrow> fault + nat" where
  "c_strlen b = (if NUL \<in> set b then Inr (length (takeWhile (\<lambda>c. c \<noteq> NUL) b)) else Inl OutOfBounds)"

text \<open>The bytes of a C string in memory.\<close>

definition c_str :: "string \<Rightarrow> string" where
  "c_str s = s @ [NUL]"

lemma c_strlen_c_str [simp]: "NUL \<notin> set s \<Longrightarrow> c_strlen (c_str s) = Inr (length s)"
  by (simp add: c_strlen_def c_str_def) (subst takeWhile_append2; auto)

lemma length_c_str [simp]: "length (c_str s) = Suc (length s)"
  by (simp add: c_str_def)

lemma take_c_str [simp]: "take (length s) (c_str s) = s"
  by (simp add: c_str_def)

lemma mem_read_small: "i + n \<le> length b \<Longrightarrow> mem_read b i n = Inr (take n (drop i b))"
  by (simp add: mem_read_def)

lemma mem_write_small:
  "i + length xs \<le> length b \<Longrightarrow> mem_write b i xs = Inr (take i b @ xs @ drop (i + length xs) b)"
  by (simp add: mem_write_def)

lemma length_malloc: "malloc M n = Some b \<Longrightarrow> length b = n"
  by (auto simp: malloc_def split: if_splits)

lemma length_realloc: "realloc M b n = Some b' \<Longrightarrow> length b' = n"
  by (auto simp: realloc_def split: if_splits)

text \<open>Going on with a block, or giving up with a null pointer.\<close>

definition opt_then :: "fault + 'a option \<Rightarrow> ('a \<Rightarrow> fault + 'b option) \<Rightarrow> fault + 'b option" where
  "opt_then m k = and_then m (\<lambda>r. case r of None \<Rightarrow> Inr None | Some x \<Rightarrow> k x)"

lemma opt_then_simps [simp]:
  "opt_then (Inl e) k = Inl e" "opt_then (Inr None) k = Inr None" "opt_then (Inr (Some x)) k = k x"
  by (simp_all add: opt_then_def)

end
