(* ===== verification/Redis_Sds.thy ===== *)
theory Redis_Sds
  imports C_Memory
begin

text \<open>
  The dynamic strings of \<open>YCSB-C/redis/hiredis/sds.c\<close>: a header with the length and the free space in
  front of a buffer that ends in a zero byte. The buffer is the allocated memory, so a write outside of
  it is a fault; \<open>None\<close> is the null pointer that the operations return when memory is refused.
\<close>

section \<open>Allocation\<close>

record sds =
  sds_len :: int
  sds_free :: int
  sds_buf :: string

definition SDS_MAX_PREALLOC :: nat where "SDS_MAX_PREALLOC = 1024 * 1024"

definition sizeof_sdshdr :: nat where "sizeof_sdshdr = 8"

definition sdslen :: "sds \<Rightarrow> nat" where
  "sdslen s = size_t (sds_len s)"

definition sdsavail :: "sds \<Rightarrow> nat" where
  "sdsavail s = size_t (sds_free s)"

text \<open>The bytes behind the header in a block.\<close>

definition buf_of_block :: "string \<Rightarrow> string" where
  "buf_of_block b = drop sizeof_sdshdr b"

definition block_of_buf :: "string \<Rightarrow> string" where
  "block_of_buf b = replicate sizeof_sdshdr NUL @ b"

text \<open>A null \<open>init\<close> gives zero bytes.\<close>

definition sdsnewlen :: "memory \<Rightarrow> string option \<Rightarrow> nat \<Rightarrow> fault + sds option" where
  "sdsnewlen M init initlen =
     opt_then (Inr (if init \<noteq> None then malloc M (sizeof_sdshdr + initlen + 1)
                    else calloc M (sizeof_sdshdr + initlen + 1))) (\<lambda>block.
       let b = buf_of_block block
       in and_then (case init of
              Some p \<Rightarrow> if initlen \<noteq> 0 then and_then (mem_read p 0 initlen) (mem_write b 0) else Inr b
            | None \<Rightarrow> Inr b) (\<lambda>b.
          and_then (mem_write b initlen [NUL]) (\<lambda>b.
            Inr (Some \<lparr>sds_len = c_int (int initlen), sds_free = 0, sds_buf = b\<rparr>))))"

definition sdsempty :: "memory \<Rightarrow> fault + sds option" where
  "sdsempty M = sdsnewlen M (Some (c_str [])) 0"

definition sdsnew :: "memory \<Rightarrow> string option \<Rightarrow> fault + sds option" where
  "sdsnew M init =
     and_then (case init of None \<Rightarrow> Inr 0 | Some p \<Rightarrow> c_strlen p) (\<lambda>initlen. sdsnewlen M init initlen)"

definition sdsdup :: "memory \<Rightarrow> sds \<Rightarrow> fault + sds option" where
  "sdsdup M s = sdsnewlen M (Some (sds_buf s)) (sdslen s)"

definition sdsupdatelen :: "sds \<Rightarrow> fault + sds" where
  "sdsupdatelen s =
     and_then (c_strlen (sds_buf s)) (\<lambda>n. let reallen = c_int (int n)
       in Inr (s\<lparr>sds_free := c_int (sds_free s + (sds_len s - reallen)), sds_len := reallen\<rparr>))"

definition sdsclear :: "sds \<Rightarrow> fault + sds" where
  "sdsclear s =
     and_then (mem_write (sds_buf s) 0 [NUL]) (\<lambda>b.
       Inr (s\<lparr>sds_free := c_int (sds_free s + sds_len s), sds_len := 0, sds_buf := b\<rparr>))"

definition sdsMakeRoomFor :: "memory \<Rightarrow> sds \<Rightarrow> nat \<Rightarrow> fault + sds option" where
  "sdsMakeRoomFor M s addlen =
     (if addlen \<le> sdsavail s then Inr (Some s)
      else let len = sdslen s;
               newlen = size_t (int len + int addlen);
               newlen = (if newlen < SDS_MAX_PREALLOC then newlen * 2
                         else size_t (int newlen + int SDS_MAX_PREALLOC))
           in opt_then (Inr (realloc M (block_of_buf (sds_buf s)) (size_t (int (sizeof_sdshdr + newlen + 1))))) (\<lambda>block.
                Inr (Some (s\<lparr>sds_free := c_int (int newlen - int len), sds_buf := buf_of_block block\<rparr>))))"

definition sdsRemoveFreeSpace :: "memory \<Rightarrow> sds \<Rightarrow> fault + sds" where
  "sdsRemoveFreeSpace M s =
     (case realloc M (block_of_buf (sds_buf s)) (size_t (int sizeof_sdshdr + sds_len s + 1)) of
        None \<Rightarrow> Inl NullPointer
      | Some block \<Rightarrow> Inr (s\<lparr>sds_free := 0, sds_buf := buf_of_block block\<rparr>))"

definition sdsAllocSize :: "sds \<Rightarrow> nat" where
  "sdsAllocSize s = size_t (int sizeof_sdshdr + sds_len s + sds_free s + 1)"

definition write_at :: "string \<Rightarrow> int \<Rightarrow> string \<Rightarrow> fault + string" where
  "write_at b i xs = (if i < 0 then Inl OutOfBounds else mem_write b (nat i) xs)"

definition sdsIncrLen :: "sds \<Rightarrow> int \<Rightarrow> fault + sds" where
  "sdsIncrLen s incr =
     (if \<not> incr \<le> sds_free s then Inl AssertFail
      else let s = s\<lparr>sds_len := c_int (sds_len s + incr), sds_free := c_int (sds_free s - incr)\<rparr>
      in if \<not> 0 \<le> sds_free s then Inl AssertFail
         else and_then (write_at (sds_buf s) (sds_len s) [NUL]) (\<lambda>b. Inr (s\<lparr>sds_buf := b\<rparr>)))"

definition sdsgrowzero :: "memory \<Rightarrow> sds \<Rightarrow> nat \<Rightarrow> fault + sds option" where
  "sdsgrowzero M s len =
     (let curlen = sdslen s
      in if len \<le> curlen then Inr (Some s)
         else opt_then (sdsMakeRoomFor M s (len - curlen)) (\<lambda>s.
           and_then (mem_write (sds_buf s) curlen (replicate (len - curlen + 1) NUL)) (\<lambda>b.
             let totlen = size_t (sds_len s + sds_free s)
             in Inr (Some \<lparr>sds_len = c_int (int len), sds_free = c_int (int totlen - int len), sds_buf = b\<rparr>))))"

section \<open>Appending and copying\<close>

definition sdscatlen :: "memory \<Rightarrow> sds \<Rightarrow> string \<Rightarrow> nat \<Rightarrow> fault + sds option" where
  "sdscatlen M s t len =
     (let curlen = sdslen s
      in opt_then (sdsMakeRoomFor M s len) (\<lambda>s.
           and_then (mem_read t 0 len) (\<lambda>data.
           and_then (mem_write (sds_buf s) curlen data) (\<lambda>b.
             let s = s\<lparr>sds_len := c_int (int curlen + int len), sds_free := c_int (sds_free s - int len)\<rparr>
             in and_then (mem_write b (curlen + len) [NUL]) (\<lambda>b. Inr (Some (s\<lparr>sds_buf := b\<rparr>)))))))"

definition sdscat :: "memory \<Rightarrow> sds \<Rightarrow> string \<Rightarrow> fault + sds option" where
  "sdscat M s t = and_then (c_strlen t) (\<lambda>n. sdscatlen M s t n)"

definition sdscatsds :: "memory \<Rightarrow> sds \<Rightarrow> sds \<Rightarrow> fault + sds option" where
  "sdscatsds M s t = sdscatlen M s (sds_buf t) (sdslen t)"

definition sdscpylen :: "memory \<Rightarrow> sds \<Rightarrow> string \<Rightarrow> nat \<Rightarrow> fault + sds option" where
  "sdscpylen M s t len =
     opt_then (if size_t (sds_free s + sds_len s) < len
               then sdsMakeRoomFor M s (size_t (int len - sds_len s)) else Inr (Some s)) (\<lambda>s.
       let totlen = size_t (sds_free s + sds_len s)
       in and_then (mem_read t 0 len) (\<lambda>data.
          and_then (mem_write (sds_buf s) 0 data) (\<lambda>b.
          and_then (mem_write b len [NUL]) (\<lambda>b.
            Inr (Some \<lparr>sds_len = c_int (int len), sds_free = c_int (int totlen - int len), sds_buf = b\<rparr>)))))"

definition sdscpy :: "memory \<Rightarrow> sds \<Rightarrow> string \<Rightarrow> fault + sds option" where
  "sdscpy M s t = and_then (c_strlen t) (\<lambda>n. sdscpylen M s t n)"

section \<open>Numbers\<close>

text \<open>The loop writes the digits from the last to the first, the second one reverses them.\<close>

fun reversed_digits :: "nat \<Rightarrow> string" where
  "reversed_digits v = digit_char (v mod 10) # (if v div 10 = 0 then [] else reversed_digits (v div 10))"

declare reversed_digits.simps [simp del]

definition SDS_LLSTR_SIZE :: nat where "SDS_LLSTR_SIZE = 21"

definition sdsll2str :: "int \<Rightarrow> fault + string" where
  "sdsll2str value =
     and_then (if value < 0 then long_arith (- value) else Inr value) (\<lambda>v.
       let ds = reversed_digits (size_t v) @ (if value < 0 then ''-'' else [])
       in if SDS_LLSTR_SIZE < length ds + 1 then Inl OutOfBounds else Inr (rev ds))"

definition sdsull2str :: "nat \<Rightarrow> fault + string" where
  "sdsull2str v =
     (let ds = reversed_digits v
      in if SDS_LLSTR_SIZE < length ds + 1 then Inl OutOfBounds else Inr (rev ds))"

definition sdsfromlonglong :: "memory \<Rightarrow> int \<Rightarrow> fault + sds option" where
  "sdsfromlonglong M value =
     and_then (if value < 0 then long_arith (- value) else Inr value) (\<lambda>v.
       let ds = rev (reversed_digits (size_t v) @ (if value < 0 then ''-'' else []))
       in if 32 < length ds then Inl OutOfBounds else sdsnewlen M (Some ds) (length ds))"

section \<open>Formatted output\<close>

text \<open>\<open>printed\<close> is what \<open>vsnprintf\<close> prints without a limit. The temporary buffer doubles until the byte
  before its last one stays zero.\<close>

function sdscatvprintf_from :: "memory \<Rightarrow> sds \<Rightarrow> string \<Rightarrow> nat \<Rightarrow> fault + sds option" where
  "sdscatvprintf_from M s printed buflen =
     (if \<not> may_alloc M buflen then Inr None
      else if buflen < length printed + 2 \<and> 0 < buflen then sdscatvprintf_from M s printed (buflen * 2)
      else sdscat M s (c_str printed))"
  by pat_completeness auto
termination
  by (relation "measure (\<lambda>(M, s, p, n). length p + 2 - n)") auto

declare sdscatvprintf_from.simps [simp del]

definition sdscatvprintf :: "memory \<Rightarrow> sds \<Rightarrow> string \<Rightarrow> fault + sds option" where
  "sdscatvprintf M s printed = sdscatvprintf_from M s printed 16"

text \<open>The arguments of \<open>sdscatfmt\<close>. A read of an argument that is not there, or is another, is undefined.\<close>

datatype fmt_arg = FmtStr string | FmtSds sds | FmtInt int | FmtLong int | FmtSize nat

text \<open>Space for \<open>l\<close> bytes; the result of \<open>sdsMakeRoomFor\<close> is used unchecked.\<close>

definition fmt_room :: "memory \<Rightarrow> sds \<Rightarrow> int \<Rightarrow> fault + sds" where
  "fmt_room M s l =
     (if sds_free s < l
      then and_then (sdsMakeRoomFor M s (size_t l)) (\<lambda>r. case r of None \<Rightarrow> Inl NullPointer | Some s \<Rightarrow> Inr s)
      else Inr s)"

definition fmt_put :: "memory \<Rightarrow> sds \<Rightarrow> int \<Rightarrow> string \<Rightarrow> fault + (sds \<times> int)" where
  "fmt_put M s i str =
     (let l = c_int (int (length str))
      in and_then (fmt_room M s l) (\<lambda>s.
         and_then (write_at (sds_buf s) i str) (\<lambda>b.
           Inr (s\<lparr>sds_len := c_int (sds_len s + l), sds_free := c_int (sds_free s - l), sds_buf := b\<rparr>, i + l))))"

definition fmt_char :: "sds \<Rightarrow> int \<Rightarrow> char \<Rightarrow> fault + (sds \<times> int)" where
  "fmt_char s i c =
     and_then (write_at (sds_buf s) i [c]) (\<lambda>b.
       Inr (s\<lparr>sds_len := c_int (sds_len s + 1), sds_free := c_int (sds_free s - 1), sds_buf := b\<rparr>, i + 1))"

text \<open>The loop over the format, given without its terminating zero. After a percent sign at the end the
  zero itself is appended and the loop goes on behind it.\<close>

fun sdscatfmt_from :: "memory \<Rightarrow> sds \<Rightarrow> int \<Rightarrow> string \<Rightarrow> fmt_arg list \<Rightarrow> fault + sds" where
  "sdscatfmt_from M s i [] args =
     and_then (write_at (sds_buf s) i [NUL]) (\<lambda>b. Inr (s\<lparr>sds_buf := b\<rparr>))"
| "sdscatfmt_from M s i (c # f) args =
     and_then (if sds_free s = 0 then fmt_room M s 1 else Inr s) (\<lambda>s.
       if c \<noteq> CHR ''%'' then and_then (fmt_char s i c) (\<lambda>(s, i). sdscatfmt_from M s i f args)
       else case f of
         [] \<Rightarrow> and_then (fmt_char s i NUL) (\<lambda>_. Inl OutOfBounds)
       | n # f \<Rightarrow>
           if n = CHR ''s'' \<or> n = CHR ''S'' then
             (case args of
                FmtStr str # args \<Rightarrow> if n = CHR ''s'' then and_then (c_strlen str) (\<lambda>l.
                    and_then (fmt_put M s i (take l str)) (\<lambda>(s, i). sdscatfmt_from M s i f args)) else Inl OutOfBounds
              | FmtSds t # args \<Rightarrow> if n = CHR ''S'' then and_then (mem_read (sds_buf t) 0 (sdslen t)) (\<lambda>str.
                    and_then (fmt_put M s i str) (\<lambda>(s, i). sdscatfmt_from M s i f args)) else Inl OutOfBounds
              | _ \<Rightarrow> Inl OutOfBounds)
           else if n = CHR ''i'' \<or> n = CHR ''I'' then
             (case args of
                FmtInt v # args \<Rightarrow> if n = CHR ''i'' then and_then (sdsll2str v) (\<lambda>str.
                    and_then (fmt_put M s i str) (\<lambda>(s, i). sdscatfmt_from M s i f args)) else Inl OutOfBounds
              | FmtLong v # args \<Rightarrow> if n = CHR ''I'' then and_then (sdsll2str v) (\<lambda>str.
                    and_then (fmt_put M s i str) (\<lambda>(s, i). sdscatfmt_from M s i f args)) else Inl OutOfBounds
              | _ \<Rightarrow> Inl OutOfBounds)
           else if n = CHR ''u'' \<or> n = CHR ''U'' \<or> n = CHR ''T'' then
             (case args of
                FmtInt v # args \<Rightarrow> if n = CHR ''u'' then and_then (sdsull2str (nat (v mod 2 ^ 32))) (\<lambda>str.
                    and_then (fmt_put M s i str) (\<lambda>(s, i). sdscatfmt_from M s i f args)) else Inl OutOfBounds
              | FmtSize v # args \<Rightarrow> if n \<noteq> CHR ''u'' then and_then (sdsull2str v) (\<lambda>str.
                    and_then (fmt_put M s i str) (\<lambda>(s, i). sdscatfmt_from M s i f args)) else Inl OutOfBounds
              | _ \<Rightarrow> Inl OutOfBounds)
           else and_then (fmt_char s i n) (\<lambda>(s, i). sdscatfmt_from M s i f args))"

definition sdscatfmt :: "memory \<Rightarrow> sds \<Rightarrow> string \<Rightarrow> fmt_arg list \<Rightarrow> fault + sds" where
  "sdscatfmt M s fmt args = sdscatfmt_from M s (c_int (int (sdslen s))) fmt args"

section \<open>Cutting\<close>

definition sdsrange :: "sds \<Rightarrow> int \<Rightarrow> int \<Rightarrow> fault + sds" where
  "sdsrange s start stop =
     (let len = sdslen s
      in if len = 0 then Inr s
         else let start = (if start < 0 then let start = c_int (int len + start) in if start < 0 then 0 else start else start);
                  stop = (if stop < 0 then let stop = c_int (int len + stop) in if stop < 0 then 0 else stop else stop);
                  newlen = (if stop < start then 0 else size_t (stop - start + 1));
                  (start, newlen) =
                    (if newlen \<noteq> 0 then
                       if c_int (int len) \<le> start then (start, 0)
                       else if c_int (int len) \<le> stop
                       then let stop = c_int (int len - 1) in (start, if stop < start then 0 else size_t (stop - start + 1))
                       else (start, newlen)
                     else (0, newlen))
              in and_then (if start \<noteq> 0 \<and> newlen \<noteq> 0
                           then and_then (mem_read (sds_buf s) (nat start) newlen) (mem_write (sds_buf s) 0)
                           else Inr (sds_buf s)) (\<lambda>b.
                 and_then (mem_write b newlen [NUL]) (\<lambda>b.
                   Inr \<lparr>sds_len = c_int (int newlen), sds_free = c_int (sds_free s + (sds_len s - int newlen)),
                        sds_buf = b\<rparr>)))"

text \<open>\<open>sdstrim\<close>: both pointers stay within the string, the set is a C string, whose terminating zero
  \<open>strchr\<close> finds too.\<close>

definition sdstrim :: "sds \<Rightarrow> string \<Rightarrow> fault + sds" where
  "sdstrim s cset =
     (let str = take (sdslen s) (sds_buf s);
          in_set = (\<lambda>c. c \<in> set cset \<or> c = NUL);
          sp = length (takeWhile in_set str);
          ep = length str - 1 - length (takeWhile in_set (rev (drop 1 str)));
          len = (if str = [] \<or> ep < sp then 0 else ep - sp + 1)
      in and_then (if sp \<noteq> 0 then and_then (mem_read (sds_buf s) sp len) (mem_write (sds_buf s) 0)
                   else Inr (sds_buf s)) (\<lambda>b.
         and_then (mem_write b len [NUL]) (\<lambda>b.
           Inr \<lparr>sds_len = c_int (int len), sds_free = c_int (sds_free s + (sds_len s - int len)), sds_buf = b\<rparr>)))"

end
