(* ===== verification/Redis_Reader.thy ===== *)
theory Redis_Reader
  imports Redis_Sds
begin

text \<open>
  The reply parser of the Redis client library: \<open>YCSB-C/redis/hiredis/read.c\<close>, with the functions of
  \<open>hiredis.c\<close> that build reply objects. The reader keeps the bytes it was fed and a stack of tasks, so that
  it can stop in the middle of a reply and go on when more bytes arrive.
\<close>

section \<open>Reply objects\<close>

datatype reply_type = REDIS_REPLY_STRING | REDIS_REPLY_ARRAY | REDIS_REPLY_INTEGER | REDIS_REPLY_NIL
  | REDIS_REPLY_STATUS | REDIS_REPLY_ERROR

text \<open>\<open>redisReply\<close> as a tagged union. An array has the field \<open>elements\<close> and the vector \<open>element\<close>, which is a
  null pointer when it was not allocated; its cells are null until the element is read.\<close>

datatype reply =
    StringReply string
  | ArrayReply nat "reply option list option"
  | IntegerReply int
  | NilReply
  | StatusReply string
  | ErrorReply string

fun type_of :: "reply \<Rightarrow> reply_type" where
  "type_of (StringReply s) = REDIS_REPLY_STRING"
| "type_of (ArrayReply n es) = REDIS_REPLY_ARRAY"
| "type_of (IntegerReply i) = REDIS_REPLY_INTEGER"
| "type_of NilReply = REDIS_REPLY_NIL"
| "type_of (StatusReply s) = REDIS_REPLY_STATUS"
| "type_of (ErrorReply s) = REDIS_REPLY_ERROR"

text \<open>\<open>parent->element[idx] = r\<close>: the array the reply under construction holds at a path of indices.\<close>

fun set_element :: "reply \<Rightarrow> nat list \<Rightarrow> nat \<Rightarrow> reply \<Rightarrow> fault + reply" where
  "set_element (ArrayReply n None) p i x = Inl NullPointer"
| "set_element (ArrayReply n (Some es)) [] i x =
     (if i < length es then Inr (ArrayReply n (Some (es[i := Some x]))) else Inl OutOfBounds)"
| "set_element (ArrayReply n (Some es)) (j # p) i x =
     (if j < length es then
        (case es ! j of
           None \<Rightarrow> Inl NullPointer
         | Some e \<Rightarrow> and_then (set_element e p i x) (\<lambda>e. Inr (ArrayReply n (Some (es[j := Some e])))))
      else Inl OutOfBounds)"
| "set_element _ p i x = Inl AssertFail"

section \<open>The reader\<close>

text \<open>A task: \<open>None\<close> is the type \<open>-1\<close>, the pointer to the object is its path in the reply. The parent is
  the task below on the stack. \<open>privdata\<close> is never used.\<close>

record read_task =
  task_type :: "reply_type option"
  task_elements :: int
  task_idx :: int
  task_obj :: "nat list option"

text \<open>The stack has the current task first and holds the tasks up to \<open>ridx\<close>, so \<open>ridx\<close> is its length
  less one.\<close>

record redisReader =
  reader_err :: int
  reader_errstr :: string
  reader_buf :: "sds option"
  reader_pos :: nat
  reader_len :: nat
  reader_maxbuf :: nat
  reader_stack :: "read_task list"
  reader_reply :: "reply option"

definition REDIS_ERR_IO :: int where "REDIS_ERR_IO = 1"
definition REDIS_ERR_OTHER :: int where "REDIS_ERR_OTHER = 2"
definition REDIS_ERR_EOF :: int where "REDIS_ERR_EOF = 3"
definition REDIS_ERR_PROTOCOL :: int where "REDIS_ERR_PROTOCOL = 4"
definition REDIS_ERR_OOM :: int where "REDIS_ERR_OOM = 5"

definition REDIS_READER_MAX_BUF :: nat where "REDIS_READER_MAX_BUF = 1024 * 16"

definition redisReaderSetError :: "redisReader \<Rightarrow> int \<Rightarrow> string \<Rightarrow> redisReader" where
  "redisReaderSetError r type str =
     (let r = r\<lparr>reader_reply := None\<rparr>;
          r = (if reader_buf r \<noteq> None then r\<lparr>reader_buf := None, reader_pos := 0, reader_len := 0\<rparr> else r)
      in r\<lparr>reader_stack := [], reader_err := type, reader_errstr := take 127 str\<rparr>)"

definition hex_char :: "nat \<Rightarrow> char" where
  "hex_char d = char_of (if d < 10 then 48 + d else 87 + d)"

definition isprint :: "char \<Rightarrow> bool" where
  "isprint c \<longleftrightarrow> (let n = of_char c :: nat in 32 \<le> n \<and> n \<le> 126)"

definition chrtos :: "char \<Rightarrow> string" where
  "chrtos byte =
     (if byte = CHR 0x5C \<or> byte = CHR 0x22 then [CHR 0x22, CHR 0x5C, byte, CHR 0x22]
      else if byte = CHR 0x0A then [CHR 0x22, CHR 0x5C, CHR ''n'', CHR 0x22]
      else if byte = CHR 0x0D then [CHR 0x22, CHR 0x5C, CHR ''r'', CHR 0x22]
      else if byte = CHR 0x09 then [CHR 0x22, CHR 0x5C, CHR ''t'', CHR 0x22]
      else if byte = CHR 0x07 then [CHR 0x22, CHR 0x5C, CHR ''a'', CHR 0x22]
      else if byte = CHR 0x08 then [CHR 0x22, CHR 0x5C, CHR ''b'', CHR 0x22]
      else if isprint byte then [CHR 0x22, byte, CHR 0x22]
      else [CHR 0x22, CHR 0x5C, CHR ''x'', hex_char (of_char byte div 16), hex_char (of_char byte mod 16), CHR 0x22])"

definition redisReaderSetErrorProtocolByte :: "redisReader \<Rightarrow> char \<Rightarrow> redisReader" where
  "redisReaderSetErrorProtocolByte r byte =
     redisReaderSetError r REDIS_ERR_PROTOCOL (''Protocol error, got '' @ take 7 (chrtos byte) @ '' as reply type byte'')"

definition redisReaderSetErrorOOM :: "redisReader \<Rightarrow> redisReader" where
  "redisReaderSetErrorOOM r = redisReaderSetError r REDIS_ERR_OOM ''Out of memory''"

section \<open>Lines and numbers\<close>

fun newline_in :: "string \<Rightarrow> nat option" where
  "newline_in (a # b # s) =
     (if a = CHR 0x0D \<and> b = CHR 0x0A then Some 0 else map_option Suc (newline_in (b # s)))"
| "newline_in _ = None"

text \<open>The bound is an \<open>int\<close>. When the carriage return is the last byte the one behind it is compared too,
  which is the terminating zero.\<close>

definition seekNewline :: "string \<Rightarrow> nat option" where
  "seekNewline s =
     (let len = c_int (int (length s) - 1)
      in if len \<le> 0 then None else newline_in (take (nat len + 2) (s @ [NUL])))"

text \<open>\<open>None\<close> is the early \<open>return -1\<close>.\<close>

fun read_digits :: "string \<Rightarrow> int \<Rightarrow> fault + int option" where
  "read_digits [] v = Inl OutOfBounds"
| "read_digits (c # s) v =
     (if c = CHR 0x0D then Inr (Some v)
      else if is_digit c
      then and_then (long_arith (v * 10)) (\<lambda>v. and_then (long_arith (v + int (digit_val c))) (\<lambda>v. read_digits s v))
      else Inr None)"

definition readLongLong :: "string \<Rightarrow> fault + int" where
  "readLongLong s =
     (let mult = (if s \<noteq> [] \<and> hd s = CHR ''-'' then - 1 else 1);
          s = (if s \<noteq> [] \<and> (hd s = CHR ''-'' \<or> hd s = CHR ''+'') then tl s else s)
      in and_then (read_digits s 0) (\<lambda>v. case v of None \<Rightarrow> Inr (- 1) | Some v \<Rightarrow> Inr (mult * v)))"

text \<open>The bytes from the cursor to the end.\<close>

definition unread :: "redisReader \<Rightarrow> sds \<Rightarrow> string" where
  "unread r b = take (reader_len r - reader_pos r) (drop (reader_pos r) (sds_buf b))"

definition readBytes :: "redisReader \<Rightarrow> nat \<Rightarrow> (nat \<times> redisReader) option" where
  "readBytes r bytes =
     (if bytes \<le> reader_len r - reader_pos r
      then Some (reader_pos r, r\<lparr>reader_pos := reader_pos r + bytes\<rparr>) else None)"

text \<open>The text from the cursor on, and the length of the line.\<close>

definition readLine :: "redisReader \<Rightarrow> sds \<Rightarrow> (string \<times> int \<times> redisReader) option" where
  "readLine r b =
     (case seekNewline (unread r b) of
        None \<Rightarrow> None
      | Some n \<Rightarrow> Some (unread r b, c_int (int n), r\<lparr>reader_pos := reader_pos r + n + 2\<rparr>))"

section \<open>Building replies\<close>

definition sizeof_redisReply :: nat where "sizeof_redisReply = 48"

text \<open>An object goes into the array of the parent task, or it is the reply itself. The result is its
  path and the reply with it.\<close>

definition link_reply :: "read_task list \<Rightarrow> reply option \<Rightarrow> reply \<Rightarrow> fault + (nat list \<times> reply)" where
  "link_reply stack root x =
     (case stack of
        cur # prv # _ \<Rightarrow>
          (case (task_obj prv, root) of
             (Some p, Some root) \<Rightarrow>
               if task_idx cur < 0 then Inl OutOfBounds
               else and_then (set_element root p (nat (task_idx cur)) x) (\<lambda>root. Inr (p @ [nat (task_idx cur)], root))
           | _ \<Rightarrow> Inl NullPointer)
      | _ \<Rightarrow> Inr ([], x))"

type_synonym created = "fault + (nat list \<times> reply) option"

definition create :: "read_task list \<Rightarrow> reply option \<Rightarrow> reply \<Rightarrow> created" where
  "create stack root x = and_then (link_reply stack root x) (\<lambda>r. Inr (Some r))"

definition createStringObject :: "memory \<Rightarrow> read_task list \<Rightarrow> reply option \<Rightarrow> string \<Rightarrow> created" where
  "createStringObject M stack root str =
     (if \<not> may_alloc M sizeof_redisReply \<or> \<not> may_alloc M (length str + 1) then Inr None
      else case task_type (hd stack) of
        Some REDIS_REPLY_ERROR \<Rightarrow> create stack root (ErrorReply str)
      | Some REDIS_REPLY_STATUS \<Rightarrow> create stack root (StatusReply str)
      | Some REDIS_REPLY_STRING \<Rightarrow> create stack root (StringReply str)
      | _ \<Rightarrow> Inl AssertFail)"

definition createArrayObject :: "memory \<Rightarrow> read_task list \<Rightarrow> reply option \<Rightarrow> int \<Rightarrow> created" where
  "createArrayObject M stack root elements =
     (if \<not> may_alloc M sizeof_redisReply \<or> 0 < elements \<and> \<not> may_alloc M (8 * nat elements) then Inr None
      else create stack root
        (ArrayReply (size_t elements) (if 0 < elements then Some (replicate (nat elements) None) else None)))"

definition createIntegerObject :: "memory \<Rightarrow> read_task list \<Rightarrow> reply option \<Rightarrow> int \<Rightarrow> created" where
  "createIntegerObject M stack root v =
     (if \<not> may_alloc M sizeof_redisReply then Inr None else create stack root (IntegerReply v))"

definition createNilObject :: "memory \<Rightarrow> read_task list \<Rightarrow> reply option \<Rightarrow> created" where
  "createNilObject M stack root =
     (if \<not> may_alloc M sizeof_redisReply then Inr None else create stack root NilReply)"

section \<open>Processing one item\<close>

fun moveToNextTask :: "read_task list \<Rightarrow> fault + read_task list" where
  "moveToNextTask (cur # prv # ts) =
     (if task_type prv \<noteq> Some REDIS_REPLY_ARRAY then Inl AssertFail
      else if task_idx cur = task_elements prv - 1 then moveToNextTask (prv # ts)
      else if \<not> task_idx cur < task_elements prv then Inl AssertFail
      else Inr (cur\<lparr>task_type := None, task_elements := - 1, task_idx := task_idx cur + 1\<rparr> # prv # ts))"
| "moveToNextTask _ = Inr []"

text \<open>\<open>True\<close> is \<open>REDIS_OK\<close>. The object is created and the reply updated, then the next task is chosen.\<close>

definition finish_item :: "redisReader \<Rightarrow> created \<Rightarrow> (nat list \<Rightarrow> redisReader \<Rightarrow> fault + redisReader) \<Rightarrow> fault + (bool \<times> redisReader)" where
  "finish_item r obj k =
     and_then obj (\<lambda>c. case c of
       None \<Rightarrow> Inr (False, redisReaderSetErrorOOM r)
     | Some (path, root) \<Rightarrow> and_then (k path (r\<lparr>reader_reply := Some root\<rparr>)) (\<lambda>r. Inr (True, r)))"

definition next_task :: "redisReader \<Rightarrow> fault + redisReader" where
  "next_task r = and_then (moveToNextTask (reader_stack r)) (\<lambda>ts. Inr (r\<lparr>reader_stack := ts\<rparr>))"

definition processLineItem :: "memory \<Rightarrow> redisReader \<Rightarrow> sds \<Rightarrow> fault + (bool \<times> redisReader)" where
  "processLineItem M r b =
     (case readLine r b of
        None \<Rightarrow> Inr (False, r)
      | Some (p, len, r) \<Rightarrow>
          finish_item r
            (if task_type (hd (reader_stack r)) = Some REDIS_REPLY_INTEGER
             then and_then (readLongLong p) (createIntegerObject M (reader_stack r) (reader_reply r))
             else and_then (mem_read p 0 (size_t len)) (createStringObject M (reader_stack r) (reader_reply r)))
            (\<lambda>_. next_task))"

text \<open>No sum with the cursor wraps, since a dynamic string has an \<open>int\<close> for its length.\<close>

definition processBulkItem :: "memory \<Rightarrow> redisReader \<Rightarrow> sds \<Rightarrow> fault + (bool \<times> redisReader)" where
  "processBulkItem M r b =
     (case seekNewline (unread r b) of
        None \<Rightarrow> Inr (False, r)
      | Some n \<Rightarrow>
          and_then (readLongLong (unread r b)) (\<lambda>len.
            if len < 0
            then finish_item (r\<lparr>reader_pos := reader_pos r + n + 2\<rparr>)
                   (createNilObject M (reader_stack r) (reader_reply r)) (\<lambda>_. next_task)
            else and_then (long_arith (len + 2)) (\<lambda>_.
              let bytelen = n + 2 + nat len + 2
              in if reader_pos r + bytelen \<le> reader_len r
                 then finish_item (r\<lparr>reader_pos := reader_pos r + bytelen\<rparr>)
                        (and_then (mem_read (unread r b) (n + 2) (nat len))
                          (createStringObject M (reader_stack r) (reader_reply r)))
                        (\<lambda>_. next_task)
                 else Inr (False, r))))"

definition push_task :: "int \<Rightarrow> nat list \<Rightarrow> redisReader \<Rightarrow> redisReader" where
  "push_task elements path r =
     r\<lparr>reader_stack :=
         \<lparr>task_type = None, task_elements = - 1, task_idx = 0, task_obj = None\<rparr>
         # (hd (reader_stack r))\<lparr>task_elements := elements, task_obj := Some path\<rparr> # tl (reader_stack r)\<rparr>"

definition processMultiBulkItem :: "memory \<Rightarrow> redisReader \<Rightarrow> sds \<Rightarrow> fault + (bool \<times> redisReader)" where
  "processMultiBulkItem M r b =
     (if length (reader_stack r) = 9
      then Inr (False, redisReaderSetError r REDIS_ERR_PROTOCOL
             ''No support for nested multi bulk replies with depth > 7'')
      else case readLine r b of
        None \<Rightarrow> Inr (False, r)
      | Some (p, _, r) \<Rightarrow>
          and_then (readLongLong p) (\<lambda>elements.
            if elements = - 1
            then finish_item r (createNilObject M (reader_stack r) (reader_reply r)) (\<lambda>_. next_task)
            else finish_item r (createArrayObject M (reader_stack r) (reader_reply r) (c_int elements))
                   (\<lambda>path r. if 0 < elements then Inr (push_task (c_int elements) path r) else next_task r)))"

definition type_byte :: "char \<Rightarrow> reply_type option" where
  "type_byte c =
     (if c = CHR ''-'' then Some REDIS_REPLY_ERROR
      else if c = CHR ''+'' then Some REDIS_REPLY_STATUS
      else if c = CHR '':'' then Some REDIS_REPLY_INTEGER
      else if c = CHR ''$'' then Some REDIS_REPLY_STRING
      else if c = CHR ''*'' then Some REDIS_REPLY_ARRAY
      else None)"

definition process_typed :: "memory \<Rightarrow> redisReader \<Rightarrow> sds \<Rightarrow> fault + (bool \<times> redisReader)" where
  "process_typed M r b =
     (case task_type (hd (reader_stack r)) of
        Some REDIS_REPLY_ERROR \<Rightarrow> processLineItem M r b
      | Some REDIS_REPLY_STATUS \<Rightarrow> processLineItem M r b
      | Some REDIS_REPLY_INTEGER \<Rightarrow> processLineItem M r b
      | Some REDIS_REPLY_STRING \<Rightarrow> processBulkItem M r b
      | Some REDIS_REPLY_ARRAY \<Rightarrow> processMultiBulkItem M r b
      | _ \<Rightarrow> Inl AssertFail)"

definition set_type :: "reply_type \<Rightarrow> redisReader \<Rightarrow> redisReader" where
  "set_type t r = r\<lparr>reader_stack := (hd (reader_stack r))\<lparr>task_type := Some t\<rparr> # tl (reader_stack r)\<rparr>"

definition processItem :: "memory \<Rightarrow> redisReader \<Rightarrow> fault + (bool \<times> redisReader)" where
  "processItem M r =
     (case reader_buf r of
        None \<Rightarrow> Inl NullPointer
      | Some b \<Rightarrow>
          if task_type (hd (reader_stack r)) = None then
            (case readBytes r 1 of
               None \<Rightarrow> Inr (False, r)
             | Some (p, r) \<Rightarrow>
                 and_then (byte_at (sds_buf b) p) (\<lambda>c.
                   case type_byte c of
                     None \<Rightarrow> Inr (False, redisReaderSetErrorProtocolByte r c)
                   | Some t \<Rightarrow> process_typed M (set_type t r) b))
          else process_typed M r b)"

section \<open>The loop over the items\<close>

lemma newline_in_Some:
  "newline_in s = Some n \<Longrightarrow> n + 2 \<le> length s \<and> s ! n = CHR 0x0D \<and> s ! (n + 1) = CHR 0x0A"
  by (induction s arbitrary: n rule: newline_in.induct) (auto split: if_splits)

lemma seekNewline_Some:
  assumes "seekNewline s = Some n"
  shows "n + 2 \<le> length s" "s ! n = CHR 0x0D" "s ! (n + 1) = CHR 0x0A"
proof -
  let ?k = "nat (c_int (int (length s) - 1)) + 2"
  have "newline_in (take ?k (s @ [NUL])) = Some n"
    using assms by (simp add: seekNewline_def Let_def split: if_splits)
  note * = newline_in_Some [OF this]
  then have n: "n + 1 < ?k" "n + 1 < length (s @ [NUL])" by auto
  have nth: "(s @ [NUL]) ! n = CHR 0x0D" "(s @ [NUL]) ! (n + 1) = CHR 0x0A"
    using * nth_take [of n ?k "s @ [NUL]"] nth_take [of "n + 1" ?k "s @ [NUL]"] n(1) by simp_all
  have "n + 1 \<noteq> length s" using nth(2) by (auto simp: nth_append)
  then show "n + 2 \<le> length s" using n(2) by simp
  with nth show "s ! n = CHR 0x0D" "s ! (n + 1) = CHR 0x0A" by (auto simp: nth_append split: if_splits)
qed

lemma length_unread: "length (unread r b) \<le> reader_len r - reader_pos r"
  by (simp add: unread_def)

definition left_over :: "redisReader \<Rightarrow> nat" where
  "left_over r = reader_len r - reader_pos r"

lemma left_over_update [simp]:
  "left_over (r\<lparr>reader_reply := x\<rparr>) = left_over r" "left_over (r\<lparr>reader_stack := ts\<rparr>) = left_over r"
  "left_over (set_type t r) = left_over r" "left_over (push_task e p r) = left_over r"
  by (simp_all add: left_over_def set_type_def push_task_def)

lemma unread_stack [simp]: "unread (set_type t r) b = unread r b" "unread (r\<lparr>reader_stack := ts\<rparr>) b = unread r b"
  "unread (r\<lparr>reader_reply := x\<rparr>) b = unread r b"
  by (simp_all add: unread_def set_type_def)

lemma finish_item_left_over:
  assumes "finish_item r obj k = Inr (True, r')"
    and "\<And>p r r'. k p r = Inr r' \<Longrightarrow> left_over r' = left_over r"
  shows "left_over r' = left_over r"
  using assms(1) by (auto simp: finish_item_def and_then_Inr split: option.splits dest!: assms(2))

lemma next_task_left_over: "next_task r = Inr r' \<Longrightarrow> left_over r' = left_over r"
  by (auto simp: next_task_def and_then_Inr)

lemma readLine_left_over:
  "readLine r b = Some (p, len, r') \<Longrightarrow> left_over r' < left_over r"
  using length_unread [of r b] by (auto simp: readLine_def left_over_def split: option.splits dest!: seekNewline_Some(1))

lemma process_typed_progress:
  assumes "process_typed M r b = Inr (True, r')"
  shows "left_over r' < left_over r"
proof -
  have line: "left_over r' < left_over r" if "processLineItem M r b = Inr (True, r')"
    using that finish_item_left_over [OF _ next_task_left_over]
    by (fastforce simp: processLineItem_def split: option.splits dest!: readLine_left_over)
  moreover have "left_over r' < left_over r" if bulk: "processBulkItem M r b = Inr (True, r')"
  proof -
    obtain n where n: "seekNewline (unread r b) = Some n"
      using bulk by (auto simp: processBulkItem_def split: option.splits)
    have le: "n + 2 \<le> left_over r" using seekNewline_Some(1) [OF n] length_unread [of r b] by (simp add: left_over_def)
    obtain q obj where q: "finish_item (r\<lparr>reader_pos := q\<rparr>) obj (\<lambda>_. next_task) = Inr (True, r')" "reader_pos r < q"
    proof -
      obtain l where l: "readLongLong (unread r b) = Inr l"
        using bulk n by (auto simp: processBulkItem_def and_then_Inr)
      show thesis
        using bulk n l that [of "reader_pos r + n + 2"] that [of "reader_pos r + (n + 2 + nat l + 2)"]
        by (cases "l < 0") (auto simp: processBulkItem_def and_then_Inr Let_def split: if_splits)
    qed
    show ?thesis using finish_item_left_over [OF q(1) next_task_left_over] q(2) le by (simp add: left_over_def)
  qed
  moreover have "left_over r' < left_over r" if multi: "processMultiBulkItem M r b = Inr (True, r')"
  proof -
    obtain p len r1 where l: "readLine r b = Some (p, len, r1)"
      using multi by (auto simp: processMultiBulkItem_def split: if_splits option.splits)
    then obtain obj k where f: "finish_item r1 obj k = Inr (True, r')" and
      k: "k = (\<lambda>_. next_task) \<or> (\<exists>e. k = (\<lambda>path r. if 0 < e then Inr (push_task (c_int e) path r) else next_task r))"
      using multi by (auto simp: processMultiBulkItem_def and_then_Inr split: if_splits)
    have "\<And>p r r'. k p r = Inr r' \<Longrightarrow> left_over r' = left_over r"
      using k by (auto simp: next_task_left_over split: if_splits)
    then show ?thesis using finish_item_left_over [OF f] readLine_left_over [OF l] by simp
  qed
  ultimately show ?thesis using assms
    by (auto simp: process_typed_def split: option.splits reply_type.splits)
qed

lemma processItem_progress: "processItem M r = Inr (True, r') \<Longrightarrow> left_over r' < left_over r"
  by (auto simp: processItem_def readBytes_def and_then_Inr left_over_def set_type_def
      split: option.splits if_splits dest!: process_typed_progress) linarith

text \<open>\<open>while (r->ridx >= 0) if (processItem(r) != REDIS_OK) break;\<close> ends because every item takes bytes.\<close>

function item_loop :: "memory \<Rightarrow> redisReader \<Rightarrow> fault + redisReader" where
  "item_loop M r =
     (if reader_stack r = [] then Inr r
      else case processItem M r of
        Inl e \<Rightarrow> Inl e
      | Inr (ok, r') \<Rightarrow> if ok then item_loop M r' else Inr r')"
  by pat_completeness auto
termination
  by (relation "measure (\<lambda>(M, r). left_over r)") (auto dest: processItem_progress)

declare item_loop.simps [simp del]

section \<open>The interface\<close>

definition sizeof_redisReader :: nat where "sizeof_redisReader = 560"

definition redisReaderCreate :: "memory \<Rightarrow> fault + redisReader option" where
  "redisReaderCreate M =
     (if \<not> may_alloc M sizeof_redisReader then Inr None
      else opt_then (sdsempty M) (\<lambda>b.
        Inr (Some \<lparr>reader_err = 0, reader_errstr = [], reader_buf = Some b, reader_pos = 0, reader_len = 0,
          reader_maxbuf = REDIS_READER_MAX_BUF, reader_stack = [], reader_reply = None\<rparr>)))"

definition redisReaderFeed :: "memory \<Rightarrow> redisReader \<Rightarrow> string option \<Rightarrow> nat \<Rightarrow> fault + (bool \<times> redisReader)" where
  "redisReaderFeed M r buf len =
     (if reader_err r \<noteq> 0 then Inr (False, r)
      else case buf of
        None \<Rightarrow> Inr (True, r)
      | Some t \<Rightarrow>
          if \<not> 1 \<le> len then Inr (True, r)
          else case reader_buf r of
            None \<Rightarrow> Inl NullPointer
          | Some b \<Rightarrow>
              and_then (if reader_len r = 0 \<and> reader_maxbuf r \<noteq> 0 \<and> reader_maxbuf r < sdsavail b
                 then and_then (sdsempty M) (\<lambda>b. case b of
                     None \<Rightarrow> Inl AssertFail
                   | Some b \<Rightarrow> Inr (r\<lparr>reader_buf := Some b, reader_pos := 0\<rparr>, b))
                 else Inr (r, b)) (\<lambda>(r, b).
              and_then (sdscatlen M b t len) (\<lambda>newbuf. case newbuf of
                  None \<Rightarrow> Inr (False, redisReaderSetErrorOOM r)
                | Some b \<Rightarrow> Inr (True, r\<lparr>reader_buf := Some b, reader_len := sdslen b\<rparr>))))"

text \<open>The status, the reply that was completed, and the reader.\<close>

definition redisReaderGetReply :: "memory \<Rightarrow> redisReader \<Rightarrow> fault + (bool \<times> reply option \<times> redisReader)" where
  "redisReaderGetReply M r =
     (if reader_err r \<noteq> 0 then Inr (False, None, r)
      else if reader_len r = 0 then Inr (True, None, r)
      else let r = (if reader_stack r = [] then
                      r\<lparr>reader_stack := [\<lparr>task_type = None, task_elements = - 1, task_idx = - 1, task_obj = None\<rparr>]\<rparr>
                    else r)
      in and_then (item_loop M r) (\<lambda>r.
           if reader_err r \<noteq> 0 then Inr (False, None, r)
           else and_then (if 1024 \<le> reader_pos r then
                  (case reader_buf r of
                     None \<Rightarrow> Inl NullPointer
                   | Some b \<Rightarrow> and_then (sdsrange b (c_int (int (reader_pos r))) (- 1)) (\<lambda>b.
                       Inr (r\<lparr>reader_buf := Some b, reader_pos := 0, reader_len := sdslen b\<rparr>)))
                else Inr r) (\<lambda>r.
             if reader_stack r = [] then Inr (True, reader_reply r, r\<lparr>reader_reply := None\<rparr>)
             else Inr (True, None, r))))"

end
