(* ===== verification/Redis_Format.thy ===== *)
theory Redis_Format
  imports Redis_Sds
begin

text \<open>
  Formatting commands in the Redis protocol (\<open>YCSB-C/redis/hiredis/hiredis.c\<close>): from a format string with
  arguments, and from an array of arguments. A command is an array of bulk strings,
  \<open>*argc\<close>, then for each argument \<open>$length\<close> and its bytes, every part ended by \<open>\r\n\<close>.
\<close>

definition CRLF :: string where "CRLF = [CHR 0x0D, CHR 0x0A]"

section \<open>Lengths\<close>

function countDigits_from :: "nat \<Rightarrow> nat \<Rightarrow> nat" where
  "countDigits_from v result =
     (if v < 10 then result
      else if v < 100 then result + 1
      else if v < 1000 then result + 2
      else if v < 10000 then result + 3
      else countDigits_from (v div 10000) (result + 4))"
  by pat_completeness auto
termination
  by (relation "measure fst") auto

declare countDigits_from.simps [simp del]

text \<open>The argument is converted to \<open>uint64_t\<close>.\<close>

definition countDigits :: "int \<Rightarrow> nat" where
  "countDigits v = countDigits_from (size_t v) 1"

definition bulklen :: "nat \<Rightarrow> nat" where
  "bulklen len = size_t (int (1 + countDigits (int len) + 2 + len + 2))"

section \<open>From an array of arguments\<close>

text \<open>The arguments with their lengths; without lengths \<open>strlen\<close> is used.\<close>

fun arg_lengths :: "string list \<Rightarrow> nat list option \<Rightarrow> fault + nat list" where
  "arg_lengths argv (Some lens) = Inr lens"
| "arg_lengths [] None = Inr []"
| "arg_lengths (a # argv) None =
     and_then (c_strlen a) (\<lambda>n. and_then (arg_lengths argv None) (\<lambda>ns. Inr (n # ns)))"

text \<open>The loop that copies the arguments behind the first line; a write past the \<open>totlen + 1\<close> allocated
  bytes is a fault.\<close>

fun put_args :: "nat \<Rightarrow> string \<Rightarrow> (string \<times> nat) list \<Rightarrow> fault + string" where
  "put_args room cmd [] = (if room < length cmd then Inl OutOfBounds else Inr cmd)"
| "put_args room cmd ((a, len) # args) =
     and_then (mem_read a 0 len) (\<lambda>data.
       let cmd = cmd @ ''$'' @ to_string len @ CRLF @ data @ CRLF
       in if room < length cmd then Inl OutOfBounds else put_args room cmd args)"

text \<open>\<open>None\<close> stands for the result \<open>-1\<close> of a refused allocation; otherwise the command and its length, an
  \<open>int\<close>.\<close>

definition redisFormatCommandArgv ::
  "memory \<Rightarrow> string list \<Rightarrow> nat list option \<Rightarrow> fault + (string \<times> int) option" where
  "redisFormatCommandArgv M argv argvlen =
     and_then (arg_lengths argv argvlen) (\<lambda>lens.
       let argc = int (length argv);
           totlen = foldl (\<lambda>t n. c_int (t + int (bulklen n))) (c_int (int (1 + countDigits argc + 2))) lens;
           room = size_t (totlen + 1)
       in if \<not> may_alloc M room then Inr None
          else and_then (put_args room (''*'' @ to_string (length argv) @ CRLF) (zip argv lens)) (\<lambda>cmd.
            if int (length cmd) \<noteq> totlen then Inl AssertFail else Inr (Some (cmd, totlen))))"

text \<open>The same into a dynamic string. A null pointer from \<open>sdscatlen\<close> is not checked, the next
  call reads through it.\<close>

definition checked :: "fault + sds option \<Rightarrow> fault + sds" where
  "checked r = and_then r (\<lambda>s. case s of None \<Rightarrow> Inl NullPointer | Some s \<Rightarrow> Inr s)"

fun cat_args :: "memory \<Rightarrow> sds \<Rightarrow> (string \<times> nat) list \<Rightarrow> fault + sds" where
  "cat_args M cmd [] = Inr cmd"
| "cat_args M cmd ((a, len) # args) =
     and_then (sdscatfmt M cmd (''$%T'' @ CRLF) [FmtSize len]) (\<lambda>cmd.
     and_then (checked (sdscatlen M cmd a len)) (\<lambda>cmd.
     and_then (checked (sdscatlen M cmd (c_str CRLF) 2)) (\<lambda>cmd.
       cat_args M cmd args)))"

definition redisFormatSdsCommandArgv ::
  "memory \<Rightarrow> string list \<Rightarrow> nat list option \<Rightarrow> fault + (sds \<times> int) option" where
  "redisFormatSdsCommandArgv M argv argvlen =
     and_then (arg_lengths argv argvlen) (\<lambda>lens.
       let argc = int (length argv);
           totlen = foldl (\<lambda>t n. size_t (int (t + bulklen n))) (1 + countDigits argc + 2) lens
       in opt_then (sdsempty M) (\<lambda>cmd.
          opt_then (sdsMakeRoomFor M cmd totlen) (\<lambda>cmd.
          and_then (sdscatfmt M cmd (''*%i'' @ CRLF) [FmtInt argc]) (\<lambda>cmd.
          and_then (cat_args M cmd (zip argv lens)) (\<lambda>cmd.
            if sdslen cmd \<noteq> totlen then Inl AssertFail else Inr (Some (cmd, c_int (int totlen))))))))"

section \<open>From a format\<close>

text \<open>The arguments behind a format. A string is the memory it points to. Reading an argument that is
  not there, or of another type, is undefined.\<close>

datatype va = VaStr string | VaSize nat | VaInt int | VaLong int | VaDouble nat

text \<open>\<open>vsnprintf\<close> with one conversion and the argument it takes is a parameter of the model.\<close>

type_synonym printf = "string \<Rightarrow> va \<Rightarrow> string"

definition int_va :: "va \<Rightarrow> bool" where "int_va a = (case a of VaInt _ \<Rightarrow> True | _ \<Rightarrow> False)"
definition long_va :: "va \<Rightarrow> bool" where "long_va a = (case a of VaLong _ \<Rightarrow> True | _ \<Rightarrow> False)"
definition double_va :: "va \<Rightarrow> bool" where "double_va a = (case a of VaDouble _ \<Rightarrow> True | _ \<Rightarrow> False)"

text \<open>The classification of a conversion that is not \<open>%s\<close>, \<open>%b\<close> or \<open>%%\<close>: \<open>p\<close> is the rest of the format
  behind the percent sign, with its terminating zero. \<open>strchr\<close> finds the zero of the set too. The
  result is the kind of the argument and the length of the conversion behind the percent sign;
  \<open>None\<close> is the jump to \<open>fmt_invalid\<close>.\<close>

definition strchr :: "string \<Rightarrow> char \<Rightarrow> bool" where
  "strchr cs c \<longleftrightarrow> c \<in> set cs \<or> c = NUL"

definition head :: "string \<Rightarrow> char" where
  "head p = (case p of [] \<Rightarrow> NUL | c # _ \<Rightarrow> c)"

definition intfmts :: string where "intfmts = ''diouxX''"
definition flags :: string where "flags = ''#0-+ ''"

definition conversion :: "string \<Rightarrow> ((va \<Rightarrow> bool) \<times> nat) option" where
  "conversion p =
     (let q = dropWhile (\<lambda>c. c \<in> set flags) p;
          q = dropWhile is_digit q;
          q = (if head q = CHR ''.'' then dropWhile is_digit (drop 1 q) else q);
          n = length p - length q
      in if strchr intfmts (head q) then Some (int_va, n + 1)
         else if strchr ''eEfFgGaA'' (head q) then Some (double_va, n + 1)
         else if head q = CHR ''h'' \<and> head (drop 1 q) = CHR ''h''
         then if head (drop 2 q) \<noteq> NUL \<and> strchr intfmts (head (drop 2 q)) then Some (int_va, n + 3) else None
         else if head q = CHR ''h''
         then if head (drop 1 q) \<noteq> NUL \<and> strchr intfmts (head (drop 1 q)) then Some (int_va, n + 2) else None
         else if head q = CHR ''l'' \<and> head (drop 1 q) = CHR ''l''
         then if head (drop 2 q) \<noteq> NUL \<and> strchr intfmts (head (drop 2 q)) then Some (long_va, n + 3) else None
         else if head q = CHR ''l''
         then if head (drop 1 q) \<noteq> NUL \<and> strchr intfmts (head (drop 1 q)) then Some (long_va, n + 2) else None
         else None)"

text \<open>The state of the loop: the argument being built, whether it was touched, the finished arguments and
  the length of the command so far. The error results are \<open>-1\<close> for memory and \<open>-2\<close> for the format.\<close>

type_synonym 'a format_result = "fault + (int + 'a)"

definition new_arg :: "fault + sds option \<Rightarrow> (sds \<Rightarrow> 'a format_result) \<Rightarrow> 'a format_result" where
  "new_arg r k = and_then r (\<lambda>s. case s of None \<Rightarrow> Inr (Inl (- 1)) | Some s \<Rightarrow> k s)"

definition push_len :: "int \<Rightarrow> sds \<Rightarrow> int" where
  "push_len totlen s = c_int (totlen + int (bulklen (sdslen s)))"

function format_loop :: "memory \<Rightarrow> printf \<Rightarrow> string \<Rightarrow> va list \<Rightarrow> sds \<Rightarrow> bool \<Rightarrow> sds list \<Rightarrow> int
    \<Rightarrow> (sds \<times> bool \<times> sds list \<times> int) format_result" where
  "format_loop M pf [] ap curarg touched argv totlen = Inr (Inr (curarg, touched, argv, totlen))"
| "format_loop M pf (c # f) ap curarg touched argv totlen =
     (if c \<noteq> CHR ''%'' \<or> f = [] then
        if c = CHR '' '' then
          if touched then
            if \<not> may_alloc M (8 * (length argv + 1)) then Inr (Inl (- 1))
            else new_arg (sdsempty M) (\<lambda>s.
              format_loop M pf f ap s False (argv @ [curarg]) (push_len totlen curarg))
          else format_loop M pf f ap curarg touched argv totlen
        else new_arg (sdscatlen M curarg [c] 1) (\<lambda>s. format_loop M pf f ap s True argv totlen)
      else
        let n = head f; g = drop 1 f
        in if n = CHR ''s'' then
             (case ap of
                VaStr p # ap \<Rightarrow> and_then (c_strlen p) (\<lambda>sz.
                  new_arg (if 0 < sz then sdscatlen M curarg p sz else Inr (Some curarg)) (\<lambda>s.
                    format_loop M pf g ap s True argv totlen))
              | _ \<Rightarrow> Inl OutOfBounds)
           else if n = CHR ''b'' then
             (case ap of
                VaStr p # VaSize sz # ap \<Rightarrow>
                  new_arg (if 0 < sz then sdscatlen M curarg p sz else Inr (Some curarg)) (\<lambda>s.
                    format_loop M pf g ap s True argv totlen)
              | _ \<Rightarrow> Inl OutOfBounds)
           else if n = CHR ''%'' then
             new_arg (sdscat M curarg (c_str ''%'')) (\<lambda>s. format_loop M pf g ap s True argv totlen)
           else
             (case conversion f of
                None \<Rightarrow> Inr (Inl (- 2))
              | Some (kind, l) \<Rightarrow>
                  (case ap of
                     a # ap \<Rightarrow>
                       if \<not> kind a then Inl OutOfBounds
                       else if l + 1 < 14 then
                         new_arg (sdscatvprintf M curarg (pf (take (l + 1) (c # f)) a)) (\<lambda>s.
                           if length f < l then Inl OutOfBounds
                           else format_loop M pf (drop l f) ap s True argv totlen)
                       else format_loop M pf g ap curarg True argv totlen
                   | [] \<Rightarrow> Inl OutOfBounds)))"
  by pat_completeness auto
termination
  by (relation "measure (\<lambda>(M, pf, f, _). length f)") (auto split: list.splits)

declare format_loop.simps [simp del]

text \<open>\<open>cmd\<close> and its length.\<close>

definition redisvFormatCommand :: "memory \<Rightarrow> printf \<Rightarrow> string \<Rightarrow> va list \<Rightarrow> (string \<times> int) format_result" where
  "redisvFormatCommand M pf format ap =
     new_arg (sdsempty M) (\<lambda>curarg.
     and_then (format_loop M pf format ap curarg False [] 0) (\<lambda>r. case r of
       Inl e \<Rightarrow> Inr (Inl e)
     | Inr (curarg, touched, argv, totlen) \<Rightarrow>
         if touched \<and> \<not> may_alloc M (8 * (length argv + 1)) then Inr (Inl (- 1))
         else let argv' = (if touched then argv @ [curarg] else argv);
                  totlen = (if touched then push_len totlen curarg else totlen);
                  argc = int (length argv');
                  totlen = c_int (totlen + int (1 + countDigits argc + 2));
                  room = size_t (totlen + 1)
              in if \<not> may_alloc M room then Inr (Inl (- 1))
                 else and_then (put_args room (''*'' @ to_string (length argv') @ CRLF)
                        (map (\<lambda>s. (sds_buf s, sdslen s)) argv')) (\<lambda>cmd.
                      if int (length cmd) \<noteq> totlen then Inl AssertFail else Inr (Inr (cmd, totlen)))))"

definition redisFormatCommand :: "memory \<Rightarrow> printf \<Rightarrow> string \<Rightarrow> va list \<Rightarrow> (string \<times> int) format_result" where
  "redisFormatCommand M pf format ap =
     and_then (redisvFormatCommand M pf format ap) (\<lambda>r. case r of
       Inl e \<Rightarrow> Inr (Inl (- 1))
     | Inr (cmd, len) \<Rightarrow> if len < 0 then Inr (Inl (- 1)) else Inr (Inr (cmd, len)))"

end
