(* ===== verification/Redis_Connection.thy ===== *)
theory Redis_Connection
  imports Redis_Reader Redis_Format Ycsb_DB
begin

text \<open>
  A connection to a Redis server: the context of \<open>YCSB-C/redis/hiredis/hiredis.c\<close> with its output buffer and its
  reader, the wrapper \<open>RedisClient\<close> (\<open>redis_client.h\<close>) and the database \<open>RedisDB\<close>
  (\<open>redis_db.cc\<close>). The socket is a parameter: what \<open>read\<close>, \<open>write\<close> and the connection set-up of \<open>net.c\<close>
  do to the world. A loop on the socket may go on for ever; then the result is \<open>None\<close>.
\<close>

section \<open>The context\<close>

definition REDIS_BLOCK :: u32 where "REDIS_BLOCK = 1"
definition REDIS_CONNECTED :: u32 where "REDIS_CONNECTED = 2"

text \<open>The descriptor is the socket of the world.\<close>

record redisContext =
  ctx_err :: int
  ctx_errstr :: string
  ctx_flags :: u32
  ctx_obuf :: "sds option"
  ctx_reader :: redisReader

datatype errno = EINTR | EAGAIN | Errno nat

datatype io_read = ReadErr errno | ReadBytes string
datatype io_write = WriteErr errno | Wrote nat

record 'w socket =
  sock_read :: "nat \<Rightarrow> 'w \<Rightarrow> io_read \<times> 'w"
  sock_write :: "string \<Rightarrow> 'w \<Rightarrow> io_write \<times> 'w"
  sock_connect :: "'w \<Rightarrow> (int \<times> string) option \<times> 'w"
  sock_strerror :: "errno \<Rightarrow> string"

text \<open>\<open>__redisSetError\<close>: the message is cut to the 128 bytes of the field.\<close>

definition redisSetError :: "int \<Rightarrow> string \<Rightarrow> redisContext \<Rightarrow> redisContext" where
  "redisSetError type str c = c\<lparr>ctx_err := type, ctx_errstr := take 127 str\<rparr>"

definition blocking :: "redisContext \<Rightarrow> bool" where
  "blocking c \<longleftrightarrow> ctx_flags c AND REDIS_BLOCK \<noteq> 0"

definition sizeof_redisContext :: nat where "sizeof_redisContext = 208"

definition redisContextInit :: "memory \<Rightarrow> fault + redisContext option" where
  "redisContextInit M =
     (if \<not> may_alloc M sizeof_redisContext then Inr None
      else and_then (sdsempty M) (\<lambda>obuf.
           and_then (redisReaderCreate M) (\<lambda>r.
             case (obuf, r) of
               (Some obuf, Some r) \<Rightarrow>
                 Inr (Some \<lparr>ctx_err = 0, ctx_errstr = [], ctx_flags = 0, ctx_obuf = Some obuf, ctx_reader = r\<rparr>)
             | _ \<Rightarrow> Inr None)))"

text \<open>\<open>redisContextConnectTcp\<close> of \<open>net.c\<close> either sets an error or marks the context as connected.\<close>

definition connect_with :: "'w socket \<Rightarrow> redisContext \<Rightarrow> 'w \<Rightarrow> redisContext \<times> 'w" where
  "connect_with S c w =
     (case sock_connect S w of
        (Some (e, str), w) \<Rightarrow> (redisSetError e str c, w)
      | (None, w) \<Rightarrow> (c\<lparr>ctx_flags := ctx_flags c OR REDIS_CONNECTED\<rparr>, w))"

definition redisConnect :: "memory \<Rightarrow> 'w socket \<Rightarrow> 'w \<Rightarrow> fault + (redisContext option \<times> 'w)" where
  "redisConnect M S w =
     and_then (redisContextInit M) (\<lambda>c. case c of
       None \<Rightarrow> Inr (None, w)
     | Some c \<Rightarrow> (case connect_with S (c\<lparr>ctx_flags := ctx_flags c OR REDIS_BLOCK\<rparr>) w of
         (c, w) \<Rightarrow> Inr (Some c, w)))"

definition redisConnectNonBlock :: "memory \<Rightarrow> 'w socket \<Rightarrow> 'w \<Rightarrow> fault + (redisContext option \<times> 'w)" where
  "redisConnectNonBlock M S w =
     and_then (redisContextInit M) (\<lambda>c. case c of
       None \<Rightarrow> Inr (None, w)
     | Some c \<Rightarrow> (case connect_with S (c\<lparr>ctx_flags := ctx_flags c AND NOT REDIS_BLOCK\<rparr>) w of
         (c, w) \<Rightarrow> Inr (Some c, w)))"

definition redisConnectFd :: "memory \<Rightarrow> fault + redisContext option" where
  "redisConnectFd M =
     opt_then (redisContextInit M) (\<lambda>c.
       Inr (Some (c\<lparr>ctx_flags := ctx_flags c OR (REDIS_BLOCK OR REDIS_CONNECTED)\<rparr>)))"

section \<open>Reading and writing\<close>

definition try_again :: "errno \<Rightarrow> redisContext \<Rightarrow> bool" where
  "try_again e c \<longleftrightarrow> (e = EAGAIN \<and> \<not> blocking c) \<or> e = EINTR"

definition redisBufferRead :: "memory \<Rightarrow> 'w socket \<Rightarrow> redisContext \<Rightarrow> 'w \<Rightarrow> fault + (bool \<times> redisContext \<times> 'w)" where
  "redisBufferRead M S c w =
     (if ctx_err c \<noteq> 0 then Inr (False, c, w)
      else case sock_read S (1024 * 16) w of
        (ReadErr e, w) \<Rightarrow>
          if try_again e c then Inr (True, c, w)
          else Inr (False, redisSetError REDIS_ERR_IO (sock_strerror S e) c, w)
      | (ReadBytes buf, w) \<Rightarrow>
          if buf = [] then Inr (False, redisSetError REDIS_ERR_EOF ''Server closed the connection'' c, w)
          else and_then (redisReaderFeed M (ctx_reader c) (Some buf) (length buf)) (\<lambda>(ok, r).
            let c = c\<lparr>ctx_reader := r\<rparr>
            in if ok then Inr (True, c, w)
               else Inr (False, redisSetError (reader_err r) (reader_errstr r) c, w)))"

text \<open>The flag \<open>done\<close>, the status first. The buffer is a null pointer when its replacement was refused;
  then \<open>sdslen\<close> reads through it.\<close>

definition obuf_len :: "redisContext \<Rightarrow> fault + nat" where
  "obuf_len c = (case ctx_obuf c of None \<Rightarrow> Inl NullPointer | Some s \<Rightarrow> Inr (sdslen s))"

definition wrote :: "memory \<Rightarrow> redisContext \<Rightarrow> sds \<Rightarrow> nat \<Rightarrow> fault + redisContext" where
  "wrote M c s nwritten =
     (if 0 < nwritten then
        if int nwritten = c_int (int (sdslen s)) then
          and_then (sdsempty M) (\<lambda>s. Inr (c\<lparr>ctx_obuf := s\<rparr>))
        else and_then (sdsrange s (int nwritten) (- 1)) (\<lambda>s. Inr (c\<lparr>ctx_obuf := Some s\<rparr>))
      else Inr c)"

definition redisBufferWrite ::
  "memory \<Rightarrow> 'w socket \<Rightarrow> redisContext \<Rightarrow> 'w \<Rightarrow> fault + (bool \<times> bool \<times> redisContext \<times> 'w)" where
  "redisBufferWrite M S c w =
     (if ctx_err c \<noteq> 0 then Inr (False, False, c, w)
      else case ctx_obuf c of
        None \<Rightarrow> Inl NullPointer
      | Some s \<Rightarrow>
          let finish = (\<lambda>c w. and_then (obuf_len c) (\<lambda>n. Inr (True, n = 0, c, w)))
          in if 0 < sdslen s then
               and_then (mem_read (sds_buf s) 0 (sdslen s)) (\<lambda>data.
                 case sock_write S data w of
                   (WriteErr e, w) \<Rightarrow>
                     if try_again e c then finish c w
                     else Inr (False, False, redisSetError REDIS_ERR_IO (sock_strerror S e) c, w)
                 | (Wrote n, w) \<Rightarrow> and_then (wrote M c s n) (\<lambda>c. finish c w))
             else finish c w)"

definition redisGetReplyFromReader :: "memory \<Rightarrow> redisContext \<Rightarrow> fault + (bool \<times> reply option \<times> redisContext)" where
  "redisGetReplyFromReader M c =
     and_then (redisReaderGetReply M (ctx_reader c)) (\<lambda>(ok, reply, r).
       let c = c\<lparr>ctx_reader := r\<rparr>
       in if ok then Inr (True, reply, c)
          else Inr (False, None, redisSetError (reader_err r) (reader_errstr r) c))"

text \<open>The loops on the socket: \<open>None\<close> when the loop does not end.\<close>

type_synonym 'a io_result = "(fault + 'a) option"

definition io_then :: "fault + 'a \<Rightarrow> ('a \<Rightarrow> 'b io_result) \<Rightarrow> 'b io_result" where
  "io_then m k = (case m of Inl e \<Rightarrow> Some (Inl e) | Inr x \<Rightarrow> k x)"

definition io_bind :: "'a io_result \<Rightarrow> ('a \<Rightarrow> 'b io_result) \<Rightarrow> 'b io_result" where
  "io_bind m k = (case m of None \<Rightarrow> None | Some r \<Rightarrow> io_then r k)"

lemma io_simps [simp]: "io_then (Inl e) k = Some (Inl e)" "io_then (Inr x) k = k x"
  "io_bind None k = None" "io_bind (Some (Inl e)) k = Some (Inl e)" "io_bind (Some (Inr x)) k = k x"
  by (simp_all add: io_then_def io_bind_def)

partial_function (option) write_loop :: "memory \<Rightarrow> 'w socket \<Rightarrow> redisContext \<Rightarrow> 'w \<Rightarrow> (bool \<times> redisContext \<times> 'w) io_result" where
  "write_loop M S c w =
     (case redisBufferWrite M S c w of
        Inl e \<Rightarrow> Some (Inl e)
      | Inr (ok, wdone, c, w) \<Rightarrow>
          if \<not> ok then Some (Inr (False, c, w))
          else if wdone then Some (Inr (True, c, w))
          else write_loop M S c w)"

partial_function (option) read_loop ::
  "memory \<Rightarrow> 'w socket \<Rightarrow> redisContext \<Rightarrow> 'w \<Rightarrow> (bool \<times> reply option \<times> redisContext \<times> 'w) io_result" where
  "read_loop M S c w =
     (case redisBufferRead M S c w of
        Inl e \<Rightarrow> Some (Inl e)
      | Inr (ok, c, w) \<Rightarrow>
          if \<not> ok then Some (Inr (False, None, c, w))
          else (case redisGetReplyFromReader M c of
            Inl e \<Rightarrow> Some (Inl e)
          | Inr (ok, aux, c) \<Rightarrow>
              if \<not> ok then Some (Inr (False, None, c, w))
              else if aux = None then read_loop M S c w
              else Some (Inr (True, aux, c, w))))"

text \<open>The status, what \<open>*reply\<close> is set to when the status is good, and the context.\<close>

definition redisGetReply ::
  "memory \<Rightarrow> 'w socket \<Rightarrow> redisContext \<Rightarrow> 'w \<Rightarrow> (bool \<times> reply option \<times> redisContext \<times> 'w) io_result" where
  "redisGetReply M S c w =
     io_then (redisGetReplyFromReader M c) (\<lambda>(ok, aux, c).
       if \<not> ok then Some (Inr (False, None, c, w))
       else if aux = None \<and> blocking c then
         io_bind (write_loop M S c w) (\<lambda>(ok, c, w).
           if \<not> ok then Some (Inr (False, None, c, w)) else read_loop M S c w)
       else Some (Inr (True, aux, c, w)))"

section \<open>Commands\<close>

definition redisAppendFormattedCommand :: "memory \<Rightarrow> string \<Rightarrow> nat \<Rightarrow> redisContext \<Rightarrow> fault + (bool \<times> redisContext)" where
  "redisAppendFormattedCommand M cmd len c =
     (case ctx_obuf c of
        None \<Rightarrow> Inl NullPointer
      | Some s \<Rightarrow> and_then (sdscatlen M s cmd len) (\<lambda>newbuf. case newbuf of
            None \<Rightarrow> Inr (False, redisSetError REDIS_ERR_OOM ''Out of memory'' c)
          | Some s \<Rightarrow> Inr (True, c\<lparr>ctx_obuf := Some s\<rparr>)))"

definition redisvAppendCommand :: "memory \<Rightarrow> printf \<Rightarrow> string \<Rightarrow> va list \<Rightarrow> redisContext \<Rightarrow> fault + (bool \<times> redisContext)" where
  "redisvAppendCommand M pf format ap c =
     and_then (redisvFormatCommand M pf format ap) (\<lambda>r. case r of
       Inl e \<Rightarrow> if e = - 1 then Inr (False, redisSetError REDIS_ERR_OOM ''Out of memory'' c)
                else Inr (False, redisSetError REDIS_ERR_OTHER ''Invalid format string'' c)
     | Inr (cmd, len) \<Rightarrow> redisAppendFormattedCommand M cmd (size_t len) c)"

definition redisAppendCommandArgv :: "memory \<Rightarrow> string list \<Rightarrow> nat list option \<Rightarrow> redisContext \<Rightarrow> fault + (bool \<times> redisContext)" where
  "redisAppendCommandArgv M argv argvlen c =
     and_then (redisFormatSdsCommandArgv M argv argvlen) (\<lambda>r. case r of
       None \<Rightarrow> Inr (False, redisSetError REDIS_ERR_OOM ''Out of memory'' c)
     | Some (cmd, len) \<Rightarrow> redisAppendFormattedCommand M (sds_buf cmd) (size_t len) c)"

definition redisBlockForReply :: "memory \<Rightarrow> 'w socket \<Rightarrow> redisContext \<Rightarrow> 'w \<Rightarrow> (reply option \<times> redisContext \<times> 'w) io_result" where
  "redisBlockForReply M S c w =
     (if blocking c then
        io_bind (redisGetReply M S c w) (\<lambda>(ok, reply, c, w).
          if ok then Some (Inr (reply, c, w)) else Some (Inr (None, c, w)))
      else Some (Inr (None, c, w)))"

definition redisvCommand :: "memory \<Rightarrow> printf \<Rightarrow> 'w socket \<Rightarrow> string \<Rightarrow> va list \<Rightarrow> redisContext \<Rightarrow> 'w
    \<Rightarrow> (reply option \<times> redisContext \<times> 'w) io_result" where
  "redisvCommand M pf S format ap c w =
     io_then (redisvAppendCommand M pf format ap c) (\<lambda>(ok, c).
       if ok then redisBlockForReply M S c w else Some (Inr (None, c, w)))"

definition redisCommandArgv :: "memory \<Rightarrow> 'w socket \<Rightarrow> string list \<Rightarrow> nat list option \<Rightarrow> redisContext \<Rightarrow> 'w
    \<Rightarrow> (reply option \<times> redisContext \<times> 'w) io_result" where
  "redisCommandArgv M S argv argvlen c w =
     io_then (redisAppendCommandArgv M argv argvlen c) (\<lambda>(ok, c).
       if ok then redisBlockForReply M S c w else Some (Inr (None, c, w)))"

end
