(* ===== verification/Redis_Client.thy ===== *)
theory Redis_Client
  imports Redis_Connection
begin

text \<open>
  The client of the benchmark (\<open>YCSB-C/redis/redis_client.h\<close>) and its Redis database
  (\<open>YCSB-C/db/redis_db.h\<close>, \<open>redis_db.cc\<close>). Strings of C++ are passed as C strings, so they end at their
  first zero byte where the C library reads them without a length.
\<close>

section \<open>RedisClient\<close>

text \<open>What the pointer \<open>reply\<close> holds: no value yet, a reply, or the address of a reply that was freed.\<close>

datatype pointer = Unset | Null | To reply | Freed

fun freeReplyObject :: "pointer \<Rightarrow> fault + pointer" where
  "freeReplyObject Unset = Inl Uninitialised"
| "freeReplyObject Null = Inr Null"
| "freeReplyObject (To r) = Inr Freed"
| "freeReplyObject Freed = Inl UseAfterFree"

definition pointer_to :: "reply option \<Rightarrow> pointer" where
  "pointer_to r = (case r of None \<Rightarrow> Null | Some r \<Rightarrow> To r)"

record redis_client =
  client_context :: redisContext
  client_slaves :: int

text \<open>The constructor ends the program when there is no connection.\<close>

definition RedisClient_new :: "memory \<Rightarrow> 'w socket \<Rightarrow> int \<Rightarrow> 'w \<Rightarrow> fault + (redis_client \<times> 'w)" where
  "RedisClient_new M S slaves w =
     and_then (redisConnect M S w) (\<lambda>(c, w). case c of
       None \<Rightarrow> Inl Exited
     | Some c \<Rightarrow> if ctx_err c \<noteq> 0 then Inl Exited
                 else Inr (\<lparr>client_context = c, client_slaves = slaves\<rparr>, w))"

text \<open>\<open>HandleError\<close> frees the reply and ends the program with \<open>exit(2)\<close>.\<close>

definition HandleError :: "pointer \<Rightarrow> fault + 'a" where
  "HandleError p =
     and_then (if p = Unset then Inl Uninitialised
               else if p \<noteq> Null then freeReplyObject p else Inr p) (\<lambda>p. Inl Exited)"

text \<open>One \<open>redisGetReply\<close> of \<open>Command\<close> into the variable, and its release.\<close>

definition take_reply :: "memory \<Rightarrow> 'w socket \<Rightarrow> pointer \<Rightarrow> redisContext \<Rightarrow> 'w \<Rightarrow> (pointer \<times> redisContext \<times> 'w) io_result" where
  "take_reply M S p c w =
     io_bind (redisGetReply M S c w) (\<lambda>(ok, reply, c, w).
       if \<not> ok then Some (HandleError p)
       else io_then (freeReplyObject (pointer_to reply)) (\<lambda>p. Some (Inr (p, c, w))))"

text \<open>The characters of \<open>cmd.data()\<close> as a C string.\<close>

definition c_part :: "string \<Rightarrow> string" where
  "c_part s = takeWhile (\<lambda>ch. ch \<noteq> NUL) s"

definition RedisClient_Command ::
  "memory \<Rightarrow> printf \<Rightarrow> 'w socket \<Rightarrow> redis_client \<Rightarrow> string \<Rightarrow> 'w \<Rightarrow> (int \<times> redis_client \<times> 'w) io_result" where
  "RedisClient_Command M pf S cl cmd w =
     io_then (redisvAppendCommand M pf (c_part cmd) [] (client_context cl)) (\<lambda>(_, c).
     io_then (if client_slaves cl \<noteq> 0
              then and_then (redisvAppendCommand M pf ''WAIT %d %d'' [VaInt (client_slaves cl), VaInt 0] c) (\<lambda>(_, c). Inr c)
              else Inr c) (\<lambda>c.
     io_bind (take_reply M S Unset c w) (\<lambda>(p, c, w).
     io_bind (if client_slaves cl \<noteq> 0 then take_reply M S p c w else Some (Inr (p, c, w))) (\<lambda>(_, c, w).
       Some (Inr (0, cl\<lparr>client_context := c\<rparr>, w))))))"

section \<open>RedisDB\<close>

text \<open>The field \<open>str\<close> of a reply: a null pointer when the reply is not a string. The message is read up to
  its first zero byte.\<close>

definition reply_str :: "reply \<Rightarrow> string option" where
  "reply_str r = (case r of StringReply s \<Rightarrow> Some (c_part s) | StatusReply s \<Rightarrow> Some (c_part s)
     | ErrorReply s \<Rightarrow> Some (c_part s) | _ \<Rightarrow> None)"

text \<open>\<open>reply->element[i]\<close>, and its \<open>str\<close>.\<close>

definition element_at :: "reply option list option \<Rightarrow> nat \<Rightarrow> fault + reply" where
  "element_at es i =
     (case es of
        None \<Rightarrow> Inl NullPointer
      | Some es \<Rightarrow> if i < length es then (case es ! i of None \<Rightarrow> Inl NullPointer | Some r \<Rightarrow> Inr r)
                   else Inl OutOfBounds)"

definition string_at :: "reply option list option \<Rightarrow> nat \<Rightarrow> fault + string" where
  "string_at es i =
     and_then (element_at es i) (\<lambda>r. case reply_str r of None \<Rightarrow> Inl NullPointer | Some s \<Rightarrow> Inr s)"

text \<open>The loop over the selected fields; a null \<open>str\<close> becomes the empty string.\<close>

fun element_fields :: "reply option list option \<Rightarrow> nat \<Rightarrow> string list \<Rightarrow> fault + pairs" where
  "element_fields es i [] = Inr []"
| "element_fields es i (f # fs) =
     and_then (element_at es i) (\<lambda>r.
     and_then (element_fields es (i + 1) fs) (\<lambda>ps.
       Inr ((f, case reply_str r of None \<Rightarrow> [] | Some s \<Rightarrow> s) # ps)))"

text \<open>The loop over all fields, from \<open>i\<close> on.\<close>

function read_pairs :: "reply option list option \<Rightarrow> nat \<Rightarrow> nat \<Rightarrow> fault + pairs" where
  "read_pairs es n i =
     (if i < n div 2 then
        and_then (string_at es (2 * i)) (\<lambda>a.
        and_then (string_at es (2 * i + 1)) (\<lambda>b.
        and_then (read_pairs es n (i + 1)) (\<lambda>ps. Inr ((a, b) # ps))))
      else Inr [])"
  by pat_completeness auto
termination
  by (relation "measure (\<lambda>(es, n, i). n div 2 - i)") auto

declare read_pairs.simps [simp del]

definition selected :: "string list \<Rightarrow> reply \<Rightarrow> fault + pairs" where
  "selected fs r =
     (case r of
        ArrayReply n es \<Rightarrow> if length fs \<noteq> n then Inl AssertFail else element_fields es 0 fs
      | _ \<Rightarrow> Inl AssertFail)"

definition all_fields :: "reply \<Rightarrow> fault + pairs" where
  "all_fields r = (case r of ArrayReply n es \<Rightarrow> read_pairs es n 0 | _ \<Rightarrow> Inl AssertFail)"

text \<open>\<open>Read\<close>: without a reply the result stays empty and the status is good.\<close>

definition RedisDB_Read ::
  "memory \<Rightarrow> printf \<Rightarrow> 'w socket \<Rightarrow> string \<Rightarrow> string list option \<Rightarrow> redis_client \<Rightarrow> 'w
    \<Rightarrow> (int \<times> pairs \<times> redis_client \<times> 'w) io_result" where
  "RedisDB_Read M pf S key flds cl w =
     (case flds of
        Some fs \<Rightarrow>
          io_bind (redisCommandArgv M S (map c_str (''HMGET'' # key # fs)) (Some (map length (''HMGET'' # key # fs)))
            (client_context cl) w) (\<lambda>(reply, c, w).
            case reply of
              None \<Rightarrow> Some (Inr (kOK, [], cl\<lparr>client_context := c\<rparr>, w))
            | Some r \<Rightarrow> io_then (selected fs r) (\<lambda>ps. Some (Inr (kOK, ps, cl\<lparr>client_context := c\<rparr>, w))))
      | None \<Rightarrow>
          io_bind (redisvCommand M pf S ''HGETALL %s'' [VaStr (c_str key)] (client_context cl) w) (\<lambda>(reply, c, w).
            case reply of
              None \<Rightarrow> Some (Inr (kOK, [], cl\<lparr>client_context := c\<rparr>, w))
            | Some r \<Rightarrow> io_then (all_fields r) (\<lambda>ps. Some (Inr (kOK, ps, cl\<lparr>client_context := c\<rparr>, w)))))"

definition RedisDB_Update ::
  "memory \<Rightarrow> printf \<Rightarrow> 'w socket \<Rightarrow> string \<Rightarrow> pairs \<Rightarrow> redis_client \<Rightarrow> 'w \<Rightarrow> (int \<times> redis_client \<times> 'w) io_result" where
  "RedisDB_Update M pf S key values cl w =
     io_then (redis_update_cmd key values) (\<lambda>cmd.
     io_bind (RedisClient_Command M pf S cl cmd w) (\<lambda>(_, cl, w). Some (Inr (kOK, cl, w))))"

definition RedisDB_Insert ::
  "memory \<Rightarrow> printf \<Rightarrow> 'w socket \<Rightarrow> string \<Rightarrow> pairs \<Rightarrow> redis_client \<Rightarrow> 'w \<Rightarrow> (int \<times> redis_client \<times> 'w) io_result" where
  "RedisDB_Insert M pf S key values cl w = RedisDB_Update M pf S key values cl w"

definition RedisDB_Delete ::
  "memory \<Rightarrow> printf \<Rightarrow> 'w socket \<Rightarrow> string \<Rightarrow> redis_client \<Rightarrow> 'w \<Rightarrow> (int \<times> redis_client \<times> 'w) io_result" where
  "RedisDB_Delete M pf S key cl w =
     io_bind (RedisClient_Command M pf S cl (redis_delete_cmd key) w) (\<lambda>(_, cl, w). Some (Inr (kOK, cl, w)))"

text \<open>\<open>Scan\<close> throws its message.\<close>

definition RedisDB_Scan :: "string \<Rightarrow> int \<Rightarrow> string list option \<Rightarrow> redis_client \<Rightarrow> fault + (int \<times> pairs list \<times> redis_client)" where
  "RedisDB_Scan key len flds cl = Inl (Thrown ''Scan: function not implemented!'')"

end
