(* ===== verification/Redis_Sds_Facts.thy ===== *)
theory Redis_Sds_Facts
  imports Redis_Sds
begin

text \<open>
  What the operations on dynamic strings do: \<open>sds_is s v\<close> says that the memory of \<open>s\<close> is laid out as the
  header describes and holds the bytes \<open>v\<close>. While strings stay below \<open>2 ^ 30\<close> bytes and memory is
  granted, every operation keeps the layout and does to the bytes what its name says.
\<close>

section \<open>The layout\<close>

definition sds_is :: "sds \<Rightarrow> string \<Rightarrow> bool" where
  "sds_is s v \<longleftrightarrow> sds_len s = int (length v) \<and> 0 \<le> sds_free s \<and> sds_len s + sds_free s < 2 ^ 31 \<and>
     (\<exists>rest. sds_buf s = v @ NUL # rest \<and> int (length rest) = sds_free s)"

lemma sds_isI:
  "sds_len s = int (length v) \<Longrightarrow> 0 \<le> sds_free s \<Longrightarrow> sds_len s + sds_free s < 2 ^ 31 \<Longrightarrow>
   sds_buf s = v @ NUL # rest \<Longrightarrow> int (length rest) = sds_free s \<Longrightarrow> sds_is s v"
  by (auto simp: sds_is_def)

lemma sds_isE:
  assumes "sds_is s v"
  obtains rest where "sds_len s = int (length v)" "sds_free s = int (length rest)"
    "length v + length rest < 2 ^ 31" "sds_buf s = v @ NUL # rest"
proof -
  from assms obtain rest where r: "sds_len s = int (length v)" "sds_len s + sds_free s < 2 ^ 31"
    "sds_buf s = v @ NUL # rest" "int (length rest) = sds_free s" by (auto simp: sds_is_def)
  then show thesis by (intro that [of rest]) auto
qed

lemma sds_is_unique: "sds_is s v \<Longrightarrow> sds_is s w \<Longrightarrow> v = w"
  by (auto simp: sds_is_def append_eq_append_conv)

lemma sdslen_is: "sds_is s v \<Longrightarrow> sdslen s = length v"
  by (auto simp: sds_is_def sdslen_def size_t_def)

lemma sds_buf_prefix: "sds_is s v \<Longrightarrow> take (length v) (sds_buf s) = v"
  by (auto simp: sds_is_def)

lemma sds_read_all: "sds_is s v \<Longrightarrow> mem_read (sds_buf s) 0 (sdslen s) = Inr v"
  by (elim sds_isE) (simp add: sdslen_def size_t_def mem_read_def)

lemma sds_len_is: "sds_is s v \<Longrightarrow> sds_len s = int (length v)" "sds_is s v \<Longrightarrow> length v < 2 ^ 31"
  by (auto simp: sds_is_def)

lemma sdsavail_is: "sds_is s v \<Longrightarrow> int (sdsavail s) = sds_free s"
  by (auto simp: sds_is_def sdsavail_def size_t_def)

section \<open>Allocation\<close>

lemma ample_malloc: "ample M \<Longrightarrow> n < 2 ^ 32 \<Longrightarrow> malloc M n = Some (map (garbage M n) [0..<n])"
  by (simp add: ample_def malloc_def)

lemma ample_realloc:
  "ample M \<Longrightarrow> n < 2 ^ 32 \<Longrightarrow> realloc M b n = Some (take n b @ map (garbage M n) [length b..<n])"
  by (simp add: ample_def realloc_def)

lemma malloc_buf:
  assumes "ample M" "n < 2 ^ 31"
  obtains block where "malloc M (sizeof_sdshdr + n + 1) = Some block" "length (buf_of_block block) = n + 1"
proof -
  have "malloc M (sizeof_sdshdr + n + 1) =
      Some (map (garbage M (sizeof_sdshdr + n + 1)) [0..<sizeof_sdshdr + n + 1])"
    using assms by (intro ample_malloc) (auto simp: sizeof_sdshdr_def)
  then show thesis by (rule that) (simp add: buf_of_block_def)
qed

lemma sdsnewlen_is:
  assumes "ample M" "n \<le> length p" "n < 2 ^ 31 - 1"
  shows "\<exists>s. sdsnewlen M (Some p) n = Inr (Some s) \<and> sds_is s (take n p)"
proof -
  obtain block where m: "malloc M (sizeof_sdshdr + n + 1) = Some block" and l: "length (buf_of_block block) = n + 1"
    using malloc_buf [OF assms(1), of n] assms(3) by auto
  obtain x where x: "drop n (buf_of_block block) = [x]"
    using l by (cases "drop n (buf_of_block block)") (auto dest: arg_cong [of _ _ length])
  have "(if n \<noteq> 0 then and_then (mem_read p 0 n) (mem_write (buf_of_block block) 0) else Inr (buf_of_block block))
      = Inr (take n p @ [x])"
    using assms(2) l x by (cases "n = 0") (simp_all add: mem_read_def mem_write_def)
  then have "sdsnewlen M (Some p) n = Inr (Some \<lparr>sds_len = c_int (int n), sds_free = 0, sds_buf = take n p @ [NUL]\<rparr>)"
    using assms(2) m by (simp add: sdsnewlen_def mem_write_def Let_def)
  moreover have "sds_is \<lparr>sds_len = c_int (int n), sds_free = 0, sds_buf = take n p @ [NUL]\<rparr> (take n p)"
    using assms by (auto simp: sds_is_def c_int_small)
  ultimately show ?thesis by blast
qed

lemma sdsempty_is: "ample M \<Longrightarrow> \<exists>s. sdsempty M = Inr (Some s) \<and> sds_is s []"
  using sdsnewlen_is [of M 0 "c_str []"] by (simp add: sdsempty_def)

text \<open>Within \<open>sdscatfmt\<close> the byte after the string is not zero yet.\<close>

definition sds_lay :: "sds \<Rightarrow> string \<Rightarrow> char \<Rightarrow> bool" where
  "sds_lay s v x \<longleftrightarrow> sds_len s = int (length v) \<and> 0 \<le> sds_free s \<and> sds_len s + sds_free s < 2 ^ 31 \<and>
     (\<exists>rest. sds_buf s = v @ x # rest \<and> int (length rest) = sds_free s)"

lemma sds_lay_NUL: "sds_lay s v NUL \<longleftrightarrow> sds_is s v"
  by (simp add: sds_lay_def sds_is_def)

lemma sds_layI:
  "sds_len s = int (length v) \<Longrightarrow> 0 \<le> sds_free s \<Longrightarrow> sds_len s + sds_free s < 2 ^ 31 \<Longrightarrow>
   sds_buf s = v @ x # rest \<Longrightarrow> int (length rest) = sds_free s \<Longrightarrow> sds_lay s v x"
  by (auto simp: sds_lay_def)

lemma sds_layE:
  assumes "sds_lay s v x"
  obtains rest where "sds_len s = int (length v)" "sds_free s = int (length rest)"
    "length v + length rest < 2 ^ 31" "sds_buf s = v @ x # rest"
proof -
  from assms obtain rest where r: "sds_len s = int (length v)" "sds_len s + sds_free s < 2 ^ 31"
    "sds_buf s = v @ x # rest" "int (length rest) = sds_free s" by (auto simp: sds_lay_def)
  then show thesis by (intro that [of rest]) auto
qed

lemma sdsMakeRoomFor_lay:
  assumes "ample M" "sds_lay s v x" "length v + n < 2 ^ 30"
  shows "\<exists>s'. sdsMakeRoomFor M s n = Inr (Some s') \<and> sds_lay s' v x \<and> int n \<le> sds_free s'"
proof (cases "n \<le> sdsavail s")
  case True
  then show ?thesis using assms by (auto simp: sdsMakeRoomFor_def sdsavail_def sds_lay_def size_t_def)
next
  case False
  obtain rest where s: "sds_len s = int (length v)" "sds_free s = int (length rest)"
    "length v + length rest < 2 ^ 31" "sds_buf s = v @ x # rest" by (rule sds_layE [OF assms(2)])
  define k where "k = (if length v + n < SDS_MAX_PREALLOC then (length v + n) * 2
    else length v + n + SDS_MAX_PREALLOC)"
  have len: "sdslen s = length v" using s by (simp add: sdslen_def size_t_def)
  have avail: "length rest < n" using False s by (auto simp: sdsavail_def size_t_def)
  have k: "length v + n \<le> k" "k < 2 ^ 31 - 100" using assms(3) by (auto simp: k_def SDS_MAX_PREALLOC_def)
  have sz: "size_t (int (length v + n)) = length v + n"
    "size_t (int (length v + n + SDS_MAX_PREALLOC)) = length v + n + SDS_MAX_PREALLOC"
    "size_t (int (sizeof_sdshdr + k + 1)) = 9 + k"
    using assms(3) k by (auto simp: size_t_def SDS_MAX_PREALLOC_def sizeof_sdshdr_def nat_mod_distrib)
  let ?g = "map (garbage M (9 + k)) [length (block_of_buf (sds_buf s))..<9 + k]"
  have r: "realloc M (block_of_buf (sds_buf s)) (9 + k) = Some (take (9 + k) (block_of_buf (sds_buf s)) @ ?g)"
    using assms(1) k by (intro ample_realloc) auto
  have t: "take (9 + k) (block_of_buf (sds_buf s)) = block_of_buf (sds_buf s)"
    using avail k s by (simp add: block_of_buf_def sizeof_sdshdr_def)
  have "sdsMakeRoomFor M s n = Inr (Some (s\<lparr>sds_free := c_int (int k - int (length v)),
      sds_buf := sds_buf s @ ?g\<rparr>))"
    using False sz r t unfolding sdsMakeRoomFor_def len Let_def
    by (auto simp: k_def buf_of_block_def block_of_buf_def sizeof_sdshdr_def)
  moreover have "sds_lay (s\<lparr>sds_free := c_int (int k - int (length v)), sds_buf := sds_buf s @ ?g\<rparr>) v x"
    using k s avail
    by (intro sds_layI [where rest = "rest @ ?g"]) (auto simp: c_int_small block_of_buf_def sizeof_sdshdr_def)
  moreover have "int n \<le> c_int (int k - int (length v))" using k by (simp add: c_int_small)
  ultimately show ?thesis by auto
qed

lemma sdsMakeRoomFor_is:
  "ample M \<Longrightarrow> sds_is s v \<Longrightarrow> length v + n < 2 ^ 30 \<Longrightarrow>
   \<exists>s'. sdsMakeRoomFor M s n = Inr (Some s') \<and> sds_is s' v \<and> int n \<le> sds_free s'"
  using sdsMakeRoomFor_lay [of M s v NUL n] by (simp add: sds_lay_NUL)

section \<open>Appending and copying\<close>

text \<open>Writing bytes and a terminating zero over the free space.\<close>

lemma write_tail:
  assumes "sds_buf s = v @ NUL # rest" "length t \<le> length rest"
  shows "mem_write (sds_buf s) (length v) t = Inr (v @ t @ drop (length t) (NUL # rest))"
    "mem_write (v @ t @ drop (length t) (NUL # rest)) (length v + length t) [NUL] =
      Inr (v @ t @ NUL # drop (length t) rest)"
proof -
  let ?x = "(NUL # rest) ! length t"
  have x: "drop (length t) (NUL # rest) = ?x # drop (length t) rest"
    using Cons_nth_drop_Suc [of "length t" "NUL # rest"] assms(2) by (simp add: le_imp_less_Suc)
  show "mem_write (sds_buf s) (length v) t = Inr (v @ t @ drop (length t) (NUL # rest))"
    using assms by (simp add: mem_write_def)
  show "mem_write (v @ t @ drop (length t) (NUL # rest)) (length v + length t) [NUL] =
      Inr (v @ t @ NUL # drop (length t) rest)"
    using assms(2) unfolding x by (simp add: mem_write_def)
qed

lemma sdscatlen_is:
  assumes "ample M" "sds_is s v" "n \<le> length t" "length v + n < 2 ^ 30"
  shows "\<exists>s'. sdscatlen M s t n = Inr (Some s') \<and> sds_is s' (v @ take n t)"
proof -
  obtain s1 where s1: "sdsMakeRoomFor M s n = Inr (Some s1)" "sds_is s1 v" "int n \<le> sds_free s1"
    using sdsMakeRoomFor_is [OF assms(1,2,4)] by blast
  obtain rest where r: "sds_len s1 = int (length v)" "sds_free s1 = int (length rest)"
    "length v + length rest < 2 ^ 31" "sds_buf s1 = v @ NUL # rest" by (rule sds_isE [OF s1(2)])
  have n: "length (take n t) = n" "n \<le> length rest" using assms(3) s1(3) r by auto
  note w = write_tail [OF r(4), of "take n t", unfolded n(1), OF n(2), unfolded r(4)]
  let ?s = "\<lparr>sds_len = c_int (int (length v) + int n), sds_free = c_int (int (length rest) - int n),
     sds_buf = v @ take n t @ NUL # drop n rest\<rparr>"
  have "sdscatlen M s t n = Inr (Some ?s)"
    using assms(3) r by (simp add: sdscatlen_def sdslen_is [OF assms(2)] s1(1) mem_read_def w Let_def)
  moreover have "sds_is ?s (v @ take n t)"
    using n r(3) assms(4) by (intro sds_isI [where rest = "drop n rest"]) (auto simp: c_int_small)
  ultimately show ?thesis by blast
qed

lemma sdscat_is:
  assumes "ample M" "sds_is s v" "NUL \<notin> set t" "length v + length t < 2 ^ 30"
  shows "\<exists>s'. sdscat M s (c_str t) = Inr (Some s') \<and> sds_is s' (v @ t)"
  using sdscatlen_is [OF assms(1,2), of "length t" "c_str t"] assms(3,4) by (simp add: sdscat_def)

lemma sdscatsds_is:
  assumes "ample M" "sds_is s v" "sds_is t w" "length v + length w < 2 ^ 30"
  shows "\<exists>s'. sdscatsds M s t = Inr (Some s') \<and> sds_is s' (v @ w)"
proof -
  have "length w \<le> length (sds_buf t)" using assms(3) by (auto simp: sds_is_def)
  then show ?thesis using sdscatlen_is [OF assms(1,2) _ assms(4), of "sds_buf t"] assms(3)
    by (simp add: sdscatsds_def sdslen_is sds_buf_prefix)
qed

lemma sdsdup_is:
  assumes "ample M" "sds_is s v" "length v < 2 ^ 31 - 1"
  shows "\<exists>s'. sdsdup M s = Inr (Some s') \<and> sds_is s' v"
proof -
  have "length v \<le> length (sds_buf s)" using assms(2) by (auto simp: sds_is_def)
  then show ?thesis using sdsnewlen_is [OF assms(1) _ assms(3), of "sds_buf s"] assms(2)
    by (simp add: sdsdup_def sdslen_is sds_buf_prefix)
qed

text \<open>Overwriting the front of the buffer.\<close>

lemma write_front:
  assumes "length t < length b"
  shows "mem_write b 0 t = Inr (t @ drop (length t) b)"
    "mem_write (t @ drop (length t) b) (length t) [NUL] = Inr (t @ NUL # drop (Suc (length t)) b)"
  using assms by (simp_all add: mem_write_def)

lemma front_is:
  assumes "length t < length b" "length b \<le> 2 ^ 31"
  shows "sds_is \<lparr>sds_len = int (length t), sds_free = int (length b) - 1 - int (length t),
    sds_buf = t @ NUL # drop (Suc (length t)) b\<rparr> t"
  using assms by (intro sds_isI [where rest = "drop (Suc (length t)) b"]) auto

lemma sdscpylen_is:
  assumes "ample M" "sds_is s v" "n \<le> length t" "n < 2 ^ 30" "length v < 2 ^ 30"
  shows "\<exists>s'. sdscpylen M s t n = Inr (Some s') \<and> sds_is s' (take n t)"
proof -
  have tot: "size_t (sds_free s + sds_len s) = length (sds_buf s) - 1" if "sds_is s w" for s w
    using that by (auto simp: sds_is_def size_t_def)
  have n: "n - length v = size_t (int n - sds_len s)" if "length v \<le> n"
    using that assms(2,4) by (simp add: sds_len_is(1) size_t_def)
  obtain s1 where s1: "(if size_t (sds_free s + sds_len s) < n then sdsMakeRoomFor M s (size_t (int n - sds_len s))
      else Inr (Some s)) = Inr (Some s1)" "sds_is s1 v" "n < length (sds_buf s1)"
  proof (cases "size_t (sds_free s + sds_len s) < n")
    case True
    then have v: "length v \<le> n" using tot [OF assms(2)] assms(2) by (auto simp: sds_is_def)
    obtain s1 where "sdsMakeRoomFor M s (n - length v) = Inr (Some s1)" "sds_is s1 v" "int (n - length v) \<le> sds_free s1"
      using sdsMakeRoomFor_is [OF assms(1,2), of "n - length v"] v assms(4) by auto
    moreover from this(2,3) have "n < length (sds_buf s1)" using v by (auto simp: sds_is_def)
    ultimately show thesis using True n [OF v] by (intro that) auto
  next
    case False
    moreover from this have "n < length (sds_buf s)" using tot [OF assms(2)] assms(2) by (auto simp: sds_is_def)
    ultimately show thesis using assms(2) by (intro that) auto
  qed
  have len: "length (take n t) = n" "length (sds_buf s1) \<le> 2 ^ 31" using assms(3) s1(2) by (auto simp: sds_is_def)
  note w = write_front [of "take n t" "sds_buf s1", unfolded len(1), OF s1(3)]
  have "sdscpylen M s t n = Inr (Some \<lparr>sds_len = c_int (int n), sds_free = c_int (int (length (sds_buf s1) - 1) - int n),
      sds_buf = take n t @ NUL # drop (Suc n) (sds_buf s1)\<rparr>)"
    using assms(3) by (simp add: sdscpylen_def s1(1) tot [OF s1(2)] mem_read_def w Let_def)
  moreover have "sds_is \<lparr>sds_len = c_int (int n), sds_free = c_int (int (length (sds_buf s1) - 1) - int n),
      sds_buf = take n t @ NUL # drop (Suc n) (sds_buf s1)\<rparr> (take n t)"
    using front_is [of "take n t" "sds_buf s1", unfolded len(1), OF s1(3) len(2)] s1(3) assms(4) len(2)
    by (simp add: c_int_small of_nat_diff)
  ultimately show ?thesis by blast
qed

lemma sdsgrowzero_is:
  assumes "ample M" "sds_is s v" "n < 2 ^ 30"
  shows "\<exists>s'. sdsgrowzero M s n = Inr (Some s') \<and> sds_is s' (v @ replicate (n - length v) NUL)"
proof (cases "n \<le> length v")
  case True
  then show ?thesis using assms(2) by (simp add: sdsgrowzero_def sdslen_is)
next
  case False
  define k where "k = n - length v"
  have n: "n = length v + k" "0 < k" using False by (simp_all add: k_def)
  obtain s1 where s1: "sdsMakeRoomFor M s k = Inr (Some s1)" "sds_is s1 v" "int k \<le> sds_free s1"
    using sdsMakeRoomFor_is [OF assms(1,2), of k] assms(3) n by auto
  obtain rest where r: "sds_len s1 = int (length v)" "sds_free s1 = int (length rest)"
    "length v + length rest < 2 ^ 31" "sds_buf s1 = v @ NUL # rest" by (rule sds_isE [OF s1(2)])
  have kr: "k \<le> length rest" using s1(3) r(2) by simp
  have rep: "replicate (Suc k) NUL = replicate k NUL @ [NUL]" by (simp add: replicate_append_same)
  have w: "mem_write (sds_buf s1) (length v) (replicate (Suc k) NUL) = Inr (v @ replicate k NUL @ NUL # drop k rest)"
    using kr r(4) unfolding rep by (simp add: mem_write_def)
  have tot: "size_t (sds_len s1 + sds_free s1) = length v + length rest" using r by (simp add: size_t_def nat_mod_distrib nat_add_distrib)
  let ?s = "\<lparr>sds_len = c_int (int n), sds_free = c_int (int (length v + length rest) - int n),
      sds_buf = v @ replicate k NUL @ NUL # drop k rest\<rparr>"
  have "sdsgrowzero M s n = Inr (Some ?s)"
    using n w by (simp add: sdsgrowzero_def sdslen_is [OF assms(2)] s1(1) tot Let_def)
  moreover have "sds_is ?s (v @ replicate k NUL)"
    using n kr r(3) assms(3) by (intro sds_isI [where rest = "drop k rest"]) (auto simp: c_int_small)
  ultimately show ?thesis by (auto simp: k_def)
qed

lemma sdsclear_is:
  assumes "sds_is s v"
  shows "\<exists>s'. sdsclear s = Inr s' \<and> sds_is s' []"
proof -
  obtain rest where r: "sds_len s = int (length v)" "sds_free s = int (length rest)"
    "length v + length rest < 2 ^ 31" "sds_buf s = v @ NUL # rest" by (rule sds_isE [OF assms])
  obtain c b where b: "sds_buf s = c # b" "length b = length v + length rest"
    using that [of "hd (sds_buf s)" "tl (sds_buf s)"] r(4) by simp
  have "mem_write (sds_buf s) 0 [NUL] = Inr (NUL # b)" by (simp add: b mem_write_def)
  then show ?thesis using r(1-3) b
    by (auto simp: sdsclear_def c_int_small intro!: sds_isI [where rest = b])
qed

lemma sdsupdatelen_is:
  assumes "sds_is s v"
  shows "\<exists>s'. sdsupdatelen s = Inr s' \<and> sds_is s' (takeWhile (\<lambda>c. c \<noteq> NUL) v)"
proof -
  obtain rest where r: "sds_len s = int (length v)" "sds_free s = int (length rest)"
    "length v + length rest < 2 ^ 31" "sds_buf s = v @ NUL # rest" by (rule sds_isE [OF assms])
  obtain w rest' where w: "takeWhile (\<lambda>c. c \<noteq> NUL) v = w" "NUL \<notin> set w"
    and t: "sds_buf s = w @ NUL # rest'" "length w + length rest' = length v + length rest"
  proof (cases "NUL \<in> set v")
    case True
    then obtain ys zs where v: "v = ys @ NUL # zs" "NUL \<notin> set ys" using split_list_first by metis
    have "takeWhile (\<lambda>c. c \<noteq> NUL) v = ys" unfolding v(1) using v(2) by (subst takeWhile_append2; auto)
    then show thesis using v r(4) by (intro that [of ys "zs @ NUL # rest"]) auto
  next
    case False
    moreover have "takeWhile (\<lambda>c. c \<noteq> NUL) v = v" using False by (auto simp: takeWhile_eq_all_conv)
    ultimately show thesis using r(4) by (intro that [of v rest]) auto
  qed
  have "takeWhile (\<lambda>c. c \<noteq> NUL) (w @ NUL # rest') = w" using w(2) by (subst takeWhile_append2; auto)
  then have len: "c_strlen (sds_buf s) = Inr (length w)" by (simp add: c_strlen_def t(1))
  have le: "length w \<le> length v" using length_takeWhile_le [of "\<lambda>c. c \<noteq> NUL" v] w(1) by simp
  let ?s = "s\<lparr>sds_free := c_int (sds_free s + (sds_len s - int (length w))), sds_len := int (length w)\<rparr>"
  have "sdsupdatelen s = Inr ?s" using r(1-3) le by (simp add: sdsupdatelen_def len Let_def c_int_small)
  moreover have "sds_is ?s w"
  proof (rule sds_isI)
    show "sds_buf ?s = w @ NUL # rest'" using t by simp
  qed (use r(1-3) le t(2) in \<open>simp_all add: c_int_small\<close>)
  ultimately show ?thesis using w(1) by blast
qed

section \<open>Cutting\<close>

text \<open>Moving a part of the string to the front and ending it there.\<close>

lemma move_front:
  assumes "sds_is s v" "i + n \<le> length v" "t = take n (drop i v)"
  shows "(if i \<noteq> 0 then and_then (mem_read (sds_buf s) i n) (mem_write (sds_buf s) 0) else Inr (sds_buf s))
      = Inr (t @ drop n (sds_buf s))"
    "mem_write (t @ drop n (sds_buf s)) n [NUL] = Inr (t @ NUL # drop (Suc n) (sds_buf s))"
    "sds_is \<lparr>sds_len = c_int (int n), sds_free = c_int (sds_free s + (sds_len s - int n)),
       sds_buf = t @ NUL # drop (Suc n) (sds_buf s)\<rparr> t"
proof -
  obtain rest where r: "sds_len s = int (length v)" "sds_free s = int (length rest)"
    "length v + length rest < 2 ^ 31" "sds_buf s = v @ NUL # rest" by (rule sds_isE [OF assms(1)])
  have t: "length t = n" "n < length (sds_buf s)" using assms(2,3) r(4) by auto
  have read: "mem_read (sds_buf s) i n = Inr t" using assms(2,3) r(4) by (simp add: mem_read_def)
  note w = write_front [of t "sds_buf s", unfolded t(1), OF t(2)]
  show "(if i \<noteq> 0 then and_then (mem_read (sds_buf s) i n) (mem_write (sds_buf s) 0) else Inr (sds_buf s))
      = Inr (t @ drop n (sds_buf s))"
  proof (cases "i = 0")
    case True
    then have "take n (sds_buf s) = t" using assms(2,3) r(4) by simp
    then show ?thesis using True append_take_drop_id [of n "sds_buf s"] by simp
  qed (simp add: read w)
  show "mem_write (t @ drop n (sds_buf s)) n [NUL] = Inr (t @ NUL # drop (Suc n) (sds_buf s))" by (rule w(2))
  have "c_int (int n) = int n" "c_int (sds_free s + (sds_len s - int n)) = int (length (sds_buf s)) - 1 - int n"
    using assms(2) r t(2) by (auto simp: c_int_small)
  then show "sds_is \<lparr>sds_len = c_int (int n), sds_free = c_int (sds_free s + (sds_len s - int n)),
       sds_buf = t @ NUL # drop (Suc n) (sds_buf s)\<rparr> t"
    using front_is [of t "sds_buf s", unfolded t(1)] t(2) r(3,4) by simp
qed

text \<open>Negative positions count from the end.\<close>

definition from_end :: "nat \<Rightarrow> int \<Rightarrow> int" where
  "from_end n i = (if i < 0 then max 0 (int n + i) else i)"

definition slice :: "string \<Rightarrow> int \<Rightarrow> int \<Rightarrow> string" where
  "slice v start stop =
     (let start = from_end (length v) start; stop = from_end (length v) stop
      in if stop < start then [] else take (nat (stop - start + 1)) (drop (nat start) v))"

lemma sdsrange_is:
  assumes "sds_is s v" "- (2 ^ 31) \<le> a" "a < 2 ^ 31" "- (2 ^ 31) \<le> b" "b < 2 ^ 31"
  shows "\<exists>s'. sdsrange s a b = Inr s' \<and> sds_is s' (slice v a b)"
proof (cases "v = []")
  case True
  then show ?thesis using assms(1) sdslen_is [OF assms(1)]
    by (auto simp: sdsrange_def slice_def Let_def)
next
  case False
  let ?n = "int (length v)"
  have n: "0 < ?n" "?n < 2 ^ 31" using False sds_len_is(2) [OF assms(1)] by auto
  define a' b' where "a' = from_end (length v) a" and "b' = from_end (length v) b"
  have norm: "(if i < 0 then let i = c_int (?n + i) in if i < 0 then 0 else i else i) = from_end (length v) i"
    if "- (2 ^ 31) \<le> i" "i < 2 ^ 31" for i
    using that n by (auto simp: from_end_def c_int_small Let_def)
  have ab: "0 \<le> a'" "0 \<le> b'" "a' < 2 ^ 31" "b' < 2 ^ 31"
    using assms(2-5) n by (auto simp: a'_def b'_def from_end_def)
  define stop where "stop = min b' (?n - 1)"
  define k where "k = (if b' < a' \<or> ?n \<le> a' then 0 else nat (stop - a' + 1))"
  define i where "i = (if b' < a' then 0 else a')"
  have sl: "slice v a b = take k (drop (nat i) v)"
    using ab unfolding slice_def a'_def [symmetric] b'_def [symmetric] Let_def k_def i_def stop_def
    by (auto simp: nat_le_iff min_def)
  have nl: "(let newlen = if b' < a' then 0 else size_t (b' - a' + 1)
        in if newlen \<noteq> 0 then
             if c_int ?n \<le> a' then (a', 0)
             else if c_int ?n \<le> b' then let b = c_int (?n - 1) in (a', if b < a' then 0 else size_t (b - a' + 1))
             else (a', newlen)
           else (0, newlen)) = (i, k)"
    using ab n by (auto simp: Let_def c_int_small size_t_small k_def i_def stop_def)
  have pair: "(i \<noteq> 0 \<and> k \<noteq> 0) = (nat i \<noteq> 0 \<and> k \<noteq> 0)" using ab by (auto simp: i_def)
  have ik: "nat i + k \<le> length v \<or> k = 0" using ab n by (auto simp: k_def i_def stop_def)
  let ?t = "slice v a b"
  have body: "(if i \<noteq> 0 \<and> k \<noteq> 0 then and_then (mem_read (sds_buf s) (nat i) k) (mem_write (sds_buf s) 0)
      else Inr (sds_buf s)) = Inr (?t @ drop k (sds_buf s))" "mem_write (?t @ drop k (sds_buf s)) k [NUL] =
      Inr (?t @ NUL # drop (Suc k) (sds_buf s))" "sds_is \<lparr>sds_len = c_int (int k),
        sds_free = c_int (sds_free s + (sds_len s - int k)), sds_buf = ?t @ NUL # drop (Suc k) (sds_buf s)\<rparr> ?t"
    using move_front [OF assms(1), of "nat i" k ?t] move_front [OF assms(1), of 0 0 ?t] ik sl unfolding pair
    by (cases "k = 0"; simp)+
  have "sdsrange s a b = Inr \<lparr>sds_len = c_int (int k), sds_free = c_int (sds_free s + (sds_len s - int k)),
      sds_buf = ?t @ NUL # drop (Suc k) (sds_buf s)\<rparr>"
    using False nl body(1,2) unfolding sdsrange_def sdslen_is [OF assms(1)] Let_def [of "length v"]
      norm [OF assms(2,3)] norm [OF assms(4,5)] a'_def [symmetric] b'_def [symmetric]
    by (simp add: Let_def)
  then show ?thesis using body(3) by blast
qed

lemma slice_suffix: "0 \<le> a \<Longrightarrow> slice v a (- 1) = drop (nat a) v"
  by (cases "v = []") (auto simp: slice_def from_end_def Let_def)

text \<open>Trimming removes the characters of the set at both ends, and zero bytes with them.\<close>

definition trim_set :: "string \<Rightarrow> string \<Rightarrow> string" where
  "trim_set cset v = (let p = (\<lambda>c. c \<in> set cset \<or> c = NUL) in rev (dropWhile p (rev (dropWhile p v))))"

lemma drop_takeWhile_rev: "rev (dropWhile p (rev xs)) = take (length xs - length (takeWhile p (rev xs))) xs"
  by (metis dropWhile_eq_drop length_rev rev_rev_ident rev_take take_rev rev_drop)

lemma takeWhile_rev_drop:
  assumes "i < length v" "\<not> p (v ! i)" "j \<le> i"
  shows "takeWhile p (rev (drop j v)) = takeWhile p (rev (drop (Suc i) v))"
proof -
  have "drop (i - j) (drop j v) = v ! i # drop (Suc i) v" using assms Cons_nth_drop_Suc [of i v] by simp
  then have "drop j v = take (i - j) (drop j v) @ v ! i # drop (Suc i) v"
    by (metis append_take_drop_id)
  then have "rev (drop j v) = rev (drop (Suc i) v) @ v ! i # rev (take (i - j) (drop j v))"
    by (metis append.assoc append_Cons append_Nil rev.simps(2) rev_append)
  then show ?thesis using assms(2) by (metis takeWhile_tail)
qed

lemma trim_set_take:
  fixes v cset
  defines "p \<equiv> (\<lambda>c. c \<in> set cset \<or> c = NUL)"
  defines "i \<equiv> length (takeWhile p v)"
  defines "e \<equiv> length v - 1 - length (takeWhile p (rev (drop 1 v)))"
  defines "n \<equiv> (if v = [] \<or> e < i then 0 else e - i + 1)"
  shows "trim_set cset v = take n (drop i v)" "i + n \<le> length v"
proof -
  have il: "i \<le> length v" unfolding i_def by (rule length_takeWhile_le)
  have d: "dropWhile p v = drop i v" by (simp add: i_def dropWhile_eq_drop)
  have "trim_set cset v = take n (drop i v) \<and> i + n \<le> length v"
  proof (cases "i = length v")
    case True
    then have "dropWhile p v = []" using d by simp
    then have all: "\<forall>c \<in> set v. p c" by simp
    then have "\<forall>c \<in> set (rev (drop 1 v)). p c" by (auto dest: in_set_dropD)
    then have tw: "takeWhile p (rev (drop 1 v)) = rev (drop 1 v)" unfolding takeWhile_eq_all_conv .
    have "e = 0" unfolding e_def tw by simp
    then show ?thesis using True all by (auto simp: trim_set_def p_def [symmetric] n_def dest: set_dropWhileD)
  next
    case False
    then have lt: "i < length v" using il by simp
    have np: "\<not> p (v ! i)" using nth_length_takeWhile [of p v] lt by (simp add: i_def)
    let ?m = "length (takeWhile p (rev (drop (Suc i) v)))"
    have m: "?m \<le> length v - Suc i" using length_takeWhile_le [of p "rev (drop (Suc i) v)"] by simp
    have "length (takeWhile p (rev (drop 1 v))) = ?m"
      using takeWhile_rev_drop [OF lt, of p 1] np by (cases "i = 0") auto
    then have n: "n = length v - i - ?m" using m lt by (auto simp: n_def e_def)
    have "trim_set cset v = take (length v - i - ?m) (drop i v)"
      using takeWhile_rev_drop [OF lt, of p i] np
      by (simp add: trim_set_def p_def [symmetric] d drop_takeWhile_rev)
    then show ?thesis using n lt by simp
  qed
  then show "trim_set cset v = take n (drop i v)" "i + n \<le> length v" by auto
qed

lemma sdstrim_is:
  assumes "sds_is s v"
  shows "\<exists>s'. sdstrim s cset = Inr s' \<and> sds_is s' (trim_set cset v)"
proof -
  let ?p = "\<lambda>c. c \<in> set cset \<or> c = NUL"
  let ?e = "length v - 1 - length (takeWhile ?p (rev (drop 1 v)))"
  obtain i n where i: "length (takeWhile ?p v) = i" and n: "(if v = [] \<or> ?e < i then 0 else ?e - i + 1) = n" by blast
  have t: "trim_set cset v = take n (drop i v)" "i + n \<le> length v"
    using trim_set_take [of cset v] unfolding i n by auto
  note mv = move_front [OF assms t(2) t(1)]
  have "take (sdslen s) (sds_buf s) = v" using assms by (simp add: sdslen_is sds_buf_prefix)
  then have "sdstrim s cset = Inr \<lparr>sds_len = c_int (int n), sds_free = c_int (sds_free s + (sds_len s - int n)),
      sds_buf = trim_set cset v @ NUL # drop (Suc n) (sds_buf s)\<rparr>"
    unfolding sdstrim_def Let_def by (simp only: i n mv(1,2) and_then_simps)
  then show ?thesis using mv(3) by blast
qed

section \<open>Numbers and formats\<close>

lemma rev_reversed_digits [simp]: "rev (reversed_digits n) = to_string n"
proof (induction n rule: to_string.induct)
  case (1 n)
  then show ?case by (subst reversed_digits.simps, subst to_string.simps) simp
qed

lemma length_to_string: "n < 10 ^ k \<Longrightarrow> 0 < k \<Longrightarrow> length (to_string n) \<le> k"
proof (induction k arbitrary: n)
  case (Suc k)
  show ?case
  proof (cases "n div 10 = 0")
    case True
    then show ?thesis by (subst to_string.simps) simp
  next
    case False
    then have "k \<noteq> 0" using Suc.prems(1) by (cases k) auto
    moreover have "n div 10 < 10 ^ k" using Suc.prems(1) by simp
    ultimately have "length (to_string (n div 10)) \<le> k" using Suc.IH by simp
    then show ?thesis using False by (subst to_string.simps) simp
  qed
qed simp

lemma length_reversed_digits: "length (reversed_digits n) = length (to_string n)"
  by (metis length_rev rev_reversed_digits)

lemma sdsull2str_eq: "n < 2 ^ 64 \<Longrightarrow> sdsull2str n = Inr (to_string n)"
  using length_to_string [of n 20] by (simp add: sdsull2str_def Let_def SDS_LLSTR_SIZE_def length_reversed_digits)

text \<open>Decimal notation with a sign, as \<open>%d\<close> and \<open>%lld\<close> print it.\<close>

definition show_int :: "int \<Rightarrow> string" where
  "show_int i = (if i < 0 then CHR ''-'' # to_string (nat (- i)) else to_string (nat i))"

lemma length_show_int:
  assumes "- (2 ^ 63) \<le> i" "i < 2 ^ 63"
  shows "length (show_int i) \<le> 20"
proof -
  have "nat (- i) < 10 ^ 19" "nat i < 10 ^ 19" using assms by (auto simp: nat_less_iff)
  then show ?thesis using length_to_string [of "nat (- i)" 19] length_to_string [of "nat i" 19]
    by (simp add: show_int_def)
qed

lemma sdsll2str_eq: "- (2 ^ 63) < i \<Longrightarrow> i < 2 ^ 63 \<Longrightarrow> sdsll2str i = Inr (show_int i)"
  using length_show_int [of i]
  by (cases "i < 0") (simp_all add: sdsll2str_def long_arith_def Let_def SDS_LLSTR_SIZE_def show_int_def size_t_small length_reversed_digits)

text \<open>Of \<open>LLONG_MIN\<close> the negation is undefined.\<close>

lemma sdsll2str_min: "sdsll2str (- (2 ^ 63)) = Inl SignedOverflow"
  by (simp add: sdsll2str_def long_arith_def)

lemma sdsfromlonglong_is:
  assumes "ample M" "- (2 ^ 63) < i" "i < 2 ^ 63"
  shows "\<exists>s. sdsfromlonglong M i = Inr (Some s) \<and> sds_is s (show_int i)"
proof -
  have l: "length (show_int i) \<le> 32" using length_show_int [of i] assms by simp
  have "sdsfromlonglong M i = sdsnewlen M (Some (show_int i)) (length (show_int i))"
    using assms l by (auto simp: sdsfromlonglong_def long_arith_def Let_def show_int_def size_t_small)
  then show ?thesis using sdsnewlen_is [OF assms(1), of "length (show_int i)" "show_int i"] l by simp
qed

lemma sdscatvprintf_from_is:
  assumes "ample M" "sds_is s v" "NUL \<notin> set p" "length v + length p < 2 ^ 30" "0 < n" "n < 2 ^ 32"
  shows "\<exists>s'. sdscatvprintf_from M s p n = Inr (Some s') \<and> sds_is s' (v @ p)"
  using assms
proof (induction M s p n rule: sdscatvprintf_from.induct)
  case (1 M s p n)
  show ?case
  proof (cases "n < length p + 2")
    case True
    then have "n * 2 < 2 ^ 32" using "1.prems"(4) by simp
    moreover have "may_alloc M n" using "1.prems"(1,6) by (simp add: ample_def)
    ultimately show ?thesis using True "1.IH" "1.prems" by (subst sdscatvprintf_from.simps) simp
  next
    case False
    then show ?thesis using sdscat_is [OF "1.prems"(1-4)] "1.prems"(1,6)
      by (subst sdscatvprintf_from.simps) (simp add: ample_def)
  qed
qed

lemma sdscatvprintf_is:
  assumes "ample M" "sds_is s v" "NUL \<notin> set p" "length v + length p < 2 ^ 30"
  shows "\<exists>s'. sdscatvprintf M s p = Inr (Some s') \<and> sds_is s' (v @ p)"
  using sdscatvprintf_from_is [OF assms, of 16] by (simp add: sdscatvprintf_def)

text \<open>One step of \<open>sdscatfmt\<close> at the end of the string.\<close>

lemma fmt_room_lay:
  assumes "ample M" "sds_lay s v x" "length v + n < 2 ^ 30"
  shows "\<exists>s'. fmt_room M s (int n) = Inr s' \<and> sds_lay s' v x \<and> int n \<le> sds_free s'"
  using sdsMakeRoomFor_lay [OF assms] assms by (auto simp: fmt_room_def size_t_def)

lemma lay_write:
  assumes "sds_lay s v x" "int (length t) \<le> sds_free s" "t \<noteq> []" "length v + length t < 2 ^ 30"
  shows "\<exists>b y. write_at (sds_buf s) (int (length v)) t = Inr b \<and>
    sds_lay (s\<lparr>sds_len := c_int (sds_len s + int (length t)), sds_free := c_int (sds_free s - int (length t)), sds_buf := b\<rparr>) (v @ t) y"
proof -
  obtain rest where r: "sds_len s = int (length v)" "sds_free s = int (length rest)"
    "length v + length rest < 2 ^ 31" "sds_buf s = v @ x # rest" by (rule sds_layE [OF assms(1)])
  have tr: "length t < length (x # rest)" "length t \<le> length rest" using assms(2) r by auto
  let ?y = "(x # rest) ! length t"
  have d: "drop (length t) (x # rest) = ?y # drop (length t) rest"
    using Cons_nth_drop_Suc [OF tr(1)] by simp
  have "write_at (sds_buf s) (int (length v)) t = Inr (v @ t @ drop (length t) (x # rest))"
    using tr r(4) by (simp add: write_at_def mem_write_def)
  moreover have "sds_lay (s\<lparr>sds_len := c_int (sds_len s + int (length t)), sds_free := c_int (sds_free s - int (length t)),
      sds_buf := v @ t @ drop (length t) (x # rest)\<rparr>) (v @ t) ?y"
    unfolding d using r(1-3) tr(2) assms(4)
    by (intro sds_layI [where rest = "drop (length t) rest"]) (auto simp: c_int_small)
  ultimately show ?thesis by blast
qed

lemma fmt_put_lay:
  assumes "ample M" "sds_lay s v x" "t \<noteq> []" "length v + length t < 2 ^ 30"
  shows "\<exists>s' y. fmt_put M s (int (length v)) t = Inr (s', int (length (v @ t))) \<and> sds_lay s' (v @ t) y"
proof -
  have l: "c_int (int (length t)) = int (length t)" using assms(4) by (simp add: c_int_small)
  obtain s1 where s1: "fmt_room M s (int (length t)) = Inr s1" "sds_lay s1 v x" "int (length t) \<le> sds_free s1"
    using fmt_room_lay [OF assms(1,2,4)] by blast
  obtain b y where "write_at (sds_buf s1) (int (length v)) t = Inr b"
    "sds_lay (s1\<lparr>sds_len := c_int (sds_len s1 + int (length t)), sds_free := c_int (sds_free s1 - int (length t)), sds_buf := b\<rparr>) (v @ t) y"
    using lay_write [OF s1(2,3) assms(3,4)] by blast
  then show ?thesis using s1(1) by (auto simp: fmt_put_def l Let_def)
qed

lemma fmt_char_lay:
  assumes "ample M" "sds_lay s v x" "length v + 1 < 2 ^ 30"
  shows "\<exists>s1 s' y. (if sds_free s = 0 then fmt_room M s 1 else Inr s) = Inr s1 \<and> sds_lay s1 v x \<and>
    fmt_char s1 (int (length v)) c = Inr (s', int (length (v @ [c]))) \<and> sds_lay s' (v @ [c]) y"
proof -
  obtain s1 where s1: "(if sds_free s = 0 then fmt_room M s 1 else Inr s) = Inr s1" "sds_lay s1 v x" "1 \<le> sds_free s1"
    using fmt_room_lay [OF assms] assms(2) by (cases "sds_free s = 0") (auto simp: sds_lay_def)
  obtain b y where "write_at (sds_buf s1) (int (length v)) [c] = Inr b"
    "sds_lay (s1\<lparr>sds_len := c_int (sds_len s1 + 1), sds_free := c_int (sds_free s1 - 1), sds_buf := b\<rparr>) (v @ [c]) y"
    using lay_write [OF s1(2), of "[c]"] s1(3) assms(3) by auto
  then show ?thesis using s1 by (auto simp: fmt_char_def)
qed

text \<open>What \<open>sdscatfmt\<close> prints for the formats the library uses.\<close>

fun fmt_text :: "string \<Rightarrow> fmt_arg list \<Rightarrow> string" where
  "fmt_text (c # f) args =
     (if c \<noteq> CHR ''%'' then c # fmt_text f args
      else case f of
        n # f \<Rightarrow> (case args of
            FmtInt v # args \<Rightarrow> show_int v @ fmt_text f args
          | FmtSize v # args \<Rightarrow> to_string v @ fmt_text f args
          | _ \<Rightarrow> [])
      | [] \<Rightarrow> [])"
| "fmt_text [] args = []"

fun fmt_simple :: "string \<Rightarrow> fmt_arg list \<Rightarrow> bool" where
  "fmt_simple (c # f) args =
     (if c \<noteq> CHR ''%'' then fmt_simple f args
      else case f of
        n # f \<Rightarrow> (case args of
            FmtInt v # args \<Rightarrow> n = CHR ''i'' \<and> - (2 ^ 31) \<le> v \<and> v < 2 ^ 31 \<and> fmt_simple f args
          | FmtSize v # args \<Rightarrow> n = CHR ''T'' \<and> v < 2 ^ 64 \<and> fmt_simple f args
          | _ \<Rightarrow> False)
      | [] \<Rightarrow> False)"
| "fmt_simple [] args \<longleftrightarrow> True"

lemma show_int_ne [simp]: "show_int i \<noteq> []"
  by (simp add: show_int_def)

lemma sdscatfmt_from_is:
  assumes "ample M" "sds_lay s v x" "fmt_simple f args" "length v + length (fmt_text f args) + 1 < 2 ^ 30"
  shows "\<exists>s'. sdscatfmt_from M s (int (length v)) f args = Inr s' \<and> sds_is s' (v @ fmt_text f args)"
  using assms
proof (induction f args arbitrary: s v x rule: fmt_simple.induct)
  case (1 c f args)
  show ?case
  proof (cases "c = CHR ''%''")
    case False
    obtain s1 s2 y where "(if sds_free s = 0 then fmt_room M s 1 else Inr s) = Inr s1"
      "fmt_char s1 (int (length v)) c = Inr (s2, int (length (v @ [c])))" and l: "sds_lay s2 (v @ [c]) y"
      using fmt_char_lay [OF "1.prems"(1,2), of c] "1.prems"(4) by auto
    then have "sdscatfmt_from M s (int (length v)) (c # f) args = sdscatfmt_from M s2 (int (length (v @ [c]))) f args"
      using False by simp
    moreover have "\<exists>s'. sdscatfmt_from M s2 (int (length (v @ [c]))) f args = Inr s' \<and> sds_is s' ((v @ [c]) @ fmt_text f args)"
      using False "1.prems" l by (intro "1.IH"(1)) auto
    ultimately show ?thesis using False by simp
  next
    case True
    then obtain n g where f: "f = n # g" using "1.prems"(3) by (cases f) auto
    obtain s1 where s1: "(if sds_free s = 0 then fmt_room M s 1 else Inr s) = Inr s1" "sds_lay s1 v x"
      using fmt_char_lay [OF "1.prems"(1,2)] "1.prems"(4) by fastforce
    have step: "\<exists>s'. sdscatfmt_from M s (int (length v)) (c # f) args = Inr s' \<and> sds_is s' (v @ fmt_text (c # f) args)"
      if eq: "sdscatfmt_from M s (int (length v)) (c # f) args =
          and_then (fmt_put M s1 (int (length v)) t) (\<lambda>(s, i). sdscatfmt_from M s i g as)"
        and tx: "fmt_text (c # f) args = t @ fmt_text g as" and ne: "t \<noteq> []"
        and IH: "\<And>s v x. sds_lay s v x \<Longrightarrow> length v + length (fmt_text g as) + 1 < 2 ^ 30 \<Longrightarrow>
          \<exists>s'. sdscatfmt_from M s (int (length v)) g as = Inr s' \<and> sds_is s' (v @ fmt_text g as)" for t as
    proof -
      obtain s2 y where "fmt_put M s1 (int (length v)) t = Inr (s2, int (length (v @ t)))" "sds_lay s2 (v @ t) y"
        using fmt_put_lay [OF "1.prems"(1) s1(2) ne] "1.prems"(4) unfolding tx by auto
      then show ?thesis using IH [of s2 "v @ t" y] "1.prems"(4) unfolding tx eq by simp
    qed
    from "1.prems"(3) True f show ?thesis
    proof (cases args)
      case (Cons a as)
      then show ?thesis
      proof (cases a)
        case (FmtInt i)
        have i: "n = CHR ''i''" "sdsll2str i = Inr (show_int i)" "fmt_simple g as"
          using "1.prems"(3) True f Cons FmtInt by (auto simp: sdsll2str_eq)
        show ?thesis using i True f Cons FmtInt s1(1) "1.prems"(1)
          by (intro step [of "show_int i" as] "1.IH"(2)) auto
      next
        case (FmtSize k)
        have k: "n = CHR ''T''" "sdsull2str k = Inr (to_string k)" "fmt_simple g as"
          using "1.prems"(3) True f Cons FmtSize by (auto simp: sdsull2str_eq)
        show ?thesis using k True f Cons FmtSize s1(1) "1.prems"(1)
          by (intro step [of "to_string k" as] "1.IH"(3)) auto
      qed (use "1.prems"(3) True f in auto)
    qed auto
  qed
next
  case (2 args)
  obtain rest where r: "sds_len s = int (length v)" "sds_free s = int (length rest)"
    "length v + length rest < 2 ^ 31" "sds_buf s = v @ x # rest" by (rule sds_layE [OF "2.prems"(2)])
  have "write_at (sds_buf s) (int (length v)) [NUL] = Inr (v @ NUL # rest)"
    using r(4) by (simp add: write_at_def mem_write_def)
  then show ?case using r(1-3) by (auto intro!: sds_isI [where rest = rest])
qed

lemma sdscatfmt_is:
  assumes "ample M" "sds_is s v" "fmt_simple f args" "length v + length (fmt_text f args) + 1 < 2 ^ 30"
  shows "\<exists>s'. sdscatfmt M s f args = Inr s' \<and> sds_is s' (v @ fmt_text f args)"
  using sdscatfmt_from_is [of M s v NUL f args] assms
  by (simp add: sdscatfmt_def sdslen_is sds_lay_NUL c_int_small)

end
