(* ===== verification/Redis_Parse.thy ===== *)
theory Redis_Parse
  imports Redis_Reader Redis_Sds_Facts
begin

text \<open>
  The reader as a machine over the bytes that are left: the buffer, its cursor and its compaction are
  abstracted away. The machine takes an item, waits for more bytes, or stops with an error; bytes that
  arrive later do not change what it did before.
\<close>

section \<open>The machine\<close>

datatype progress =
    Go string "read_task list" "reply option"
  | Wait string "read_task list" "reply option"
  | Stop int string

definition parse_finish :: "string \<Rightarrow> created \<Rightarrow> (nat list \<Rightarrow> fault + read_task list) \<Rightarrow> fault + progress" where
  "parse_finish inp obj k =
     and_then obj (\<lambda>c. case c of
       None \<Rightarrow> Inr (Stop REDIS_ERR_OOM ''Out of memory'')
     | Some (path, root) \<Rightarrow> and_then (k path) (\<lambda>ts. Inr (Go inp ts (Some root))))"

definition parse_line_item :: "memory \<Rightarrow> string \<Rightarrow> read_task list \<Rightarrow> reply option \<Rightarrow> fault + progress" where
  "parse_line_item M inp ts root =
     (case newline_in inp of
        None \<Rightarrow> Inr (Wait inp ts root)
      | Some n \<Rightarrow> parse_finish (drop (n + 2) inp)
          (if task_type (hd ts) = Some REDIS_REPLY_INTEGER
           then and_then (readLongLong inp) (createIntegerObject M ts root)
           else createStringObject M ts root (take n inp))
          (\<lambda>_. moveToNextTask ts))"

definition parse_bulk :: "memory \<Rightarrow> string \<Rightarrow> read_task list \<Rightarrow> reply option \<Rightarrow> fault + progress" where
  "parse_bulk M inp ts root =
     (case newline_in inp of
        None \<Rightarrow> Inr (Wait inp ts root)
      | Some n \<Rightarrow>
          and_then (readLongLong inp) (\<lambda>len.
            if len < 0 then parse_finish (drop (n + 2) inp) (createNilObject M ts root) (\<lambda>_. moveToNextTask ts)
            else and_then (long_arith (len + 2)) (\<lambda>_.
              if n + 2 + nat len + 2 \<le> length inp
              then parse_finish (drop (n + 2 + nat len + 2) inp)
                (createStringObject M ts root (take (nat len) (drop (n + 2) inp))) (\<lambda>_. moveToNextTask ts)
              else Inr (Wait inp ts root))))"

definition pushed :: "int \<Rightarrow> nat list \<Rightarrow> read_task list \<Rightarrow> read_task list" where
  "pushed elements path ts =
     \<lparr>task_type = None, task_elements = - 1, task_idx = 0, task_obj = None\<rparr>
     # (hd ts)\<lparr>task_elements := elements, task_obj := Some path\<rparr> # tl ts"

definition parse_multi :: "memory \<Rightarrow> string \<Rightarrow> read_task list \<Rightarrow> reply option \<Rightarrow> fault + progress" where
  "parse_multi M inp ts root =
     (if length ts = 9
      then Inr (Stop REDIS_ERR_PROTOCOL ''No support for nested multi bulk replies with depth > 7'')
      else case newline_in inp of
        None \<Rightarrow> Inr (Wait inp ts root)
      | Some n \<Rightarrow>
          and_then (readLongLong inp) (\<lambda>elements.
            if elements = - 1
            then parse_finish (drop (n + 2) inp) (createNilObject M ts root) (\<lambda>_. moveToNextTask ts)
            else parse_finish (drop (n + 2) inp) (createArrayObject M ts root (c_int elements))
              (\<lambda>path. if 0 < elements then Inr (pushed (c_int elements) path ts) else moveToNextTask ts)))"

definition parse_typed :: "memory \<Rightarrow> string \<Rightarrow> read_task list \<Rightarrow> reply option \<Rightarrow> fault + progress" where
  "parse_typed M inp ts root =
     (case task_type (hd ts) of
        Some REDIS_REPLY_ERROR \<Rightarrow> parse_line_item M inp ts root
      | Some REDIS_REPLY_STATUS \<Rightarrow> parse_line_item M inp ts root
      | Some REDIS_REPLY_INTEGER \<Rightarrow> parse_line_item M inp ts root
      | Some REDIS_REPLY_STRING \<Rightarrow> parse_bulk M inp ts root
      | Some REDIS_REPLY_ARRAY \<Rightarrow> parse_multi M inp ts root
      | _ \<Rightarrow> Inl AssertFail)"

definition typed :: "reply_type \<Rightarrow> read_task list \<Rightarrow> read_task list" where
  "typed t ts = (hd ts)\<lparr>task_type := Some t\<rparr> # tl ts"

definition parse_item :: "memory \<Rightarrow> string \<Rightarrow> read_task list \<Rightarrow> reply option \<Rightarrow> fault + progress" where
  "parse_item M inp ts root =
     (if task_type (hd ts) = None then
        (case inp of
           [] \<Rightarrow> Inr (Wait [] ts root)
         | c # inp \<Rightarrow>
             (case type_byte c of
                None \<Rightarrow> Inr (Stop REDIS_ERR_PROTOCOL (take 127 (''Protocol error, got '' @ take 7 (chrtos c) @ '' as reply type byte'')))
              | Some t \<Rightarrow> parse_typed M inp (typed t ts) root))
      else parse_typed M inp ts root)"

section \<open>The reader runs the machine\<close>

definition reader_at :: "redisReader \<Rightarrow> string \<Rightarrow> read_task list \<Rightarrow> reply option \<Rightarrow> bool" where
  "reader_at r inp ts root \<longleftrightarrow> reader_err r = 0 \<and> reader_stack r = ts \<and> reader_reply r = root \<and>
     (\<exists>b v. reader_buf r = Some b \<and> sds_is b v \<and> reader_len r = length v \<and> reader_pos r \<le> length v \<and>
        inp = drop (reader_pos r) v)"

text \<open>What stays the same while items are processed.\<close>

definition same_buffer :: "redisReader \<Rightarrow> redisReader \<Rightarrow> bool" where
  "same_buffer r r' \<longleftrightarrow> reader_buf r' = reader_buf r \<and> reader_len r' = reader_len r \<and> reader_maxbuf r' = reader_maxbuf r"

definition follows :: "redisReader \<Rightarrow> fault + (bool \<times> redisReader) \<Rightarrow> fault + progress \<Rightarrow> bool" where
  "follows r res p \<longleftrightarrow>
     (case p of
        Inl e \<Rightarrow> res = Inl e
      | Inr (Go inp ts root) \<Rightarrow> \<exists>r'. res = Inr (True, r') \<and> reader_at r' inp ts root \<and> same_buffer r r'
      | Inr (Wait inp ts root) \<Rightarrow> \<exists>r'. res = Inr (False, r') \<and> reader_at r' inp ts root \<and> same_buffer r r'
      | Inr (Stop e m) \<Rightarrow> \<exists>r'. res = Inr (False, r') \<and> reader_err r' = e \<and> reader_errstr r' = m \<and>
          reader_stack r' = [] \<and> reader_reply r' = None \<and> e \<noteq> 0)"

lemma newline_in_NUL [simp]: "newline_in (s @ [NUL]) = newline_in s"
  by (induction s rule: newline_in.induct) simp_all

lemma seekNewline_eq: "length s < 2 ^ 31 \<Longrightarrow> seekNewline s = newline_in s"
proof (cases s rule: newline_in.cases)
  case (1 a b t)
  moreover assume "length s < 2 ^ 31"
  moreover then have "c_int (int (length s) - 1) = int (length s) - 1" by (simp add: c_int_small)
  ultimately show ?thesis using newline_in_NUL [of s] by (simp add: seekNewline_def Let_def del: newline_in_NUL)
qed (auto simp: seekNewline_def c_int_small Let_def)

lemma reader_at_unread:
  assumes "reader_at r inp ts root" "reader_buf r = Some b"
  shows "unread r b = inp" "length inp < 2 ^ 31" "left_over r = length inp"
proof -
  obtain v where v: "sds_is b v" "reader_len r = length v" "reader_pos r \<le> length v" "inp = drop (reader_pos r) v"
    using assms by (auto simp: reader_at_def)
  then obtain rest where "sds_buf b = v @ NUL # rest" by (auto simp: sds_is_def)
  then show "unread r b = inp" using v by (simp add: unread_def)
  show "length inp < 2 ^ 31" using v sds_len_is(2) [OF v(1)] by simp
  show "left_over r = length inp" using v by (simp add: left_over_def)
qed

lemma reader_at_advance:
  assumes "reader_at r inp ts root" "n \<le> length inp"
  shows "reader_at (r\<lparr>reader_pos := reader_pos r + n\<rparr>) (drop n inp) ts root"
proof -
  obtain b v where "reader_buf r = Some b" "sds_is b v" "reader_len r = length v" "reader_pos r \<le> length v"
    "inp = drop (reader_pos r) v" using assms(1) by (auto simp: reader_at_def)
  then show ?thesis using assms by (auto simp: reader_at_def add.commute intro!: exI [of _ v])
qed

lemma reader_at_task: "reader_at r inp ts root \<Longrightarrow> reader_stack r = ts" "reader_at r inp ts root \<Longrightarrow> reader_reply r = root"
  by (simp_all add: reader_at_def)

lemma follows_finish:
  assumes "reader_at r inp ts root" "same_buffer r0 r"
    and "\<And>path root r. reader_at r inp ts root \<Longrightarrow>
      (case k' path of Inl e \<Rightarrow> k path r = Inl e | Inr ts' \<Rightarrow> k path r = Inr (r\<lparr>reader_stack := ts'\<rparr>))"
  shows "follows r0 (finish_item r obj k) (parse_finish inp obj k')"
proof (cases obj)
  case (Inr c)
  show ?thesis
  proof (cases c)
    case None
    then show ?thesis using Inr
      by (simp add: finish_item_def parse_finish_def follows_def redisReaderSetErrorOOM_def redisReaderSetError_def
        REDIS_ERR_OOM_def Let_def)
  next
    case (Some pr)
    obtain path new where pr: "pr = (path, new)" by (cases pr)
    have at: "reader_at (r\<lparr>reader_reply := Some new\<rparr>) inp ts (Some new)" using assms(1) by (simp add: reader_at_def)
    show ?thesis
    proof (cases "k' path")
      case (Inl e)
      then show ?thesis using assms(3) [OF at, of path] Inr Some pr
        by (simp add: finish_item_def parse_finish_def follows_def)
    next
      case (Inr ts')
      then have "k path (r\<lparr>reader_reply := Some new\<rparr>) = Inr (r\<lparr>reader_reply := Some new, reader_stack := ts'\<rparr>)"
        using assms(3) [OF at, of path] by simp
      moreover have "reader_at (r\<lparr>reader_reply := Some new, reader_stack := ts'\<rparr>) inp ts' (Some new)"
        using assms(1) by (simp add: reader_at_def)
      moreover have "same_buffer r0 (r\<lparr>reader_reply := Some new, reader_stack := ts'\<rparr>)"
        using assms(2) by (simp add: same_buffer_def)
      ultimately show ?thesis using \<open>obj = Inr c\<close> Some pr Inr
        by (simp add: finish_item_def parse_finish_def follows_def)
    qed
  qed
qed (simp add: finish_item_def parse_finish_def follows_def)

lemma next_task_at:
  "reader_at r inp ts root \<Longrightarrow> (case moveToNextTask ts of Inl e \<Rightarrow> next_task r = Inl e
     | Inr ts' \<Rightarrow> next_task r = Inr (r\<lparr>reader_stack := ts'\<rparr>))"
  by (cases "moveToNextTask ts") (simp_all add: next_task_def reader_at_def)

lemma readLine_eq:
  assumes "reader_at r inp ts root" "reader_buf r = Some b"
  shows "readLine r b = (case newline_in inp of None \<Rightarrow> None
    | Some n \<Rightarrow> Some (inp, int n, r\<lparr>reader_pos := reader_pos r + (n + 2)\<rparr>))"
proof -
  note u = reader_at_unread [OF assms]
  have "c_int (int n) = int n" if "newline_in inp = Some n" for n
    using newline_in_Some [OF that] u(2) by (intro c_int_small) auto
  then show ?thesis using u by (simp add: readLine_def seekNewline_eq split: option.split)
qed

lemma follows_line:
  assumes "reader_at r inp ts root" "reader_buf r = Some b" "same_buffer r0 r"
  shows "follows r0 (processLineItem M r b) (parse_line_item M inp ts root)"
proof (cases "newline_in inp")
  case None
  then show ?thesis using assms by (auto simp: processLineItem_def parse_line_item_def readLine_eq [OF assms(1,2)] follows_def)
next
  case (Some n)
  note n = newline_in_Some [OF Some]
  let ?r = "r\<lparr>reader_pos := reader_pos r + (n + 2)\<rparr>"
  have "mem_read inp 0 (size_t (int n)) = Inr (take n inp)"
    using n reader_at_unread(2) [OF assms(1,2)] by (simp add: mem_read_def size_t_nat)
  then have "processLineItem M r b = finish_item ?r
      (if task_type (hd ts) = Some REDIS_REPLY_INTEGER
       then and_then (readLongLong inp) (createIntegerObject M ts root)
       else createStringObject M ts root (take n inp)) (\<lambda>_. next_task)"
    using Some assms(1) by (simp add: processLineItem_def readLine_eq [OF assms(1,2)] reader_at_def)
  moreover have "same_buffer r0 ?r" using assms(3) by (simp add: same_buffer_def)
  ultimately show ?thesis
    using follows_finish [OF reader_at_advance [OF assms(1), of "n + 2"]] n next_task_at Some
    by (simp add: parse_line_item_def)
qed

lemma follows_bulk:
  assumes "reader_at r inp ts root" "reader_buf r = Some b" "same_buffer r0 r"
  shows "follows r0 (processBulkItem M r b) (parse_bulk M inp ts root)"
proof (cases "newline_in inp")
  case None
  then show ?thesis using assms reader_at_unread [OF assms(1,2)]
    by (auto simp: processBulkItem_def parse_bulk_def seekNewline_eq follows_def)
next
  case (Some n)
  note n = newline_in_Some [OF Some] and u = reader_at_unread [OF assms(1,2)]
  have adv: "follows r0 (finish_item (r\<lparr>reader_pos := reader_pos r + k\<rparr>) obj (\<lambda>_. next_task))
      (parse_finish (drop k inp) obj (\<lambda>_. moveToNextTask ts))" if "k \<le> length inp" for k obj
    using assms(3) follows_finish [OF reader_at_advance [OF assms(1) that]] next_task_at
    by (simp add: same_buffer_def)
  have fits: "reader_pos r + k \<le> reader_len r \<longleftrightarrow> k \<le> length inp" for k
    using u(3) assms(1) by (auto simp: left_over_def reader_at_def)
  show ?thesis
  proof (cases "readLongLong inp")
    case (Inr l)
    have read: "mem_read inp (n + 2) (nat l) = Inr (take (nat l) (drop (n + 2) inp))" if "n + 2 + nat l + 2 \<le> length inp"
      using that by (simp add: mem_read_def)
    consider "l < 0" | e where "0 \<le> l" "long_arith (l + 2) = Inl e"
      | x where "0 \<le> l" "long_arith (l + 2) = Inr x" by (cases "long_arith (l + 2)") force+
    then show ?thesis
    proof cases
      case 1
      then show ?thesis using Inr Some u adv [of "n + 2"] n assms(1)
        by (simp add: processBulkItem_def parse_bulk_def seekNewline_eq reader_at_def)
    next
      case 2
      then show ?thesis using Inr Some u by (simp add: processBulkItem_def parse_bulk_def seekNewline_eq follows_def)
    next
      case 3
      show ?thesis
      proof (cases "n + 2 + nat l + 2 \<le> length inp")
        case True
        then show ?thesis using 3 Inr Some u adv [OF True] read fits [of "n + 2 + nat l + 2"] assms(1)
          by (simp add: processBulkItem_def parse_bulk_def seekNewline_eq reader_at_def Let_def)
      next
        case False
        then show ?thesis using 3 Inr Some u fits [of "n + 2 + nat l + 2"] assms(1,3)
          by (simp add: processBulkItem_def parse_bulk_def seekNewline_eq follows_def Let_def)
      qed
    qed
  qed (use Some u in \<open>simp add: processBulkItem_def parse_bulk_def seekNewline_eq follows_def\<close>)
qed

lemma push_task_at:
  "reader_at r inp ts root \<Longrightarrow> push_task e p r = r\<lparr>reader_stack := pushed e p ts\<rparr>"
  by (simp add: push_task_def pushed_def reader_at_def)

lemma follows_multi:
  assumes "reader_at r inp ts root" "reader_buf r = Some b" "same_buffer r0 r"
  shows "follows r0 (processMultiBulkItem M r b) (parse_multi M inp ts root)"
proof (cases "length ts = 9")
  case True
  then show ?thesis using assms(1)
    by (simp add: processMultiBulkItem_def parse_multi_def reader_at_def follows_def redisReaderSetError_def
      REDIS_ERR_PROTOCOL_def Let_def)
next
  case deep: False
  show ?thesis
  proof (cases "newline_in inp")
    case None
    then show ?thesis using assms deep
      by (auto simp: processMultiBulkItem_def parse_multi_def readLine_eq [OF assms(1,2)] follows_def reader_at_def)
  next
    case (Some n)
    note n = newline_in_Some [OF Some]
    let ?r = "r\<lparr>reader_pos := reader_pos r + (n + 2)\<rparr>"
    note at = reader_at_advance [OF assms(1), of "n + 2"]
    have same: "same_buffer r0 ?r" using assms(3) by (simp add: same_buffer_def)
    show ?thesis
    proof (cases "readLongLong inp")
      case (Inr e)
      have nil: "follows r0 (finish_item ?r obj (\<lambda>_. next_task)) (parse_finish (drop (n + 2) inp) obj (\<lambda>_. moveToNextTask ts))"
        for obj using n by (intro follows_finish [OF at same] next_task_at) auto
      have arr: "follows r0 (finish_item ?r obj (\<lambda>path r. if 0 < e then Inr (push_task (c_int e) path r) else next_task r))
          (parse_finish (drop (n + 2) inp) obj (\<lambda>path. if 0 < e then Inr (pushed (c_int e) path ts) else moveToNextTask ts))"
        for obj using n by (intro follows_finish [OF at same]) (auto simp: push_task_at next_task_at)
      show ?thesis using Inr Some deep assms(1) nil arr
        by (simp add: processMultiBulkItem_def parse_multi_def readLine_eq [OF assms(1,2)] reader_at_def)
    qed (use Some deep assms(1) in \<open>simp add: processMultiBulkItem_def parse_multi_def readLine_eq [OF assms(1,2)]
        reader_at_def follows_def\<close>)
  qed
qed

lemma follows_typed:
  assumes "reader_at r inp ts root" "reader_buf r = Some b" "same_buffer r0 r"
  shows "follows r0 (process_typed M r b) (parse_typed M inp ts root)"
  using follows_line [OF assms] follows_bulk [OF assms] follows_multi [OF assms] assms(1)
  by (auto simp: process_typed_def parse_typed_def reader_at_def follows_def [of _ _ "Inl _"] split: option.split reply_type.split)

lemma follows_item:
  assumes "reader_at r inp ts root"
  shows "follows r (processItem M r) (parse_item M inp ts root)"
proof -
  obtain b v where b: "reader_buf r = Some b" "sds_is b v" "reader_len r = length v" "reader_pos r \<le> length v"
    "inp = drop (reader_pos r) v" using assms by (auto simp: reader_at_def)
  note u = reader_at_unread [OF assms b(1)]
  show ?thesis
  proof (cases "task_type (hd ts) = None")
    case False
    then obtain y where y: "task_type (hd ts) = Some y" by blast
    have "processItem M r = process_typed M r b" "parse_item M inp ts root = parse_typed M inp ts root"
      using b(1) reader_at_task(1) [OF assms] y by (simp_all add: processItem_def parse_item_def)
    then show ?thesis using follows_typed [OF assms b(1), of r] by (simp add: same_buffer_def)
  next
    case fresh: True
    show ?thesis
    proof (cases inp)
      case Nil
      then show ?thesis using assms b(1) u(3) fresh
        by (simp add: processItem_def parse_item_def reader_at_def same_buffer_def follows_def readBytes_def left_over_def)
    next
      case (Cons c inp')
      let ?r = "r\<lparr>reader_pos := reader_pos r + 1\<rparr>"
      have d: "drop (reader_pos r) v = c # inp'" using Cons b(5) by simp
      have "\<not> length v \<le> reader_pos r"
      proof
        assume "length v \<le> reader_pos r"
        then show False using d by simp
      qed
      then have lt: "reader_pos r < length v" by simp
      then have nth: "v ! reader_pos r = c" using Cons_nth_drop_Suc [OF lt] d by simp
      obtain rest where "sds_buf b = v @ NUL # rest" using b(2) by (auto simp: sds_is_def)
      then have c: "byte_at (sds_buf b) (reader_pos r) = Inr c" using lt nth by (simp add: byte_at_def nth_append)
      have at: "reader_at ?r inp' ts root" using reader_at_advance [OF assms, of 1] Cons by simp
      have rb: "readBytes r 1 = Some (reader_pos r, ?r)" using b(3) lt by (simp add: readBytes_def)
      have item: "processItem M r = (case type_byte c of
          None \<Rightarrow> Inr (False, redisReaderSetErrorProtocolByte ?r c)
        | Some t \<Rightarrow> process_typed M (set_type t ?r) b)"
        unfolding processItem_def b(1) reader_at_task(1) [OF assms] using fresh rb c
        by (simp del: One_nat_def add: option.case prod.case)
      show ?thesis
      proof (cases "type_byte c")
        case None
        then show ?thesis unfolding item using Cons fresh
          by (simp add: parse_item_def follows_def redisReaderSetErrorProtocolByte_def redisReaderSetError_def
            REDIS_ERR_PROTOCOL_def Let_def)
      next
        case (Some t)
        have "reader_at (set_type t ?r) inp' (typed t ts) root" using at by (simp add: reader_at_def set_type_def typed_def)
        moreover have "reader_buf (set_type t ?r) = Some b" "same_buffer r (set_type t ?r)"
          using b(1) by (simp_all add: set_type_def same_buffer_def)
        ultimately have "follows r (process_typed M (set_type t ?r) b) (parse_typed M inp' (typed t ts) root)"
          by (rule follows_typed)
        then show ?thesis unfolding item using Some Cons fresh by (simp add: parse_item_def)
      qed
    qed
  qed
qed

section \<open>Running the machine\<close>

lemma parse_finish_Go:
  "parse_finish inp obj k = Inr (Go inp' ts root) \<Longrightarrow> inp' = inp"
  by (auto simp: parse_finish_def and_then_Inr split: option.splits)

lemma parse_typed_Go:
  assumes "parse_typed M inp ts root = Inr (Go inp' ts' root')"
  shows "length inp' < length inp"
proof -
  have "length inp' < length inp" if "newline_in inp = Some n" "inp' = drop k inp" "n + 2 \<le> k" for n k
  proof -
    have "0 < length inp" "0 < k" using newline_in_Some [OF that(1)] that(3) by auto
    then show ?thesis using that(2) by simp
  qed
  then show ?thesis using assms
    by (auto simp: parse_typed_def parse_line_item_def parse_bulk_def parse_multi_def and_then_Inr
      split: option.splits reply_type.splits if_splits dest!: parse_finish_Go)
qed

lemma parse_item_Go: "parse_item M inp ts root = Inr (Go inp' ts' root') \<Longrightarrow> length inp' < length inp"
  by (auto simp: parse_item_def split: if_splits list.splits option.splits dest!: parse_typed_Go)

text \<open>The end of the stack is the end of a reply.\<close>

function parse_loop :: "memory \<Rightarrow> string \<Rightarrow> read_task list \<Rightarrow> reply option \<Rightarrow> fault + progress" where
  "parse_loop M inp ts root =
     (if ts = [] then Inr (Go inp [] root)
      else case parse_item M inp ts root of
        Inr (Go inp ts root) \<Rightarrow> parse_loop M inp ts root
      | p \<Rightarrow> p)"
  by pat_completeness auto
termination
  by (relation "measure (\<lambda>(M, inp, ts, root). length inp)") (auto dest: parse_item_Go)

declare parse_loop.simps [simp del]

lemma parse_loop_Nil [simp]: "parse_loop M inp [] root = Inr (Go inp [] root)"
  by (simp add: parse_loop.simps)

lemma parse_loop_step:
  "ts \<noteq> [] \<Longrightarrow> parse_item M inp ts root = Inr (Go inp' ts' root') \<Longrightarrow>
   parse_loop M inp ts root = parse_loop M inp' ts' root'"
  by (simp add: parse_loop.simps [of M inp ts root])

definition runs :: "redisReader \<Rightarrow> fault + redisReader \<Rightarrow> fault + progress \<Rightarrow> bool" where
  "runs r res p \<longleftrightarrow>
     (case p of
        Inl e \<Rightarrow> res = Inl e
      | Inr (Go inp ts root) \<Rightarrow> \<exists>r'. res = Inr r' \<and> reader_at r' inp ts root \<and> same_buffer r r'
      | Inr (Wait inp ts root) \<Rightarrow> \<exists>r'. res = Inr r' \<and> reader_at r' inp ts root \<and> same_buffer r r'
      | Inr (Stop e m) \<Rightarrow> \<exists>r'. res = Inr r' \<and> reader_err r' = e \<and> reader_errstr r' = m \<and>
          reader_stack r' = [] \<and> reader_reply r' = None \<and> e \<noteq> 0)"

lemma same_buffer_trans: "same_buffer r r' \<Longrightarrow> same_buffer r' r'' \<Longrightarrow> same_buffer r r''"
  by (simp add: same_buffer_def)

lemma runs_mono: "runs r' res p \<Longrightarrow> same_buffer r r' \<Longrightarrow> runs r res p"
  by (auto simp: runs_def split: sum.splits progress.splits intro: same_buffer_trans)

lemma item_loop_runs:
  "reader_at r inp ts root \<Longrightarrow> runs r (item_loop M r) (parse_loop M inp ts root)"
proof (induction M inp ts root arbitrary: r rule: parse_loop.induct)
  case (1 M inp ts root)
  show ?case
  proof (cases "ts = []")
    case True
    then show ?thesis using "1.prems" by (simp add: item_loop.simps [of M r] runs_def reader_at_def same_buffer_def)
  next
    case False
    then have loop: "item_loop M r = (case processItem M r of Inl e \<Rightarrow> Inl e
        | Inr (ok, r') \<Rightarrow> if ok then item_loop M r' else Inr r')"
      using "1.prems" by (simp add: item_loop.simps [of M r] reader_at_def)
    note f = follows_item [OF "1.prems", of M]
    show ?thesis
    proof (cases "parse_item M inp ts root")
      case (Inl e)
      then show ?thesis using f False loop by (simp add: parse_loop.simps [of M inp] follows_def runs_def)
    next
      case (Inr p)
      then show ?thesis
      proof (cases p)
        case (Go inp' ts' root')
        then obtain r' where r': "processItem M r = Inr (True, r')" "reader_at r' inp' ts' root'" "same_buffer r r'"
          using f Inr by (auto simp: follows_def)
        have "runs r' (item_loop M r') (parse_loop M inp' ts' root')"
          using "1.IH" False Inr Go r'(2) by blast
        then show ?thesis using runs_mono r'(1,3) loop False Inr Go
          by (simp add: parse_loop_step)
      qed (use f Inr False loop in \<open>auto simp: parse_loop.simps [of M inp] follows_def runs_def\<close>)
    qed
  qed
qed

section \<open>Bytes that arrive later\<close>

lemma newline_in_append: "newline_in s = Some n \<Longrightarrow> newline_in (s @ x) = Some n"
  by (induction s arbitrary: n rule: newline_in.induct) auto

lemma read_digits_append: "CHR 0x0D \<in> set s \<Longrightarrow> read_digits (s @ x) v = read_digits s v"
proof (induction s arbitrary: v)
  case (Cons c s)
  then show ?case by (cases "c = CHR 0x0D") (auto simp: and_then_def split: sum.splits)
qed simp

lemma readLongLong_append:
  assumes "newline_in s = Some n"
  shows "readLongLong (s @ x) = readLongLong s"
proof -
  have cr: "CHR 0x0D \<in> set s" using newline_in_Some [OF assms] nth_mem [of n s] by auto
  then obtain c t where s: "s = c # t" by (cases s) auto
  have "CHR 0x0D \<in> set t" if "c = CHR ''-'' \<or> c = CHR ''+''" using cr s that by auto
  then have "read_digits (t @ x) 0 = read_digits t 0" if "c = CHR ''-'' \<or> c = CHR ''+''"
    using that by (simp add: read_digits_append)
  moreover have "read_digits (c # t @ x) 0 = read_digits (c # t) 0"
    using cr s read_digits_append [of "c # t" x 0] by simp
  ultimately show ?thesis unfolding s readLongLong_def Let_def
    by (simp del: read_digits.simps)
qed

definition extend :: "string \<Rightarrow> progress \<Rightarrow> progress" where
  "extend x p = (case p of Go inp ts root \<Rightarrow> Go (inp @ x) ts root | _ \<Rightarrow> p)"

text \<open>Unless the machine waits, more bytes only come behind the rest.\<close>

definition stable :: "(string \<Rightarrow> fault + progress) \<Rightarrow> string \<Rightarrow> bool" where
  "stable f s \<longleftrightarrow> (\<forall>x. case f s of
     Inl e \<Rightarrow> f (s @ x) = Inl e
   | Inr (Wait s' ts root) \<Rightarrow> True
   | Inr p \<Rightarrow> f (s @ x) = Inr (extend x p))"

lemma parse_finish_append:
  "parse_finish (s @ x) obj k = (case parse_finish s obj k of Inl e \<Rightarrow> Inl e | Inr p \<Rightarrow> Inr (extend x p))"
  by (auto simp: parse_finish_def and_then_def extend_def split: sum.split option.split)

lemma parse_finish_not_Wait: "parse_finish s obj k \<noteq> Inr (Wait a b c)"
  by (auto simp: parse_finish_def and_then_def split: sum.split option.split prod.split)

lemma stable_finish:
  assumes "\<And>x. f (s @ x) = parse_finish (t @ x) obj k"
  shows "stable f s"
proof -
  have f: "f s = parse_finish t obj k" using assms [of "[]"] by simp
  have "f (s @ x) = (case f s of Inl e \<Rightarrow> Inl e | Inr p \<Rightarrow> Inr (extend x p))" for x
    unfolding f assms by (rule parse_finish_append)
  then show ?thesis unfolding stable_def f by (auto split: sum.split progress.split)
qed

lemma newline_in_parts:
  assumes "newline_in s = Some n"
  shows "take n (s @ x) = take n s" "drop (Suc (Suc n)) (s @ x) = drop (Suc (Suc n)) s @ x"
  using newline_in_Some [OF assms] by simp_all

lemma stable_Wait: "f s = Inr (Wait a b c) \<Longrightarrow> stable f s"
  by (simp add: stable_def)

lemma stable_Inl: "f s = Inl e \<Longrightarrow> (\<And>x. f (s @ x) = Inl e) \<Longrightarrow> stable f s"
  by (simp add: stable_def)

lemma stable_Stop: "f s = Inr (Stop e m) \<Longrightarrow> (\<And>x. f (s @ x) = Inr (Stop e m)) \<Longrightarrow> stable f s"
  by (simp add: stable_def extend_def)

lemma stable_line: "stable (\<lambda>inp. parse_line_item M inp ts root) s"
proof (cases "newline_in s")
  case (Some n)
  then show ?thesis
    by (cases "task_type (hd ts) = Some REDIS_REPLY_INTEGER"; intro stable_finish [where t = "drop (n + 2) s"])
      (simp_all add: parse_line_item_def newline_in_append newline_in_parts [OF Some] readLongLong_append [OF Some]
        del: drop_append take_append)
qed (auto intro: stable_Wait simp: parse_line_item_def)

lemma stable_bulk: "stable (\<lambda>inp. parse_bulk M inp ts root) s"
proof (cases "newline_in s")
  case (Some n)
  note s = newline_in_append [OF Some] newline_in_parts [OF Some] readLongLong_append [OF Some]
  show ?thesis
  proof (cases "readLongLong s")
    case (Inl e)
    then show ?thesis by (intro stable_Inl) (auto simp: parse_bulk_def Some s)
  next
    case (Inr l)
    show ?thesis
    proof (cases "l < 0")
      case True
      then show ?thesis
        by (intro stable_finish [where t = "drop (n + 2) s"])
          (simp add: parse_bulk_def s Inr del: drop_append take_append)
    next
      case nonneg: False
      show ?thesis
      proof (cases "long_arith (l + 2)")
        case (Inl e)
        then show ?thesis using Inr nonneg by (intro stable_Inl) (auto simp: parse_bulk_def Some s)
      next
        case ok: (Inr k)
        show ?thesis
        proof (cases "n + 2 + nat l + 2 \<le> length s")
          case True
          then have "take (nat l) (drop (n + 2) (s @ x)) = take (nat l) (drop (n + 2) s)"
            "drop (n + 2 + nat l + 2) (s @ x) = drop (n + 2 + nat l + 2) s @ x" for x by simp_all
          then show ?thesis using True Inr nonneg ok
            by (intro stable_finish [where t = "drop (n + 2 + nat l + 2) s"])
              (simp add: parse_bulk_def s(1,4) del: drop_append take_append)
        next
          case False
          then show ?thesis using Inr nonneg ok by (intro stable_Wait) (simp add: parse_bulk_def Some)
        qed
      qed
    qed
  qed
qed (auto intro: stable_Wait simp: parse_bulk_def)

lemma stable_multi: "stable (\<lambda>inp. parse_multi M inp ts root) s"
proof (cases "length ts = 9")
  case True
  then show ?thesis by (intro stable_Stop) (simp_all add: parse_multi_def)
next
  case deep: False
  show ?thesis
  proof (cases "newline_in s")
    case (Some n)
    note s = newline_in_append [OF Some] newline_in_parts [OF Some] readLongLong_append [OF Some]
    show ?thesis
    proof (cases "readLongLong s")
      case (Inl e)
      then show ?thesis using deep by (intro stable_Inl) (auto simp: parse_multi_def Some s)
    next
      case (Inr l)
      then show ?thesis using deep
        by (cases "l = - 1"; intro stable_finish [where t = "drop (n + 2) s"])
          (simp_all add: parse_multi_def s del: drop_append take_append)
    qed
  qed (use deep in \<open>auto intro: stable_Wait simp: parse_multi_def\<close>)
qed

lemma stable_typed: "stable (\<lambda>inp. parse_typed M inp ts root) s"
proof (cases "task_type (hd ts)")
  case (Some ty)
  then show ?thesis using stable_line stable_bulk stable_multi
    by (cases ty) (simp_all add: parse_typed_def stable_Inl)
qed (simp add: parse_typed_def stable_Inl)

text \<open>A waiting machine has at most read the type of the item.\<close>

lemma parse_finish_Wait: "parse_finish s obj k = Inr (Wait a b c) \<longleftrightarrow> False"
  by (simp add: parse_finish_not_Wait)

lemma parse_typed_Wait: "parse_typed M inp ts root = Inr (Wait inp' ts' root') \<Longrightarrow> inp' = inp \<and> ts' = ts \<and> root' = root"
  by (auto simp: parse_typed_def parse_line_item_def parse_bulk_def parse_multi_def and_then_Inr parse_finish_Wait
      split: option.splits reply_type.splits if_splits)

lemma stable_item: "stable (\<lambda>inp. parse_item M inp ts root) s"
proof (cases "task_type (hd ts) = None")
  case True
  show ?thesis
  proof (cases s)
    case (Cons c t)
    show ?thesis
    proof (cases "type_byte c")
      case None
      then show ?thesis using Cons True by (intro stable_Stop) (auto simp: parse_item_def)
    next
      case (Some ty)
      then have "parse_item M (s @ x) ts root = parse_typed M (t @ x) (typed ty ts) root" for x
        using Cons True by (simp add: parse_item_def)
      from this this [of "[]"] show ?thesis using stable_typed [of M "typed ty ts" root t]
        unfolding stable_def append_Nil2 by (simp only: simp_thms)
    qed
  qed (use True in \<open>auto intro: stable_Wait simp: parse_item_def\<close>)
next
  case False
  then have "parse_item M inp ts root = parse_typed M inp ts root" for inp by (auto simp: parse_item_def)
  then show ?thesis using stable_typed by simp
qed

lemma parse_item_Wait:
  assumes "parse_item M inp ts root = Inr (Wait inp' ts' root')" "ts \<noteq> []"
  shows "parse_item M (inp @ x) ts root = parse_item M (inp' @ x) ts' root'" "ts' \<noteq> []" "root' = root"
    "parse_item M inp' ts' root' = Inr (Wait inp' ts' root')"
proof -
  have "parse_item M (inp @ x) ts root = parse_item M (inp' @ x) ts' root' \<and> ts' \<noteq> [] \<and> root' = root \<and>
    parse_item M inp' ts' root' = Inr (Wait inp' ts' root')"
  proof (cases "task_type (hd ts) = None")
    case True
    show ?thesis
    proof (cases inp)
      case (Cons c t)
      then obtain ty where ty: "type_byte c = Some ty" "parse_typed M t (typed ty ts) root = Inr (Wait inp' ts' root')"
        using assms(1) True by (auto simp: parse_item_def split: option.splits)
      note w = parse_typed_Wait [OF ty(2)]
      then show ?thesis using ty True Cons by (simp add: parse_item_def typed_def)
    qed (use assms True in \<open>auto simp: parse_item_def\<close>)
  next
    case False
    then have p: "parse_item M inp ts root = parse_typed M inp ts root" for inp by (auto simp: parse_item_def)
    then show ?thesis using assms parse_typed_Wait [of M inp ts root inp' ts' root'] by auto
  qed
  then show "parse_item M (inp @ x) ts root = parse_item M (inp' @ x) ts' root'" "ts' \<noteq> []" "root' = root"
    "parse_item M inp' ts' root' = Inr (Wait inp' ts' root')" by auto
qed

lemma parse_loop_append:
  "case parse_loop M inp ts root of
     Inl e \<Rightarrow> parse_loop M (inp @ x) ts root = Inl e
   | Inr (Wait inp' ts' root') \<Rightarrow> parse_loop M (inp @ x) ts root = parse_loop M (inp' @ x) ts' root'
   | Inr p \<Rightarrow> parse_loop M (inp @ x) ts root = Inr (extend x p)"
proof (induction M inp ts root rule: parse_loop.induct)
  case (1 M inp ts root)
  show ?case
  proof (cases "ts = []")
    case True
    then show ?thesis by (simp add: extend_def)
  next
    case False
    note s = stable_item [of M ts root inp, unfolded stable_def, rule_format, of x]
    have loop: "parse_loop M inp ts root = (case parse_item M inp ts root of
        Inr (Go inp ts root) \<Rightarrow> parse_loop M inp ts root | p \<Rightarrow> p)" for inp
      using False by (simp add: parse_loop.simps [of M inp ts])
    show ?thesis
    proof (cases "parse_item M inp ts root")
      case (Inl e)
      then show ?thesis using s by (simp add: loop)
    next
      case (Inr p)
      show ?thesis
      proof (cases p)
        case (Go inp' ts' root')
        then have "parse_loop M inp ts root = parse_loop M inp' ts' root'"
          "parse_loop M (inp @ x) ts root = parse_loop M (inp' @ x) ts' root'"
          using Inr s by (simp_all add: loop extend_def)
        then show ?thesis using "1.IH" [OF False Inr Go] by (simp only: simp_thms)
      next
        case (Wait inp' ts' root')
        note w = parse_item_Wait [OF Inr [unfolded Wait] False]
        have "parse_loop M (inp' @ x) ts' root' = parse_loop M (inp @ x) ts root"
          using w(2) by (simp add: loop parse_loop.simps [of M "inp' @ x"] w(1))
        then show ?thesis using Inr Wait by (simp add: loop)
      next
        case (Stop e m)
        then show ?thesis using Inr s by (simp add: loop extend_def)
      qed
    qed
  qed
qed

end
