(* ===== verification/Redis_Replies.thy ===== *)
theory Redis_Replies
  imports Redis_Parse Redis_Format
begin

text \<open>
  The text of replies in the Redis protocol, and what the reader makes of it: however the bytes are cut
  into pieces, it returns the replies that were written, one after the other.
\<close>

section \<open>The text of a reply\<close>

fun reply_text :: "reply \<Rightarrow> string" where
  "reply_text (StatusReply s) = ''+'' @ s @ CRLF"
| "reply_text (ErrorReply s) = ''-'' @ s @ CRLF"
| "reply_text (IntegerReply i) = '':'' @ show_int i @ CRLF"
| "reply_text NilReply = ''$-1'' @ CRLF"
| "reply_text (StringReply s) = ''$'' @ to_string (length s) @ CRLF @ s @ CRLF"
| "reply_text (ArrayReply n None) = ''*'' @ to_string n @ CRLF"
| "reply_text (ArrayReply n (Some es)) =
     ''*'' @ to_string n @ CRLF @ concat (map (\<lambda>e. case e of None \<Rightarrow> [] | Some x \<Rightarrow> reply_text x) es)"

text \<open>Replies that the protocol can carry; \<open>d\<close> bounds how deep arrays are nested.\<close>

fun reply_ok :: "nat \<Rightarrow> reply \<Rightarrow> bool" where
  "reply_ok d (StatusReply s) \<longleftrightarrow> newline_in s = None \<and> length s < 2 ^ 30"
| "reply_ok d (ErrorReply s) \<longleftrightarrow> newline_in s = None \<and> length s < 2 ^ 30"
| "reply_ok d (IntegerReply i) \<longleftrightarrow> - (2 ^ 63) < i \<and> i < 2 ^ 63"
| "reply_ok d NilReply \<longleftrightarrow> True"
| "reply_ok d (StringReply s) \<longleftrightarrow> length s < 2 ^ 30"
| "reply_ok d (ArrayReply n None) \<longleftrightarrow> 0 < d \<and> n = 0"
| "reply_ok 0 (ArrayReply n (Some es)) \<longleftrightarrow> False"
| "reply_ok (Suc d) (ArrayReply n (Some es)) \<longleftrightarrow> n = length es \<and> 0 < n \<and> n < 2 ^ 28 \<and>
     (\<forall>e \<in> set es. case e of None \<Rightarrow> False | Some x \<Rightarrow> reply_ok d x)"

section \<open>Lines\<close>

lemma newline_in_line:
  "newline_in s = None \<Longrightarrow> newline_in (s @ CRLF @ x) = Some (length s)"
  by (induction s rule: newline_in.induct) (auto simp: CRLF_def split: if_splits)

lemma newline_in_digits: "\<forall>c \<in> set s. c \<noteq> CHR 0x0D \<Longrightarrow> newline_in s = None"
  by (induction s rule: newline_in.induct) auto

lemma foldl_digits: "foldl (\<lambda>n c. 10 * n + digit_val c) k ds = k * 10 ^ length ds + digits_val ds"
proof (induction ds arbitrary: k)
  case (Cons d ds)
  have "foldl (\<lambda>n c. 10 * n + digit_val c) k (d # ds) = (10 * k + digit_val d) * 10 ^ length ds + digits_val ds"
    using Cons [of "10 * k + digit_val d"] by simp
  moreover have "digits_val (d # ds) = digit_val d * 10 ^ length ds + digits_val ds"
    using Cons [of "digit_val d"] by (simp add: digits_val_def)
  ultimately show ?case by (simp add: algebra_simps)
qed (simp add: digits_val_def)

lemma digit_not_CR: "is_digit c \<Longrightarrow> c \<noteq> CHR 0x0D"
  by (auto simp: is_digit_def)

lemma read_digits_line:
  assumes "\<forall>c \<in> set ds. is_digit c" "0 \<le> v" "v * 10 ^ length ds + int (digits_val ds) < 2 ^ 63"
  shows "read_digits (ds @ CHR 0x0D # x) v = Inr (Some (v * 10 ^ length ds + int (digits_val ds)))"
  using assms
proof (induction ds arbitrary: v)
  case Nil
  then show ?case by (simp add: digits_val_def)
next
  case (Cons c ds)
  let ?w = "v * 10 + int (digit_val c)"
  have w: "?w * 10 ^ length ds + int (digits_val ds) = v * 10 ^ length (c # ds) + int (digits_val (c # ds))"
    by (simp add: digits_val_Cons algebra_simps)
  have w0: "0 \<le> ?w" using Cons.prems(2) by simp
  then have le: "?w \<le> ?w * 10 ^ length ds" using mult_left_mono [of 1 "10 ^ length ds" ?w] by simp
  have "a < e" if "a \<le> b" "b + int k < e" for a b e :: int and k using that by simp
  from this [OF le] have lt: "?w < 2 ^ 63" using Cons.prems(3) unfolding w [symmetric] .
  have c: "c \<noteq> CHR 0x0D" "is_digit c" using Cons.prems(1) digit_not_CR by auto
  have l: "long_arith (v * 10) = Inr (v * 10)" "long_arith ?w = Inr ?w"
    using lt Cons.prems(2) unfolding long_arith_def by auto
  have "read_digits (ds @ CHR 0x0D # x) ?w = Inr (Some (?w * 10 ^ length ds + int (digits_val ds)))"
    using Cons.IH [of ?w] Cons.prems(1,3) w0 unfolding w by simp
  then have "read_digits ((c # ds) @ CHR 0x0D # x) v = Inr (Some (?w * 10 ^ length ds + int (digits_val ds)))"
    using c l by simp
  then show ?case unfolding w .
qed

lemma read_nat_line: "n < 2 ^ 63 \<Longrightarrow> read_digits (to_string n @ CHR 0x0D # x) 0 = Inr (Some (int n))"
  using read_digits_line [of "to_string n" 0 x] to_string_digits by auto

lemma to_string_hd: "hd (to_string n) \<noteq> CHR ''-'' \<and> hd (to_string n) \<noteq> CHR ''+''"
  using to_string_digits [of "hd (to_string n)" n] by (auto simp: is_digit_def)

lemma readLongLong_nat: "n < 2 ^ 63 \<Longrightarrow> readLongLong (to_string n @ CRLF @ x) = Inr (int n)"
  using read_nat_line [of n] to_string_hd [of n] by (simp add: readLongLong_def CRLF_def Let_def)

lemma readLongLong_int:
  assumes "- (2 ^ 63) < i" "i < 2 ^ 63"
  shows "readLongLong (show_int i @ CRLF @ x) = Inr i"
proof (cases "i < 0")
  case True
  then show ?thesis using assms read_nat_line [of "nat (- i)"] by (simp add: show_int_def readLongLong_def CRLF_def Let_def)
next
  case False
  then show ?thesis using assms readLongLong_nat [of "nat i"] by (simp add: show_int_def)
qed

lemma newline_in_nat [simp]: "newline_in (to_string n @ CRLF @ x) = Some (length (to_string n))"
  by (intro newline_in_line newline_in_digits ballI digit_not_CR) (rule to_string_digits)

lemma newline_in_int [simp]: "newline_in (show_int i @ CRLF @ x) = Some (length (show_int i))"
  by (intro newline_in_line newline_in_digits) (auto simp: show_int_def dest!: to_string_digits digit_not_CR)

section \<open>Linking a reply\<close>

text \<open>Whether a reply can be linked does not depend on the reply.\<close>

lemma set_element_any: "set_element r p i x = Inr r1 \<Longrightarrow> \<exists>r2. set_element r p i y = Inr r2"
proof (induction r p i x arbitrary: r1 rule: set_element.induct)
  case (3 n es j p i x)
  then obtain e e1 where e: "j < length es" "es ! j = Some e" "set_element e p i x = Inr e1"
    by (auto simp: and_then_Inr split: if_splits option.splits)
  obtain e2 where "set_element e p i y = Inr e2" using "3.IH" [OF e] by blast
  then show ?case using e by simp
qed (auto split: if_splits)

lemma set_element_inside:
  assumes "set_element r p i (ArrayReply n (Some vs)) = Inr r1" "j < length vs"
  shows "set_element r1 (p @ [i]) j x = set_element r p i (ArrayReply n (Some (vs[j := Some x])))"
  using assms(1)
proof (induction r p i "ArrayReply n (Some vs)" arbitrary: r1 rule: set_element.induct)
  case (2 m es i)
  then show ?case using assms(2) by (auto split: if_splits)
next
  case (3 m es k p i)
  then obtain e e1 where e: "k < length es" "es ! k = Some e" "set_element e p i (ArrayReply n (Some vs)) = Inr e1"
    "r1 = ArrayReply m (Some (es[k := Some e1]))"
    by (auto simp: and_then_Inr split: if_splits option.splits)
  then show ?case using 3 by (simp add: e)
qed simp_all

definition linked :: "read_task list \<Rightarrow> reply option \<Rightarrow> reply \<Rightarrow> reply \<Rightarrow> nat list \<Rightarrow> bool" where
  "linked ts root x r p \<longleftrightarrow> link_reply ts root x = Inr (p, r)"

lemma linked_any: "linked ts root x r p \<Longrightarrow> \<exists>r'. linked ts root y r' p"
  by (auto simp: linked_def link_reply_def and_then_Inr split: list.splits option.splits if_splits dest: set_element_any)

lemma linked_inside:
  assumes "linked (t # ts) root (ArrayReply n (Some vs)) r p" "j < length vs" "task_idx c = int j"
    "linked (t # ts) root (ArrayReply n (Some (vs[j := Some x]))) r' p" "task_obj t1 = Some p"
  shows "linked (c # t1 # ts) (Some r) x r' (p @ [j])"
proof (cases ts)
  case Nil
  then show ?thesis using assms by (auto simp: linked_def link_reply_def)
next
  case (Cons prv us)
  then obtain q r0 where q: "task_obj prv = Some q" "root = Some r0" "0 \<le> task_idx t" "p = q @ [nat (task_idx t)]"
    "set_element r0 q (nat (task_idx t)) (ArrayReply n (Some vs)) = Inr r"
    "set_element r0 q (nat (task_idx t)) (ArrayReply n (Some (vs[j := Some x]))) = Inr r'"
    using assms(1,4) by (auto simp: linked_def link_reply_def and_then_Inr split: option.splits if_splits)
  then show ?thesis using set_element_inside [OF q(5) assms(2), of x] assms(3,5)
    by (auto simp: linked_def link_reply_def)
qed

section \<open>Reading one reply\<close>

text \<open>After an item the machine goes on at the next task.\<close>

definition after_item :: "memory \<Rightarrow> string \<Rightarrow> read_task list \<Rightarrow> reply \<Rightarrow> fault + progress" where
  "after_item M rest ts r = and_then (moveToNextTask ts) (\<lambda>ts. parse_loop M rest ts (Some r))"

lemma parse_loop_finish:
  assumes "parse_item M inp (t # ts) root = parse_finish rest (Inr (Some (p, r))) (\<lambda>_. moveToNextTask ts')"
  shows "parse_loop M inp (t # ts) root = after_item M rest ts' r"
  using assms by (cases "moveToNextTask ts'") (auto simp: parse_loop.simps [of M inp] parse_finish_def after_item_def)

lemma link_reply_idx: "task_idx t' = task_idx t \<Longrightarrow> link_reply (t' # ts) root x = link_reply (t # ts) root x"
  by (cases ts) (auto simp: link_reply_def split: option.split)

lemma create_linked:
  "linked (t # ts) root x r p \<Longrightarrow> task_idx t' = task_idx t \<Longrightarrow> create (t' # ts) root x = Inr (Some (p, r))"
  by (simp add: create_def linked_def link_reply_idx [of t' t])

lemma ample_small: "ample M \<Longrightarrow> n < 2 ^ 31 \<Longrightarrow> may_alloc M n"
  by (simp add: ample_def)

lemma hd_typed [simp]: "hd (typed ty (t # ts)) = t\<lparr>task_type := Some ty\<rparr>"
  "typed ty (t # ts) = t\<lparr>task_type := Some ty\<rparr> # ts"
  by (simp_all add: typed_def)

lemma take_line: "take (length s) (s @ CRLF @ x) = s" "drop (length s + 2) (s @ CRLF @ x) = x"
  by (simp_all add: CRLF_def)

lemma parse_string_line:
  assumes "ample M" "newline_in s = None" "length s < 2 ^ 30" "linked (t # ts) root x r p" "task_type t = None"
    and "c = CHR ''+'' \<and> x = StatusReply s \<or> c = CHR ''-'' \<and> x = ErrorReply s"
  shows "\<exists>t'. task_idx t' = task_idx t \<and>
    parse_loop M (c # s @ CRLF @ rest) (t # ts) root = after_item M rest (t' # ts) r"
proof -
  obtain ty where ty: "type_byte c = Some ty" "ty = REDIS_REPLY_STATUS \<and> x = StatusReply s \<or> ty = REDIS_REPLY_ERROR \<and> x = ErrorReply s"
    using assms(6) by (auto simp: type_byte_def)
  let ?t = "t\<lparr>task_type := Some ty\<rparr>"
  have "createStringObject M (?t # ts) root s = Inr (Some (p, r))"
    using ty create_linked [OF assms(4), of ?t] assms(1,3) by (auto simp: createStringObject_def ample_small sizeof_redisReply_def)
  then have "parse_item M (c # s @ CRLF @ rest) (t # ts) root =
      parse_finish rest (Inr (Some (p, r))) (\<lambda>_. moveToNextTask (?t # ts))"
    using ty assms(5) newline_in_line [OF assms(2), of rest] take_line [of s rest]
    by (auto simp: parse_item_def parse_typed_def parse_line_item_def simp del: append_assoc)
  from parse_loop_finish [OF this] show ?thesis by (intro exI [of _ ?t]) simp
qed

lemma parse_integer_line:
  assumes "ample M" "- (2 ^ 63) < i" "i < 2 ^ 63" "linked (t # ts) root (IntegerReply i) r p" "task_type t = None"
  shows "\<exists>t'. task_idx t' = task_idx t \<and>
    parse_loop M (CHR '':'' # show_int i @ CRLF @ rest) (t # ts) root = after_item M rest (t' # ts) r"
proof -
  let ?t = "t\<lparr>task_type := Some REDIS_REPLY_INTEGER\<rparr>"
  have "createIntegerObject M (?t # ts) root i = Inr (Some (p, r))"
    using create_linked [OF assms(4), of ?t] assms(1) by (simp add: createIntegerObject_def ample_small sizeof_redisReply_def)
  then have "parse_item M (CHR '':'' # show_int i @ CRLF @ rest) (t # ts) root =
      parse_finish rest (Inr (Some (p, r))) (\<lambda>_. moveToNextTask (?t # ts))"
    using assms(5) readLongLong_int [OF assms(2,3)] take_line [of "show_int i" rest]
    by (simp add: parse_item_def parse_typed_def parse_line_item_def type_byte_def del: append_assoc)
  from parse_loop_finish [OF this] show ?thesis by (intro exI [of _ ?t]) simp
qed

lemma parse_nil:
  assumes "ample M" "linked (t # ts) root NilReply r p" "task_type t = None"
  shows "\<exists>t'. task_idx t' = task_idx t \<and>
    parse_loop M (''$-1'' @ CRLF @ rest) (t # ts) root = after_item M rest (t' # ts) r"
proof -
  let ?t = "t\<lparr>task_type := Some REDIS_REPLY_STRING\<rparr>"
  have "createNilObject M (?t # ts) root = Inr (Some (p, r))"
    using create_linked [OF assms(2), of ?t] assms(1) by (simp add: createNilObject_def ample_small sizeof_redisReply_def)
  moreover have "newline_in (''-1'' @ CRLF @ rest) = Some 2" "readLongLong (''-1'' @ CRLF @ rest) = Inr (- 1)"
    by (simp_all add: CRLF_def readLongLong_def is_digit_def digit_val_def long_arith_def)
  ultimately have "parse_item M (''$-1'' @ CRLF @ rest) (t # ts) root =
      parse_finish rest (Inr (Some (p, r))) (\<lambda>_. moveToNextTask (?t # ts))"
    using assms(3) by (simp add: parse_item_def parse_typed_def parse_bulk_def type_byte_def CRLF_def)
  from parse_loop_finish [OF this] show ?thesis by (intro exI [of _ ?t]) simp
qed

lemma parse_string:
  assumes "ample M" "length s < 2 ^ 30" "linked (t # ts) root (StringReply s) r p" "task_type t = None"
  shows "\<exists>t'. task_idx t' = task_idx t \<and>
    parse_loop M (CHR ''$'' # to_string (length s) @ CRLF @ s @ CRLF @ rest) (t # ts) root = after_item M rest (t' # ts) r"
proof -
  let ?t = "t\<lparr>task_type := Some REDIS_REPLY_STRING\<rparr>" and ?k = "to_string (length s)"
  let ?inp = "?k @ CRLF @ s @ CRLF @ rest"
  have c: "createStringObject M (?t # ts) root s = Inr (Some (p, r))"
    using create_linked [OF assms(3), of ?t] assms(1,2) by (simp add: createStringObject_def ample_small sizeof_redisReply_def)
  have d: "drop (length ?k + 2) ?inp = s @ CRLF @ rest" by (simp add: CRLF_def)
  have "drop (length ?k + 2 + length s + 2) ?inp = drop (length s + 2) (drop (length ?k + 2) ?inp)"
    unfolding drop_drop by (simp only: add.assoc add.commute add.left_commute)
  then have d2: "drop (length ?k + 2 + length s + 2) ?inp = rest" unfolding d by (simp add: CRLF_def)
  have le: "length ?k + 2 + length s + 2 \<le> length ?inp" by (simp add: CRLF_def)
  have ll: "readLongLong ?inp = Inr (int (length s))" "long_arith (int (length s) + 2) = Inr (int (length s) + 2)"
    using assms(2) by (auto intro: readLongLong_nat simp: long_arith_def)
  have "parse_bulk M ?inp (?t # ts) root = parse_finish rest (Inr (Some (p, r))) (\<lambda>_. moveToNextTask (?t # ts))"
    unfolding parse_bulk_def newline_in_nat option.case ll and_then_simps nat_int d d2 using le c by simp
  then have "parse_item M (CHR ''$'' # ?inp) (t # ts) root =
      parse_finish rest (Inr (Some (p, r))) (\<lambda>_. moveToNextTask (?t # ts))"
    using assms(4) by (simp add: parse_item_def parse_typed_def type_byte_def)
  from parse_loop_finish [OF this] show ?thesis by (intro exI [of _ ?t]) simp
qed

lemma parse_array_header:
  assumes "ample M" "n < 2 ^ 28" "task_type t = None" "length ts \<le> 7"
    "linked (t # ts) root (ArrayReply n (if 0 < n then Some (replicate n None) else None)) r p"
  shows "parse_item M (CHR ''*'' # to_string n @ CRLF @ rest) (t # ts) root =
    parse_finish rest (Inr (Some (p, r))) (\<lambda>path. if 0 < n
      then Inr (pushed (int n) path (t\<lparr>task_type := Some REDIS_REPLY_ARRAY\<rparr> # ts))
      else moveToNextTask (t\<lparr>task_type := Some REDIS_REPLY_ARRAY\<rparr> # ts))"
proof -
  let ?t = "t\<lparr>task_type := Some REDIS_REPLY_ARRAY\<rparr>"
  have n: "readLongLong (to_string n @ CRLF @ rest) = Inr (int n)" "c_int (int n) = int n" "size_t (int n) = n"
    using assms(2) by (auto intro: readLongLong_nat simp: c_int_small size_t_nat)
  have "createArrayObject M (?t # ts) root (int n) = Inr (Some (p, r))"
    using create_linked [OF assms(5), of ?t] assms(1,2) n(3)
    by (auto simp: createArrayObject_def ample_small sizeof_redisReply_def split: if_splits)
  then show ?thesis
    using n(1,2) assms(3,4) take_line(2) [of "to_string n" rest]
    by (simp add: parse_item_def parse_typed_def parse_multi_def type_byte_def n(2) cong: if_cong)
qed

lemma parse_empty_array:
  assumes "ample M" "task_type t = None" "length ts \<le> 7" "linked (t # ts) root (ArrayReply 0 None) r p"
  shows "\<exists>t'. task_idx t' = task_idx t \<and>
    parse_loop M (CHR ''*'' # to_string 0 @ CRLF @ rest) (t # ts) root = after_item M rest (t' # ts) r"
proof -
  let ?t = "t\<lparr>task_type := Some REDIS_REPLY_ARRAY\<rparr>"
  have "parse_item M (CHR ''*'' # to_string 0 @ CRLF @ rest) (t # ts) root =
      parse_finish rest (Inr (Some (p, r))) (\<lambda>_. moveToNextTask (?t # ts))"
    using parse_array_header [of M 0 t ts root r p rest] assms by simp
  from parse_loop_finish [OF this] show ?thesis by (intro exI [of _ ?t]) simp
qed

text \<open>The elements of an array, given that each of them is read.\<close>

definition element_text :: "reply option \<Rightarrow> string" where
  "element_text e = (case e of None \<Rightarrow> [] | Some x \<Rightarrow> reply_text x)"

lemma element_text_Some [simp]: "element_text (Some x) = reply_text x"
  by (simp add: element_text_def)

lemma parse_elements:
  assumes reads: "\<And>x c root r p rest. Some x \<in> set es \<Longrightarrow> task_type c = None \<Longrightarrow> linked (c # t1 # ts) root x r p \<Longrightarrow>
      \<exists>c'. task_idx c' = task_idx c \<and> parse_loop M (reply_text x @ rest) (c # t1 # ts) root = after_item M rest (c' # t1 # ts) r"
    and t1: "task_type t1 = Some REDIS_REPLY_ARRAY" "task_elements t1 = int (length es)" "task_obj t1 = Some p"
    and some: "\<forall>e \<in> set es. e \<noteq> None"
    and final: "linked (t # ts) root (ArrayReply n (Some es)) r p"
  shows "es = ds @ us \<Longrightarrow> us \<noteq> [] \<Longrightarrow> task_type c = None \<Longrightarrow> task_idx c = int (length ds) \<Longrightarrow>
    linked (t # ts) root (ArrayReply n (Some (ds @ replicate (length us) None))) ri p \<Longrightarrow>
    parse_loop M (concat (map element_text us) @ rest) (c # t1 # ts) (Some ri) = after_item M rest (t1 # ts) r"
proof (induction us arbitrary: ds c ri)
  case (Cons u us)
  obtain x where u: "u = Some x" using some Cons.prems(1) by auto
  let ?ds = "ds @ [Some x]"
  have upd: "(ds @ replicate (length (u # us)) None)[length ds := Some x] = ?ds @ replicate (length us) None"
    by (simp add: list_update_append)
  obtain r' where r': "linked (t # ts) root (ArrayReply n (Some (?ds @ replicate (length us) None))) r' p"
    using linked_any [OF final] by blast
  have lk: "linked (c # t1 # ts) (Some ri) x r' (p @ [length ds])"
    using linked_inside [OF Cons.prems(5) _ Cons.prems(4) r' [folded upd] t1(3)] by simp
  obtain c' where c': "task_idx c' = task_idx c" "parse_loop M (reply_text x @ concat (map element_text us) @ rest) (c # t1 # ts) (Some ri) =
      after_item M (concat (map element_text us) @ rest) (c' # t1 # ts) r'"
    using reads [OF _ Cons.prems(3) lk] Cons.prems(1) u by auto
  have len: "length es = length ds + Suc (length us)" using Cons.prems(1) by simp
  show ?case
  proof (cases "us = []")
    case True
    then have "r' = r" using r' final Cons.prems(1) u by (simp add: linked_def)
    moreover have "moveToNextTask (c' # t1 # ts) = moveToNextTask (t1 # ts)"
      using True len t1(1,2) Cons.prems(4) c'(1) by simp
    ultimately show ?thesis using c'(2) True u
      by (simp add: after_item_def del: moveToNextTask.simps)
  next
    case False
    then have us: "0 < length us" by simp
    let ?c = "c'\<lparr>task_type := None, task_elements := - 1, task_idx := task_idx c' + 1\<rparr>"
    have "moveToNextTask (c' # t1 # ts) = Inr (?c # t1 # ts)"
      using c'(1) len us t1 Cons.prems(4) by simp
    moreover have "parse_loop M (concat (map element_text us) @ rest) (?c # t1 # ts) (Some r') = after_item M rest (t1 # ts) r"
      using Cons.prems(1,4) u False c'(1) r' by (intro Cons.IH [of ?ds]) auto
    ultimately show ?thesis using c' u by (simp add: after_item_def del: moveToNextTask.simps)
  qed
qed simp

lemma reply_text_array: "reply_text (ArrayReply n (Some es)) =
    CHR ''*'' # to_string n @ CRLF @ concat (map element_text es)"
  by (simp add: element_text_def [abs_def] cong: map_cong)

lemma parse_reply:
  assumes "ample M" "reply_ok d y" "length ts + d \<le> 8" "task_type t = None" "linked (t # ts) root y r p"
  shows "\<exists>t'. task_idx t' = task_idx t \<and>
    parse_loop M (reply_text y @ rest) (t # ts) root = after_item M rest (t' # ts) r"
  using assms(2-)
proof (induction d y arbitrary: t ts root r p rest rule: reply_ok.induct)
  case (6 d n)
  then show ?case using parse_empty_array [OF assms(1), of t ts root r p rest] by auto
next
  case (8 d n es)
  have es: "n = length es" "0 < n" "n < 2 ^ 28" and ok: "\<forall>e \<in> set es. case e of None \<Rightarrow> False | Some x \<Rightarrow> reply_ok d x"
    using "8.prems"(1) by auto
  let ?t = "t\<lparr>task_type := Some REDIS_REPLY_ARRAY\<rparr>"
  let ?t1 = "?t\<lparr>task_elements := int n, task_obj := Some p\<rparr>"
  let ?c = "\<lparr>task_type = None, task_elements = - 1, task_idx = 0, task_obj = None\<rparr>"
  obtain r0 where r0: "linked (t # ts) root (ArrayReply n (Some (replicate n None))) r0 p"
    using linked_any [OF "8.prems"(4)] by blast
  have "parse_item M (reply_text (ArrayReply n (Some es)) @ rest) (t # ts) root =
      parse_finish (concat (map element_text es) @ rest) (Inr (Some (p, r0))) (\<lambda>path. Inr (pushed (int n) path (?t # ts)))"
    using parse_array_header [OF assms(1) es(3) "8.prems"(3), of ts root r0 p] es(2) r0 "8.prems"(2)
    unfolding reply_text_array by simp
  then have "parse_loop M (reply_text (ArrayReply n (Some es)) @ rest) (t # ts) root =
      parse_loop M (concat (map element_text es) @ rest) (?c # ?t1 # ts) (Some r0)"
    by (simp add: parse_loop.simps [of M "reply_text (ArrayReply n (Some es)) @ rest"] parse_finish_def pushed_def del: reply_text.simps)
  also have "\<dots> = after_item M rest (?t1 # ts) r"
  proof (rule parse_elements [where t = t and root = root and n = n and ds = "[]" and es = es])
    fix x c root r p' rest
    assume x: "Some x \<in> set es" and c: "task_type c = None" "linked (c # ?t1 # ts) root x r p'"
    have okx: "reply_ok d x" using ok x by fastforce
    show "\<exists>c'. task_idx c' = task_idx c \<and> parse_loop M (reply_text x @ rest) (c # ?t1 # ts) root =
        after_item M rest (c' # ?t1 # ts) r"
      using "8.IH" [OF x refl okx _ c] "8.prems"(2) by simp
  qed (use es ok r0 "8.prems"(4) in \<open>auto split: option.splits\<close>)
  finally show ?case by (intro exI [of _ ?t1]) simp
qed (use parse_string_line [OF assms(1)] parse_integer_line [OF assms(1)] parse_nil [OF assms(1)]
    parse_string [OF assms(1)] in auto)

end
