(* ===== verification/Redis_Sessions.thy ===== *)
theory Redis_Sessions
  imports Redis_Replies
begin

text \<open>
  The calls of the reader, \<open>redisReaderFeed\<close> and \<open>redisReaderGetReply\<close>, in terms of the machine over the
  unread bytes, and sessions of calls against the stream of replies that a server writes.
\<close>

section \<open>The calls\<close>

definition root_task :: read_task where
  "root_task = \<lparr>task_type = None, task_elements = - 1, task_idx = - 1, task_obj = None\<rparr>"

definition start_stack :: "read_task list \<Rightarrow> read_task list" where
  "start_stack ts = (if ts = [] then [root_task] else ts)"

definition reader_is :: "redisReader \<Rightarrow> string \<Rightarrow> read_task list \<Rightarrow> reply option \<Rightarrow> bool" where
  "reader_is r inp ts root \<longleftrightarrow> reader_at r inp ts root \<and> reader_pos r < 1024"

lemma start_stack_ne [simp]: "start_stack ts \<noteq> []" "ts \<noteq> [] \<Longrightarrow> start_stack ts = ts" "start_stack [] = [root_task]"
  by (simp_all add: start_stack_def)

lemma redisReaderCreate_is:
  assumes "ample M"
  shows "\<exists>r. redisReaderCreate M = Inr (Some r) \<and> reader_is r [] [] None"
proof -
  obtain b where "sdsempty M = Inr (Some b)" "sds_is b []" using sdsempty_is [OF assms] by blast
  then show ?thesis using assms ample_small [of M sizeof_redisReader]
    by (auto simp: redisReaderCreate_def sizeof_redisReader_def reader_is_def reader_at_def)
qed

lemma redisReaderFeed_is:
  assumes "reader_is r inp ts root" "ample M" "n \<le> length t" "length inp + n < 2 ^ 30 - 1024"
  shows "\<exists>r'. redisReaderFeed M r (Some t) n = Inr (True, r') \<and> reader_is r' (inp @ take n t) ts root"
proof (cases "n = 0")
  case True
  then show ?thesis using assms(1) by (simp add: redisReaderFeed_def reader_is_def reader_at_def)
next
  case False
  obtain b v where b: "reader_buf r = Some b" "sds_is b v" "reader_len r = length v" "reader_pos r \<le> length v"
    "inp = drop (reader_pos r) v" "reader_err r = 0" "reader_stack r = ts" "reader_reply r = root" "reader_pos r < 1024"
    using assms(1) by (auto simp: reader_is_def reader_at_def)
  define c where "c = (reader_len r = 0 \<and> reader_maxbuf r \<noteq> 0 \<and> reader_maxbuf r < sdsavail b)"
  obtain e where e: "sdsempty M = Inr (Some e)" "sds_is e []" using sdsempty_is [OF assms(2)] by blast
  define r1 where "r1 = (if c then r\<lparr>reader_buf := Some e, reader_pos := 0\<rparr> else r)"
  define b1 where "b1 = (if c then e else b)"
  have b1: "sds_is b1 v" "reader_pos r1 \<le> length v" "inp = drop (reader_pos r1) v" "reader_pos r1 < 1024"
    "reader_err r1 = 0" "reader_stack r1 = ts" "reader_reply r1 = root"
    using b e by (auto simp: b1_def r1_def c_def)
  have "length v \<le> length inp + reader_pos r" using b(5) by simp
  then have "length v + n < 2 ^ 30" using assms(4) b(9) by simp
  then obtain s where s: "sdscatlen M b1 t n = Inr (Some s)" "sds_is s (v @ take n t)"
    using sdscatlen_is [OF assms(2) b1(1) assms(3)] by blast
  have "redisReaderFeed M r (Some t) n = Inr (True, r1\<lparr>reader_buf := Some s, reader_len := sdslen s\<rparr>)"
    using False b s(1) e(1) unfolding redisReaderFeed_def
    by (cases c) (auto simp: r1_def b1_def c_def)
  moreover have "reader_is (r1\<lparr>reader_buf := Some s, reader_len := sdslen s\<rparr>) (inp @ take n t) ts root"
    using b1 s(2) by (auto simp: reader_is_def reader_at_def sdslen_is)
  ultimately show ?thesis by blast
qed

lemma parse_loop_Go_stack: "parse_loop M inp ts root = Inr (Go inp' ts' root') \<Longrightarrow> ts' = []"
proof (induction M inp ts root rule: parse_loop.induct)
  case (1 M inp ts root)
  then show ?case by (subst (asm) (2) parse_loop.simps) (auto split: if_splits sum.splits progress.splits)
qed

lemma parse_loop_Wait:
  "parse_loop M inp ts root = Inr (Wait inp' ts' root') \<Longrightarrow> ts' \<noteq> [] \<and> length inp' \<le> length inp"
proof (induction M inp ts root rule: parse_loop.induct)
  case (1 M inp ts root)
  have ne: "ts \<noteq> []" using "1.prems" by (auto simp: parse_loop.simps)
  show ?case
  proof (cases "parse_item M inp ts root")
    case (Inr p)
    then show ?thesis
    proof (cases p)
      case (Go i t r)
      then show ?thesis using "1.IH" [OF ne Inr Go] "1.prems" Inr parse_item_Go [of M inp ts root i t r]
        by (simp add: parse_loop_step [OF ne])
    next
      case (Wait i t r)
      then have w: "i = inp'" "t = ts'" "r = root'" using "1.prems" Inr ne by (simp_all add: parse_loop.simps [of M inp])
      have "length i \<le> length inp" using Inr Wait
        by (auto simp: parse_item_def split: if_splits list.splits option.splits dest!: parse_typed_Wait)
      then show ?thesis using parse_item_Wait(2) [OF Inr [unfolded Wait] ne] w by simp
    qed (use "1.prems" Inr ne in \<open>auto simp: parse_loop.simps [of M inp]\<close>)
  qed (use "1.prems" ne in \<open>auto simp: parse_loop.simps [of M inp]\<close>)
qed

lemma parse_loop_empty: "ts \<noteq> [] \<Longrightarrow> parse_loop M [] ts root \<noteq> Inr (Go inp' ts' root')"
proof
  assume ts: "ts \<noteq> []" and "parse_loop M [] ts root = Inr (Go inp' ts' root')"
  then obtain a b c where "parse_item M [] ts root = Inr (Go a b c)"
    by (auto simp: parse_loop.simps [of M "[]"] split: sum.splits progress.splits)
  from parse_item_Go [OF this] show False by simp
qed

text \<open>What a call of \<open>redisReaderGetReply\<close> gives when there are bytes.\<close>

definition gives :: "fault + (bool \<times> reply option \<times> redisReader) \<Rightarrow> fault + progress \<Rightarrow> bool" where
  "gives res p \<longleftrightarrow>
     (case p of
        Inl e \<Rightarrow> res = Inl e
      | Inr (Go inp ts root) \<Rightarrow> \<exists>r'. res = Inr (True, root, r') \<and> reader_is r' inp [] None
      | Inr (Wait inp ts root) \<Rightarrow> \<exists>r'. res = Inr (True, None, r') \<and> reader_is r' inp ts root
      | Inr (Stop e m) \<Rightarrow> \<exists>r'. res = Inr (False, None, r') \<and> reader_err r' = e \<and> reader_errstr r' = m \<and> e \<noteq> 0)"

lemma compaction:
  assumes "reader_at r inp ts root"
  shows "\<exists>r'. (if 1024 \<le> reader_pos r then
        (case reader_buf r of
           None \<Rightarrow> Inl NullPointer
         | Some b \<Rightarrow> and_then (sdsrange b (c_int (int (reader_pos r))) (- 1)) (\<lambda>b.
             Inr (r\<lparr>reader_buf := Some b, reader_pos := 0, reader_len := sdslen b\<rparr>)))
      else Inr r) = Inr r' \<and> reader_is r' inp ts root"
proof (cases "1024 \<le> reader_pos r")
  case True
  obtain b v where b: "reader_buf r = Some b" "sds_is b v" "reader_pos r \<le> length v" "inp = drop (reader_pos r) v"
    "reader_err r = 0" "reader_stack r = ts" "reader_reply r = root"
    using assms by (auto simp: reader_at_def)
  have p: "c_int (int (reader_pos r)) = int (reader_pos r)" using b(3) sds_len_is(2) [OF b(2)] by (intro c_int_small) auto
  have "int (reader_pos r) < 2 ^ 31" using b(3) sds_len_is(2) [OF b(2)] by simp
  then obtain s where "sdsrange b (int (reader_pos r)) (- 1) = Inr s" "sds_is s (slice v (int (reader_pos r)) (- 1))"
    using sdsrange_is [OF b(2), of "int (reader_pos r)" "- 1"] by auto
  then show ?thesis using True b p by (auto simp: reader_is_def reader_at_def slice_suffix sdslen_is)
qed (use assms in \<open>simp add: reader_is_def\<close>)

lemma redisReaderGetReply_gives:
  assumes "reader_is r inp ts root" "reader_len r \<noteq> 0"
  shows "gives (redisReaderGetReply M r) (parse_loop M inp (start_stack ts) root)"
proof -
  define r1 where "r1 = (if reader_stack r = [] then r\<lparr>reader_stack := [root_task]\<rparr> else r)"
  have at: "reader_at r1 inp (start_stack ts) root"
    using assms(1) by (auto simp: reader_is_def reader_at_def r1_def start_stack_def)
  have get: "redisReaderGetReply M r = and_then (item_loop M r1) (\<lambda>r.
      if reader_err r \<noteq> 0 then Inr (False, None, r)
      else and_then (if 1024 \<le> reader_pos r then
          (case reader_buf r of
             None \<Rightarrow> Inl NullPointer
           | Some b \<Rightarrow> and_then (sdsrange b (c_int (int (reader_pos r))) (- 1)) (\<lambda>b.
               Inr (r\<lparr>reader_buf := Some b, reader_pos := 0, reader_len := sdslen b\<rparr>)))
        else Inr r) (\<lambda>r.
        if reader_stack r = [] then Inr (True, reader_reply r, r\<lparr>reader_reply := None\<rparr>)
        else Inr (True, None, r)))"
    using assms by (simp add: redisReaderGetReply_def r1_def root_task_def reader_is_def reader_at_def Let_def)
  note runs = item_loop_runs [OF at, of M, unfolded runs_def]
  show ?thesis
  proof (cases "parse_loop M inp (start_stack ts) root")
    case (Inl e)
    then show ?thesis using runs by (simp add: get gives_def)
  next
    case (Inr p)
    show ?thesis
    proof (cases p)
      case (Go inp' ts' root')
      then obtain r2 where r2: "item_loop M r1 = Inr r2" "reader_at r2 inp' [] root'"
        using runs Inr parse_loop_Go_stack by fastforce
      obtain r3 where r3: "(if 1024 \<le> reader_pos r2 then
          (case reader_buf r2 of
             None \<Rightarrow> Inl NullPointer
           | Some b \<Rightarrow> and_then (sdsrange b (c_int (int (reader_pos r2))) (- 1)) (\<lambda>b.
               Inr (r2\<lparr>reader_buf := Some b, reader_pos := 0, reader_len := sdslen b\<rparr>)))
        else Inr r2) = Inr r3" "reader_is r3 inp' [] root'" using compaction [OF r2(2)] by blast
      have "reader_is (r3\<lparr>reader_reply := None\<rparr>) inp' [] None" using r3(2) by (simp add: reader_is_def reader_at_def)
      moreover have "redisReaderGetReply M r = Inr (True, root', r3\<lparr>reader_reply := None\<rparr>)"
        unfolding get r2(1) and_then_simps r3(1) using r2(2) r3(2) by (simp add: reader_is_def reader_at_def)
      ultimately show ?thesis using Inr Go by (simp add: gives_def)
    next
      case (Wait inp' ts' root')
      then obtain r2 where r2: "item_loop M r1 = Inr r2" "reader_at r2 inp' ts' root'" using runs Inr by auto
      obtain r3 where r3: "(if 1024 \<le> reader_pos r2 then
          (case reader_buf r2 of
             None \<Rightarrow> Inl NullPointer
           | Some b \<Rightarrow> and_then (sdsrange b (c_int (int (reader_pos r2))) (- 1)) (\<lambda>b.
               Inr (r2\<lparr>reader_buf := Some b, reader_pos := 0, reader_len := sdslen b\<rparr>)))
        else Inr r2) = Inr r3" "reader_is r3 inp' ts' root'" using compaction [OF r2(2)] by blast
      have "ts' \<noteq> []" using Inr Wait parse_loop_Wait by blast
      then have "redisReaderGetReply M r = Inr (True, None, r3)"
        unfolding get r2(1) and_then_simps r3(1) using r2(2) r3(2) by (simp add: reader_is_def reader_at_def)
      then show ?thesis using Inr Wait r3(2) by (simp add: gives_def)
    next
      case (Stop e m)
      then show ?thesis using runs Inr by (auto simp: get gives_def)
    qed
  qed
qed

section \<open>Sessions\<close>

text \<open>Calls in any order, as the connection makes them: bytes arrive in pieces of any size, and replies are
  asked for at any time. The result tells whether every call reported success, and the replies.\<close>

datatype reader_call = Feed string | GetReply

fun reader_session :: "memory \<Rightarrow> reader_call list \<Rightarrow> redisReader \<Rightarrow> fault + (bool \<times> reply list \<times> redisReader)" where
  "reader_session M [] r = Inr (True, [], r)"
| "reader_session M (Feed s # cs) r =
     and_then (redisReaderFeed M r (Some s) (length s)) (\<lambda>(ok, r).
     and_then (reader_session M cs r) (\<lambda>(oks, xs, r). Inr (ok \<and> oks, xs, r)))"
| "reader_session M (GetReply # cs) r =
     and_then (redisReaderGetReply M r) (\<lambda>(ok, x, r).
     and_then (reader_session M cs r) (\<lambda>(oks, xs, r).
       Inr (ok \<and> oks, (case x of None \<Rightarrow> xs | Some x \<Rightarrow> x # xs), r)))"

definition fed :: "reader_call list \<Rightarrow> string" where
  "fed cs = concat (map (\<lambda>c. case c of Feed s \<Rightarrow> s | GetReply \<Rightarrow> []) cs)"

text \<open>What a reader should do: of a stream of replies it has so many bytes; asked for a reply, it gives the
  next one when all its bytes are there.\<close>

fun stream_session :: "reader_call list \<Rightarrow> nat \<Rightarrow> reply list \<Rightarrow> reply list" where
  "stream_session [] a ys = []"
| "stream_session (Feed s # cs) a ys = stream_session cs (a + length s) ys"
| "stream_session (GetReply # cs) a ys =
     (case ys of
        [] \<Rightarrow> stream_session cs a ys
      | y # zs \<Rightarrow> if length (reply_text y) \<le> a then y # stream_session cs (a - length (reply_text y)) zs
          else stream_session cs a ys)"

lemma fed_simps [simp]: "fed [] = []" "fed (Feed s # cs) = s @ fed cs" "fed (GetReply # cs) = fed cs"
  by (simp_all add: fed_def)

lemma parse_whole_reply:
  assumes "ample M" "reply_ok 8 y"
  shows "parse_loop M (reply_text y @ rest) [root_task] None = Inr (Go rest [] (Some y))"
proof -
  have "linked [root_task] None y y []" by (simp add: linked_def link_reply_def)
  then obtain t' where "parse_loop M (reply_text y @ rest) [root_task] None = after_item M rest [t'] y"
    using parse_reply [OF assms, where t = root_task and ts = "[]" and root = None and r = y and p = "[]" and rest = rest]
    by (auto simp: root_task_def)
  then show ?thesis by (simp add: after_item_def)
qed

lemma parse_part_reply:
  assumes "ample M" "reply_ok 8 y" "reply_text y = u @ w" "w \<noteq> []"
  shows "\<exists>inp ts root. parse_loop M u [root_task] None = Inr (Wait inp ts root)"
proof (cases "parse_loop M u [root_task] None")
  case (Inl e)
  then show ?thesis using parse_loop_append [of M u w "[root_task]" None] parse_whole_reply [OF assms(1,2), of "[]"] assms(3)
    by simp
next
  case (Inr p)
  have whole: "parse_loop M (u @ w) [root_task] None = Inr (Go [] [] (Some y))"
    using parse_whole_reply [OF assms(1,2), of "[]"] assms(3) by simp
  show ?thesis
  proof (cases p)
    case (Go inp ts root)
    then have "parse_loop M (u @ w) [root_task] None = Inr (Go (inp @ w) ts root)"
      using parse_loop_append [of M u w "[root_task]" None] Inr by (simp add: extend_def)
    then show ?thesis using whole assms(4) by simp
  next
    case (Stop e m)
    then have "parse_loop M (u @ w) [root_task] None = Inr (Stop e m)"
      using parse_loop_append [of M u w "[root_task]" None] Inr by (simp add: extend_def)
    then show ?thesis using whole by simp
  qed (use Inr in auto)
qed

text \<open>The reader has got \<open>u\<close> of the stream and returned no reply of it yet.\<close>

definition in_step :: "memory \<Rightarrow> redisReader \<Rightarrow> string \<Rightarrow> bool" where
  "in_step M r u \<longleftrightarrow> (\<exists>inp ts root. reader_is r inp ts root \<and> length inp \<le> length u \<and>
     (\<forall>z. parse_loop M (inp @ z) (start_stack ts) root = parse_loop M (u @ z) [root_task] None))"

lemma in_step_fresh: "reader_is r u [] None \<Longrightarrow> in_step M r u"
  unfolding in_step_def by (intro exI [of _ u] exI [of _ "[]"] exI [of _ None]) simp

lemma in_step_feed:
  assumes "in_step M r u" "ample M" "length u + length s < 2 ^ 30 - 1024"
  shows "\<exists>r'. redisReaderFeed M r (Some s) (length s) = Inr (True, r') \<and> in_step M r' (u @ s)"
proof -
  obtain inp ts root where i: "reader_is r inp ts root" "length inp \<le> length u"
    "\<And>z. parse_loop M (inp @ z) (start_stack ts) root = parse_loop M (u @ z) [root_task] None"
    using assms(1) by (auto simp: in_step_def)
  obtain r' where r': "redisReaderFeed M r (Some s) (length s) = Inr (True, r')" "reader_is r' (inp @ s) ts root"
    using redisReaderFeed_is [OF i(1) assms(2), of "length s" s] i(2) assms(3) by auto
  have "in_step M r' (u @ s)" unfolding in_step_def
    using r'(2) i(2) i(3) [of "s @ z" for z] by (intro exI [of _ "inp @ s"] exI [of _ ts] exI [of _ root]) simp
  then show ?thesis using r'(1) by blast
qed

lemma in_step_len0:
  assumes "reader_is r inp ts root" "reader_len r = 0"
  shows "inp = []" "redisReaderGetReply M r = Inr (True, None, r)"
  using assms by (auto simp: reader_is_def reader_at_def redisReaderGetReply_def)

lemma in_step_reply:
  assumes "in_step M r (reply_text y @ u)" "ample M" "reply_ok 8 y"
  shows "\<exists>r'. redisReaderGetReply M r = Inr (True, Some y, r') \<and> in_step M r' u"
proof -
  obtain inp ts root where i: "reader_is r inp ts root"
    "\<And>z. parse_loop M (inp @ z) (start_stack ts) root = parse_loop M ((reply_text y @ u) @ z) [root_task] None"
    using assms(1) by (auto simp: in_step_def)
  have p: "parse_loop M inp (start_stack ts) root = Inr (Go u [] (Some y))"
    using i(2) [of "[]"] parse_whole_reply [OF assms(2,3), of u] by simp
  have "reader_len r \<noteq> 0"
  proof
    assume "reader_len r = 0"
    then have "inp = []" using in_step_len0(1) [OF i(1)] by blast
    then show False using p parse_loop_empty [of "start_stack ts"] by simp
  qed
  from redisReaderGetReply_gives [OF i(1) this, of M] show ?thesis
    unfolding p gives_def by (auto intro: in_step_fresh)
qed

lemma in_step_wait:
  assumes "in_step M r u" "\<And>x a b c. parse_loop M u [root_task] None = Inr (Go a b c) \<Longrightarrow> False"
    "parse_loop M u [root_task] None = Inr (Wait a b c)"
  shows "\<exists>r'. redisReaderGetReply M r = Inr (True, None, r') \<and> in_step M r' u"
proof -
  obtain inp ts root where i: "reader_is r inp ts root" "length inp \<le> length u"
    "\<And>z. parse_loop M (inp @ z) (start_stack ts) root = parse_loop M (u @ z) [root_task] None"
    using assms(1) by (auto simp: in_step_def)
  show ?thesis
  proof (cases "reader_len r = 0")
    case True
    then show ?thesis using in_step_len0(2) [OF i(1)] assms(1) by blast
  next
    case False
    have p: "parse_loop M inp (start_stack ts) root = Inr (Wait a b c)" using i(3) [of "[]"] assms(3) by simp
    obtain r' where r': "redisReaderGetReply M r = Inr (True, None, r')" "reader_is r' a b c"
      using redisReaderGetReply_gives [OF i(1) False, of M] unfolding p gives_def by auto
    have w: "b \<noteq> []" "length a \<le> length u" using parse_loop_Wait [OF p] i(2) by auto
    have "parse_loop M (a @ z) (start_stack b) c = parse_loop M (u @ z) [root_task] None" for z
      using parse_loop_append [of M inp z "start_stack ts" root] p i(3) [of z] w(1) by simp
    then have "in_step M r' u" unfolding in_step_def using r'(2) w(2) by blast
    then show ?thesis using r'(1) by blast
  qed
qed

lemma session_in_step:
  assumes "ample M" "\<forall>y \<in> set ys. reply_ok 8 y" "in_step M r u" "u @ fed cs @ later = concat (map reply_text ys)"
    "length u + length (fed cs) < 2 ^ 30 - 1024"
  shows "\<exists>r'. reader_session M cs r = Inr (True, stream_session cs (length u) ys, r')"
  using assms(2-)
proof (induction cs arbitrary: r u ys)
  case (Cons c cs)
  show ?case
  proof (cases c)
    case (Feed s)
    then obtain r1 where r1: "redisReaderFeed M r (Some s) (length s) = Inr (True, r1)" "in_step M r1 (u @ s)"
      using in_step_feed [OF Cons.prems(2) assms(1), of s] Cons.prems(4) by auto
    show ?thesis using Cons.IH [OF Cons.prems(1) r1(2)] Cons.prems(3,4) r1(1) Feed by auto
  next
    case GetReply
    have wait: ?thesis if eq: "stream_session (c # cs) (length u) ys = stream_session cs (length u) ys"
      and w: "parse_loop M u [root_task] None = Inr (Wait p q o')" for p q o'
    proof -
      obtain r1 where r1: "redisReaderGetReply M r = Inr (True, None, r1)" "in_step M r1 u"
        using in_step_wait [OF Cons.prems(2) _ w] w by auto
      show ?thesis using Cons.IH [OF Cons.prems(1) r1(2)] Cons.prems(3,4) r1(1) GetReply eq by auto
    qed
    show ?thesis
    proof (cases ys)
      case Nil
      then have "u = []" using Cons.prems(3) by simp
      then have "parse_loop M u [root_task] None = Inr (Wait [] [root_task] None)"
        by (simp add: parse_loop.simps parse_item_def root_task_def)
      then show ?thesis using wait Nil GetReply by simp
    next
      case (Cons y zs)
      have ok: "reply_ok 8 y" using Cons.prems(1) Cons by simp
      have split: "u @ fed cs @ later = reply_text y @ concat (map reply_text zs)"
        using Cons.prems(3) Cons GetReply by simp
      show ?thesis
      proof (cases "length (reply_text y) \<le> length u")
        case True
        then obtain v where v: "u = reply_text y @ v" "v @ fed cs @ later = concat (map reply_text zs)"
          using split by (metis append_eq_append_conv_if append_eq_conv_conj append_take_drop_id)
        obtain r1 where r1: "redisReaderGetReply M r = Inr (True, Some y, r1)" "in_step M r1 v"
          using in_step_reply [OF Cons.prems(2) [unfolded v(1)] assms(1) ok] by blast
        show ?thesis using Cons.IH [OF _ r1(2) v(2)] Cons.prems(1,4) Cons r1(1) GetReply v(1) by auto
      next
        case False
        then have lt: "length u < length (reply_text y)" by simp
        have "u = take (length u) (reply_text y @ concat (map reply_text zs))"
          using arg_cong [OF split, of "take (length u)"] by simp
        also have "\<dots> = take (length u) (reply_text y)" using lt by simp
        finally have "reply_text y = u @ drop (length u) (reply_text y)" by (metis append_take_drop_id)
        then obtain w where w: "reply_text y = u @ w" "w \<noteq> []" using lt that [of "drop (length u) (reply_text y)"] by auto
        show ?thesis using wait parse_part_reply [OF assms(1) ok w] False GetReply Cons by auto
      qed
    qed
  qed
qed simp

section \<open>Any bytes, in any parts\<close>

text \<open>What the caller sees of a call: the status, the reply, and the error.\<close>

definition outcome :: "fault + (bool \<times> reply option \<times> redisReader) \<Rightarrow> fault + (bool \<times> reply option \<times> (int \<times> string) option)" where
  "outcome res = and_then res (\<lambda>(ok, y, r). Inr (ok, y, if ok then None else Some (reader_err r, reader_errstr r)))"

definition progress_outcome :: "fault + progress \<Rightarrow> fault + (bool \<times> reply option \<times> (int \<times> string) option)" where
  "progress_outcome p = and_then p (\<lambda>p. case p of
     Go inp ts root \<Rightarrow> Inr (True, root, None)
   | Wait inp ts root \<Rightarrow> Inr (True, None, None)
   | Stop e m \<Rightarrow> Inr (False, None, Some (e, m)))"

lemma gives_outcome: "gives res p \<Longrightarrow> outcome res = progress_outcome p"
  by (auto simp: gives_def outcome_def progress_outcome_def split: sum.splits progress.splits)

lemma parse_finish_Go_root: "parse_finish inp obj k = Inr (Go a b c) \<Longrightarrow> c \<noteq> None"
  by (auto simp: parse_finish_def and_then_Inr split: option.splits)

lemma parse_item_Go_root: "parse_item M inp ts root = Inr (Go a b c) \<Longrightarrow> c \<noteq> None"
proof -
  have "c \<noteq> None" if "parse_typed M inp ts root = Inr (Go a b c)" for inp ts
    using that
    by (auto simp: parse_typed_def parse_line_item_def parse_bulk_def parse_multi_def and_then_Inr
        split: option.splits reply_type.splits if_splits dest: parse_finish_Go_root)
  then show "parse_item M inp ts root = Inr (Go a b c) \<Longrightarrow> c \<noteq> None"
    by (auto simp: parse_item_def split: if_splits list.splits option.splits)
qed

lemma parse_loop_Go_root: "parse_loop M inp ts root = Inr (Go a b c) \<Longrightarrow> ts \<noteq> [] \<Longrightarrow> c \<noteq> None"
proof (induction M inp ts root rule: parse_loop.induct)
  case (1 M inp ts root)
  show ?case
  proof (cases "parse_item M inp ts root")
    case (Inr p)
    then obtain x y z where p: "parse_item M inp ts root = Inr (Go x y z)"
      using "1.prems" by (cases p) (auto simp: parse_loop.simps [of M inp ts])
    then have "parse_loop M x y z = Inr (Go a b c)" using "1.prems" by (simp add: parse_loop.simps [of M inp ts])
    then show ?thesis using "1.IH" p "1.prems"(2) parse_item_Go_root [OF p]
      by (cases "y = []") (auto simp: parse_loop.simps [of M x "[]"])
  qed (use "1.prems" in \<open>simp add: parse_loop.simps [of M inp ts]\<close>)
qed

lemma in_step_outcome:
  assumes "in_step M r u" "reader_len r \<noteq> 0"
  shows "outcome (redisReaderGetReply M r) = progress_outcome (parse_loop M u [root_task] None)"
proof -
  obtain inp ts root where i: "reader_is r inp ts root"
    "\<And>z. parse_loop M (inp @ z) (start_stack ts) root = parse_loop M (u @ z) [root_task] None"
    using assms(1) by (auto simp: in_step_def)
  show ?thesis using gives_outcome [OF redisReaderGetReply_gives [OF i(1) assms(2)]] i(2) [of "[]"] by simp
qed

lemma in_step_none:
  assumes "in_step M r u" "redisReaderGetReply M r = Inr (True, None, r')"
  shows "in_step M r' u" "outcome (redisReaderGetReply M r') = Inr (True, None, None)"
proof -
  have both: "in_step M r' u \<and> outcome (redisReaderGetReply M r') = Inr (True, None, None)"
  proof (cases "reader_len r = 0")
    case True
    obtain inp ts root where "reader_is r inp ts root" using assms(1) by (auto simp: in_step_def)
    then have "r' = r" using in_step_len0(2) [OF _ True, of inp ts root M] assms(2) by simp
    then show ?thesis using assms by (simp add: outcome_def)
  next
    case False
    have "progress_outcome (parse_loop M u [root_task] None) = Inr (True, None, None)"
      using in_step_outcome [OF assms(1) False] assms(2) by (simp add: outcome_def)
    then obtain a b c where w: "parse_loop M u [root_task] None = Inr (Wait a b c)"
      by (cases "parse_loop M u [root_task] None")
        (auto simp: progress_outcome_def split: progress.splits dest: parse_loop_Go_root)
    obtain r1 where "redisReaderGetReply M r = Inr (True, None, r1)" "in_step M r1 u"
      using in_step_wait [OF assms(1) _ w] w by auto
    then have r': "in_step M r' u" using assms(2) by simp
    have "outcome (redisReaderGetReply M r') = Inr (True, None, None)"
    proof (cases "reader_len r' = 0")
      case True
      obtain inp ts root where "reader_is r' inp ts root" using r' by (auto simp: in_step_def)
      from in_step_len0(2) [OF this True] show ?thesis by (simp add: outcome_def)
    next
      case False
      then show ?thesis using in_step_outcome [OF r' False] by (simp add: w progress_outcome_def)
    qed
    then show ?thesis using r' by simp
  qed
  then show "in_step M r' u" "outcome (redisReaderGetReply M r') = Inr (True, None, None)" by auto
qed

lemma feed_len:
  assumes "redisReaderFeed M r (Some s) (length s) = Inr (True, r')" "in_step M r u" "s \<noteq> []" "ample M"
    "length u + length s < 2 ^ 30 - 1024"
  shows "reader_len r' \<noteq> 0"
proof -
  obtain inp ts root where i: "reader_is r inp ts root" "length inp \<le> length u"
    using assms(2) by (auto simp: in_step_def)
  obtain r1 where r1: "redisReaderFeed M r (Some s) (length s) = Inr (True, r1)" "reader_is r1 (inp @ s) ts root"
    using redisReaderFeed_is [OF i(1) assms(4), of "length s" s] i(2) assms(5) by auto
  then have "reader_is r' (inp @ s) ts root" using assms(1) by simp
  then show ?thesis using in_step_len0(1) assms(3) by blast
qed

end
