(* ===== verification/Redis_Format_Facts.thy ===== *)
theory Redis_Format_Facts
  imports Redis_Replies
begin

text \<open>
  The commands that the formatting functions write: always the text of an array of bulk strings, so that
  a reader of the protocol gets the arguments back. The array functions write their arguments; the format
  function writes the words of the format with the arguments put in.
\<close>

section \<open>Lengths\<close>

lemma to_string_step: "length (to_string v) = (if v < 10 then 1 else length (to_string (v div 10)) + 1)"
  by (simp add: to_string.simps [of v] div_eq_0_iff)

lemma length_to_string_eq: "10 ^ k \<le> v \<Longrightarrow> v < 10 ^ Suc k \<Longrightarrow> length (to_string v) = Suc k"
proof (induction k arbitrary: v)
  case 0
  then show ?case by (simp add: to_string_step [of v])
next
  case (Suc k)
  then have "length (to_string (v div 10)) = Suc k" by (intro Suc.IH) auto
  moreover have "1 \<le> (10::nat) ^ k" by simp
  then have "10 \<le> v" using Suc.prems(1) unfolding power_Suc by linarith
  ultimately show ?case by (simp add: to_string_step [of v])
qed

lemma countDigits_from_eq: "countDigits_from v r + 1 = r + length (to_string v)"
proof (induction v r rule: countDigits_from.induct)
  case (1 v r)
  consider "v < 10" | "10 \<le> v" "v < 100" | "100 \<le> v" "v < 1000" | "1000 \<le> v" "v < 10000" | "10000 \<le> v" by linarith
  then show ?case
  proof cases
    case 1
    then show ?thesis by (subst countDigits_from.simps) (simp add: to_string_step [of v])
  next
    case 2
    then show ?thesis using length_to_string_eq [of 1 v] by (subst countDigits_from.simps) simp
  next
    case 3
    then show ?thesis using length_to_string_eq [of 2 v] by (subst countDigits_from.simps) simp
  next
    case 4
    then show ?thesis using length_to_string_eq [of 3 v] by (subst countDigits_from.simps) simp
  next
    case 5
    then have "10 \<le> v div 10" "10 \<le> v div 100" "10 \<le> v div 1000"
      by (auto simp: less_eq_div_iff_mult_less_eq)
    then have l: "length (to_string v) = length (to_string (v div 10000)) + 4"
      using 5 to_string_step [of v] to_string_step [of "v div 10"] to_string_step [of "v div 100"]
        to_string_step [of "v div 1000"] by (simp add: div_mult2_eq [symmetric])
    show ?thesis using "1.IH" 5 by (subst countDigits_from.simps) (simp add: l)
  qed
qed

lemma countDigits_eq: "n < 2 ^ 64 \<Longrightarrow> countDigits (int n) = length (to_string n)"
  using countDigits_from_eq [of n 1] by (simp add: countDigits_def size_t_nat)

definition bulk_text :: "string \<Rightarrow> string" where
  "bulk_text s = ''$'' @ to_string (length s) @ CRLF @ s @ CRLF"

lemma bulklen_eq: "length s < 2 ^ 31 \<Longrightarrow> bulklen (length s) = length (bulk_text s)"
proof -
  assume s: "length s < 2 ^ 31"
  have l: "length (to_string (length s)) \<le> 20" using s by (intro length_to_string) auto
  have "size_t (int (1 + length (to_string (length s)) + 2 + length s + 2)) = 1 + length (to_string (length s)) + 2 + length s + 2"
    using s l by (intro size_t_nat) auto
  then show ?thesis using s by (simp add: bulklen_def countDigits_eq bulk_text_def CRLF_def)
qed

section \<open>The text of a command\<close>

definition command :: "string list \<Rightarrow> reply" where
  "command args = ArrayReply (length args) (if args = [] then None else Some (map (\<lambda>a. Some (StringReply a)) args))"

definition command_text :: "string list \<Rightarrow> string" where
  "command_text args = ''*'' @ to_string (length args) @ CRLF @ concat (map bulk_text args)"

lemma command_text_eq: "command_text args = reply_text (command args)"
  by (simp add: command_text_def command_def bulk_text_def [abs_def] comp_def)

lemma command_ok: "length args < 2 ^ 28 \<Longrightarrow> \<forall>a \<in> set args. length a < 2 ^ 30 \<Longrightarrow> 0 < d \<Longrightarrow> reply_ok d (command args)"
  by (cases d) (auto simp: command_def)

lemma length_command_text: "length (command_text args) = 1 + length (to_string (length args)) + 2 + sum_list (map (length \<circ> bulk_text) args)"
  by (simp add: command_text_def CRLF_def length_concat comp_def)

lemma bulk_le_command: "a \<in> set args \<Longrightarrow> length (bulk_text a) \<le> length (command_text args)"
  using member_le_sum_list [of "length (bulk_text a)" "map (length \<circ> bulk_text) args"]
  by (auto simp: length_command_text)

lemma bulk_text_longer: "length a < length (bulk_text a)"
  by (simp add: bulk_text_def)

lemma arg_le_command: "a \<in> set args \<Longrightarrow> length a < length (command_text args)"
  using bulk_le_command [of a args] bulk_text_longer [of a] by simp

lemma args_le_command: "length args \<le> length (command_text args)"
proof -
  have "length args \<le> sum_list (map (length \<circ> bulk_text) args)"
    by (induction args) (auto simp: bulk_text_def)
  then show ?thesis by (simp add: length_command_text)
qed

section \<open>Arrays of arguments\<close>

text \<open>The arguments that memory and lengths describe.\<close>

fun args_of :: "(string \<times> nat) list \<Rightarrow> string list" where
  "args_of [] = []"
| "args_of ((a, n) # xs) = take n a # args_of xs"

lemma put_args_eq:
  "\<forall>(a, n) \<in> set xs. n \<le> length a \<Longrightarrow> length cmd + length (concat (map bulk_text (args_of xs))) \<le> room \<Longrightarrow>
   put_args room cmd xs = Inr (cmd @ concat (map bulk_text (args_of xs)))"
proof (induction xs arbitrary: cmd)
  case (Cons x xs)
  obtain a n where x: "x = (a, n)" by (cases x)
  have n: "mem_read a 0 n = Inr (take n a)" "length (take n a) = n" using Cons.prems(1) x by (auto simp: mem_read_def)
  have "put_args room (cmd @ bulk_text (take n a)) xs = Inr ((cmd @ bulk_text (take n a)) @ concat (map bulk_text (args_of xs)))"
    using Cons.prems x by (intro Cons.IH) auto
  moreover have "\<not> room < length (cmd @ bulk_text (take n a))" using Cons.prems(2) x by simp
  moreover have "cmd @ ''$'' @ to_string n @ CRLF @ take n a @ CRLF = cmd @ bulk_text (take n a)"
    using n(2) by (simp add: bulk_text_def)
  ultimately show ?case unfolding x put_args.simps n(1) and_then_simps Let_def by simp
qed simp

lemma fold_totlen:
  assumes "\<forall>a \<in> set args. length a < 2 ^ 31" "t + sum_list (map (length \<circ> bulk_text) args) < 2 ^ 31"
  shows "foldl (\<lambda>t n. c_int (t + int (bulklen n))) (int t) (map length args) = int (t + sum_list (map (length \<circ> bulk_text) args))"
  using assms
proof (induction args arbitrary: t)
  case (Cons a args)
  have "c_int (int t + int (bulklen (length a))) = int (t + length (bulk_text a))"
    using Cons.prems by (subst c_int_small) (auto simp: bulklen_eq)
  then show ?case using Cons.IH [of "t + length (bulk_text a)"] Cons.prems by (simp add: add.assoc)
qed simp

lemma args_of_lengths: "\<forall>(a, n) \<in> set xs. n \<le> length a \<Longrightarrow> map length (args_of xs) = map snd xs"
  by (induction xs rule: args_of.induct) auto

lemma length_args_of [simp]: "length (args_of xs) = length xs"
  by (induction xs rule: args_of.induct) auto

text \<open>The arguments given with their lengths, or as C strings.\<close>

definition argv_is :: "string list \<Rightarrow> nat list option \<Rightarrow> string list \<Rightarrow> bool" where
  "argv_is argv lens args \<longleftrightarrow> (case lens of
     Some ns \<Rightarrow> length ns = length argv \<and> (\<forall>(a, n) \<in> set (zip argv ns). n \<le> length a) \<and> args = args_of (zip argv ns)
   | None \<Rightarrow> argv = map c_str args \<and> (\<forall>a \<in> set args. NUL \<notin> set a))"

lemma arg_lengths_eq:
  assumes "argv_is argv lens args"
  obtains ns where "arg_lengths argv lens = Inr ns" "length ns = length argv" "args = args_of (zip argv ns)"
    "\<forall>(a, n) \<in> set (zip argv ns). n \<le> length a"
proof (cases lens)
  case (Some ns)
  then show thesis using assms by (intro that [of ns]) (auto simp: argv_is_def)
next
  case None
  have "\<forall>a \<in> set args. NUL \<notin> set a \<Longrightarrow> arg_lengths (map c_str args) None = Inr (map length args) \<and>
      args = args_of (zip (map c_str args) (map length args)) \<and>
      (\<forall>(a, n) \<in> set (zip (map c_str args) (map length args)). n \<le> length a)" for args
    by (induction args) auto
  then show thesis using assms None by (intro that [of "map length args"]) (auto simp: argv_is_def)
qed

lemma redisFormatCommandArgv_eq:
  assumes "ample M" "argv_is argv lens args" "length (command_text args) < 2 ^ 31 - 1"
  shows "redisFormatCommandArgv M argv lens = Inr (Some (command_text args, int (length (command_text args))))"
proof -
  obtain ns where ns: "arg_lengths argv lens = Inr ns" "length ns = length argv" "args = args_of (zip argv ns)"
    "\<forall>(a, n) \<in> set (zip argv ns). n \<le> length a" using arg_lengths_eq [OF assms(2)] .
  have len: "ns = map length args" using args_of_lengths [OF ns(4)] ns(2,3) by simp
  have n: "length argv = length args" using ns(2,3) by simp
  have small: "\<forall>a \<in> set args. length a < 2 ^ 31"
    using arg_le_command assms(3) by fastforce
  have cd: "countDigits (int (length args)) = length (to_string (length args))"
    using args_le_command [of args] assms(3) by (intro countDigits_eq) simp
  have "c_int (int (1 + length (to_string (length args)) + 2)) = int (1 + length (to_string (length args)) + 2)"
    using assms(3) by (intro c_int_small) (auto simp: length_command_text)
  then have tot: "foldl (\<lambda>t n. c_int (t + int (bulklen n))) (c_int (int (1 + countDigits (int (length argv)) + 2))) ns =
      int (length (command_text args))"
    using fold_totlen [OF small, of "1 + length (to_string (length args)) + 2"] assms(3)
    unfolding len n cd by (simp add: length_command_text)
  have room: "size_t (int (length (command_text args)) + 1) = length (command_text args) + 1"
    using assms(3) by (simp add: size_t_def nat_add_distrib)
  have "put_args (length (command_text args) + 1) (''*'' @ to_string (length args) @ CRLF) (zip argv ns) = Inr (command_text args)"
    using put_args_eq [OF ns(4), of "''*'' @ to_string (length args) @ CRLF"] unfolding ns(3) [symmetric]
    by (simp add: command_text_def)
  then show ?thesis using ns(1) tot room assms(1,3) n
    by (simp add: redisFormatCommandArgv_def Let_def ample_def)
qed

end
