(* ===== verification/Redis_Commands.thy ===== *)
theory Redis_Commands
  imports Redis_Format_Facts
begin

text \<open>
  The other two ways to write a command: into a dynamic string, which gives the same text as the
  function for arrays, and from a format, whose words with the arguments put in are the arguments.
\<close>

section \<open>Into a dynamic string\<close>

lemma fold_totlen_sds:
  assumes "\<forall>a \<in> set args. length a < 2 ^ 31" "t + sum_list (map (length \<circ> bulk_text) args) < 2 ^ 31"
  shows "foldl (\<lambda>t n. size_t (int (t + bulklen n))) t (map length args) = t + sum_list (map (length \<circ> bulk_text) args)"
  using assms
proof (induction args arbitrary: t)
  case (Cons a args)
  have "size_t (int (t + bulklen (length a))) = t + length (bulk_text a)"
    using Cons.prems by (subst size_t_nat) (auto simp: bulklen_eq)
  then show ?case using Cons.IH [of "t + length (bulk_text a)"] Cons.prems by (simp add: add.assoc)
qed simp

lemma checked_Some [simp]: "checked (Inr (Some s)) = Inr s"
  by (simp add: checked_def)

lemma cat_args_is:
  assumes "ample M" "\<forall>(a, n) \<in> set xs. n \<le> length a" "sds_is s v"
    "length v + length (concat (map bulk_text (args_of xs))) < 2 ^ 30 - 1"
  shows "\<exists>s'. cat_args M s xs = Inr s' \<and> sds_is s' (v @ concat (map bulk_text (args_of xs)))"
  using assms(2-)
proof (induction xs arbitrary: s v)
  case (Cons x xs)
  obtain a n where x: "x = (a, n)" by (cases x)
  have n: "n \<le> length a" "length (take n a) = n" using Cons.prems(1) x by auto
  let ?h = "''$'' @ to_string n @ CRLF"
  have fm: "fmt_text (''$%T'' @ CRLF) [FmtSize n] = ?h" "fmt_simple (''$%T'' @ CRLF) [FmtSize n] = (n < 2 ^ 64)"
    by (simp_all add: CRLF_def)
  have small: "length v + length (?h @ take n a @ CRLF) + 1 < 2 ^ 30"
    using Cons.prems(3) n(2) unfolding x by (simp add: bulk_text_def CRLF_def)
  obtain s1 where s1: "sdscatfmt M s (''$%T'' @ CRLF) [FmtSize n] = Inr s1" "sds_is s1 (v @ ?h)"
    using sdscatfmt_is [OF assms(1) Cons.prems(2), of "''$%T'' @ CRLF" "[FmtSize n]"] small n unfolding fm by auto
  obtain s2 where s2: "sdscatlen M s1 a n = Inr (Some s2)" "sds_is s2 ((v @ ?h) @ take n a)"
    using sdscatlen_is [OF assms(1) s1(2) n(1)] small n by auto
  obtain s3 where s3: "sdscatlen M s2 (c_str CRLF) 2 = Inr (Some s3)" "sds_is s3 (((v @ ?h) @ take n a) @ CRLF)"
    using sdscatlen_is [OF assms(1) s2(2), of 2 "c_str CRLF"] small n by (auto simp: CRLF_def c_str_def)
  have "((v @ ?h) @ take n a) @ CRLF = v @ bulk_text (take n a)" using n(2) by (simp add: bulk_text_def)
  then have "\<exists>s'. cat_args M s3 xs = Inr s' \<and> sds_is s' ((v @ bulk_text (take n a)) @ concat (map bulk_text (args_of xs)))"
    using Cons.prems s3(2) unfolding x by (intro Cons.IH) auto
  then show ?case using s1(1) s2(1) s3(1) by (simp add: x)
qed simp

lemma redisFormatSdsCommandArgv_is:
  assumes "ample M" "argv_is argv lens args" "length (command_text args) < 2 ^ 30 - 1"
  shows "\<exists>s. redisFormatSdsCommandArgv M argv lens = Inr (Some (s, int (length (command_text args)))) \<and>
    sds_is s (command_text args)"
proof -
  obtain ns where ns: "arg_lengths argv lens = Inr ns" "length ns = length argv" "args = args_of (zip argv ns)"
    "\<forall>(a, n) \<in> set (zip argv ns). n \<le> length a" using arg_lengths_eq [OF assms(2)] .
  have len: "ns = map length args" using args_of_lengths [OF ns(4)] ns(2,3) by simp
  have n: "length argv = length args" using ns(2,3) by simp
  have small: "\<forall>a \<in> set args. length a < 2 ^ 31" "length args < 2 ^ 30 - 1"
    using arg_le_command args_le_command [of args] assms(3) by fastforce+
  have cd: "countDigits (int (length args)) = length (to_string (length args))"
    using small(2) by (intro countDigits_eq) simp
  have tot: "foldl (\<lambda>t n. size_t (int (t + bulklen n))) (1 + countDigits (int (length argv)) + 2) ns =
      length (command_text args)"
    using fold_totlen_sds [OF small(1), of "1 + length (to_string (length args)) + 2"] assms(3)
    unfolding len n cd by (simp add: length_command_text)
  let ?h = "''*'' @ to_string (length args) @ CRLF"
  have fm: "fmt_text (''*%i'' @ CRLF) [FmtInt (int (length args))] = ?h"
    "fmt_simple (''*%i'' @ CRLF) [FmtInt (int (length args))]"
    using small(2) by (simp_all add: CRLF_def show_int_def)
  have hl: "length ?h \<le> length (command_text args)" by (simp add: command_text_def)
  obtain s0 where s0: "sdsempty M = Inr (Some s0)" "sds_is s0 []" using sdsempty_is [OF assms(1)] by blast
  obtain s1 where s1: "sdsMakeRoomFor M s0 (length (command_text args)) = Inr (Some s1)" "sds_is s1 []"
    using sdsMakeRoomFor_is [OF assms(1) s0(2), of "length (command_text args)"] assms(3) by auto
  obtain s2 where s2: "sdscatfmt M s1 (''*%i'' @ CRLF) [FmtInt (int (length args))] = Inr s2" "sds_is s2 ?h"
    using sdscatfmt_is [OF assms(1) s1(2), of "''*%i'' @ CRLF" "[FmtInt (int (length args))]"] hl assms(3)
    unfolding fm(1) using fm(2) by auto
  obtain s3 where s3: "cat_args M s2 (zip argv ns) = Inr s3" "sds_is s3 (command_text args)"
    using cat_args_is [OF assms(1) ns(4) s2(2)] assms(3) unfolding ns(3) [symmetric]
    by (auto simp: command_text_def)
  have "c_int (int (length (command_text args))) = int (length (command_text args))"
    using assms(3) by (intro c_int_small) auto
  then show ?thesis
    using ns(1) tot s0(1) s1(1) s2(1) s3 n by (simp add: redisFormatSdsCommandArgv_def Let_def sdslen_is)
qed

section \<open>From a format\<close>

text \<open>A format in pieces: characters, spaces, and what a conversion puts in. \<open>Bin\<close> has the bytes behind
  the ones that are taken.\<close>

datatype piece = Space | Lit char | Percent | Str string | Bin string string | Dec int

fun piece_ok :: "piece \<Rightarrow> bool" where
  "piece_ok (Lit c) \<longleftrightarrow> c \<noteq> CHR ''%'' \<and> c \<noteq> CHR '' '' \<and> c \<noteq> NUL"
| "piece_ok (Str s) \<longleftrightarrow> NUL \<notin> set s"
| "piece_ok (Dec i) \<longleftrightarrow> - (2 ^ 31) \<le> i \<and> i < 2 ^ 31"
| "piece_ok p \<longleftrightarrow> True"

fun piece_format :: "piece \<Rightarrow> string" where
  "piece_format Space = '' ''"
| "piece_format (Lit c) = [c]"
| "piece_format Percent = ''%%''"
| "piece_format (Str s) = ''%s''"
| "piece_format (Bin s x) = ''%b''"
| "piece_format (Dec i) = ''%d''"

fun piece_args :: "piece \<Rightarrow> va list" where
  "piece_args (Str s) = [VaStr (c_str s)]"
| "piece_args (Bin s x) = [VaStr (s @ x), VaSize (length s)]"
| "piece_args (Dec i) = [VaInt i]"
| "piece_args p = []"

fun piece_bytes :: "piece \<Rightarrow> string" where
  "piece_bytes Space = []"
| "piece_bytes (Lit c) = [c]"
| "piece_bytes Percent = ''%''"
| "piece_bytes (Str s) = s"
| "piece_bytes (Bin s x) = s"
| "piece_bytes (Dec i) = show_int i"

text \<open>The words, with the one that is being read.\<close>

fun format_words :: "string \<Rightarrow> bool \<Rightarrow> piece list \<Rightarrow> string list" where
  "format_words cur touched [] = (if touched then [cur] else [])"
| "format_words cur touched (Space # ps) =
     (if touched then cur # format_words [] False ps else format_words cur False ps)"
| "format_words cur touched (p # ps) = format_words (cur @ piece_bytes p) True ps"

lemma format_words_piece: "p \<noteq> Space \<Longrightarrow> format_words cur touched (p # ps) = format_words (cur @ piece_bytes p) True ps"
  by (cases p) auto

lemma format_words_first: "\<exists>t ws. format_words cur True ps = (cur @ t) # ws"
proof (induction ps arbitrary: cur)
  case (Cons p ps)
  then show ?case
  proof (cases "p = Space")
    case False
    obtain t ws where "format_words (cur @ piece_bytes p) True ps = ((cur @ piece_bytes p) @ t) # ws" using Cons by blast
    then show ?thesis using False by (simp add: format_words_piece)
  qed simp
qed simp

lemma conversion_d: "conversion (CHR ''d'' # f) = Some (int_va, 1)"
  by (simp add: conversion_def head_def strchr_def intfmts_def flags_def is_digit_def Let_def)

text \<open>\<open>vsnprintf\<close> prints an integer in decimal notation.\<close>

definition prints_int :: "printf \<Rightarrow> bool" where
  "prints_int pf \<longleftrightarrow> (\<forall>i. pf ''%d'' (VaInt i) = show_int i)"

text \<open>One step of the loop on a piece that adds to the argument.\<close>

lemma show_int_no_NUL: "NUL \<notin> set (show_int i)"
  by (auto simp: show_int_def is_digit_def dest!: to_string_digits)

lemma format_loop_piece:
  assumes "ample M" "prints_int pf" "piece_ok p" "p \<noteq> Space" "sds_is s v"
    "length v + length (piece_bytes p) < 2 ^ 30"
  shows "\<exists>s'. format_loop M pf (piece_format p @ f) (piece_args p @ ap) s touched argv totlen =
      format_loop M pf f ap s' True argv totlen \<and> sds_is s' (v @ piece_bytes p)"
proof (cases p)
  case (Lit c)
  obtain s' where "sdscatlen M s [c] 1 = Inr (Some s')" "sds_is s' (v @ [c])"
    using sdscatlen_is [OF assms(1,5), of 1 "[c]"] assms(6) Lit by auto
  then show ?thesis using Lit assms(3) by (auto simp: format_loop.simps new_arg_def)
next
  case Percent
  obtain s' where "sdscat M s (c_str ''%'') = Inr (Some s')" "sds_is s' (v @ ''%'')"
    using sdscat_is [OF assms(1,5), of "''%''"] assms(6) Percent by auto
  then show ?thesis using Percent by (auto simp: format_loop.simps new_arg_def head_def)
next
  case (Str t)
  show ?thesis
  proof (cases "t = []")
    case True
    then show ?thesis using Str assms(5) by (auto simp: format_loop.simps new_arg_def head_def)
  next
    case False
    obtain s' where "sdscatlen M s (c_str t) (length t) = Inr (Some s')" "sds_is s' (v @ t)"
      using sdscatlen_is [OF assms(1,5), of "length t" "c_str t"] assms(6) Str by auto
    then show ?thesis using Str assms(3) False by (auto simp: format_loop.simps new_arg_def head_def)
  qed
next
  case (Bin t x)
  show ?thesis
  proof (cases "t = []")
    case True
    then show ?thesis using Bin assms(5) by (auto simp: format_loop.simps new_arg_def head_def)
  next
    case False
    obtain s' where "sdscatlen M s (t @ x) (length t) = Inr (Some s')" "sds_is s' (v @ t)"
      using sdscatlen_is [OF assms(1,5), of "length t" "t @ x"] assms(6) Bin by auto
    then show ?thesis using Bin False by (auto simp: format_loop.simps new_arg_def head_def)
  qed
next
  case (Dec i)
  obtain s' where "sdscatvprintf M s (show_int i) = Inr (Some s')" "sds_is s' (v @ show_int i)"
    using sdscatvprintf_is [OF assms(1,5) show_int_no_NUL, of i] assms(6) Dec by auto
  then show ?thesis using Dec assms(2) conversion_d [of f] by (auto simp: format_loop.simps new_arg_def head_def int_va_def prints_int_def)
qed (use assms(4) in simp)

text \<open>The whole loop: the arguments so far and the one being built become the words.\<close>

definition bulk_sum :: "string list \<Rightarrow> nat" where
  "bulk_sum ws = sum_list (map (length \<circ> bulk_text) ws)"

lemma bulk_sum_simps [simp]: "bulk_sum [] = 0" "bulk_sum (w # ws) = length (bulk_text w) + bulk_sum ws"
  "bulk_sum (ws @ vs) = bulk_sum ws + bulk_sum vs"
  by (simp_all add: bulk_sum_def)

lemma bulk_sum_count: "length ws \<le> bulk_sum ws"
  by (induction ws) (auto simp: bulk_text_def)

lemma format_words_longer: "touched \<Longrightarrow> length cur < bulk_sum (format_words cur touched ps)"
proof -
  assume touched
  obtain t ws where w: "format_words cur True ps = (cur @ t) # ws" using format_words_first by blast
  show ?thesis using bulk_text_longer [of "cur @ t"] \<open>touched\<close> by (simp add: w)
qed

lemma push_len_is:
  assumes "sds_is s v" "t + length (bulk_text v) < 2 ^ 31"
  shows "push_len (int t) s = int (t + length (bulk_text v))"
proof -
  have "bulklen (sdslen s) = length (bulk_text v)"
    using assms bulk_text_longer [of v] by (simp add: sdslen_is bulklen_eq)
  then show ?thesis using assms(2) by (simp add: push_len_def c_int_small)
qed

lemma format_loop_pieces:
  assumes "ample M" "prints_int pf" "\<forall>p \<in> set ps. piece_ok p"
    "sds_is s cur" "touched \<or> cur = []" "list_all2 sds_is argv ws"
    "bulk_sum (ws @ format_words cur touched ps) < 2 ^ 28"
  shows "\<exists>s' cur' touched' argv' ws'.
    format_loop M pf (concat (map piece_format ps) @ f) (concat (map piece_args ps) @ ap) s touched argv (int (bulk_sum ws)) =
      format_loop M pf f ap s' touched' argv' (int (bulk_sum ws')) \<and>
    sds_is s' cur' \<and> list_all2 sds_is argv' ws' \<and>
    ws @ format_words cur touched ps = ws' @ (if touched' then [cur'] else [])"
  using assms(3-)
proof (induction ps arbitrary: s cur touched argv ws)
  case Nil
  then show ?case by auto
next
  case (Cons p ps)
  show ?case
  proof (cases "p = Space")
    case space: True
    show ?thesis
    proof (cases touched)
      case True
      have b: "bulk_sum ws + length (bulk_text cur) < 2 ^ 28" using Cons.prems(5) space True by simp
      have "length argv < 2 ^ 28"
        using b bulk_sum_count [of ws] list_all2_lengthD [OF Cons.prems(4)] by simp
      then have m: "may_alloc M (8 * (length argv + 1))" using assms(1) by (simp add: ample_def)
      obtain s0 where s0: "sdsempty M = Inr (Some s0)" "sds_is s0 []" using sdsempty_is [OF assms(1)] by blast
      have pl: "push_len (int (bulk_sum ws)) s = int (bulk_sum (ws @ [cur]))"
        using push_len_is [OF Cons.prems(2), of "bulk_sum ws"] b by simp
      have "list_all2 sds_is (argv @ [s]) (ws @ [cur])" using Cons.prems(2,4) by (simp add: list_all2_appendI)
      from Cons.IH [OF _ s0(2) _ this, of False] show ?thesis
        using Cons.prems(1,5) space True m s0(1) pl by (simp add: format_loop.simps new_arg_def)
    next
      case False
      then show ?thesis using Cons.IH [OF _ Cons.prems(2,3,4), of] Cons.prems space
        by (simp add: format_loop.simps)
    qed
  next
    case False
    have w: "format_words cur touched (p # ps) = format_words (cur @ piece_bytes p) True ps"
      using False by (rule format_words_piece)
    have "length (cur @ piece_bytes p) < 2 ^ 30"
      using format_words_longer [of True "cur @ piece_bytes p" ps] Cons.prems(5) unfolding w by simp
    then obtain s' where s': "format_loop M pf (piece_format p @ concat (map piece_format ps) @ f)
        (piece_args p @ concat (map piece_args ps) @ ap) s touched argv (int (bulk_sum ws)) =
        format_loop M pf (concat (map piece_format ps) @ f) (concat (map piece_args ps) @ ap) s' True argv (int (bulk_sum ws))"
        "sds_is s' (cur @ piece_bytes p)"
      using format_loop_piece [OF assms(1,2) _ False Cons.prems(2)] Cons.prems(1) by fastforce
    show ?thesis
      using Cons.IH [OF _ s'(2) _ Cons.prems(4), of True] Cons.prems(1,5) unfolding w by (simp add: s'(1))
  qed
qed

lemma format_loop_words:
  assumes "ample M" "prints_int pf" "\<forall>p \<in> set ps. piece_ok p" "sds_is s []" "bulk_sum (format_words [] False ps) < 2 ^ 28"
  shows "\<exists>s' cur' touched' argv' ws'.
    format_loop M pf (concat (map piece_format ps)) (concat (map piece_args ps)) s False [] 0 =
      Inr (Inr (s', touched', argv', int (bulk_sum ws'))) \<and>
    sds_is s' cur' \<and> list_all2 sds_is argv' ws' \<and>
    format_words [] False ps = ws' @ (if touched' then [cur'] else [])"
  using format_loop_pieces [OF assms(1-4), of False "[]" "[]" "[]" "[]"] assms(5)
  by (auto simp: format_loop.simps(1))

lemma sds_arg: "sds_is s v \<Longrightarrow> take (sdslen s) (sds_buf s) = v \<and> sdslen s \<le> length (sds_buf s)"
  by (auto simp: sdslen_is sds_buf_prefix) (auto simp: sds_is_def)

lemma redisvFormatCommand_words:
  assumes "ample M" "prints_int pf" "\<forall>p \<in> set ps. piece_ok p"
    "length (command_text (format_words [] False ps)) < 2 ^ 28"
  shows "redisvFormatCommand M pf (concat (map piece_format ps)) (concat (map piece_args ps)) =
    Inr (Inr (command_text (format_words [] False ps), int (length (command_text (format_words [] False ps)))))"
proof -
  let ?ws = "format_words [] False ps" and ?f = "concat (map piece_format ps)" and ?a = "concat (map piece_args ps)"
  have b: "bulk_sum ?ws < 2 ^ 28" using assms(4) by (simp add: length_command_text bulk_sum_def)
  obtain s0 where s0: "sdsempty M = Inr (Some s0)" "sds_is s0 []" using sdsempty_is [OF assms(1)] by blast
  obtain s cur touched argv ws where l: "format_loop M pf ?f ?a s0 False [] 0 = Inr (Inr (s, touched, argv, int (bulk_sum ws)))"
    and s: "sds_is s cur" "list_all2 sds_is argv ws" "?ws = ws @ (if touched then [cur] else [])"
    using format_loop_words [OF assms(1-3) s0(2) b] by auto
  define argv' where "argv' = (if touched then argv @ [s] else argv)"
  have a: "list_all2 sds_is argv' ?ws" using s by (simp add: argv'_def list_all2_appendI)
  then have n: "length argv' = length ?ws" by (rule list_all2_lengthD)
  have "length ?ws < 2 ^ 28" using bulk_sum_count [of ?ws] b by simp
  then have m: "touched \<Longrightarrow> may_alloc M (8 * (length argv + 1))"
    using assms(1) n by (simp add: ample_def argv'_def)
  have t: "(if touched then push_len (int (bulk_sum ws)) s else int (bulk_sum ws)) = int (bulk_sum ?ws)"
    using s b push_len_is [OF s(1), of "bulk_sum ws"] by (cases touched) simp_all
  have cd: "countDigits (int (length ?ws)) = length (to_string (length ?ws))"
    using \<open>length ?ws < 2 ^ 28\<close> by (intro countDigits_eq) simp
  have tot: "c_int (int (bulk_sum ?ws) + int (1 + length (to_string (length ?ws)) + 2)) = int (length (command_text ?ws))"
    using assms(4) by (subst c_int_small) (auto simp: length_command_text bulk_sum_def)
  have args: "args_of (map (\<lambda>s. (sds_buf s, sdslen s)) argv') = ?ws \<and>
      (\<forall>(x, k) \<in> set (map (\<lambda>s. (sds_buf s, sdslen s)) argv'). k \<le> length x)" using a
    by (induction rule: list_all2_induct) (auto dest: sds_arg)
  have room: "size_t (int (length (command_text ?ws)) + 1) = length (command_text ?ws) + 1"
    using assms(4) by (simp add: size_t_def nat_add_distrib)
  have "put_args (length (command_text ?ws) + 1) (''*'' @ to_string (length ?ws) @ CRLF)
      (map (\<lambda>s. (sds_buf s, sdslen s)) argv') = Inr (command_text ?ws)"
    using put_args_eq [OF args [THEN conjunct2], of "''*'' @ to_string (length ?ws) @ CRLF"] args
    by (simp add: command_text_def)
  then show ?thesis
    using l s0(1) m t tot room n cd assms(1,4)
    by (simp add: redisvFormatCommand_def new_arg_def Let_def ample_def argv'_def [symmetric])
qed

lemma redisFormatCommand_words:
  assumes "ample M" "prints_int pf" "\<forall>p \<in> set ps. piece_ok p"
    "length (command_text (format_words [] False ps)) < 2 ^ 28"
  shows "redisFormatCommand M pf (concat (map piece_format ps)) (concat (map piece_args ps)) =
    Inr (Inr (command_text (format_words [] False ps), int (length (command_text (format_words [] False ps)))))"
  using redisvFormatCommand_words [OF assms] by (simp add: redisFormatCommand_def)

section \<open>Texts as formats\<close>

text \<open>The program passes whole commands as formats. Without percent signs the arguments are the words.\<close>

definition char_piece :: "char \<Rightarrow> piece" where
  "char_piece c = (if c = CHR '' '' then Space else Lit c)"

lemma char_pieces:
  "concat (map piece_format (map char_piece s)) = s" "concat (map piece_args (map char_piece s)) = []"
  "CHR ''%'' \<notin> set s \<Longrightarrow> NUL \<notin> set s \<Longrightarrow> p \<in> set (map char_piece s) \<Longrightarrow> piece_ok p"
  by (induction s) (auto simp: char_piece_def)

definition spaced :: "string list \<Rightarrow> string" where
  "spaced ws = concat (map (\<lambda>w. '' '' @ w) ws)"

lemma spaced_simps [simp]: "spaced [] = []" "spaced (w # ws) = CHR '' '' # w @ spaced ws"
  by (simp_all add: spaced_def)

lemma format_words_letters: "CHR '' '' \<notin> set w \<Longrightarrow> w \<noteq> [] \<Longrightarrow>
    format_words cur touched (map char_piece w @ ps) = format_words (cur @ w) True ps"
proof (induction w arbitrary: cur touched)
  case (Cons c w)
  then show ?case by (cases "w = []") (auto simp: char_piece_def)
qed simp

definition word_ok :: "string \<Rightarrow> bool" where
  "word_ok w \<longleftrightarrow> w \<noteq> [] \<and> CHR '' '' \<notin> set w \<and> CHR ''%'' \<notin> set w \<and> NUL \<notin> set w"

lemma format_words_spaced: "\<forall>w \<in> set ws. word_ok w \<Longrightarrow> format_words cur True (map char_piece (spaced ws)) = cur # ws"
proof (induction ws arbitrary: cur)
  case (Cons w ws)
  then show ?case using format_words_letters [of w "[]" False "map char_piece (spaced ws)"]
    by (simp add: word_ok_def) (simp add: char_piece_def [of "CHR '' ''"])
qed simp

lemma spaced_ok: "\<forall>w \<in> set ws. word_ok w \<Longrightarrow> CHR ''%'' \<notin> set (spaced ws) \<and> NUL \<notin> set (spaced ws)"
  by (induction ws) (auto simp: word_ok_def)

lemma redisvFormatCommand_text:
  assumes "ample M" "prints_int pf" "\<forall>w \<in> set (v # ws). word_ok w" "length (command_text (v # ws)) < 2 ^ 28"
  shows "redisvFormatCommand M pf (v @ spaced ws) [] = Inr (Inr (command_text (v # ws), int (length (command_text (v # ws)))))"
proof -
  have w: "format_words [] False (map char_piece (v @ spaced ws)) = v # ws"
    using assms(3) format_words_spaced [of ws v] by (simp add: format_words_letters word_ok_def)
  have "\<forall>p \<in> set (map char_piece (v @ spaced ws)). piece_ok p"
    using assms(3) spaced_ok [of ws] by (intro ballI char_pieces(3) [of "v @ spaced ws"]) (auto simp: word_ok_def)
  from redisvFormatCommand_words [OF assms(1,2) this] show ?thesis
    using assms(4) unfolding w char_pieces(1,2) by simp
qed

end
