(* ===== verification/Redis_Connection_Facts.thy ===== *)
theory Redis_Connection_Facts
  imports Redis_Connection Redis_Sessions Redis_Commands "HOL-Library.Sublist"
begin

text \<open>
  A connection to a server that answers: what the program appends to the output buffer is sent in order,
  however the socket cuts it, and \<open>redisGetReply\<close> returns the next reply of the server. That it
  returns at all rests on the socket: it may be interrupted and move part of the bytes only, but not for
  ever.
\<close>

section \<open>The server behind the socket\<close>

text \<open>What the world knows of the connection: the bytes the server received and the bytes it delivered, its
  answer to the bytes it received, and how often the socket may still fail to make progress.\<close>

record 'w peer =
  sent :: "'w \<Rightarrow> string"
  got :: "'w \<Rightarrow> string"
  answer :: "string \<Rightarrow> string"
  patience :: "'w \<Rightarrow> nat"

text \<open>A server takes nothing back of its answer.\<close>

definition keeps_answers :: "'w peer \<Rightarrow> bool" where
  "keeps_answers P \<longleftrightarrow> (\<forall>a b. prefix (answer P a) (answer P (a @ b)))"

definition write_progress :: "'w socket \<Rightarrow> 'w peer \<Rightarrow> bool" where
  "write_progress S P \<longleftrightarrow> (\<forall>b w. b \<noteq> [] \<longrightarrow>
     (case sock_write S b w of (r, w') \<Rightarrow> got P w' = got P w \<and>
        (case r of
           Wrote n \<Rightarrow> n \<le> length b \<and> sent P w' = sent P w @ take n b \<and> (n = 0 \<longrightarrow> patience P w' < patience P w)
         | WriteErr e \<Rightarrow> e = EINTR \<and> sent P w' = sent P w \<and> patience P w' < patience P w)))"

text \<open>While an answer is due, \<open>read\<close> delivers bytes of it or is interrupted.\<close>

definition read_progress :: "'w socket \<Rightarrow> 'w peer \<Rightarrow> bool" where
  "read_progress S P \<longleftrightarrow> (\<forall>w. prefix (got P w) (answer P (sent P w)) \<longrightarrow> got P w \<noteq> answer P (sent P w) \<longrightarrow>
     (case sock_read S (1024 * 16) w of (r, w') \<Rightarrow> sent P w' = sent P w \<and>
        (case r of
           ReadBytes t \<Rightarrow> t \<noteq> [] \<and> got P w' = got P w @ t \<and> prefix (got P w @ t) (answer P (sent P w))
         | ReadErr e \<Rightarrow> e = EINTR \<and> got P w' = got P w \<and> patience P w' < patience P w)))"

definition reliable :: "'w socket \<Rightarrow> 'w peer \<Rightarrow> bool" where
  "reliable S P \<longleftrightarrow> keeps_answers P \<and> write_progress S P \<and> read_progress S P"

text \<open>The connection is good, the reader holds \<open>v\<close> of the answer and the output buffer \<open>obuf\<close>.\<close>

definition ctx_at :: "memory \<Rightarrow> redisContext \<Rightarrow> string \<Rightarrow> string \<Rightarrow> bool" where
  "ctx_at M c v obuf \<longleftrightarrow> ctx_err c = 0 \<and> blocking c \<and> in_step M (ctx_reader c) v \<and>
     (\<exists>s. ctx_obuf c = Some s \<and> sds_is s obuf)"

lemma blocking_update [simp]: "blocking (c\<lparr>ctx_obuf := x\<rparr>) = blocking c" "blocking (c\<lparr>ctx_reader := r\<rparr>) = blocking c"
  by (simp_all add: blocking_def)

section \<open>Writing\<close>

lemma redisBufferWrite_step:
  assumes "ample M" "write_progress S P" "ctx_at M c v obuf" "obuf \<noteq> []" "length obuf < 2 ^ 30"
  shows "\<exists>c' w' obuf'. redisBufferWrite M S c w = Inr (True, obuf' = [], c', w') \<and> ctx_at M c' v obuf' \<and>
    got P w' = got P w \<and> sent P w' @ obuf' = sent P w @ obuf \<and>
    (length obuf' < length obuf \<or> obuf' = obuf \<and> patience P w' < patience P w)"
proof -
  obtain s where s: "ctx_obuf c = Some s" "sds_is s obuf" using assms(3) by (auto simp: ctx_at_def)
  have len: "sdslen s = length obuf" using s(2) by (rule sdslen_is)
  have data: "mem_read (sds_buf s) 0 (length obuf) = Inr obuf" using sds_read_all [OF s(2)] len by simp
  have err: "ctx_err c = 0" using assms(3) by (simp add: ctx_at_def)
  obtain r w' where w': "sock_write S obuf w = (r, w')" by fastforce
  have p: "got P w' = got P w"
    "r = Wrote n \<Longrightarrow> n \<le> length obuf \<and> sent P w' = sent P w @ take n obuf \<and> (n = 0 \<longrightarrow> patience P w' < patience P w)"
    "r = WriteErr e \<Longrightarrow> e = EINTR \<and> sent P w' = sent P w \<and> patience P w' < patience P w" for n e
    using assms(2,4) w' by (auto simp: write_progress_def dest!: spec [of _ obuf] spec [of _ w])
  show ?thesis
  proof (cases r)
    case (WriteErr e)
    then show ?thesis using p(1) p(3) [of e] assms(3,4) err s(1) len data w'
      by (intro exI [of _ c] exI [of _ w'] exI [of _ obuf])
        (auto simp: redisBufferWrite_def try_again_def obuf_len_def)
  next
    case (Wrote n)
    note n = p(2) [OF Wrote]
    have ci: "c_int (int (length obuf)) = int (length obuf)" using assms(5) by (intro c_int_small) auto
    consider "n = 0" | "n = length obuf" "0 < n" | "0 < n" "n < length obuf" using n by linarith
    then show ?thesis
    proof cases
      case 1
      then show ?thesis using p(1) n Wrote assms(3,4) err s(1) len data w'
        by (intro exI [of _ c] exI [of _ w'] exI [of _ obuf])
          (auto simp: redisBufferWrite_def wrote_def obuf_len_def)
    next
      case 2
      obtain s0 where s0: "sdsempty M = Inr (Some s0)" "sds_is s0 []" using sdsempty_is [OF assms(1)] by blast
      have "ctx_at M (c\<lparr>ctx_obuf := Some s0\<rparr>) v []" using assms(3) s0(2) by (simp add: ctx_at_def)
      then show ?thesis using p(1) n Wrote 2 assms(4) err s(1) s0(1) sdslen_is [OF s0(2)] len data w' ci
        by (intro exI [of _ "c\<lparr>ctx_obuf := Some s0\<rparr>"] exI [of _ w'] exI [of _ "[]"])
          (auto simp: redisBufferWrite_def wrote_def obuf_len_def)
    next
      case 3
      obtain s1 where s1: "sdsrange s (int n) (- 1) = Inr s1" "sds_is s1 (drop n obuf)"
        using sdsrange_is [OF s(2), of "int n" "- 1"] slice_suffix [of "int n" obuf] 3 assms(5) by auto
      have "ctx_at M (c\<lparr>ctx_obuf := Some s1\<rparr>) v (drop n obuf)" using assms(3) s1(2) by (simp add: ctx_at_def)
      then show ?thesis using p(1) n Wrote 3 assms(4) err s(1) s1(1) sdslen_is [OF s1(2)] len data w' ci
        by (intro exI [of _ "c\<lparr>ctx_obuf := Some s1\<rparr>"] exI [of _ w'] exI [of _ "drop n obuf"])
          (auto simp: redisBufferWrite_def wrote_def obuf_len_def)
    qed
  qed
qed

lemma redisBufferWrite_empty: "ctx_at M c v [] \<Longrightarrow> redisBufferWrite M S c w = Inr (True, True, c, w)"
  by (auto simp: ctx_at_def redisBufferWrite_def obuf_len_def sdslen_is)

lemma write_loop_ends:
  assumes "ample M" "write_progress S P" "ctx_at M c v obuf" "length obuf < 2 ^ 30"
  shows "\<exists>c' w'. write_loop M S c w = Some (Inr (True, c', w')) \<and> ctx_at M c' v [] \<and>
    got P w' = got P w \<and> sent P w' = sent P w @ obuf"
  using assms(3,4)
proof (induction "(obuf, patience P w)" arbitrary: obuf c w rule: wf_induct [OF wf_lex_prod [OF wf_measure [of length] wf_measure [of id]]])
  case 1
  show ?case
  proof (cases "obuf = []")
    case True
    then show ?thesis using 1(2) redisBufferWrite_empty [of M c v S w] by (subst write_loop.simps) auto
  next
    case False
    obtain c1 w1 obuf1 where s: "redisBufferWrite M S c w = Inr (True, obuf1 = [], c1, w1)" "ctx_at M c1 v obuf1"
      "got P w1 = got P w" "sent P w1 @ obuf1 = sent P w @ obuf"
      "length obuf1 < length obuf \<or> obuf1 = obuf \<and> patience P w1 < patience P w"
      using redisBufferWrite_step [OF assms(1,2) 1(2) False 1(3)] by blast
    have "\<exists>c' w'. write_loop M S c1 w1 = Some (Inr (True, c', w')) \<and> ctx_at M c' v [] \<and>
        got P w' = got P w1 \<and> sent P w' = sent P w1 @ obuf1"
      using s(5) 1(1,3) s(2) by auto
    then show ?thesis using s by (subst write_loop.simps) auto
  qed
qed

section \<open>Reading\<close>

text \<open>The reader answers with the next reply as soon as it has all its bytes.\<close>

lemma in_step_next:
  assumes "ample M" "in_step M r v" "v @ later = reply_text y @ rest" "reply_ok 8 y"
  obtains (ready) r' v' where "redisReaderGetReply M r = Inr (True, Some y, r')" "in_step M r' v'" "v' @ later = rest"
  | (waiting) r' where "redisReaderGetReply M r = Inr (True, None, r')" "in_step M r' v" "length v < length (reply_text y)"
proof (cases "length (reply_text y) \<le> length v")
  case True
  then obtain v' where v': "v = reply_text y @ v'" "v' @ later = rest"
    using assms(3) by (metis append_eq_append_conv_if append_eq_conv_conj append_take_drop_id)
  then show thesis using in_step_reply [OF assms(2) [unfolded v'(1)] assms(1,4)] ready by blast
next
  case False
  then have lt: "length v < length (reply_text y)" by simp
  have "v = take (length v) (reply_text y)" using arg_cong [OF assms(3), of "take (length v)"] lt by simp
  then obtain u where u: "reply_text y = v @ u" "u \<noteq> []"
    using lt append_take_drop_id [of "length v" "reply_text y"] that by (metis less_irrefl self_append_conv)
  obtain a b e where w: "parse_loop M v [root_task] None = Inr (Wait a b e)"
    using parse_part_reply [OF assms(1,4) u] by blast
  then show thesis using in_step_wait [OF assms(2) _ w] waiting lt by auto
qed

lemma from_reader:
  assumes "ample M" "ctx_at M c v obuf" "v @ later = reply_text y @ rest" "reply_ok 8 y"
  obtains (ready) c' v' where "redisGetReplyFromReader M c = Inr (True, Some y, c')" "ctx_at M c' v' obuf" "v' @ later = rest"
  | (waiting) c' where "redisGetReplyFromReader M c = Inr (True, None, c')" "ctx_at M c' v obuf" "length v < length (reply_text y)"
proof -
  have r: "in_step M (ctx_reader c) v" using assms(2) by (simp add: ctx_at_def)
  have at: "in_step M r' v' \<Longrightarrow> ctx_at M (c\<lparr>ctx_reader := r'\<rparr>) v' obuf" for r' v'
    using assms(2) by (simp add: ctx_at_def)
  from in_step_next [OF assms(1) r assms(3,4)] show thesis
  proof cases
    case (1 r' v')
    note ready = 1
    then show thesis using that(1) [of "c\<lparr>ctx_reader := r'\<rparr>" v'] at by (simp add: redisGetReplyFromReader_def)
  next
    case (2 r')
    note waiting = 2
    then show thesis using that(2) [of "c\<lparr>ctx_reader := r'\<rparr>"] at by (simp add: redisGetReplyFromReader_def)
  qed
qed

lemma nothing_read:
  assumes "ample M" "ctx_at M c [] obuf"
  shows "redisGetReplyFromReader M c \<noteq> Inr (True, Some y, c')"
proof -
  obtain inp ts root where i: "reader_is (ctx_reader c) inp ts root" "inp = []"
    using assms(2) by (auto simp: ctx_at_def in_step_def)
  have "redisReaderGetReply M (ctx_reader c) \<noteq> Inr (True, Some y, r')" for r'
  proof (cases "reader_len (ctx_reader c) = 0")
    case True
    then show ?thesis using in_step_len0(2) [OF i(1)] by simp
  next
    case False
    show ?thesis
      using redisReaderGetReply_gives [OF i(1) False, of M] parse_loop_empty [of "start_stack ts" M root] i(2)
      by (cases "parse_loop M inp (start_stack ts) root") (auto simp: gives_def split: progress.splits)
  qed
  then show ?thesis by (auto simp: redisGetReplyFromReader_def and_then_Inr Let_def split: if_splits)
qed

lemma redisBufferRead_step:
  assumes "ample M" "read_progress S P" "ctx_at M c v obuf" "prefix (got P w) (answer P (sent P w))"
    "got P w \<noteq> answer P (sent P w)" "length v + length (answer P (sent P w)) < 2 ^ 30 - 1024 + length (got P w)"
  shows "\<exists>c' w' t. redisBufferRead M S c w = Inr (True, c', w') \<and> ctx_at M c' (v @ t) obuf \<and>
    sent P w' = sent P w \<and> got P w' = got P w @ t \<and> prefix (got P w') (answer P (sent P w)) \<and>
    (t \<noteq> [] \<or> patience P w' < patience P w)"
proof -
  have c: "ctx_err c = 0" "in_step M (ctx_reader c) v" using assms(3) by (auto simp: ctx_at_def)
  obtain r w' where w': "sock_read S (1024 * 16) w = (r, w')" by fastforce
  have p: "sent P w' = sent P w"
    "r = ReadBytes t \<Longrightarrow> t \<noteq> [] \<and> got P w' = got P w @ t \<and> prefix (got P w @ t) (answer P (sent P w))"
    "r = ReadErr e \<Longrightarrow> e = EINTR \<and> got P w' = got P w \<and> patience P w' < patience P w" for t e
    using assms(2,4,5) w' by (auto simp: read_progress_def dest!: spec [of _ w])
  show ?thesis
  proof (cases r)
    case (ReadErr e)
    then show ?thesis using p(1) p(3) [of e] c(1) w' assms(3,4)
      by (intro exI [of _ c] exI [of _ w'] exI [of _ "[]"]) (auto simp: redisBufferRead_def try_again_def)
  next
    case (ReadBytes t)
    have t: "t \<noteq> []" "got P w' = got P w @ t" "prefix (got P w @ t) (answer P (sent P w))" using p(2) [OF ReadBytes] by auto
    have "length v + length t < 2 ^ 30 - 1024" using prefix_length_le [OF t(3)] assms(6) by simp
    then obtain r' where r': "redisReaderFeed M (ctx_reader c) (Some t) (length t) = Inr (True, r')" "in_step M r' (v @ t)"
      using in_step_feed [OF c(2) assms(1)] by blast
    then have "ctx_at M (c\<lparr>ctx_reader := r'\<rparr>) (v @ t) obuf" using assms(3) by (simp add: ctx_at_def)
    then show ?thesis using p(1) t r'(1) c(1) w' ReadBytes
      by (intro exI [of _ "c\<lparr>ctx_reader := r'\<rparr>"] exI [of _ w'] exI [of _ t]) (auto simp: redisBufferRead_def)
  qed
qed

text \<open>The bytes that are still to be delivered of the whole answer.\<close>

definition due :: "'w peer \<Rightarrow> string \<Rightarrow> 'w \<Rightarrow> string" where
  "due P whole w = drop (length (got P w)) (answer P whole)"

lemma due_got: "prefix (got P w) (answer P whole) \<Longrightarrow> got P w @ due P whole w = answer P whole"
  by (auto simp: due_def prefix_def)

lemma due_more:
  assumes "got P w' = got P w @ t" "prefix (got P w') (answer P whole)"
  shows "due P whole w = t @ due P whole w'"
  using assms by (auto simp: due_def prefix_def)

lemma read_loop_ends:
  assumes "ample M" "read_progress S P" "reply_ok 8 y"
    and "ctx_at M c v obuf" "prefix (got P w) (answer P (sent P w))"
      "v @ due P (sent P w) w = reply_text y @ rest" "length (reply_text y @ rest) < 2 ^ 30 - 1024"
      "length v < length (reply_text y)"
  shows "\<exists>c' w' v'. read_loop M S c w = Some (Inr (True, Some y, c', w')) \<and> ctx_at M c' v' obuf \<and>
    sent P w' = sent P w \<and> prefix (got P w') (answer P (sent P w)) \<and> v' @ due P (sent P w) w' = rest"
  using assms(4-)
proof (induction "(due P (sent P w) w, patience P w)" arbitrary: c w v
    rule: wf_induct_rule [OF wf_lex_prod [OF wf_measure [of length] wf_measure [of id]]])
  case 1
  note IH = 1(1) and at = 1(2) and pre = 1(3) and eq = 1(4) and short = 1(5) and lt = 1(6)
  have ne: "due P (sent P w) w \<noteq> []" using eq lt by (cases "due P (sent P w) w") auto
  then have "got P w \<noteq> answer P (sent P w)" by (auto simp: due_def)
  moreover have "length v + length (answer P (sent P w)) < 2 ^ 30 - 1024 + length (got P w)"
    using arg_cong [OF due_got [OF pre], of length] arg_cong [OF eq, of length] short by simp
  ultimately obtain c1 w1 t where s: "redisBufferRead M S c w = Inr (True, c1, w1)" "ctx_at M c1 (v @ t) obuf"
    "sent P w1 = sent P w" "got P w1 = got P w @ t" "prefix (got P w1) (answer P (sent P w))"
    "t \<noteq> [] \<or> patience P w1 < patience P w"
    using redisBufferRead_step [OF assms(1,2) at pre] by blast
  have d: "due P (sent P w) w = t @ due P (sent P w) w1" using due_more [OF s(4,5)] .
  have eq1: "(v @ t) @ due P (sent P w) w1 = reply_text y @ rest" using eq d by simp
  from from_reader [OF assms(1) s(2) eq1 assms(3)] show ?case
  proof cases
    case (1 c2 v2)
    note ready = 1
    then show ?thesis using s(1,3,5) by (subst read_loop.simps) auto
  next
    case (2 c2)
    note waiting = 2
    have "\<exists>c' w' v'. read_loop M S c2 w1 = Some (Inr (True, Some y, c', w')) \<and> ctx_at M c' v' obuf \<and>
        sent P w' = sent P w1 \<and> prefix (got P w') (answer P (sent P w1)) \<and> v' @ due P (sent P w1) w' = rest"
      by (rule IH [OF _ waiting(2)]) (use s(3,5,6) eq1 short d waiting(3) in auto)
    then show ?thesis using s(1,3) waiting(1) by (subst read_loop.simps) auto
  qed
qed

section \<open>The next reply\<close>

text \<open>The connection with everything the program has appended (\<open>whole\<close>), and the answers that were not
  returned yet (\<open>later\<close>), of which the reader holds \<open>v\<close>.\<close>

definition conn_at :: "memory \<Rightarrow> 'w peer \<Rightarrow> redisContext \<Rightarrow> 'w \<Rightarrow> string \<Rightarrow> string \<Rightarrow> string \<Rightarrow> string \<Rightarrow> bool" where
  "conn_at M P c w v obuf whole later \<longleftrightarrow> ctx_at M c v obuf \<and> sent P w @ obuf = whole \<and>
     prefix (got P w) (answer P (sent P w)) \<and> v @ due P whole w = later"

lemma redisGetReply_next:
  assumes "ample M" "reliable S P" "conn_at M P c w v obuf whole (reply_text y @ rest)" "reply_ok 8 y"
    "length (reply_text y @ rest) < 2 ^ 30 - 1024" "length obuf < 2 ^ 30"
  shows "\<exists>c' w' v' obuf'. redisGetReply M S c w = Some (Inr (True, Some y, c', w')) \<and>
    conn_at M P c' w' v' obuf' whole rest \<and> (obuf' = [] \<or> obuf' = obuf \<and> v \<noteq> [])"
proof -
  have at: "ctx_at M c v obuf" "sent P w @ obuf = whole"
    "prefix (got P w) (answer P (sent P w))" "v @ due P whole w = reply_text y @ rest"
    using assms(3) by (auto simp: conn_at_def)
  have S: "write_progress S P" "read_progress S P" "keeps_answers P" using assms(2) by (auto simp: reliable_def)
  from from_reader [OF assms(1) at(1,4) assms(4)] show ?thesis
  proof cases
    case (1 c1 v1)
    have "v \<noteq> []"
    proof
      assume "v = []"
      then have "redisGetReplyFromReader M c \<noteq> Inr (True, Some y, c1)"
        using nothing_read [OF assms(1), of c obuf] at(1) by simp
      then show False using 1 by simp
    qed
    then show ?thesis using 1 at by (auto simp: redisGetReply_def conn_at_def)
  next
    case (2 c1)
    obtain c2 w2 where w2: "write_loop M S c1 w = Some (Inr (True, c2, w2))" "ctx_at M c2 v []" "got P w2 = got P w"
      "sent P w2 = whole"
      using write_loop_ends [OF assms(1) S(1) 2(2) assms(6)] at(2) by blast
    have "prefix (answer P (sent P w)) (answer P whole)" using S(3) at(2) by (auto simp: keeps_answers_def)
    then have pre: "prefix (got P w2) (answer P (sent P w2))" using at(3) w2(3,4) by (metis prefix_order.trans)
    have "v @ due P (sent P w2) w2 = reply_text y @ rest" using at(4) w2(3,4) by (simp add: due_def)
    then obtain c' w' v' where r: "read_loop M S c2 w2 = Some (Inr (True, Some y, c', w'))" "ctx_at M c' v' []"
      "sent P w' = sent P w2" "prefix (got P w') (answer P (sent P w2))" "v' @ due P (sent P w2) w' = rest"
      using read_loop_ends [OF assms(1) S(2) assms(4) w2(2) pre _ assms(5) 2(3)] by blast
    have "blocking c1" using 2(2) by (simp add: ctx_at_def)
    moreover have "conn_at M P c' w' v' [] whole rest" using r w2(4) by (simp add: conn_at_def)
    ultimately show ?thesis using 2(1) w2(1) r(1) by (auto simp: redisGetReply_def)
  qed
qed

end
