(* ===== verification/Redis_Client_Facts.thy ===== *)
theory Redis_Client_Facts
  imports Redis_Client Redis_Connection_Facts
begin

text \<open>
  The Redis database against a server that keeps hashes: between the operations nothing is waiting in either
  direction, an operation sends its command (and \<open>WAIT\<close> for the slaves) and consumes the answers, and
  what \<open>Read\<close> returns is what the last updates wrote.
\<close>

section \<open>Between the operations\<close>

definition idle :: "memory \<Rightarrow> 'w peer \<Rightarrow> redisContext \<Rightarrow> 'w \<Rightarrow> string \<Rightarrow> bool" where
  "idle M P c w whole \<longleftrightarrow> conn_at M P c w [] [] whole []"

text \<open>The server answers one more command with a reply.\<close>

definition answers :: "'w peer \<Rightarrow> string \<Rightarrow> string list \<Rightarrow> reply \<Rightarrow> bool" where
  "answers P whole args y \<longleftrightarrow> answer P (whole @ command_text args) = answer P whole @ reply_text y \<and>
     reply_ok 8 y \<and> length (reply_text y) < 2 ^ 28"

lemma conn_at_whole: "keeps_answers P \<Longrightarrow> conn_at M P c w v obuf whole later \<Longrightarrow> prefix (got P w) (answer P whole)"
  unfolding conn_at_def keeps_answers_def by (metis prefix_order.trans)

lemma append_command:
  assumes "ample M" "keeps_answers P" "conn_at M P c w v obuf whole later" "answers P whole args y"
    "length obuf + length (command_text args) < 2 ^ 30" "take n cmd = command_text args" "n \<le> length cmd"
  shows "\<exists>c'. redisAppendFormattedCommand M cmd n c = Inr (True, c') \<and>
    conn_at M P c' w v (obuf @ command_text args) (whole @ command_text args) (later @ reply_text y)"
proof -
  obtain s where s: "ctx_obuf c = Some s" "sds_is s obuf" using assms(3) by (auto simp: conn_at_def ctx_at_def)
  have "length obuf + n < 2 ^ 30" using assms(5-7) by (metis length_take min.absorb2)
  then obtain s' where s': "sdscatlen M s cmd n = Inr (Some s')" "sds_is s' (obuf @ command_text args)"
    using sdscatlen_is [OF assms(1) s(2) assms(7)] assms(6) by auto
  have "due P (whole @ command_text args) w = due P whole w @ reply_text y"
    using conn_at_whole [OF assms(2,3)] assms(4) by (auto simp: due_def answers_def prefix_def)
  then show ?thesis using s(1) s' assms(3)
    by (auto simp: redisAppendFormattedCommand_def conn_at_def ctx_at_def)
qed

lemma append_text:
  assumes "ample M" "prints_int pf" "keeps_answers P" "conn_at M P c w v obuf whole later" "answers P whole (format_words [] False ps) y"
    "\<forall>p \<in> set ps. piece_ok p" "length (command_text (format_words [] False ps)) < 2 ^ 28" "length obuf < 2 ^ 28"
  shows "\<exists>c'. redisvAppendCommand M pf (concat (map piece_format ps)) (concat (map piece_args ps)) c = Inr (True, c') \<and>
    conn_at M P c' w v (obuf @ command_text (format_words [] False ps)) (whole @ command_text (format_words [] False ps))
      (later @ reply_text y)"
proof -
  let ?args = "format_words [] False ps"
  obtain c' where "redisAppendFormattedCommand M (command_text ?args) (length (command_text ?args)) c = Inr (True, c')"
    "conn_at M P c' w v (obuf @ command_text ?args) (whole @ command_text ?args) (later @ reply_text y)"
    using append_command [OF assms(1,3-5), of "length (command_text ?args)" "command_text ?args"] assms(7,8) by auto
  then show ?thesis using redisvFormatCommand_words [OF assms(1,2,6,7)] assms(7)
    by (simp add: redisvAppendCommand_def size_t_nat)
qed

section \<open>A command and its answer\<close>

lemma take_reply_next:
  assumes "ample M" "reliable S P" "conn_at M P c w v obuf whole (reply_text y @ rest)" "reply_ok 8 y"
    "length (reply_text y @ rest) < 2 ^ 30 - 1024" "length obuf < 2 ^ 30" "v = [] \<or> obuf = []"
  shows "\<exists>c' w' v'. take_reply M S p c w = Some (Inr (Freed, c', w')) \<and> conn_at M P c' w' v' [] whole rest"
  using redisGetReply_next [OF assms(1-6)] assms(7) by (fastforce simp: take_reply_def pointer_to_def)

definition wait_args :: "int \<Rightarrow> string list" where
  "wait_args n = [''WAIT'', show_int n, ''0'']"

definition wait_pieces :: "int \<Rightarrow> piece list" where
  "wait_pieces n = map char_piece ''WAIT '' @ [Dec n, Space, Dec 0]"

lemma to_string_0: "to_string 0 = ''0''"
  by code_simp

lemma wait_pieces_format:
  "concat (map piece_format (wait_pieces n)) = ''WAIT %d %d''"
  "concat (map piece_args (wait_pieces n)) = [VaInt n, VaInt 0]"
  "format_words [] False (wait_pieces n) = wait_args n"
  "- (2 ^ 31) \<le> n \<Longrightarrow> n < 2 ^ 31 \<Longrightarrow> \<forall>p \<in> set (wait_pieces n). piece_ok p"
  by (simp_all add: wait_pieces_def wait_args_def char_piece_def show_int_def to_string_0)

lemma wait_text_length: "- (2 ^ 31) \<le> n \<Longrightarrow> n < 2 ^ 31 \<Longrightarrow> length (command_text (wait_args n)) < 2 ^ 28"
  using length_show_int [of n] length_to_string [of "length (show_int n)" 2] length_to_string [of "Suc (Suc (Suc 0))" 1]
    length_to_string [of "Suc (Suc (Suc (Suc 0)))" 1] length_to_string [of "Suc 0" 1]
  by (simp add: command_text_def wait_args_def bulk_text_def CRLF_def)

text \<open>What \<open>Command\<close> sends.\<close>

definition with_wait :: "int \<Rightarrow> string list \<Rightarrow> string list list" where
  "with_wait slaves args = args # (if slaves \<noteq> 0 then [wait_args slaves] else [])"

fun all_answered :: "'w peer \<Rightarrow> string \<Rightarrow> string list list \<Rightarrow> bool" where
  "all_answered P whole [] \<longleftrightarrow> True"
| "all_answered P whole (r # rs) \<longleftrightarrow> (\<exists>y. answers P whole r y) \<and> all_answered P (whole @ command_text r) rs"

definition commands_text :: "string list list \<Rightarrow> string" where
  "commands_text rs = concat (map command_text rs)"

definition client_ok :: "redis_client \<Rightarrow> bool" where
  "client_ok cl \<longleftrightarrow> - (2 ^ 31) \<le> client_slaves cl \<and> client_slaves cl < 2 ^ 31"

lemma text_pieces:
  assumes "\<forall>w \<in> set (v # ws). word_ok w"
  shows "format_words [] False (map char_piece (v @ spaced ws)) = v # ws"
    "\<forall>p \<in> set (map char_piece (v @ spaced ws)). piece_ok p"
  using assms format_words_spaced [of ws v] spaced_ok [of ws]
  by (simp add: format_words_letters word_ok_def, intro ballI char_pieces(3) [of "v @ spaced ws"]) (auto simp: word_ok_def)

lemma RedisClient_Command_pieces:
  assumes "ample M" "prints_int pf" "reliable S P" "idle M P (client_context cl) w whole" "client_ok cl"
    "\<forall>p \<in> set ps. piece_ok p" "concat (map piece_args ps) = []" "NUL \<notin> set (concat (map piece_format ps))"
    "length (command_text (format_words [] False ps)) < 2 ^ 28"
    "all_answered P whole (with_wait (client_slaves cl) (format_words [] False ps))"
  shows "\<exists>c' w'. RedisClient_Command M pf S cl (concat (map piece_format ps)) w = Some (Inr (0, cl\<lparr>client_context := c'\<rparr>, w')) \<and>
    idle M P c' w' (whole @ commands_text (with_wait (client_slaves cl) (format_words [] False ps)))"
proof -
  let ?ws = "format_words [] False ps" and ?cmd = "concat (map piece_format ps)"
  have st: "keeps_answers P" using assms(3) by (simp add: reliable_def)
  obtain y where y: "answers P whole ?ws y" using assms(10) by (auto simp: with_wait_def)
  have y': "reply_ok 8 y" "length (reply_text y) < 2 ^ 28" using y by (auto simp: answers_def)
  let ?t = "command_text ?ws"
  have c: "c_part ?cmd = ?cmd" using assms(8) by (auto simp: c_part_def)
  obtain c1 where c1: "redisvAppendCommand M pf ?cmd [] (client_context cl) = Inr (True, c1)"
    "conn_at M P c1 w [] ?t (whole @ ?t) (reply_text y)"
    using append_text [OF assms(1,2) st assms(4) [unfolded idle_def], of ps y]
      assms(6,7,9) y by auto
  show ?thesis
  proof (cases "client_slaves cl = 0")
    case True
    obtain c2 w2 v2 where g: "take_reply M S Unset c1 w = Some (Inr (Freed, c2, w2))" "conn_at M P c2 w2 v2 [] (whole @ ?t) []"
      using take_reply_next [OF assms(1,3), of c1 w "[]" ?t "whole @ ?t" y "[]" Unset] c1(2) y' assms(9) by auto
    have "v2 = []" using g(2) by (simp add: conn_at_def)
    then show ?thesis using g c1(1) c True
      by (intro exI [of _ c2] exI [of _ w2]) (simp add: RedisClient_Command_def idle_def with_wait_def commands_text_def)
  next
    case False
    let ?n = "client_slaves cl" and ?u = "command_text (wait_args (client_slaves cl))"
    obtain z where z: "answers P (whole @ ?t) (wait_args ?n) z" using assms(10) False by (auto simp: with_wait_def)
    have z': "reply_ok 8 z" "length (reply_text z) < 2 ^ 28" using z by (auto simp: answers_def)
    have n: "- (2 ^ 31) \<le> ?n" "?n < 2 ^ 31" using assms(5) by (auto simp: client_ok_def)
    have wl: "length ?u < 2 ^ 28" by (rule wait_text_length [OF n])
    obtain c2 where c2: "redisvAppendCommand M pf ''WAIT %d %d'' [VaInt ?n, VaInt 0] c1 = Inr (True, c2)"
      "conn_at M P c2 w [] (?t @ ?u) ((whole @ ?t) @ ?u) (reply_text y @ reply_text z)"
      using append_text [OF assms(1,2) st c1(2), of "wait_pieces ?n" z] z wl assms(9) wait_pieces_format(4) [OF n]
      unfolding wait_pieces_format(1-3) by auto
    obtain c3 w3 v3 where g: "take_reply M S Unset c2 w = Some (Inr (Freed, c3, w3))"
        "conn_at M P c3 w3 v3 [] ((whole @ ?t) @ ?u) (reply_text z)"
      using take_reply_next [OF assms(1,3) c2(2) y'(1), of Unset] y'(2) z'(2) wl assms(9) by auto
    obtain c4 w4 v4 where h: "take_reply M S Freed c3 w3 = Some (Inr (Freed, c4, w4))"
        "conn_at M P c4 w4 v4 [] ((whole @ ?t) @ ?u) []"
      using take_reply_next [OF assms(1,3), of c3 w3 v3 "[]" "(whole @ ?t) @ ?u" z "[]" Freed] g(2) z' by auto
    have "v4 = []" using h(2) by (simp add: conn_at_def)
    then show ?thesis using g h c1(1) c2(1) c False
      by (intro exI [of _ c4] exI [of _ w4]) (simp add: RedisClient_Command_def idle_def with_wait_def commands_text_def)
  qed
qed

lemma RedisClient_Command_sends:
  assumes "ample M" "prints_int pf" "reliable S P" "idle M P (client_context cl) w whole" "client_ok cl"
    "\<forall>w \<in> set (v # ws). word_ok w" "length (command_text (v # ws)) < 2 ^ 28"
    "all_answered P whole (with_wait (client_slaves cl) (v # ws))"
  shows "\<exists>c' w'. RedisClient_Command M pf S cl (v @ spaced ws) w = Some (Inr (0, cl\<lparr>client_context := c'\<rparr>, w')) \<and>
    idle M P c' w' (whole @ commands_text (with_wait (client_slaves cl) (v # ws)))"
proof -
  have z: "NUL \<notin> set (v @ spaced ws)" using assms(6) spaced_ok [of ws] by (auto simp: word_ok_def)
  show ?thesis
    using RedisClient_Command_pieces [OF assms(1-5), of "map char_piece (v @ spaced ws)"] text_pieces [OF assms(6)] assms(7,8) z
    unfolding char_pieces(1,2) by simp
qed

end
