(* ===== verification/Redis_Store.thy ===== *)
theory Redis_Store
  imports Redis_Client_Facts
begin

text \<open>
  The Redis database as a store of hashes: when the server answers its commands as Redis documents them,
  the operations of \<open>RedisDB\<close> implement reading, updating and deleting in a map from keys and fields
  to values.
\<close>

section \<open>What the server documents\<close>

type_synonym hashes = "string \<Rightarrow> string \<rightharpoonup> string"

definition value_reply :: "string option \<Rightarrow> reply" where
  "value_reply v = (case v of None \<Rightarrow> NilReply | Some v \<Rightarrow> StringReply v)"

fun set_pairs :: "(string \<rightharpoonup> string) \<Rightarrow> string list \<Rightarrow> string \<rightharpoonup> string" where
  "set_pairs m (f # v # xs) = set_pairs (m(f \<mapsto> v)) xs"
| "set_pairs m _ = m"

definition flat_pairs :: "pairs \<Rightarrow> string list" where
  "flat_pairs ps = concat (map (\<lambda>(f, v). [f, v]) ps)"

lemma flat_pairs_simps [simp]: "flat_pairs [] = []" "flat_pairs ((f, v) # ps) = f # v # flat_pairs ps"
  by (simp_all add: flat_pairs_def)

text \<open>All fields of a hash with their values, in the order the server likes.\<close>

definition all_reply :: "pairs \<Rightarrow> reply" where
  "all_reply ps = ArrayReply (length (flat_pairs ps))
     (if ps = [] then None else Some (map (\<lambda>s. Some (StringReply s)) (flat_pairs ps)))"

definition all_of :: "(string \<rightharpoonup> string) \<Rightarrow> pairs \<Rightarrow> bool" where
  "all_of m ps \<longleftrightarrow> distinct (map fst ps) \<and> map_of ps = m"

text \<open>\<open>HMGET\<close> gives the values of the fields, nil for a field that is not there; \<open>HGETALL\<close> gives all fields;
  \<open>HMSET\<close> sets fields, and without any is an error; \<open>DEL\<close> removes a key; the other commands the client
  sends give a number.\<close>

fun redis_reply :: "hashes \<Rightarrow> string list \<Rightarrow> reply \<Rightarrow> bool" where
  "redis_reply st (cmd # key # args) y \<longleftrightarrow>
     (if cmd = ''HMGET'' then y = ArrayReply (length args) (Some (map (\<lambda>f. Some (value_reply (st key f))) args))
      else if cmd = ''HGETALL'' then \<exists>ps. all_of (st key) ps \<and> y = all_reply ps
      else if cmd = ''HMSET'' then if args = [] then \<exists>msg. y = ErrorReply msg else y = StatusReply ''OK''
      else (\<exists>n. y = IntegerReply n))"
| "redis_reply st _ y \<longleftrightarrow> False"

fun redis_effect :: "hashes \<Rightarrow> string list \<Rightarrow> hashes" where
  "redis_effect st (cmd # key # args) =
     (if cmd = ''HMSET'' then st(key := set_pairs (st key) args)
      else if cmd = ''DEL'' then st(key := Map.empty)
      else st)"
| "redis_effect st _ = st"

text \<open>The server answers these commands, one after the other.\<close>

fun serves :: "'w peer \<Rightarrow> string \<Rightarrow> hashes \<Rightarrow> string list list \<Rightarrow> bool" where
  "serves P whole st [] \<longleftrightarrow> True"
| "serves P whole st (r # rs) \<longleftrightarrow> (\<exists>y. redis_reply st r y \<and> answers P whole r y) \<and>
     serves P (whole @ command_text r) (redis_effect st r) rs"

lemma commands_text_simps [simp]: "commands_text [] = []" "commands_text (r # rs) = command_text r @ commands_text rs"
  "commands_text (rs @ qs) = commands_text rs @ commands_text qs"
  by (simp_all add: commands_text_def)

lemma serves_append: "serves P whole st (rs @ qs) \<longleftrightarrow>
    serves P whole st rs \<and> serves P (whole @ commands_text rs) (foldl redis_effect st rs) qs"
  by (induction rs arbitrary: whole st) auto

lemma serves_all_answered: "serves P whole st rs \<Longrightarrow> all_answered P whole rs"
  by (induction rs arbitrary: whole st) auto

section \<open>Operations on the store\<close>

datatype db_op = ReadOp string "string list" | ReadAllOp string | UpdateOp string pairs | DeleteOp string

definition update_hash :: "(string \<rightharpoonup> string) \<Rightarrow> pairs \<Rightarrow> string \<rightharpoonup> string" where
  "update_hash m ps = foldl (\<lambda>m (f, v). m(f \<mapsto> v)) m ps"

lemma set_pairs_flat: "set_pairs m (flat_pairs ps) = update_hash m ps"
  by (induction ps arbitrary: m) (auto simp: update_hash_def)

fun store_effect :: "hashes \<Rightarrow> db_op \<Rightarrow> hashes" where
  "store_effect st (ReadOp key fs) = st"
| "store_effect st (ReadAllOp key) = st"
| "store_effect st (UpdateOp key ps) = st(key := update_hash (st key) ps)"
| "store_effect st (DeleteOp key) = st(key := Map.empty)"

text \<open>A field that is not there reads as the empty string; all fields are read in any order.\<close>

fun store_answer :: "hashes \<Rightarrow> db_op \<Rightarrow> pairs \<Rightarrow> bool" where
  "store_answer st (ReadOp key fs) ps \<longleftrightarrow> ps = map (\<lambda>f. (f, case st key f of None \<Rightarrow> [] | Some v \<Rightarrow> v)) fs"
| "store_answer st (ReadAllOp key) ps \<longleftrightarrow> all_of (st key) ps"
| "store_answer st op ps \<longleftrightarrow> ps = []"

text \<open>The answers to a session: every operation reports success and gives what the store has.\<close>

fun store_session :: "hashes \<Rightarrow> db_op list \<Rightarrow> (int \<times> pairs) list \<Rightarrow> bool" where
  "store_session st [] rs \<longleftrightarrow> rs = []"
| "store_session st (op # ops) rs \<longleftrightarrow> (\<exists>ps rest. rs = (kOK, ps) # rest \<and> store_answer st op ps \<and>
     store_session (store_effect st op) ops rest)"

section \<open>The same on the database\<close>

fun run_op :: "memory \<Rightarrow> printf \<Rightarrow> 'w socket \<Rightarrow> db_op \<Rightarrow> redis_client \<Rightarrow> 'w \<Rightarrow> (int \<times> pairs \<times> redis_client \<times> 'w) io_result" where
  "run_op M pf S (ReadOp key fs) cl w = RedisDB_Read M pf S key (Some fs) cl w"
| "run_op M pf S (ReadAllOp key) cl w = RedisDB_Read M pf S key None cl w"
| "run_op M pf S (UpdateOp key ps) cl w =
     io_bind (RedisDB_Update M pf S key ps cl w) (\<lambda>(status, cl, w). Some (Inr (status, [], cl, w)))"
| "run_op M pf S (DeleteOp key) cl w =
     io_bind (RedisDB_Delete M pf S key cl w) (\<lambda>(status, cl, w). Some (Inr (status, [], cl, w)))"

fun db_session :: "memory \<Rightarrow> printf \<Rightarrow> 'w socket \<Rightarrow> db_op list \<Rightarrow> redis_client \<Rightarrow> 'w
    \<Rightarrow> ((int \<times> pairs) list \<times> redis_client \<times> 'w) io_result" where
  "db_session M pf S [] cl w = Some (Inr ([], cl, w))"
| "db_session M pf S (op # ops) cl w =
     io_bind (run_op M pf S op cl w) (\<lambda>(status, ps, cl, w).
     io_bind (db_session M pf S ops cl w) (\<lambda>(rs, cl, w). Some (Inr ((status, ps) # rs, cl, w))))"

fun op_requests :: "int \<Rightarrow> db_op \<Rightarrow> string list list" where
  "op_requests n (ReadOp key fs) = [''HMGET'' # key # fs]"
| "op_requests n (ReadAllOp key) = [[''HGETALL'', key]]"
| "op_requests n (UpdateOp key ps) = with_wait n (''HMSET'' # key # flat_pairs ps)"
| "op_requests n (DeleteOp key) = with_wait n [''DEL'', key]"

definition session_requests :: "int \<Rightarrow> db_op list \<Rightarrow> string list list" where
  "session_requests n ops = concat (map (op_requests n) ops)"

text \<open>Reads may use any fields, at least one, or all of them, when the key has no zero byte. What is written or
  deleted is passed as a format: no part of it is empty or has a space, a percent sign or a zero byte.\<close>

fun op_ok :: "db_op \<Rightarrow> bool" where
  "op_ok (ReadOp key fs) \<longleftrightarrow> fs \<noteq> [] \<and> length (command_text (''HMGET'' # key # fs)) < 2 ^ 28"
| "op_ok (ReadAllOp key) \<longleftrightarrow> NUL \<notin> set key \<and> length (command_text [''HGETALL'', key]) < 2 ^ 28"
| "op_ok (UpdateOp key ps) \<longleftrightarrow> word_ok key \<and> (\<forall>(f, v) \<in> set ps. word_ok f \<and> word_ok v) \<and>
     length (command_text (''HMSET'' # key # flat_pairs ps)) < 2 ^ 28"
| "op_ok (DeleteOp key) \<longleftrightarrow> word_ok key \<and> length (command_text [''DEL'', key]) < 2 ^ 28"

definition no_zero :: "hashes \<Rightarrow> bool" where
  "no_zero st \<longleftrightarrow> (\<forall>key f v. st key f = Some v \<longrightarrow> NUL \<notin> set f \<and> NUL \<notin> set v)"

lemma effect_with_wait: "foldl redis_effect st (with_wait n r) = redis_effect st r"
  by (simp add: with_wait_def wait_args_def)

lemma foldl_op_requests: "foldl redis_effect st (op_requests n op) = store_effect st op"
  by (cases op) (simp_all add: effect_with_wait set_pairs_flat)

lemma update_hash_Some: "update_hash m ps f = Some v \<Longrightarrow> m f = Some v \<or> (f, v) \<in> set ps"
proof (induction ps arbitrary: m)
  case (Cons p ps)
  obtain a b where p: "p = (a, b)" by (cases p)
  have "update_hash (m(a \<mapsto> b)) ps f = Some v" using Cons.prems by (simp add: update_hash_def p)
  from Cons.IH [OF this] show ?case by (auto simp: p split: if_splits)
qed (simp add: update_hash_def)

lemma no_zero_effect: "no_zero st \<Longrightarrow> op_ok op \<Longrightarrow> no_zero (store_effect st op)"
  by (cases op) (auto simp: no_zero_def word_ok_def dest!: update_hash_Some)

section \<open>Each operation\<close>

lemma args_of_c_str [simp]: "args_of (zip (map c_str args) (map length args)) = args"
  by (induction args) auto

lemma argv_is_c_str: "argv_is (map c_str args) (Some (map length args)) args"
proof -
  have "\<forall>(a, n) \<in> set (zip (map c_str args) (map length args)). n \<le> length a"
    by (induction args) auto
  then show ?thesis by (simp only: argv_is_def option.case length_map args_of_c_str)
qed

text \<open>Waiting for the answer to what was appended.\<close>

lemma redisBlockForReply_next:
  assumes "ample M" "reliable S P" "conn_at M P c w [] t whole (reply_text y)" "answers P whole' args y" "length t < 2 ^ 28"
  shows "\<exists>c' w'. redisBlockForReply M S c w = Some (Inr (Some y, c', w')) \<and> idle M P c' w' whole"
proof -
  have y: "reply_ok 8 y" "length (reply_text y) < 2 ^ 28" using assms(4) by (auto simp: answers_def)
  obtain c2 w2 v2 where g: "redisGetReply M S c w = Some (Inr (True, Some y, c2, w2))" "conn_at M P c2 w2 v2 [] whole []"
    using redisGetReply_next [OF assms(1,2), of c w "[]" t whole y "[]"] assms(3,5) y by auto
  have "v2 = []" using g(2) by (simp add: conn_at_def)
  moreover have "blocking c" using assms(3) by (simp add: conn_at_def ctx_at_def)
  ultimately show ?thesis using g by (simp add: redisBlockForReply_def idle_def)
qed

definition all_pieces :: "string \<Rightarrow> piece list" where
  "all_pieces key = map char_piece ''HGETALL '' @ [Str key]"

lemma all_pieces_format:
  "concat (map piece_format (all_pieces key)) = ''HGETALL %s''" "concat (map piece_args (all_pieces key)) = [VaStr (c_str key)]"
  "format_words [] False (all_pieces key) = [''HGETALL'', key]" "NUL \<notin> set key \<Longrightarrow> \<forall>p \<in> set (all_pieces key). piece_ok p"
  by (simp_all add: all_pieces_def char_piece_def)

lemma redisvCommand_all_next:
  assumes "ample M" "prints_int pf" "reliable S P" "idle M P c w whole" "answers P whole [''HGETALL'', key] y"
    "NUL \<notin> set key" "length (command_text [''HGETALL'', key]) < 2 ^ 28"
  shows "\<exists>c' w'. redisvCommand M pf S ''HGETALL %s'' [VaStr (c_str key)] c w = Some (Inr (Some y, c', w')) \<and>
    idle M P c' w' (whole @ command_text [''HGETALL'', key])"
proof -
  have st: "keeps_answers P" using assms(3) by (simp add: reliable_def)
  let ?t = "command_text [''HGETALL'', key]"
  obtain c1 where c1: "redisvAppendCommand M pf ''HGETALL %s'' [VaStr (c_str key)] c = Inr (True, c1)"
    "conn_at M P c1 w [] ?t (whole @ ?t) (reply_text y)"
    using append_text [OF assms(1,2) st assms(4) [unfolded idle_def], of "all_pieces key" y]
      all_pieces_format(4) [OF assms(6)] assms(5,7) unfolding all_pieces_format(1-3) by auto
  show ?thesis using redisBlockForReply_next [OF assms(1,3) c1(2) assms(5,7)] c1(1)
    by (simp add: redisvCommand_def)
qed

lemma redisCommandArgv_next:
  assumes "ample M" "reliable S P" "idle M P c w whole" "answers P whole args y" "length (command_text args) < 2 ^ 28"
  shows "\<exists>c' w'. redisCommandArgv M S (map c_str args) (Some (map length args)) c w = Some (Inr (Some y, c', w')) \<and>
    idle M P c' w' (whole @ command_text args)"
proof -
  have st: "keeps_answers P" using assms(2) by (simp add: reliable_def)
  let ?t = "command_text args"
  obtain s where s: "redisFormatSdsCommandArgv M (map c_str args) (Some (map length args)) = Inr (Some (s, int (length ?t)))"
    "sds_is s ?t"
    using redisFormatSdsCommandArgv_is [OF assms(1) argv_is_c_str, of args] assms(5) by auto
  have t: "take (length ?t) (sds_buf s) = ?t" "length ?t \<le> length (sds_buf s)"
    using sds_buf_prefix [OF s(2)] by (auto simp: min_def dest: arg_cong [where f = length] split: if_splits)
  obtain c1 where c1: "redisAppendFormattedCommand M (sds_buf s) (length ?t) c = Inr (True, c1)"
    "conn_at M P c1 w [] ?t (whole @ ?t) (reply_text y)"
    using append_command [OF assms(1) st assms(3) [unfolded idle_def] assms(4) _ t] assms(5) by auto
  show ?thesis using redisBlockForReply_next [OF assms(1,2) c1(2) assms(4,5)] s(1) c1(1) assms(5)
    by (simp add: redisCommandArgv_def redisAppendCommandArgv_def size_t_nat)
qed

lemma read_fields_values:
  assumes "\<forall>f \<in> set fs. \<forall>v. m f = Some v \<longrightarrow> NUL \<notin> set v"
  shows "element_fields (Some (es @ map (\<lambda>f. Some (value_reply (m f))) fs)) (length es) fs =
    Inr (map (\<lambda>f. (f, case m f of None \<Rightarrow> [] | Some v \<Rightarrow> v)) fs)"
  using assms
proof (induction fs arbitrary: es)
  case (Cons f fs)
  have "(case reply_str (value_reply (m f)) of None \<Rightarrow> [] | Some s \<Rightarrow> s) = (case m f of None \<Rightarrow> [] | Some v \<Rightarrow> v)"
    using Cons.prems by (auto simp: reply_str_def value_reply_def c_part_def split: option.split)
  then show ?case using Cons.IH [of "es @ [Some (value_reply (m f))]"] Cons.prems by (simp add: element_at_def)
qed simp

lemma string_at_flat:
  assumes "k < length ss" "\<forall>s \<in> set ss. NUL \<notin> set s"
  shows "string_at (Some (map (\<lambda>s. Some (StringReply s)) ss)) k = Inr (ss ! k)"
proof -
  have "NUL \<notin> set (ss ! k)" using assms by (simp add: nth_mem)
  then have "c_part (ss ! k) = ss ! k" unfolding c_part_def by (intro takeWhile_eq_all_conv [THEN iffD2]) auto
  then show ?thesis using assms(1) by (simp add: string_at_def element_at_def reply_str_def)
qed

lemma length_flat_pairs: "length (flat_pairs ps) = 2 * length ps"
  by (induction ps) auto

lemma flat_pairs_append: "flat_pairs (ps @ qs) = flat_pairs ps @ flat_pairs qs"
  by (simp add: flat_pairs_def)

lemma read_pairs_all:
  assumes "\<forall>s \<in> set (flat_pairs (ps @ qs)). NUL \<notin> set s"
  shows "read_pairs (Some (map (\<lambda>s. Some (StringReply s)) (flat_pairs (ps @ qs)))) (length (flat_pairs (ps @ qs))) (length ps) = Inr qs"
  using assms
proof (induction qs arbitrary: ps)
  case Nil
  then show ?case by (simp add: read_pairs.simps length_flat_pairs)
next
  case (Cons q qs)
  obtain a b where q: "q = (a, b)" by (cases q)
  let ?ss = "flat_pairs (ps @ q # qs)"
  have nth: "?ss ! (2 * length ps) = a" "?ss ! (2 * length ps + 1) = b"
    by (simp_all add: flat_pairs_append nth_append length_flat_pairs q)
  have "2 * length ps < length ?ss" "2 * length ps + 1 < length ?ss" by (simp_all add: length_flat_pairs)
  then have at: "string_at (Some (map (\<lambda>s. Some (StringReply s)) ?ss)) (2 * length ps) = Inr a"
    "string_at (Some (map (\<lambda>s. Some (StringReply s)) ?ss)) (2 * length ps + 1) = Inr b"
    using string_at_flat [OF _ Cons.prems] nth by simp_all
  have ih: "read_pairs (Some (map (\<lambda>s. Some (StringReply s)) ?ss)) (length ?ss) (length ps + 1) = Inr qs"
    using Cons.IH [of "ps @ [q]"] Cons.prems by simp
  show ?case unfolding read_pairs.simps [of _ "length ?ss" "length ps"] at
    by (simp only: and_then_simps ih) (simp add: length_flat_pairs q)
qed

lemma all_fields_reply:
  assumes "all_of m ps" "\<forall>f v. m f = Some v \<longrightarrow> NUL \<notin> set f \<and> NUL \<notin> set v"
  shows "all_fields (all_reply ps) = Inr ps"
proof (cases "ps = []")
  case True
  then show ?thesis by (simp add: all_fields_def all_reply_def read_pairs.simps)
next
  case False
  have "m f = Some v" if "(f, v) \<in> set ps" for f v
    using assms(1) that by (auto simp: all_of_def intro: map_of_is_SomeI)
  then have "\<forall>s \<in> set (flat_pairs ps). NUL \<notin> set s" using assms(2) by (fastforce simp: flat_pairs_def)
  then show ?thesis using read_pairs_all [of "[]" ps] False by (simp add: all_fields_def all_reply_def)
qed

lemma update_pairs_eq:
  "\<forall>(f, v) \<in> set ps. CHR '' '' \<notin> set f \<and> CHR '' '' \<notin> set v \<Longrightarrow>
     update_pairs ps cmd = Inr (cmd @ spaced (flat_pairs ps))"
  by (induction ps cmd rule: update_pairs.induct) (auto simp: Let_def)

lemma redis_update_cmd_eq:
  assumes "\<forall>(f, v) \<in> set ps. CHR '' '' \<notin> set f \<and> CHR '' '' \<notin> set v"
  shows "redis_update_cmd key ps = Inr (''HMSET'' @ spaced (key # flat_pairs ps))"
proof -
  have "length (spaced (flat_pairs ps)) = sum_list (map (\<lambda>p. length (fst p) + length (snd p) + 2) ps)"
    by (induction ps) auto
  then show ?thesis using update_pairs_eq [OF assms] by (simp add: redis_update_cmd_def)
qed

lemma flat_pairs_ok: "\<forall>(f, v) \<in> set ps. word_ok f \<and> word_ok v \<Longrightarrow> w \<in> set (flat_pairs ps) \<Longrightarrow> word_ok w"
  by (auto simp: flat_pairs_def)

lemma run_op_runs:
  assumes "ample M" "prints_int pf" "reliable S P" "idle M P (client_context cl) w whole" "client_ok cl"
    "op_ok op" "no_zero st" "serves P whole st (op_requests (client_slaves cl) op)"
  shows "\<exists>ps c' w'. run_op M pf S op cl w = Some (Inr (kOK, ps, cl\<lparr>client_context := c'\<rparr>, w')) \<and> store_answer st op ps \<and>
    idle M P c' w' (whole @ commands_text (op_requests (client_slaves cl) op))"
proof (cases op)
  case (ReadOp key fs)
  let ?args = "''HMGET'' # key # fs"
  let ?y = "ArrayReply (length fs) (Some (map (\<lambda>f. Some (value_reply (st key f))) fs))"
  have "answers P whole ?args ?y" using assms(8) ReadOp by auto
  then obtain c' w' where c: "redisCommandArgv M S (map c_str ?args) (Some (map length ?args)) (client_context cl) w =
      Some (Inr (Some ?y, c', w'))" "idle M P c' w' (whole @ command_text ?args)"
    using redisCommandArgv_next [OF assms(1,3,4), of ?args ?y] assms(6) ReadOp by auto
  have "selected fs ?y = Inr (map (\<lambda>f. (f, case st key f of None \<Rightarrow> [] | Some v \<Rightarrow> v)) fs)"
    using read_fields_values [of fs "st key" "[]"] assms(7) ReadOp by (simp add: selected_def no_zero_def)
  then show ?thesis using c ReadOp by (auto simp: RedisDB_Read_def)
next
  case (ReadAllOp key)
  let ?args = "[''HGETALL'', key]"
  obtain ps where ps: "all_of (st key) ps" "answers P whole ?args (all_reply ps)" using assms(8) ReadAllOp by auto
  then obtain c' w' where c: "redisvCommand M pf S ''HGETALL %s'' [VaStr (c_str key)] (client_context cl) w =
      Some (Inr (Some (all_reply ps), c', w'))" "idle M P c' w' (whole @ command_text ?args)"
    using redisvCommand_all_next [OF assms(1-4), of key "all_reply ps"] assms(6) ReadAllOp by auto
  have "all_fields (all_reply ps) = Inr ps"
    using assms(7) by (intro all_fields_reply [OF ps(1)]) (auto simp: no_zero_def)
  then show ?thesis using c ps(1) ReadAllOp by (auto simp: RedisDB_Read_def)
next
  case (UpdateOp key ps)
  have ok: "\<forall>w \<in> set (''HMSET'' # key # flat_pairs ps). word_ok w"
    using assms(6) UpdateOp flat_pairs_ok [of ps] by (auto simp: word_ok_def)
  have "all_answered P whole (with_wait (client_slaves cl) (''HMSET'' # key # flat_pairs ps))"
    using serves_all_answered [OF assms(8)] UpdateOp by simp
  from RedisClient_Command_sends [OF assms(1-5) ok _ this] show ?thesis
    using redis_update_cmd_eq [of ps key] assms(6) UpdateOp by (fastforce simp: RedisDB_Update_def word_ok_def)
next
  case (DeleteOp key)
  have ok: "\<forall>w \<in> set [''DEL'', key]. word_ok w" using assms(6) DeleteOp by (auto simp: word_ok_def)
  have "all_answered P whole (with_wait (client_slaves cl) [''DEL'', key])"
    using serves_all_answered [OF assms(8)] DeleteOp by simp
  from RedisClient_Command_sends [OF assms(1-5) ok _ this] show ?thesis
    using assms(6) DeleteOp by (auto simp: RedisDB_Delete_def redis_delete_cmd_def)
qed

lemma db_session_runs:
  assumes "ample M" "prints_int pf" "reliable S P"
    and "idle M P (client_context cl) w whole" "client_ok cl" "\<forall>op \<in> set ops. op_ok op" "no_zero st"
      "serves P whole st (session_requests (client_slaves cl) ops)"
  shows "\<exists>rs cl' w'. db_session M pf S ops cl w = Some (Inr (rs, cl', w')) \<and> store_session st ops rs \<and>
    idle M P (client_context cl') w' (whole @ commands_text (session_requests (client_slaves cl) ops))"
  using assms(4-)
proof (induction ops arbitrary: cl w whole st)
  case Nil
  then show ?case by (auto simp: session_requests_def)
next
  case (Cons op ops)
  let ?n = "client_slaves cl"
  have sv: "serves P whole st (op_requests ?n op)"
    "serves P (whole @ commands_text (op_requests ?n op)) (store_effect st op) (session_requests ?n ops)"
    using Cons.prems(5) by (simp_all add: session_requests_def serves_append foldl_op_requests)
  obtain ps c1 w1 where s: "run_op M pf S op cl w = Some (Inr (kOK, ps, cl\<lparr>client_context := c1\<rparr>, w1))"
    "store_answer st op ps" "idle M P c1 w1 (whole @ commands_text (op_requests ?n op))"
    using run_op_runs [OF assms(1-3) Cons.prems(1,2) _ Cons.prems(4) sv(1)] Cons.prems(3) by auto
  have "no_zero (store_effect st op)" using no_zero_effect [OF Cons.prems(4)] Cons.prems(3) by simp
  then show ?case
    using Cons.IH [of "cl\<lparr>client_context := c1\<rparr>" w1 "whole @ commands_text (op_requests ?n op)" "store_effect st op"]
      Cons.prems(2,3) s sv(2) by (fastforce simp: client_ok_def session_requests_def)
qed

end
