(* ===== verification/Redis_Samples.thy ===== *)
theory Redis_Samples
  imports Redis_Store
begin

text \<open>
  A socket with a server that follows a script, for the examples: it answers the requests of the script in
  their order, takes at most seven bytes of a write and delivers at most five at a time.
\<close>

definition sample_memory :: memory where
  "sample_memory = \<lparr>may_alloc = (\<lambda>_. True), garbage = (\<lambda>_ _. CHR ''?'')\<rparr>"

lemma sample_ample: "ample sample_memory"
  by (simp add: ample_def sample_memory_def)

definition sample_printf :: printf where
  "sample_printf f a = (case a of VaInt i \<Rightarrow> show_int i | _ \<Rightarrow> [])"

lemma sample_prints_int: "prints_int sample_printf"
  by (simp add: prints_int_def sample_printf_def)

type_synonym script = "(string list \<times> reply) list"

fun script_answer :: "script \<Rightarrow> string \<Rightarrow> string" where
  "script_answer [] a = []"
| "script_answer ((r, y) # sc) a =
     (if prefix (command_text r) a then reply_text y @ script_answer sc (drop (length (command_text r)) a) else [])"

type_synonym script_world = "string \<times> string"

definition script_socket :: "script \<Rightarrow> script_world socket" where
  "script_socket sc =
     \<lparr>sock_read = (\<lambda>k (s, g). let t = take 5 (drop (length g) (script_answer sc s)) in (ReadBytes t, (s, g @ t))),
      sock_write = (\<lambda>b (s, g). (Wrote (min 7 (length b)), (s @ take 7 b, g))),
      sock_connect = (\<lambda>w. (None, w)), sock_strerror = (\<lambda>_. ''error'')\<rparr>"

definition script_peer :: "script \<Rightarrow> script_world peer" where
  "script_peer sc = \<lparr>sent = fst, got = snd, answer = script_answer sc, patience = (\<lambda>_. 0)\<rparr>"

lemma script_keeps_answers: "prefix (script_answer sc a) (script_answer sc (a @ b))"
proof (induction sc a rule: script_answer.induct)
  case (2 r y sc a)
  show ?case
  proof (cases "prefix (command_text r) a")
    case True
    then have "drop (length (command_text r)) (a @ b) = drop (length (command_text r)) a @ b"
      by (auto simp: prefix_def)
    then show ?thesis using True 2 by simp
  qed simp
qed simp

lemma script_reliable: "reliable (script_socket sc) (script_peer sc)"
proof -
  have "prefix g s \<Longrightarrow> g \<noteq> s \<Longrightarrow> take 5 (drop (length g) s) \<noteq> [] \<and> prefix (g @ take 5 (drop (length g) s)) s" for g s :: string
    by (auto simp: prefix_def) (metis append.assoc append_take_drop_id)
  then show ?thesis
    by (auto simp: reliable_def keeps_answers_def write_progress_def read_progress_def script_peer_def script_socket_def
        script_keeps_answers Let_def min_def)
qed

text \<open>A script whose replies are the documented ones serves its requests.\<close>

fun script_ok :: "hashes \<Rightarrow> script \<Rightarrow> bool" where
  "script_ok st [] \<longleftrightarrow> True"
| "script_ok st ((r, y) # sc) \<longleftrightarrow> redis_reply st r y \<and> reply_ok 8 y \<and> length (reply_text y) < 2 ^ 28 \<and>
     script_ok (redis_effect st r) sc"

lemma command_text_ne [simp]: "command_text r \<noteq> []"
  by (simp add: command_text_def)

lemma script_answer_done:
  "script_answer (pre @ sc) (commands_text (map fst pre)) = concat (map (\<lambda>p. reply_text (snd p)) pre)"
proof (induction pre)
  case Nil
  then show ?case by (cases sc) auto
next
  case (Cons p pre)
  then show ?case by (cases p) simp
qed

lemma script_serves:
  "script_ok st sc \<Longrightarrow> serves (script_peer (pre @ sc)) (commands_text (map fst pre)) st (map fst sc)"
proof (induction st sc arbitrary: pre rule: script_ok.induct)
  case (2 st r y sc)
  have "answers (script_peer (pre @ (r, y) # sc)) (commands_text (map fst pre)) r y"
    using script_answer_done [of pre "(r, y) # sc"] script_answer_done [of "pre @ [(r, y)]" sc] 2(2)
    by (simp add: answers_def script_peer_def)
  then show ?case using 2(1) [of "pre @ [(r, y)]"] 2(2) by auto
qed simp

section \<open>A new client\<close>

lemma RedisClient_new_idle:
  assumes "ample M" "RedisClient_new M S n w0 = Inr (cl, w)" "sent P w = []" "got P w = []" "answer P [] = []"
  shows "idle M P (client_context cl) w []" "client_slaves cl = n"
proof -
  obtain b r where br: "sdsempty M = Inr (Some b)" "sds_is b []" "redisReaderCreate M = Inr (Some r)" "reader_is r [] [] None"
    using sdsempty_is [OF assms(1)] redisReaderCreate_is [OF assms(1)] by blast
  have "may_alloc M sizeof_redisContext" using assms(1) by (simp add: ample_def sizeof_redisContext_def)
  then have i: "redisContextInit M = Inr (Some \<lparr>ctx_err = 0, ctx_errstr = [], ctx_flags = 0, ctx_obuf = Some b, ctx_reader = r\<rparr>)"
    using br by (simp add: redisContextInit_def)
  have "in_step M r []" using br(4) by (rule in_step_fresh)
  then have "ctx_at M (client_context cl) [] []"
    using assms(2) i br(2) by (auto simp: RedisClient_new_def redisConnect_def connect_with_def ctx_at_def blocking_def
        redisSetError_def REDIS_BLOCK_def REDIS_CONNECTED_def split: prod.splits option.splits if_splits)
  then show "idle M P (client_context cl) w []" using assms(3-5) by (simp add: idle_def conn_at_def due_def)
  show "client_slaves cl = n" using assms(2)
    by (auto simp: RedisClient_new_def and_then_Inr split: option.splits if_splits)
qed

lemma script_client: "\<exists>cl. RedisClient_new sample_memory (script_socket sc) n ([], []) = Inr (cl, ([], []))"
proof -
  obtain b r where "sdsempty sample_memory = Inr (Some b)" "redisReaderCreate sample_memory = Inr (Some r)"
    using sdsempty_is [OF sample_ample] redisReaderCreate_is [OF sample_ample] by blast
  then show ?thesis
    by (simp add: RedisClient_new_def redisConnect_def redisContextInit_def connect_with_def script_socket_def sample_memory_def)
qed

end
