(* ===== verification/Redis_Pipeline.thy ===== *)
theory Redis_Pipeline
  imports Redis_Samples
begin

text \<open>
  Pipelining: a program appends any number of commands and then asks for as many replies.
\<close>

fun append_all :: "memory \<Rightarrow> string list list \<Rightarrow> redisContext \<Rightarrow> fault + (bool \<times> redisContext)" where
  "append_all M [] c = Inr (True, c)"
| "append_all M (r # rs) c =
     and_then (redisAppendCommandArgv M (map c_str r) (Some (map length r)) c) (\<lambda>(ok, c).
       if ok then append_all M rs c else Inr (False, c))"

fun get_replies :: "memory \<Rightarrow> 'w socket \<Rightarrow> nat \<Rightarrow> redisContext \<Rightarrow> 'w \<Rightarrow> (reply option list \<times> redisContext \<times> 'w) io_result" where
  "get_replies M S 0 c w = Some (Inr ([], c, w))"
| "get_replies M S (Suc n) c w =
     io_bind (redisGetReply M S c w) (\<lambda>(ok, y, c, w).
     io_bind (get_replies M S n c w) (\<lambda>(ys, c, w). Some (Inr ((if ok then y else None) # ys, c, w))))"

text \<open>The server answers the commands with these replies.\<close>

fun answers_all :: "'w peer \<Rightarrow> string \<Rightarrow> (string list \<times> reply) list \<Rightarrow> bool" where
  "answers_all P whole [] \<longleftrightarrow> True"
| "answers_all P whole ((r, y) # rs) \<longleftrightarrow> answers P whole r y \<and> answers_all P (whole @ command_text r) rs"

definition replies_text :: "reply list \<Rightarrow> string" where
  "replies_text ys = concat (map reply_text ys)"

lemma replies_text_simps [simp]: "replies_text [] = []" "replies_text (y # ys) = reply_text y @ replies_text ys"
  by (simp_all add: replies_text_def)

lemma answers_all_ok: "answers_all P whole rs \<Longrightarrow> y \<in> set (map snd rs) \<Longrightarrow> reply_ok 8 y"
  by (induction P whole rs rule: answers_all.induct) (auto simp: answers_def)

lemma append_argv:
  assumes "ample M" "keeps_answers P" "conn_at M P c w v obuf whole later" "answers P whole args y"
    "length obuf + length (command_text args) < 2 ^ 30 - 1"
  shows "\<exists>c'. redisAppendCommandArgv M (map c_str args) (Some (map length args)) c = Inr (True, c') \<and>
    conn_at M P c' w v (obuf @ command_text args) (whole @ command_text args) (later @ reply_text y)"
proof -
  let ?t = "command_text args"
  obtain s where s: "redisFormatSdsCommandArgv M (map c_str args) (Some (map length args)) = Inr (Some (s, int (length ?t)))"
    "sds_is s ?t"
    using redisFormatSdsCommandArgv_is [OF assms(1) argv_is_c_str, of args] assms(5) by auto
  have t: "take (length ?t) (sds_buf s) = ?t" "length ?t \<le> length (sds_buf s)"
    using sds_buf_prefix [OF s(2)] by (auto simp: min_def dest: arg_cong [where f = length] split: if_splits)
  show ?thesis using append_command [OF assms(1-4) _ t] s(1) assms(5)
    by (simp add: redisAppendCommandArgv_def size_t_nat)
qed

lemma append_all_runs:
  assumes "ample M" "keeps_answers P"
    and "conn_at M P c w v obuf whole later" "answers_all P whole rs"
      "length obuf + length (commands_text (map fst rs)) < 2 ^ 30 - 1"
  shows "\<exists>c'. append_all M (map fst rs) c = Inr (True, c') \<and>
    conn_at M P c' w v (obuf @ commands_text (map fst rs)) (whole @ commands_text (map fst rs)) (later @ replies_text (map snd rs))"
  using assms(3-)
proof (induction rs arbitrary: c obuf whole later)
  case (Cons p rs)
  obtain r y where p: "p = (r, y)" by (cases p)
  obtain c1 where c1: "redisAppendCommandArgv M (map c_str r) (Some (map length r)) c = Inr (True, c1)"
    "conn_at M P c1 w v (obuf @ command_text r) (whole @ command_text r) (later @ reply_text y)"
    using append_argv [OF assms(1,2) Cons.prems(1), of r y] Cons.prems(2,3) p by auto
  from Cons.IH [OF c1(2)] show ?case using Cons.prems(2,3) c1(1) p by auto
qed auto

lemma get_replies_runs:
  assumes "ample M" "reliable S P"
    and "conn_at M P c w v obuf whole (replies_text ys)" "\<forall>y \<in> set ys. reply_ok 8 y"
      "length (replies_text ys) < 2 ^ 30 - 1024" "length obuf < 2 ^ 30"
  shows "\<exists>c' w' v' obuf'. get_replies M S (length ys) c w = Some (Inr (map Some ys, c', w')) \<and>
    conn_at M P c' w' v' obuf' whole [] \<and> (obuf' = [] \<or> obuf' = obuf \<and> (v \<noteq> [] \<or> ys = []))"
  using assms(3-)
proof (induction ys arbitrary: c w v obuf)
  case (Cons y ys)
  obtain c1 w1 v1 obuf1 where g: "redisGetReply M S c w = Some (Inr (True, Some y, c1, w1))"
    "conn_at M P c1 w1 v1 obuf1 whole (replies_text ys)" "obuf1 = [] \<or> obuf1 = obuf \<and> v \<noteq> []"
    using redisGetReply_next [OF assms(1,2), of c w v obuf whole y "replies_text ys"] Cons.prems by auto
  have "length obuf1 < 2 ^ 30" using g(3) Cons.prems(4) by auto
  then obtain c2 w2 v2 obuf2 where h: "get_replies M S (length ys) c1 w1 = Some (Inr (map Some ys, c2, w2))"
    "conn_at M P c2 w2 v2 obuf2 whole []" "obuf2 = [] \<or> obuf2 = obuf1"
    using Cons.IH [OF g(2)] Cons.prems(2,3) by auto
  show ?case using g(1,3) h by (intro exI [of _ c2] exI [of _ w2] exI [of _ v2] exI [of _ obuf2]) auto
qed auto

text \<open>The flush: a client that had read everything sends all it appended before the first reply.\<close>

lemma pipeline_runs:
  assumes "ample M" "reliable S P" "idle M P c w whole" "answers_all P whole rs" "rs \<noteq> []"
    "length (commands_text (map fst rs)) < 2 ^ 30 - 1" "length (replies_text (map snd rs)) < 2 ^ 30 - 1024"
  shows "\<exists>c' c'' w'. append_all M (map fst rs) c = Inr (True, c') \<and>
    get_replies M S (length rs) c' w = Some (Inr (map (Some \<circ> snd) rs, c'', w')) \<and>
    idle M P c'' w' (whole @ commands_text (map fst rs))"
proof -
  have st: "keeps_answers P" using assms(2) by (simp add: reliable_def)
  obtain c' where c': "append_all M (map fst rs) c = Inr (True, c')"
    "conn_at M P c' w [] (commands_text (map fst rs)) (whole @ commands_text (map fst rs)) (replies_text (map snd rs))"
    using append_all_runs [OF assms(1) st assms(3) [unfolded idle_def] assms(4)] assms(6) by auto
  have ok: "\<forall>y \<in> set (map snd rs). reply_ok 8 y" using answers_all_ok [OF assms(4)] by blast
  obtain c'' w' v' obuf' where g: "get_replies M S (length rs) c' w = Some (Inr (map (Some \<circ> snd) rs, c'', w'))"
    "conn_at M P c'' w' v' obuf' (whole @ commands_text (map fst rs)) []"
    "obuf' = []"
    using get_replies_runs [OF assms(1,2) c'(2) ok assms(7)] assms(5,6) by auto
  have "v' = []" using g(2) by (simp add: conn_at_def)
  then show ?thesis using c'(1) g by (auto simp: idle_def)
qed

lemma script_answers_all:
  "script_ok st sc \<Longrightarrow> answers_all (script_peer (pre @ sc)) (commands_text (map fst pre)) sc"
proof (induction st sc arbitrary: pre rule: script_ok.induct)
  case (2 st r y sc)
  have "answers (script_peer (pre @ (r, y) # sc)) (commands_text (map fst pre)) r y"
    using script_answer_done [of pre "(r, y) # sc"] script_answer_done [of "pre @ [(r, y)]" sc] 2(2)
    by (simp add: answers_def script_peer_def)
  then show ?case using 2(1) [of "pre @ [(r, y)]"] 2(2) by simp
qed simp

end
