(* ===== verification/Redis_Failures.thy ===== *)
theory Redis_Failures
  imports Redis_Samples
begin

text \<open>
  What the client does when something is wrong: a command whose text is not a good format, and an array
  of replies with more elements than an \<open>int\<close> counts.
\<close>

section \<open>Percent signs\<close>

lemma format_loop_percent:
  assumes "n \<noteq> CHR ''%''"
  shows "format_loop M pf (CHR ''%'' # n # rest) [] s touched argv t \<in> {Inl OutOfBounds, Inr (Inl (- 2))}"
  using assms by (auto simp: format_loop.simps head_def Let_def split: option.splits)

lemma redisvFormatCommand_percent:
  assumes "ample M" "prints_int pf" "CHR ''%'' \<notin> set t" "NUL \<notin> set t" "n \<noteq> CHR ''%''"
    "length (command_text (format_words [] False (map char_piece t))) < 2 ^ 28"
  shows "redisvFormatCommand M pf (t @ CHR ''%'' # n # rest) [] \<in> {Inl OutOfBounds, Inr (Inl (- 2))}"
proof -
  obtain s0 where s0: "sdsempty M = Inr (Some s0)" "sds_is s0 []" using sdsempty_is [OF assms(1)] by blast
  have b: "bulk_sum ([] @ format_words [] False (map char_piece t)) < 2 ^ 28"
    using assms(6) by (simp add: length_command_text bulk_sum_def)
  have ok: "\<forall>p \<in> set (map char_piece t). piece_ok p" by (intro ballI, rule char_pieces(3) [OF assms(3,4)])
  obtain s' touched' argv' ws' where "format_loop M pf (t @ CHR ''%'' # n # rest) [] s0 False [] 0 =
      format_loop M pf (CHR ''%'' # n # rest) [] s' touched' argv' (int (bulk_sum ws'))"
    using format_loop_pieces [OF assms(1,2) ok s0(2) _ _ b, of "[]" "CHR ''%'' # n # rest" "[]"]
    unfolding char_pieces(1,2) by auto
  then have "format_loop M pf (t @ CHR ''%'' # n # rest) [] s0 False [] 0 \<in> {Inl OutOfBounds, Inr (Inl (- 2))}"
    using format_loop_percent [OF assms(5)] by simp
  then show ?thesis using s0(1) by (auto simp: redisvFormatCommand_def new_arg_def)
qed

section \<open>A context with an error\<close>

lemma in_step_nothing:
  assumes "in_step M r []"
  shows "\<exists>r'. redisReaderGetReply M r = Inr (True, None, r')"
proof -
  have "parse_loop M [] [root_task] None = Inr (Wait [] [root_task] None)"
    by (simp add: parse_loop.simps parse_item_def root_task_def)
  then show ?thesis using in_step_wait [OF assms] by force
qed

text \<open>The first reply of a client that is idle but for an error is an error; \<open>HandleError\<close> then looks at a
  variable without a value.\<close>

lemma take_reply_error:
  assumes "in_step M (ctx_reader c) []" "blocking c" "ctx_err c \<noteq> 0"
  shows "take_reply M S Unset c w = Some (Inl Uninitialised)"
proof -
  obtain r' where "redisReaderGetReply M (ctx_reader c) = Inr (True, None, r')" using in_step_nothing [OF assms(1)] by blast
  then show ?thesis using assms(2,3)
    by (simp add: take_reply_def redisGetReply_def redisGetReplyFromReader_def write_loop.simps redisBufferWrite_def HandleError_def)
qed

lemma append_wait:
  assumes "ample M" "prints_int pf" "ctx_obuf c = Some s" "sds_is s []" "- (2 ^ 31) \<le> n" "n < 2 ^ 31"
  shows "\<exists>s'. redisvAppendCommand M pf ''WAIT %d %d'' [VaInt n, VaInt 0] c = Inr (True, c\<lparr>ctx_obuf := Some s'\<rparr>)"
proof -
  let ?u = "command_text (wait_args n)"
  have l: "length ?u < 2 ^ 28" by (rule wait_text_length [OF assms(5,6)])
  have "redisvFormatCommand M pf ''WAIT %d %d'' [VaInt n, VaInt 0] = Inr (Inr (?u, int (length ?u)))"
    using redisvFormatCommand_words [OF assms(1,2) wait_pieces_format(4) [OF assms(5,6)]] l
    unfolding wait_pieces_format(1-3) by simp
  moreover obtain s' where "sdscatlen M s ?u (length ?u) = Inr (Some s')"
    using sdscatlen_is [OF assms(1,4), of "length ?u" ?u] l by auto
  ultimately show ?thesis using assms(3) l
    by (intro exI [of _ s']) (simp add: redisvAppendCommand_def redisAppendFormattedCommand_def size_t_nat)
qed

lemma Command_error:
  assumes "ample M" "prints_int pf" "idle M P (client_context cl) w whole" "client_ok cl"
    and "redisvFormatCommand M pf (c_part cmd) [] = Inr (Inl e)"
  shows "RedisClient_Command M pf S cl cmd w = Some (Inl Uninitialised)"
proof -
  have at: "in_step M (ctx_reader (client_context cl)) []" "blocking (client_context cl)"
    using assms(3) by (auto simp: idle_def conn_at_def ctx_at_def)
  obtain s where s: "ctx_obuf (client_context cl) = Some s" "sds_is s []"
    using assms(3) by (auto simp: idle_def conn_at_def ctx_at_def)
  obtain c where c: "redisvAppendCommand M pf (c_part cmd) [] (client_context cl) = Inr (False, c)"
    "ctx_err c \<noteq> 0" "ctx_reader c = ctx_reader (client_context cl)" "blocking c" "ctx_obuf c = Some s"
    using assms(5) at(2) s(1)
    by (cases "e = - 1") (auto simp: redisvAppendCommand_def redisSetError_def blocking_def REDIS_ERR_OOM_def REDIS_ERR_OTHER_def)
  show ?thesis
  proof (cases "client_slaves cl = 0")
    case True
    then show ?thesis using c(1) take_reply_error [of M c S w] c(2-4) at(1) by (simp add: RedisClient_Command_def)
  next
    case False
    obtain s' where w: "redisvAppendCommand M pf ''WAIT %d %d'' [VaInt (client_slaves cl), VaInt 0] c =
        Inr (True, c\<lparr>ctx_obuf := Some s'\<rparr>)"
      using append_wait [OF assms(1,2) c(5) s(2)] assms(4) by (auto simp: client_ok_def)
    show ?thesis using False c(1) w take_reply_error [of M "c\<lparr>ctx_obuf := Some s'\<rparr>" S] c(2-4) at(1)
      by (simp add: RedisClient_Command_def)
  qed
qed

section \<open>Counts of elements\<close>

text \<open>A count that is a multiple of \<open>2 ^ 32\<close> makes an array of no elements, whose vector is a null
  pointer; the first element is written through it.\<close>

lemma parse_count:
  assumes "ample M" "0 < k" "k * 2 ^ 32 < 2 ^ 63"
  shows "parse_loop M (''*'' @ to_string (k * 2 ^ 32) @ CRLF @ '':1'' @ CRLF) [root_task] None = Inl NullPointer"
proof -
  define n where "n = k * 2 ^ 32"
  let ?rest = "'':1'' @ CRLF"
  have len: "readLongLong (to_string n @ CRLF @ ?rest) = Inr (int n)"
    using assms(3) by (intro readLongLong_nat) (simp add: n_def)
  have z: "c_int (int n) = 0"
  proof -
    have "(2 ^ 32 :: 32 word) = 0" by simp
    moreover have "(word_of_int (int n) :: 32 word) = of_nat k * 2 ^ 32"
      unfolding n_def by (simp only: of_int_of_nat_eq of_nat_mult of_nat_power of_nat_numeral of_int_mult of_int_power of_int_numeral)
    ultimately have "(word_of_int (int n) :: 32 word) = 0" by (simp only: mult_zero_right)
    then show ?thesis by (simp add: c_int_def)
  qed
  let ?arr = "\<lparr>task_type = Some REDIS_REPLY_ARRAY, task_elements = 0, task_idx = - 1, task_obj = Some []\<rparr>"
  let ?elem = "\<lparr>task_type = None, task_elements = - 1, task_idx = 0, task_obj = None\<rparr>"
  have n_pos: "0 < n" using assms(2) by (simp add: n_def)
  have drop_CRLF: "drop (length (to_string n) + 2) (to_string n @ CRLF @ ?rest) = ?rest" by (simp add: CRLF_def)
  have m: "may_alloc M sizeof_redisReply" using assms(1) by (simp add: ample_def sizeof_redisReply_def)
  have "parse_item M (''*'' @ to_string n @ CRLF @ ?rest) [root_task] None =
      Inr (Go ?rest [?elem, ?arr] (Some (ArrayReply 0 None)))"
    using assms(2) len z m drop_CRLF newline_in_nat [of n ?rest]
    by (simp add: n_pos parse_item_def parse_typed_def parse_multi_def parse_finish_def type_byte_def typed_def root_task_def
        createArrayObject_def create_def link_reply_def pushed_def size_t_def)
  moreover have "parse_item M ?rest [?elem, ?arr] (Some (ArrayReply 0 None)) = Inl NullPointer"
  proof -
    have "readLongLong (to_string 1 @ CRLF) = Inr 1" using readLongLong_nat [of 1 "[]"] by simp
    moreover have "to_string 1 = ''1''" by code_simp
    ultimately have "readLongLong (''1'' @ CRLF) = Inr 1" by simp
    then show ?thesis using m
      by (simp add: parse_item_def parse_typed_def parse_line_item_def parse_finish_def type_byte_def typed_def
          createIntegerObject_def create_def link_reply_def CRLF_def)
  qed
  ultimately show ?thesis unfolding n_def [symmetric] by (simp add: parse_loop.simps)
qed

end
