(* ===== verification/Redis_Sds_Session.thy ===== *)
theory Redis_Sds_Session
  imports Redis_Sds_Facts
begin

text \<open>
  Sequences of operations on a dynamic string: the header always describes the buffer, and the contents are
  those of the same operations on lists.
\<close>

datatype sds_op = CatText string | CatBytes string nat | CopyText string | FormatText string "fmt_arg list" | PrintText string
  | Grow nat | Room nat | Slice int int | Trim string | Clear | UpdateLen

text \<open>The operations of the library, on text as C strings. The ones that return the string itself do not
  fail.\<close>

definition keep :: "fault + sds \<Rightarrow> fault + sds option" where
  "keep r = and_then r (\<lambda>s. Inr (Some s))"

fun sds_step :: "memory \<Rightarrow> sds_op \<Rightarrow> sds \<Rightarrow> fault + sds option" where
  "sds_step M (CatText t) s = sdscat M s (c_str t)"
| "sds_step M (CatBytes t n) s = sdscatlen M s t n"
| "sds_step M (CopyText t) s = sdscpy M s (c_str t)"
| "sds_step M (FormatText f args) s = keep (sdscatfmt M s f args)"
| "sds_step M (PrintText t) s = sdscatvprintf M s t"
| "sds_step M (Grow n) s = sdsgrowzero M s n"
| "sds_step M (Room n) s = sdsMakeRoomFor M s n"
| "sds_step M (Slice a b) s = keep (sdsrange s a b)"
| "sds_step M (Trim cset) s = keep (sdstrim s cset)"
| "sds_step M Clear s = keep (sdsclear s)"
| "sds_step M UpdateLen s = keep (sdsupdatelen s)"

fun sds_run :: "memory \<Rightarrow> sds_op list \<Rightarrow> sds \<Rightarrow> fault + sds option" where
  "sds_run M [] s = Inr (Some s)"
| "sds_run M (op # ops) s = opt_then (sds_step M op s) (sds_run M ops)"

text \<open>The same on lists.\<close>

fun text_step :: "sds_op \<Rightarrow> string \<Rightarrow> string" where
  "text_step (CatText t) v = v @ t"
| "text_step (CatBytes t n) v = v @ take n t"
| "text_step (CopyText t) v = t"
| "text_step (FormatText f args) v = v @ fmt_text f args"
| "text_step (PrintText t) v = v @ t"
| "text_step (Grow n) v = v @ replicate (n - length v) NUL"
| "text_step (Room n) v = v"
| "text_step (Slice a b) v = slice v a b"
| "text_step (Trim cset) v = trim_set cset v"
| "text_step Clear v = []"
| "text_step UpdateLen v = takeWhile (\<lambda>c. c \<noteq> NUL) v"

definition text_run :: "sds_op list \<Rightarrow> string \<Rightarrow> string" where
  "text_run ops v = foldl (\<lambda>v op. text_step op v) v ops"

fun fits :: "sds_op \<Rightarrow> string \<Rightarrow> bool" where
  "fits (CatText t) v \<longleftrightarrow> NUL \<notin> set t"
| "fits (CatBytes t n) v \<longleftrightarrow> n \<le> length t"
| "fits (CopyText t) v \<longleftrightarrow> NUL \<notin> set t"
| "fits (FormatText f args) v \<longleftrightarrow> fmt_simple f args"
| "fits (PrintText t) v \<longleftrightarrow> NUL \<notin> set t"
| "fits (Grow n) v \<longleftrightarrow> True"
| "fits (Room n) v \<longleftrightarrow> length v + n < 2 ^ 30"
| "fits (Slice a b) v \<longleftrightarrow> - (2 ^ 31) \<le> a \<and> a < 2 ^ 31 \<and> - (2 ^ 31) \<le> b \<and> b < 2 ^ 31"
| "fits _ v \<longleftrightarrow> True"

text \<open>All lengths stay below \<open>2 ^ 30 - 1\<close>, so that the sizes stay within \<open>int\<close>.\<close>

fun run_fits :: "sds_op list \<Rightarrow> string \<Rightarrow> bool" where
  "run_fits [] v \<longleftrightarrow> True"
| "run_fits (op # ops) v \<longleftrightarrow> fits op v \<and> length (text_step op v) < 2 ^ 30 - 1 \<and> run_fits ops (text_step op v)"

lemma sdscpy_is:
  assumes "ample M" "sds_is s v" "NUL \<notin> set t" "length t < 2 ^ 30" "length v < 2 ^ 30"
  shows "\<exists>s'. sdscpy M s (c_str t) = Inr (Some s') \<and> sds_is s' t"
  using sdscpylen_is [OF assms(1,2), of "length t" "c_str t"] assms(3-5) by (simp add: sdscpy_def)

lemma sds_step_is:
  assumes "ample M" "sds_is s v" "fits op v" "length v < 2 ^ 30 - 1" "length (text_step op v) < 2 ^ 30 - 1"
  shows "\<exists>s'. sds_step M op s = Inr (Some s') \<and> sds_is s' (text_step op v)"
proof (cases op)
  case (CatText t)
  then show ?thesis using sdscat_is [OF assms(1,2), of t] assms(3,5) by simp
next
  case (CatBytes t n)
  then show ?thesis using sdscatlen_is [OF assms(1,2), of n t] assms(3,5) by simp
next
  case (CopyText t)
  then show ?thesis using sdscpy_is [OF assms(1,2), of t] assms(3-5) by simp
next
  case (FormatText f args)
  then show ?thesis using sdscatfmt_is [OF assms(1,2), of f args] assms(3,5) by (auto simp: keep_def)
next
  case (PrintText t)
  then show ?thesis using sdscatvprintf_is [OF assms(1,2), of t] assms(3,5) by simp
next
  case (Grow n)
  then show ?thesis using sdsgrowzero_is [OF assms(1,2), of n] assms(4,5) by simp
next
  case (Room n)
  then show ?thesis using sdsMakeRoomFor_is [OF assms(1,2), of n] assms(3) by auto
next
  case (Slice a b)
  then show ?thesis using sdsrange_is [OF assms(2), of a b] assms(3) by (auto simp: keep_def)
next
  case (Trim cset)
  then show ?thesis using sdstrim_is [OF assms(2), of cset] by (auto simp: keep_def)
next
  case Clear
  then show ?thesis using sdsclear_is [OF assms(2)] by (auto simp: keep_def)
next
  case UpdateLen
  then show ?thesis using sdsupdatelen_is [OF assms(2)] by (auto simp: keep_def)
qed

lemma sds_run_is:
  "ample M \<Longrightarrow> sds_is s v \<Longrightarrow> run_fits ops v \<Longrightarrow> length v < 2 ^ 30 - 1 \<Longrightarrow>
   \<exists>s'. sds_run M ops s = Inr (Some s') \<and> sds_is s' (text_run ops v)"
proof (induction ops arbitrary: s v)
  case (Cons op ops)
  obtain s1 where s1: "sds_step M op s = Inr (Some s1)" "sds_is s1 (text_step op v)"
    using sds_step_is [OF Cons.prems(1,2), of op] Cons.prems(3,4) by auto
  show ?case using Cons.IH [OF Cons.prems(1) s1(2)] Cons.prems(3) s1(1) by (simp add: text_run_def)
qed (simp add: text_run_def)

end
