(* ===== verification/Redis_Sds_Text.thy ===== *)
theory Redis_Sds_Text
  imports Redis_Format Redis_Reader
begin

text \<open>
  The rest of \<open>YCSB-C/redis/hiredis/sds.c\<close>: comparing, changing characters, splitting and joining, and the quoted
  representation that \<open>sdscatrepr\<close> writes and \<open>sdssplitargs\<close> reads.
\<close>

section \<open>Characters\<close>

definition isspace :: "char \<Rightarrow> bool" where
  "isspace c \<longleftrightarrow> c \<in> {CHR '' '', CHR 0x09, CHR 0x0A, CHR 0x0B, CHR 0x0C, CHR 0x0D}"

definition c_tolower :: "char \<Rightarrow> char" where
  "c_tolower c = (if 65 \<le> (of_char c :: nat) \<and> (of_char c :: nat) \<le> 90 then char_of ((of_char c :: nat) + 32) else c)"

definition c_toupper :: "char \<Rightarrow> char" where
  "c_toupper c = (if 97 \<le> (of_char c :: nat) \<and> (of_char c :: nat) \<le> 122 then char_of ((of_char c :: nat) - 32) else c)"

text \<open>A loop over the characters of the string, which stay in place.\<close>

definition map_text :: "(char \<Rightarrow> char) \<Rightarrow> sds \<Rightarrow> fault + sds" where
  "map_text f s =
     and_then (mem_read (sds_buf s) 0 (sdslen s)) (\<lambda>cs.
     and_then (mem_write (sds_buf s) 0 (map f cs)) (\<lambda>b. Inr (s\<lparr>sds_buf := b\<rparr>)))"

definition sdstolower :: "sds \<Rightarrow> fault + sds" where
  "sdstolower s = map_text c_tolower s"

definition sdstoupper :: "sds \<Rightarrow> fault + sds" where
  "sdstoupper s = map_text c_toupper s"

text \<open>\<open>memcmp\<close>, of which only the sign is documented.\<close>

fun memcmp :: "string \<Rightarrow> string \<Rightarrow> int" where
  "memcmp (a # as) (b # bs) =
     (if (of_char a :: nat) < of_char b then - 1 else if (of_char b :: nat) < of_char a then 1 else memcmp as bs)"
| "memcmp _ _ = 0"

definition sdscmp :: "sds \<Rightarrow> sds \<Rightarrow> fault + int" where
  "sdscmp s1 s2 =
     (let l1 = sdslen s1; l2 = sdslen s2; minlen = min l1 l2
      in and_then (mem_read (sds_buf s1) 0 minlen) (\<lambda>a.
         and_then (mem_read (sds_buf s2) 0 minlen) (\<lambda>b.
           let cmp = memcmp a b
           in Inr (if cmp = 0 then c_int (int l1 - int l2) else cmp))))"

text \<open>The first place of a character in the set decides what replaces it.\<close>

fun map_char :: "string \<Rightarrow> string \<Rightarrow> char \<Rightarrow> char" where
  "map_char (a # as) (b # bs) c = (if c = a then b else map_char as bs c)"
| "map_char _ _ c = c"

definition sdsmapchars :: "sds \<Rightarrow> string \<Rightarrow> string \<Rightarrow> nat \<Rightarrow> fault + sds" where
  "sdsmapchars s from to setlen =
     and_then (mem_read from 0 setlen) (\<lambda>from.
     and_then (mem_read to 0 setlen) (\<lambda>to.
       map_text (map_char from to) s))"

section \<open>Splitting and joining\<close>

text \<open>The loop of \<open>sdssplitlen\<close>: the tokens, the slots of their array, the start of the token and the position.
  \<open>None\<close> is the jump to \<open>cleanup\<close>.\<close>

definition separator_at :: "string \<Rightarrow> nat \<Rightarrow> string \<Rightarrow> nat \<Rightarrow> fault + bool" where
  "separator_at s j sep seplen =
     and_then (mem_read s j seplen) (\<lambda>a. and_then (mem_read sep 0 seplen) (\<lambda>b. Inr (a = b)))"

definition token_from :: "memory \<Rightarrow> string \<Rightarrow> nat \<Rightarrow> nat \<Rightarrow> fault + sds option" where
  "token_from M s i n = (if i \<le> length s then sdsnewlen M (Some (drop i s)) n else Inl OutOfBounds)"

function split_loop :: "memory \<Rightarrow> string \<Rightarrow> nat \<Rightarrow> string \<Rightarrow> nat \<Rightarrow> sds list \<Rightarrow> nat \<Rightarrow> nat \<Rightarrow> nat \<Rightarrow> fault + (sds list \<times> nat) option" where
  "split_loop M s len sep seplen tokens slots start j =
     (if j + seplen \<le> len \<and> 0 < seplen then
        let grow = slots < length tokens + 2; slots = (if grow then slots * 2 else slots)
        in if grow \<and> \<not> may_alloc M (8 * slots) then Inr None
           else and_then (separator_at s j sep seplen) (\<lambda>sp.
             if sp then
               opt_then (token_from M s start (j - start)) (\<lambda>t.
                 split_loop M s len sep seplen (tokens @ [t]) slots (j + seplen) (j + seplen))
             else split_loop M s len sep seplen tokens slots start (j + 1))
      else Inr (Some (tokens, start)))"
  by pat_completeness auto
termination
  by (relation "measure (\<lambda>(M, s, len, sep, seplen, tokens, slots, start, j). len + 1 - j)") auto

declare split_loop.simps [simp del]

definition sdssplitlen :: "memory \<Rightarrow> string \<Rightarrow> int \<Rightarrow> string \<Rightarrow> int \<Rightarrow> fault + sds list option" where
  "sdssplitlen M s len sep seplen =
     (if seplen < 1 \<or> len < 0 then Inr None
      else if \<not> may_alloc M (8 * 5) then Inr None
      else if len = 0 then Inr (Some [])
      else opt_then (split_loop M s (nat len) sep (nat seplen) [] 5 0 0) (\<lambda>(tokens, start).
        opt_then (token_from M s start (nat len - start)) (\<lambda>t. Inr (Some (tokens @ [t])))))"

text \<open>The result of a call is used unchecked by the next one, the last one is returned.\<close>

fun join_loop :: "memory \<Rightarrow> (sds \<Rightarrow> 'a \<Rightarrow> fault + sds option) \<Rightarrow> 'a list \<Rightarrow> string \<Rightarrow> nat \<Rightarrow> sds option \<Rightarrow> fault + sds option" where
  "join_loop M cat [] sep seplen s = Inr s"
| "join_loop M cat [a] sep seplen s = and_then (checked (Inr s)) (\<lambda>s. cat s a)"
| "join_loop M cat (a # b # as) sep seplen s =
     and_then (checked (Inr s)) (\<lambda>s.
     and_then (checked (cat s a)) (\<lambda>s.
     and_then (sdscatlen M s sep seplen) (\<lambda>s.
       join_loop M cat (b # as) sep seplen s)))"

definition sdsjoin :: "memory \<Rightarrow> string list \<Rightarrow> string \<Rightarrow> nat \<Rightarrow> fault + sds option" where
  "sdsjoin M argv sep seplen = and_then (sdsempty M) (join_loop M (sdscat M) argv sep seplen)"

definition sdsjoinsds :: "memory \<Rightarrow> sds list \<Rightarrow> string \<Rightarrow> nat \<Rightarrow> fault + sds option" where
  "sdsjoinsds M argv sep seplen = and_then (sdsempty M) (join_loop M (sdscatsds M) argv sep seplen)"

section \<open>The quoted representation\<close>

definition QUOTE :: char where "QUOTE = CHR 0x22"
definition APOSTROPHE :: char where "APOSTROPHE = CHR 0x27"
definition BACKSLASH :: char where "BACKSLASH = CHR 0x5C"

definition cat_repr_char :: "memory \<Rightarrow> sds \<Rightarrow> char \<Rightarrow> fault + sds option" where
  "cat_repr_char M s c =
     (if c = BACKSLASH \<or> c = QUOTE then sdscatvprintf M s [BACKSLASH, c]
      else if c = CHR 0x0A then sdscatlen M s [BACKSLASH, CHR ''n''] 2
      else if c = CHR 0x0D then sdscatlen M s [BACKSLASH, CHR ''r''] 2
      else if c = CHR 0x09 then sdscatlen M s [BACKSLASH, CHR ''t''] 2
      else if c = CHR 0x07 then sdscatlen M s [BACKSLASH, CHR ''a''] 2
      else if c = CHR 0x08 then sdscatlen M s [BACKSLASH, CHR ''b''] 2
      else if isprint c then sdscatvprintf M s [c]
      else sdscatvprintf M s [BACKSLASH, CHR ''x'', hex_char (of_char c div 16), hex_char (of_char c mod 16)])"

fun cat_repr :: "memory \<Rightarrow> sds \<Rightarrow> string \<Rightarrow> fault + sds" where
  "cat_repr M s [] = Inr s"
| "cat_repr M s (c # cs) = and_then (checked (cat_repr_char M s c)) (\<lambda>s. cat_repr M s cs)"

definition sdscatrepr :: "memory \<Rightarrow> sds \<Rightarrow> string \<Rightarrow> nat \<Rightarrow> fault + sds option" where
  "sdscatrepr M s p len =
     and_then (checked (sdscatlen M s [QUOTE] 1)) (\<lambda>s.
     and_then (mem_read p 0 len) (\<lambda>cs.
     and_then (cat_repr M s cs) (\<lambda>s. sdscatlen M s [QUOTE] 1)))"

definition char_nat :: "char \<Rightarrow> nat" where
  "char_nat c = of_char c"

definition is_hex_digit :: "char \<Rightarrow> bool" where
  "is_hex_digit c \<longleftrightarrow> (let n = char_nat c in (48 \<le> n \<and> n \<le> 57) \<or> (97 \<le> n \<and> n \<le> 102) \<or> (65 \<le> n \<and> n \<le> 70))"

definition hex_digit_to_int :: "char \<Rightarrow> nat" where
  "hex_digit_to_int c =
     (let n = char_nat c
      in if 48 \<le> n \<and> n \<le> 57 then n - 48
         else if 97 \<le> n \<and> n \<le> 102 then n - 87
         else if 65 \<le> n \<and> n \<le> 70 then n - 55 else 0)"

definition unescape :: "char \<Rightarrow> char" where
  "unescape c =
     (if c = CHR ''n'' then CHR 0x0A else if c = CHR ''r'' then CHR 0x0D else if c = CHR ''t'' then CHR 0x09
      else if c = CHR ''b'' then CHR 0x08 else if c = CHR ''a'' then CHR 0x07 else c)"

text \<open>The loop over one token, on the rest of the line without its terminating zero: whether it is within
  quotes or apostrophes, and the token so far. \<open>None\<close> is the jump to \<open>err\<close>.\<close>

datatype quoting = Unquoted | Quoted | Single

definition cat_char :: "memory \<Rightarrow> sds \<Rightarrow> char \<Rightarrow> fault + sds" where
  "cat_char M s c = checked (sdscatlen M s [c] 1)"

definition closes :: "string \<Rightarrow> bool" where
  "closes r \<longleftrightarrow> r = [] \<or> isspace (hd r)"

function token :: "memory \<Rightarrow> quoting \<Rightarrow> string \<Rightarrow> sds \<Rightarrow> fault + (sds \<times> string) option" where
  "token M Quoted [] s = Inr None"
| "token M Quoted (c # r) s =
     (if c = BACKSLASH \<and> 3 \<le> length r \<and> r ! 0 = CHR ''x'' \<and> is_hex_digit (r ! 1) \<and> is_hex_digit (r ! 2) then
        and_then (cat_char M s (char_of (hex_digit_to_int (r ! 1) * 16 + hex_digit_to_int (r ! 2)))) (token M Quoted (drop 3 r))
      else if c = BACKSLASH \<and> r \<noteq> [] then and_then (cat_char M s (unescape (hd r))) (token M Quoted (tl r))
      else if c = QUOTE then (if closes r then Inr (Some (s, r)) else Inr None)
      else and_then (cat_char M s c) (token M Quoted r))"
| "token M Single [] s = Inr None"
| "token M Single (c # r) s =
     (if c = BACKSLASH \<and> r \<noteq> [] \<and> hd r = APOSTROPHE then and_then (cat_char M s APOSTROPHE) (token M Single (tl r))
      else if c = APOSTROPHE then (if closes r then Inr (Some (s, r)) else Inr None)
      else and_then (cat_char M s c) (token M Single r))"
| "token M Unquoted [] s = Inr (Some (s, []))"
| "token M Unquoted (c # r) s =
     (if c \<in> {CHR '' '', CHR 0x0A, CHR 0x0D, CHR 0x09} then Inr (Some (s, r))
      else if c = QUOTE then token M Quoted r s
      else if c = APOSTROPHE then token M Single r s
      else and_then (cat_char M s c) (token M Unquoted r))"
  by pat_completeness auto
termination
  by (relation "measure (\<lambda>(M, q, p, s). length p)") auto

declare token.simps [simp del]

lemma token_shorter: "token M q p s = Inr (Some (t, r)) \<Longrightarrow> length r \<le> length p \<and> (p \<noteq> [] \<longrightarrow> length r < length p)"
proof (induction M q p s rule: token.induct)
  case (2 M c r s)
  then show ?case
    by (fastforce simp: token.simps(2) and_then_Inr split: if_splits)
next
  case (4 M c r s)
  then show ?case
    by (fastforce simp: token.simps(4) and_then_Inr split: if_splits)
next
  case (6 M c r s)
  then show ?case
    by (fastforce simp: token.simps(6) and_then_Inr split: if_splits)
qed (auto simp: token.simps)

text \<open>The arguments found so far are the vector; an array that cannot grow is written to nevertheless.\<close>

function split_args :: "memory \<Rightarrow> string \<Rightarrow> sds list \<Rightarrow> fault + sds list option" where
  "split_args M p vec =
     (let p = dropWhile isspace p
      in if p = [] then (if vec = [] \<and> \<not> may_alloc M 8 then Inr None else Inr (Some vec))
         else and_then (checked (sdsempty M)) (\<lambda>current.
           case token M Unquoted p current of
             Inl e \<Rightarrow> Inl e
           | Inr None \<Rightarrow> Inr None
           | Inr (Some (current, r)) \<Rightarrow>
               if \<not> may_alloc M (8 * (length vec + 1)) then Inl NullPointer
               else split_args M r (vec @ [current])))"
  by pat_completeness auto
termination
  by (relation "measure (\<lambda>(M, p, vec). length p)")
    (auto dest!: token_shorter intro: less_le_trans [OF _ length_dropWhile_le])

declare split_args.simps [simp del]

definition sdssplitargs :: "memory \<Rightarrow> string \<Rightarrow> fault + sds list option" where
  "sdssplitargs M line = and_then (c_strlen line) (\<lambda>n. split_args M (take n line) [])"

end
