(* ===== verification/Redis_Sds_Quoting.thy ===== *)
theory Redis_Sds_Quoting
  imports Redis_Sds_Text Redis_Sds_Facts
begin

text \<open>
  Quoting: \<open>sdssplitargs\<close> reads back what \<open>sdscatrepr\<close> writes, for any bytes; and joining: what
  \<open>sdssplitlen\<close> cuts, \<open>sdsjoinsds\<close> puts together again.
\<close>

section \<open>The representation of a character\<close>

definition repr_char :: "char \<Rightarrow> string" where
  "repr_char c =
     (if c = BACKSLASH \<or> c = QUOTE then [BACKSLASH, c]
      else if c = CHR 0x0A then [BACKSLASH, CHR ''n'']
      else if c = CHR 0x0D then [BACKSLASH, CHR ''r'']
      else if c = CHR 0x09 then [BACKSLASH, CHR ''t'']
      else if c = CHR 0x07 then [BACKSLASH, CHR ''a'']
      else if c = CHR 0x08 then [BACKSLASH, CHR ''b'']
      else if isprint c then [c]
      else [BACKSLASH, CHR ''x'', hex_char (of_char c div 16), hex_char (of_char c mod 16)])"

definition repr_text :: "string \<Rightarrow> string" where
  "repr_text v = QUOTE # concat (map repr_char v) @ [QUOTE]"

lemma char_codes: "(of_char QUOTE :: nat) = 34" "(of_char BACKSLASH :: nat) = 92"
  by (simp_all add: QUOTE_def BACKSLASH_def)

lemma char_nat_char_of: "n < 256 \<Longrightarrow> char_nat (char_of n) = n"
  by (simp add: char_nat_def of_char_of)

lemma hex_char_digit:
  assumes "d < 16"
  shows "is_hex_digit (hex_char d)" "hex_digit_to_int (hex_char d) = d" "hex_char d \<noteq> NUL"
proof -
  have n: "char_nat (hex_char d) = (if d < 10 then 48 + d else 87 + d)"
    using assms by (simp add: hex_char_def char_nat_char_of)
  then show "is_hex_digit (hex_char d)" "hex_digit_to_int (hex_char d) = d"
    using assms by (auto simp: is_hex_digit_def hex_digit_to_int_def)
  have "char_nat (hex_char d) \<noteq> 0" using n by simp
  then show "hex_char d \<noteq> NUL" by (auto simp: char_nat_def)
qed

lemma char_code_less: "(of_char (c :: char) :: nat) < 256"
  using of_char_mod_256 [of c, where 'a = nat] by (metis mod_less_divisor zero_less_numeral)

lemma repr_char_no_NUL: "NUL \<notin> set (repr_char c)"
proof -
  have "(of_char c :: nat) div 16 < 16" using char_code_less [of c] by (simp add: less_mult_imp_div_less)
  then have "hex_char (of_char c div 16) \<noteq> NUL" "hex_char (of_char c mod 16) \<noteq> NUL"
    using hex_char_digit(3) [of "of_char c div 16"] hex_char_digit(3) [of "of_char c mod 16"] by simp_all
  moreover have "isprint c \<Longrightarrow> c \<noteq> NUL" by (auto simp: isprint_def)
  ultimately show ?thesis by (auto simp: repr_char_def BACKSLASH_def QUOTE_def)
qed

lemma length_repr_char: "length (repr_char c) \<le> 4" "repr_char c \<noteq> []"
  by (auto simp: repr_char_def)

lemma length_repr_text: "length (repr_text v) \<le> 4 * length v + 2"
  using length_repr_char(1) by (induction v) (auto simp: repr_text_def intro: order_trans [OF add_mono])

lemma cat_repr_char_is:
  assumes "ample M" "sds_is s v" "length v + length (repr_char c) < 2 ^ 30"
  shows "\<exists>s'. cat_repr_char M s c = Inr (Some s') \<and> sds_is s' (v @ repr_char c)"
  using sdscatvprintf_is [OF assms(1,2) repr_char_no_NUL assms(3)] sdscatlen_is [OF assms(1,2), of 2 "repr_char c"] assms(3)
  by (auto simp: cat_repr_char_def repr_char_def split: if_splits)

lemma cat_repr_is:
  "ample M \<Longrightarrow> sds_is s v \<Longrightarrow> length v + length (concat (map repr_char cs)) < 2 ^ 30 \<Longrightarrow>
   \<exists>s'. cat_repr M s cs = Inr s' \<and> sds_is s' (v @ concat (map repr_char cs))"
proof (induction cs arbitrary: s v)
  case (Cons c cs)
  obtain s1 where s1: "cat_repr_char M s c = Inr (Some s1)" "sds_is s1 (v @ repr_char c)"
    using cat_repr_char_is [OF Cons.prems(1,2), of c] Cons.prems(3) by auto
  show ?case using Cons.IH [OF Cons.prems(1) s1(2)] Cons.prems(3) s1(1) by (simp add: checked_def)
qed simp

lemma sdscatrepr_is:
  assumes "ample M" "sds_is s v" "n \<le> length p" "length v + length (repr_text (take n p)) < 2 ^ 30"
  shows "\<exists>s'. sdscatrepr M s p n = Inr (Some s') \<and> sds_is s' (v @ repr_text (take n p))"
proof -
  let ?r = "concat (map repr_char (take n p))"
  have l: "length v + length ?r + 2 < 2 ^ 30" using assms(4) by (simp add: repr_text_def)
  obtain s1 where s1: "sdscatlen M s [QUOTE] 1 = Inr (Some s1)" "sds_is s1 (v @ [QUOTE])"
    using sdscatlen_is [OF assms(1,2), of 1 "[QUOTE]"] l by auto
  obtain s2 where s2: "cat_repr M s1 (take n p) = Inr s2" "sds_is s2 ((v @ [QUOTE]) @ ?r)"
    using cat_repr_is [OF assms(1) s1(2), of "take n p"] l by auto
  obtain s3 where s3: "sdscatlen M s2 [QUOTE] 1 = Inr (Some s3)" "sds_is s3 (((v @ [QUOTE]) @ ?r) @ [QUOTE])"
    using sdscatlen_is [OF assms(1) s2(2), of 1 "[QUOTE]"] l by auto
  then show ?thesis using s1(1) s2(1) assms(3)
    by (simp add: sdscatrepr_def checked_def mem_read_def repr_text_def)
qed

section \<open>Reading it back\<close>

lemma cat_char_is:
  assumes "ample M" "sds_is s v" "length v + 1 < 2 ^ 30"
  shows "\<exists>s'. cat_char M s c = Inr s' \<and> sds_is s' (v @ [c])"
  using sdscatlen_is [OF assms(1,2), of 1 "[c]"] assms(3) by (auto simp: cat_char_def checked_def)

lemma repr_char_cases:
  obtains (hex) "repr_char c = [BACKSLASH, CHR ''x'', hex_char (of_char c div 16), hex_char (of_char c mod 16)]"
  | (escape) e where "repr_char c = [BACKSLASH, e]" "unescape e = c" "e \<noteq> CHR ''x''"
  | (plain) "repr_char c = [c]" "c \<noteq> BACKSLASH" "c \<noteq> QUOTE"
proof -
  consider "c \<in> {BACKSLASH, QUOTE}" | "c = CHR 0x0A" | "c = CHR 0x0D" | "c = CHR 0x09" | "c = CHR 0x07" | "c = CHR 0x08"
    | "c \<notin> {BACKSLASH, QUOTE, CHR 0x0A, CHR 0x0D, CHR 0x09, CHR 0x07, CHR 0x08}" by blast
  then show thesis
  proof cases
    case 1
    then show thesis by (intro escape [of c]) (auto simp: repr_char_def unescape_def BACKSLASH_def QUOTE_def)
  next
    case 2
    then show thesis by (intro escape [of "CHR ''n''"]) (auto simp: repr_char_def unescape_def BACKSLASH_def QUOTE_def)
  next
    case 3
    then show thesis by (intro escape [of "CHR ''r''"]) (auto simp: repr_char_def unescape_def BACKSLASH_def QUOTE_def)
  next
    case 4
    then show thesis by (intro escape [of "CHR ''t''"]) (auto simp: repr_char_def unescape_def BACKSLASH_def QUOTE_def)
  next
    case 5
    then show thesis by (intro escape [of "CHR ''a''"]) (auto simp: repr_char_def unescape_def BACKSLASH_def QUOTE_def)
  next
    case 6
    then show thesis by (intro escape [of "CHR ''b''"]) (auto simp: repr_char_def unescape_def BACKSLASH_def QUOTE_def)
  next
    case 7
    then show thesis using hex plain by (cases "isprint c") (auto simp: repr_char_def)
  qed
qed

lemma token_repr_char:
  assumes "ample M" "sds_is s v" "length v + 1 < 2 ^ 30"
  shows "\<exists>s'. token M Quoted (repr_char c @ r) s = token M Quoted r s' \<and> sds_is s' (v @ [c])"
proof -
  obtain s' where s': "cat_char M s c = Inr s'" "sds_is s' (v @ [c])" using cat_char_is [OF assms] by blast
  have "token M Quoted (repr_char c @ r) s = token M Quoted r s'"
    using repr_char_cases [of c]
  proof cases
    case hex
    have d: "(of_char c :: nat) div 16 < 16" "(of_char c :: nat) mod 16 < 16"
      using char_code_less [of c] by (simp_all add: less_mult_imp_div_less)
    have "char_of ((of_char c :: nat) div 16 * 16 + of_char c mod 16) = c" by (simp only: div_mult_mod_eq char_of_char)
    then show ?thesis using s'(1) hex_char_digit [OF d(1)] hex_char_digit [OF d(2)]
      by (simp add: hex token.simps(2) [of M BACKSLASH])
  next
    case (escape e)
    then show ?thesis using s'(1) by (simp add: token.simps(2) [of M BACKSLASH])
  next
    case plain
    then show ?thesis using s'(1) by (simp add: token.simps(2) [of M c])
  qed
  then show ?thesis using s'(2) by blast
qed

lemma token_repr:
  "ample M \<Longrightarrow> sds_is s v \<Longrightarrow> length v + length cs < 2 ^ 30 \<Longrightarrow> closes r \<Longrightarrow>
   \<exists>s'. token M Quoted (concat (map repr_char cs) @ QUOTE # r) s = Inr (Some (s', r)) \<and> sds_is s' (v @ cs)"
proof (induction cs arbitrary: s v)
  case Nil
  then show ?case by (auto simp: token.simps(2) QUOTE_def BACKSLASH_def)
next
  case (Cons c cs)
  obtain s1 where s1: "token M Quoted (repr_char c @ concat (map repr_char cs) @ QUOTE # r) s =
      token M Quoted (concat (map repr_char cs) @ QUOTE # r) s1" "sds_is s1 (v @ [c])"
    using token_repr_char [OF Cons.prems(1,2)] Cons.prems(3) by fastforce
  show ?case using Cons.IH [OF Cons.prems(1) s1(2) _ Cons.prems(4)] Cons.prems(3) s1(1) by auto
qed

text \<open>A line of quoted arguments, each with a space behind.\<close>

definition quoted_line :: "string list \<Rightarrow> string" where
  "quoted_line args = concat (map (\<lambda>a. repr_text a @ '' '') args)"

lemma quoted_line_simps [simp]: "quoted_line [] = []" "quoted_line (a # args) = repr_text a @ CHR '' '' # quoted_line args"
  by (simp_all add: quoted_line_def)

lemma length_quoted_line: "a \<in> set args \<Longrightarrow> length a < length (quoted_line args)"
proof (induction args)
  case (Cons b args)
  have "length b \<le> length (concat (map repr_char b))"
  proof (induction b)
    case (Cons c b)
    then show ?case using length_repr_char(2) [of c] by (cases "repr_char c") auto
  qed simp
  then show ?case using Cons by (auto simp: repr_text_def)
qed simp

lemma args_le_quoted_line: "length args \<le> length (quoted_line args)"
  by (induction args) auto

lemma split_args_quoted:
  "ample M \<Longrightarrow> length (quoted_line args) < 2 ^ 28 \<Longrightarrow> length vec + length args < 2 ^ 28 \<Longrightarrow> list_all2 sds_is vec done_args \<Longrightarrow>
   c \<in> {[], '' ''} \<Longrightarrow>
   \<exists>vec'. split_args M (c @ quoted_line args) vec = Inr (Some vec') \<and> list_all2 sds_is vec' (done_args @ args)"
proof (induction args arbitrary: vec done_args c)
  case Nil
  have "may_alloc M 8" using Nil.prems(1) by (simp add: ample_def)
  then show ?case using Nil.prems by (auto simp: split_args.simps isspace_def)
next
  case (Cons a args)
  have q: "\<not> isspace QUOTE" by (simp add: QUOTE_def isspace_def)
  have p: "dropWhile isspace (c @ quoted_line (a # args)) =
      QUOTE # concat (map repr_char a) @ QUOTE # '' '' @ quoted_line args"
    using Cons.prems(5) q by (auto simp: repr_text_def isspace_def)
  obtain s0 where s0: "sdsempty M = Inr (Some s0)" "sds_is s0 []" using sdsempty_is [OF Cons.prems(1)] by blast
  have "length a < 2 ^ 30" using length_quoted_line [of a "a # args"] Cons.prems(2) by simp
  then obtain s1 where s1: "token M Quoted (concat (map repr_char a) @ QUOTE # '' '' @ quoted_line args) s0 =
      Inr (Some (s1, '' '' @ quoted_line args))" "sds_is s1 a"
    using token_repr [OF Cons.prems(1) s0(2), of a "'' '' @ quoted_line args"] by (auto simp: closes_def isspace_def)
  have "token M Unquoted (QUOTE # concat (map repr_char a) @ QUOTE # '' '' @ quoted_line args) s0 =
      Inr (Some (s1, '' '' @ quoted_line args))"
    using s1(1) by (simp add: token.simps(6) QUOTE_def)
  moreover have "may_alloc M (8 * (length vec + 1))" using Cons.prems(1,3) by (simp add: ample_def)
  ultimately have "split_args M (c @ quoted_line (a # args)) vec = split_args M ('' '' @ quoted_line args) (vec @ [s1])"
    by (subst split_args.simps) (simp only: p Let_def, simp add: s0(1) checked_def)
  moreover have all: "list_all2 sds_is (vec @ [s1]) (done_args @ [a])" using Cons.prems(4) s1(2) by (simp add: list_all2_appendI)
  ultimately show ?case
    using Cons.IH [OF Cons.prems(1) _ _ all, of "'' ''"] Cons.prems(2,3) by simp
qed

lemma quoted_line_no_NUL: "NUL \<notin> set (quoted_line args)"
  using repr_char_no_NUL by (induction args) (auto simp: repr_text_def QUOTE_def)

lemma sdssplitargs_quoted:
  assumes "ample M" "length (quoted_line args) < 2 ^ 28" "sds_is s (quoted_line args)"
  shows "\<exists>vec. sdssplitargs M (sds_buf s) = Inr (Some vec) \<and> list_all2 sds_is vec args"
proof -
  let ?l = "quoted_line args"
  obtain rest where b: "sds_buf s = ?l @ NUL # rest" using assms(3) by (auto elim: sds_isE)
  then have "c_strlen (sds_buf s) = Inr (length ?l)" using quoted_line_no_NUL [of args]
    by (simp add: c_strlen_def) (subst takeWhile_append2; auto)
  moreover have "take (length ?l) (sds_buf s) = ?l" using b by simp
  ultimately show ?thesis
    using split_args_quoted [OF assms(1,2), of "[]" "[]" "[]"] args_le_quoted_line [of args] assms(2)
    by (auto simp: sdssplitargs_def)
qed

text \<open>Writing the line.\<close>

fun cat_quoted :: "memory \<Rightarrow> string list \<Rightarrow> sds \<Rightarrow> fault + sds option" where
  "cat_quoted M [] s = Inr (Some s)"
| "cat_quoted M (a # args) s =
     opt_then (sdscatrepr M s a (length a)) (\<lambda>s. opt_then (sdscat M s (c_str '' '')) (cat_quoted M args))"

lemma cat_quoted_is:
  "ample M \<Longrightarrow> sds_is s v \<Longrightarrow> length v + length (quoted_line args) < 2 ^ 30 \<Longrightarrow>
   \<exists>s'. cat_quoted M args s = Inr (Some s') \<and> sds_is s' (v @ quoted_line args)"
proof (induction args arbitrary: s v)
  case (Cons a args)
  obtain s1 where s1: "sdscatrepr M s a (length a) = Inr (Some s1)" "sds_is s1 (v @ repr_text a)"
    using sdscatrepr_is [OF Cons.prems(1,2), of "length a" a] Cons.prems(3) by auto
  obtain s2 where s2: "sdscat M s1 (c_str '' '') = Inr (Some s2)" "sds_is s2 ((v @ repr_text a) @ '' '')"
    using sdscat_is [OF Cons.prems(1) s1(2), of "'' ''"] Cons.prems(3) by auto
  show ?case using Cons.IH [OF Cons.prems(1) s2(2)] Cons.prems(3) s1(1) s2(1) by simp
qed simp

section \<open>Splitting and joining\<close>

fun joined :: "string \<Rightarrow> string list \<Rightarrow> string" where
  "joined sep [] = []"
| "joined sep [w] = w"
| "joined sep (w # x # ws) = w @ sep @ joined sep (x # ws)"

definition ended :: "string \<Rightarrow> string list \<Rightarrow> string" where
  "ended sep ws = concat (map (\<lambda>w. w @ sep) ws)"

lemma ended_simps [simp]: "ended sep [] = []" "ended sep (w # ws) = w @ sep @ ended sep ws"
  "ended sep (ws @ vs) = ended sep ws @ ended sep vs"
  by (simp_all add: ended_def)

lemma joined_snoc: "joined sep (ws @ [w]) = ended sep ws @ w"
proof (induction ws)
  case (Cons x ws)
  then show ?case by (cases ws) auto
qed simp

lemma ended_count: "sep \<noteq> [] \<Longrightarrow> length ws \<le> length (ended sep ws)"
proof (induction ws)
  case (Cons w ws)
  then show ?case by (cases sep) auto
qed simp

lemma join_loop_is:
  assumes "ample M"
  shows "list_all2 sds_is argv ws \<Longrightarrow> sds_is s v \<Longrightarrow> n \<le> length sep \<Longrightarrow> length v + length (joined (take n sep) ws) < 2 ^ 30 \<Longrightarrow>
    \<exists>s'. join_loop M (sdscatsds M) argv sep n (Some s) = Inr (Some s') \<and> sds_is s' (v @ joined (take n sep) ws)"
proof (induction "take n sep" ws arbitrary: argv s v rule: joined.induct)
  case 1
  then show ?case by auto
next
  case (2 w)
  then obtain a where a: "argv = [a]" "sds_is a w" by (auto simp: list_all2_Cons2)
  then show ?case using sdscatsds_is [OF assms 2(2) a(2)] 2(4) by (simp add: checked_def)
next
  case (3 w x ws)
  obtain a b as where a: "argv = a # b # as" "sds_is a w" "list_all2 sds_is (b # as) (x # ws)"
    using 3(2) by (auto simp: list_all2_Cons2)
  obtain s1 where s1: "sdscatsds M s a = Inr (Some s1)" "sds_is s1 (v @ w)"
    using sdscatsds_is [OF assms 3(3) a(2)] 3(5) by auto
  obtain s2 where s2: "sdscatlen M s1 sep n = Inr (Some s2)" "sds_is s2 ((v @ w) @ take n sep)"
    using sdscatlen_is [OF assms s1(2) 3(4)] 3(4,5) by auto
  show ?case using 3(1) [OF a(3) s2(2) 3(4)] 3(5) a(1) s1(1) s2(1) by (simp add: checked_def)
qed

lemma token_from_is:
  assumes "ample M" "i + n \<le> length s" "n < 2 ^ 31 - 1"
  shows "\<exists>t. token_from M s i n = Inr (Some t) \<and> sds_is t (take n (drop i s))"
  using sdsnewlen_is [OF assms(1), of n "drop i s"] assms(2,3) by (auto simp: token_from_def)

lemma ended_start:
  assumes "ended sep ws = take i s" "i \<le> j" "j + length sep \<le> length s" "take (length sep) (drop j s) = sep"
  shows "ended sep (ws @ [take (j - i) (drop i s)]) = take (j + length sep) s"
proof -
  have "take (j + length sep) s = take j s @ sep" using assms(4) by (simp add: take_add)
  moreover have "take j s = take i s @ take (j - i) (drop i s)" using assms(2) by (metis le_add_diff_inverse take_add)
  ultimately show ?thesis using assms(1) by simp
qed

lemma separator_at_is:
  "j + n \<le> length s \<Longrightarrow> n \<le> length sep \<Longrightarrow> separator_at s j sep n = Inr (take n (drop j s) = take n sep)"
  by (simp add: separator_at_def mem_read_def)

lemma split_loop_is:
  assumes "ample M" "len \<le> length s" "len < 2 ^ 27" "0 < n" "n \<le> length sep"
  shows "list_all2 sds_is tokens ws \<Longrightarrow> ended (take n sep) ws = take start s \<Longrightarrow> start \<le> j \<Longrightarrow> start \<le> len \<Longrightarrow> slots \<le> 2 * len + 10 \<Longrightarrow>
    \<exists>tokens' ws' start'. split_loop M s len sep n tokens slots start j = Inr (Some (tokens', start')) \<and>
      list_all2 sds_is tokens' ws' \<and> ended (take n sep) ws' = take start' s \<and> start' \<le> len"
proof (induction "len + 1 - j" arbitrary: tokens ws slots start j rule: less_induct)
  case less
  show ?case
  proof (cases "j + n \<le> len")
    case False
    then show ?thesis using less.prems by (subst split_loop.simps) auto
  next
    case True
    define slots' where "slots' = (if slots < length tokens + 2 then slots * 2 else slots)"
    have "length ws \<le> length (ended (take n sep) ws)" using assms(4,5) by (intro ended_count) auto
    then have "length tokens \<le> start"
      using less.prems(2,4) assms(2) list_all2_lengthD [OF less.prems(1)] by simp
    then have s': "slots' \<le> 2 * len + 10" using less.prems(4,5) by (auto simp: slots'_def)
    then have m: "may_alloc M (8 * slots')" using assms(1,3) by (simp add: ample_def)
    have sp: "separator_at s j sep n = Inr (take n (drop j s) = take n sep)"
      using True assms(2,5) by (intro separator_at_is) auto
    have step: "split_loop M s len sep n tokens slots start j =
        (if take n (drop j s) = take n sep then
           opt_then (token_from M s start (j - start)) (\<lambda>t. split_loop M s len sep n (tokens @ [t]) slots' (j + n) (j + n))
         else split_loop M s len sep n tokens slots' start (j + 1))"
      using True assms(4) m sp by (subst split_loop.simps) (auto simp: slots'_def Let_def)
    show ?thesis
    proof (cases "take n (drop j s) = take n sep")
      case eq: True
      obtain t where t: "token_from M s start (j - start) = Inr (Some t)" "sds_is t (take (j - start) (drop start s))"
        using token_from_is [OF assms(1), of start "j - start" s] less.prems(3) True assms(2,3) by (auto simp: less_diff_conv2)
      have "ended (take n sep) (ws @ [take (j - start) (drop start s)]) = take (j + n) s"
        using ended_start [OF less.prems(2,3)] eq True assms(2,5) by simp
      moreover have "list_all2 sds_is (tokens @ [t]) (ws @ [take (j - start) (drop start s)])"
        using less.prems(1) t(2) by (simp add: list_all2_appendI)
      moreover have "len + 1 - (j + n) < len + 1 - j" using True assms(4) by simp
      ultimately show ?thesis using less.hyps [of "j + n" "tokens @ [t]" _ "j + n" slots'] s' True step eq t(1) by simp
    next
      case ne: False
      have "len + 1 - (j + 1) < len + 1 - j" using True by simp
      then show ?thesis using less.hyps [of "j + 1" tokens ws start slots'] less.prems s' step ne by simp
    qed
  qed
qed

lemma split_join:
  assumes "ample M" "len \<le> length s" "len < 2 ^ 27" "0 < n" "n \<le> length sep" "n < 2 ^ 31"
  shows "\<exists>tokens s'. sdssplitlen M s (int len) sep (int n) = Inr (Some tokens) \<and>
    sdsjoinsds M tokens sep n = Inr (Some s') \<and> sds_is s' (take len s)"
proof -
  obtain s0 where s0: "sdsempty M = Inr (Some s0)" "sds_is s0 []" using sdsempty_is [OF assms(1)] by blast
  have m: "may_alloc M (8 * 5)" using assms(1) by (simp add: ample_def)
  show ?thesis
  proof (cases "len = 0")
    case True
    then show ?thesis using s0 m assms(4) by (auto simp: sdssplitlen_def sdsjoinsds_def)
  next
    case False
    obtain tokens ws start where l: "split_loop M s len sep n [] 5 0 0 = Inr (Some (tokens, start))"
      "list_all2 sds_is tokens ws" "ended (take n sep) ws = take start s" "start \<le> len"
      using split_loop_is [OF assms(1-5), of "[]" "[]" 0 0 5] by auto
    obtain t where t: "token_from M s start (len - start) = Inr (Some t)" "sds_is t (take (len - start) (drop start s))"
      using token_from_is [OF assms(1), of start "len - start" s] l(4) assms(2,3) by (auto simp: less_diff_conv2)
    let ?ws = "ws @ [take (len - start) (drop start s)]"
    have j: "joined (take n sep) ?ws = take len s"
      using l(3,4) by (simp add: joined_snoc) (metis le_add_diff_inverse take_add)
    have "list_all2 sds_is (tokens @ [t]) ?ws" using l(2) t(2) by (simp add: list_all2_appendI)
    then obtain s' where "join_loop M (sdscatsds M) (tokens @ [t]) sep n (Some s0) = Inr (Some s')" "sds_is s' (take len s)"
      using join_loop_is [OF assms(1) _ s0(2) assms(5), of "tokens @ [t]" ?ws] j assms(2,3) by auto
    then show ?thesis using l(1) t(1) False s0(1) m assms(4) by (auto simp: sdssplitlen_def sdsjoinsds_def)
  qed
qed

end
