(* ===== verification/Redis_Props.thy ===== *)
theory Redis_Props
  imports Redis_Pipeline Redis_Failures Redis_Sds_Session Redis_Sds_Quoting
begin

text \<open>
  The properties of the Redis client library and of the database over it: strings, formatting, the reply
  parser, the connection, the client and the store.
\<close>

section \<open>The database\<close>

text \<open>C4: A new client whose server answers as Redis documents implements a store of hashes: a session of reads
  (of given fields or of all fields, in any order of the fields), updates and deletions returns, reports
  success and gives the values of the abstract store, and afterwards exactly the requests of the session
  have been sent and all answers consumed. The session is one whose updates and deletions are words
  (\<open>op_ok\<close>): keys, fields and values that are not empty and have no space, percent sign or zero byte, since
  the client passes them in a format. A read of given fields names at least one, a read of all fields is of
  a key without zero bytes. Commands are shorter than \<open>2 ^ 28\<close> bytes and nothing stored before has zero bytes.\<close>

theorem redis_refines_store:
  assumes "ample M" "prints_int pf" "reliable S P"
    and "RedisClient_new M S n w0 = Inr (cl, w)" "- (2 ^ 31) \<le> n" "n < 2 ^ 31"
    and "sent P w = []" "got P w = []" "answer P [] = []"
    and "no_zero st" "\<forall>op \<in> set ops. op_ok op" "serves P [] st (session_requests n ops)"
  shows "\<exists>rs cl' w'. db_session M pf S ops cl w = Some (Inr (rs, cl', w')) \<and> store_session st ops rs \<and>
    sent P w' = commands_text (session_requests n ops) \<and> got P w' = answer P (sent P w')"
proof -
  note new = RedisClient_new_idle [OF assms(1,4,7-9)]
  have "client_ok cl" using new(2) assms(5,6) by (simp add: client_ok_def)
  then obtain rs cl' w' where r: "db_session M pf S ops cl w = Some (Inr (rs, cl', w'))" "store_session st ops rs"
    "idle M P (client_context cl') w' (commands_text (session_requests n ops))"
    using db_session_runs [OF assms(1-3) new(1) _ assms(11,10)] assms(12) new(2) by auto
  then have "sent P w' = commands_text (session_requests n ops)" "got P w' = answer P (sent P w')"
    using due_got [of P w' "sent P w'"] by (auto simp: idle_def conn_at_def)
  then show ?thesis using r(1,2) by blast
qed

definition sample_ops :: "db_op list" where
  "sample_ops = [UpdateOp ''user1'' [(''field0'', ''abc''), (''field1'', ''xyz'')],
     ReadOp ''user1'' [''field1'', ''field9''], ReadAllOp ''user1'', DeleteOp ''user1'', ReadAllOp ''user1'']"

definition sample_script :: script where
  "sample_script =
     [([''HMSET'', ''user1'', ''field0'', ''abc'', ''field1'', ''xyz''], StatusReply ''OK''),
      (wait_args 1, IntegerReply 1),
      ([''HMGET'', ''user1'', ''field1'', ''field9''], ArrayReply 2 (Some [Some (StringReply ''xyz''), Some NilReply])),
      ([''HGETALL'', ''user1''], all_reply [(''field1'', ''xyz''), (''field0'', ''abc'')]),
      ([''DEL'', ''user1''], IntegerReply 1),
      (wait_args 1, IntegerReply 1),
      ([''HGETALL'', ''user1''], all_reply [])]"

lemma sample_all_reply:
  "all_reply [(''field1'', ''xyz''), (''field0'', ''abc'')] = ArrayReply 4 (Some [Some (StringReply ''field1''),
     Some (StringReply ''xyz''), Some (StringReply ''field0''), Some (StringReply ''abc'')])"
  "all_reply [] = ArrayReply 0 None"
  by (simp_all add: all_reply_def)

lemma sample_script_ok: "script_ok (\<lambda>_ _. None) sample_script"
proof -
  have l: "length (reply_text (StatusReply ''OK'')) = 5" "length (reply_text (IntegerReply 1)) = 4"
    "length (reply_text (ArrayReply 2 (Some [Some (StringReply ''xyz''), Some NilReply]))) = 18"
    "length (reply_text (all_reply [(''field1'', ''xyz''), (''field0'', ''abc'')])) = 46"
    "length (reply_text (all_reply [])) = 4"
    by code_simp+
  have e: "reply_ok 8 (ArrayReply n (Some es)) \<longleftrightarrow> n = length es \<and> 0 < n \<and> n < 2 ^ 28 \<and>
      (\<forall>e \<in> set es. case e of None \<Rightarrow> False | Some x \<Rightarrow> reply_ok 7 x)" for n es
  proof -
    have "(8::nat) = Suc 7" by simp
    then show ?thesis using reply_ok.simps(8) [of 7 n es] by presburger
  qed
  have ok: "reply_ok 8 (all_reply [(''field1'', ''xyz''), (''field0'', ''abc'')])" "reply_ok 8 (all_reply [])"
    unfolding sample_all_reply e by simp_all
  have all: "\<exists>ps. all_of [''field0'' \<mapsto> ''abc'', ''field1'' \<mapsto> ''xyz''] ps \<and>
      all_reply [(''field1'', ''xyz''), (''field0'', ''abc'')] = all_reply ps"
    "\<exists>ps. all_of (\<lambda>x. None) ps \<and> all_reply [] = all_reply ps"
    by (rule exI, rule conjI [OF _ refl], simp add: all_of_def fun_eq_iff)+
  show ?thesis unfolding sample_script_def script_ok.simps l
    using ok all by (simp add: value_reply_def wait_args_def e)
qed

lemma sample_requests: "session_requests 1 sample_ops = map fst sample_script"
  by (simp add: session_requests_def sample_ops_def sample_script_def with_wait_def)

lemma sample_commands_short: "\<forall>r \<in> set (map fst sample_script). length (command_text r) < 2 ^ 28"
proof -
  have "map (\<lambda>r. length (command_text r)) (map fst sample_script) = [68, 28, 50, 28, 24, 28, 28]"
    by code_simp
  then have "\<forall>n \<in> set (map (\<lambda>r. length (command_text r)) (map fst sample_script)). n < 2 ^ 28"
    by (simp only:) simp
  then show ?thesis by simp
qed

lemma sample_ops_ok: "\<forall>op \<in> set sample_ops. op_ok op"
  using sample_commands_short by (simp add: sample_ops_def sample_script_def word_ok_def)

lemma redis_refines_store_witness:
  "\<exists>cl w cl' w' ps. RedisClient_new sample_memory (script_socket sample_script) 1 ([], []) = Inr (cl, w) \<and>
    db_session sample_memory sample_printf (script_socket sample_script) sample_ops cl w =
      Some (Inr ([(0, []), (0, [(''field1'', ''xyz''), (''field9'', [])]), (0, ps), (0, []), (0, [])], cl', w')) \<and>
    map_of ps = [''field0'' \<mapsto> ''abc'', ''field1'' \<mapsto> ''xyz'']"
proof -
  obtain cl where cl: "RedisClient_new sample_memory (script_socket sample_script) 1 ([], []) = Inr (cl, ([], []))"
    using script_client by blast
  let ?P = "script_peer sample_script"
  have "serves ?P [] (\<lambda>_ _. None) (session_requests 1 sample_ops)"
    using script_serves [OF sample_script_ok, of "[]"] by (simp add: sample_requests)
  moreover have "answer ?P [] = []" by (simp add: script_peer_def sample_script_def)
  ultimately obtain rs cl' w' where r: "db_session sample_memory sample_printf (script_socket sample_script) sample_ops cl ([], []) =
      Some (Inr (rs, cl', w'))" "store_session (\<lambda>_ _. None) sample_ops rs"
    using redis_refines_store [OF sample_ample sample_prints_int script_reliable cl, of "\<lambda>_ _. None" sample_ops] sample_ops_ok
    by (auto simp: no_zero_def script_peer_def)
  have "\<exists>ps. rs = [(0, []), (0, [(''field1'', ''xyz''), (''field9'', [])]), (0, ps), (0, []), (0, [])] \<and>
      map_of ps = [''field0'' \<mapsto> ''abc'', ''field1'' \<mapsto> ''xyz'']"
    using r(2) by (auto simp: sample_ops_def kOK_def update_hash_def all_of_def)
  then show ?thesis using cl r(1) by blast
qed

section \<open>The connection\<close>

text \<open>C10: Pipelined commands are all answered: after a new client has appended any commands, asking for as
  many replies returns, whatever parts the socket moves at a time, and gives the replies of the server in
  the order of the commands.\<close>

theorem redis_pipeline_answers:
  assumes "ample M" "reliable S P" "RedisClient_new M S n w0 = Inr (cl, w)"
    and "sent P w = []" "got P w = []" "answer P [] = []"
    and "answers_all P [] rs" "rs \<noteq> []" "length (commands_text (map fst rs)) < 2 ^ 30 - 1"
      "length (replies_text (map snd rs)) < 2 ^ 30 - 1024"
  shows "\<exists>c c' w'. append_all M (map fst rs) (client_context cl) = Inr (True, c) \<and>
    get_replies M S (length rs) c w = Some (Inr (map (Some \<circ> snd) rs, c', w')) \<and>
    sent P w' = commands_text (map fst rs)"
  using pipeline_runs [OF assms(1,2) RedisClient_new_idle(1) [OF assms(1,3-6)] assms(7-10)]
  by (auto simp: idle_def conn_at_def)

lemma redis_pipeline_answers_witness:
  "\<exists>cl w c c' w'. RedisClient_new sample_memory (script_socket sample_script) 0 ([], []) = Inr (cl, w) \<and>
    append_all sample_memory (map fst sample_script) (client_context cl) = Inr (True, c) \<and>
    get_replies sample_memory (script_socket sample_script) 7 c w = Some (Inr (map (Some \<circ> snd) sample_script, c', w'))"
proof -
  obtain cl where cl: "RedisClient_new sample_memory (script_socket sample_script) 0 ([], []) = Inr (cl, ([], []))"
    using script_client by blast
  let ?P = "script_peer sample_script"
  have "answers_all ?P [] sample_script"
    using script_answers_all [OF sample_script_ok, of "[]"] by simp
  moreover have "answer ?P [] = []" "length sample_script = 7" "sample_script \<noteq> []" by (simp_all add: script_peer_def sample_script_def)
  moreover have "length (commands_text (map fst sample_script)) = 254" "length (replies_text (map snd sample_script)) = 85"
    by code_simp+
  ultimately show ?thesis
    using redis_pipeline_answers [OF sample_ample script_reliable cl, where rs = sample_script] cl
    by (auto simp: script_peer_def)
qed

section \<open>The reply parser\<close>

text \<open>C12: A reader implements a stream of replies: in any session of feeding it bytes of the replies, cut
  anywhere, and asking for the next reply, it gives each reply as soon as all its bytes were fed, in
  order, and nothing before that.\<close>

theorem reader_gives_stream:
  assumes "ample M" "redisReaderCreate M = Inr (Some r)" "\<forall>y \<in> set ys. reply_ok 8 y"
    and "fed cs @ later = replies_text ys" "length (fed cs) < 2 ^ 30 - 1024"
  shows "\<exists>r'. reader_session M cs r = Inr (True, stream_session cs 0 ys, r')"
proof -
  have "in_step M r []" using redisReaderCreate_is [OF assms(1)] assms(2) by (auto intro: in_step_fresh)
  then show ?thesis using session_in_step [OF assms(1,3), of r "[]" cs later] assms(4,5)
    by (simp add: replies_text_def)
qed

lemma reader_gives_stream_witness:
  "\<exists>r r'. redisReaderCreate sample_memory = Inr (Some r) \<and>
    reader_session sample_memory [Feed ''+O'', GetReply, Feed (''K'' @ CRLF @ ''$-''), GetReply, GetReply, Feed (''1'' @ CRLF), GetReply] r =
      Inr (True, [StatusReply ''OK'', NilReply], r')"
proof -
  obtain r where r: "redisReaderCreate sample_memory = Inr (Some r)" using redisReaderCreate_is [OF sample_ample] by blast
  show ?thesis
    using reader_gives_stream [OF sample_ample r, of "[StatusReply ''OK'', NilReply]"
      "[Feed ''+O'', GetReply, Feed (''K'' @ CRLF @ ''$-''), GetReply, GetReply, Feed (''1'' @ CRLF), GetReply]" "[]"] r
    by (simp add: CRLF_def)
qed

text \<open>C18: What the reader answers does not depend on how the bytes were cut, for any bytes: when it
  waited after a first part, it answers after the second part as if it had been fed both at once, with the
  same reply, the same error or the same fault.\<close>

theorem reader_ignores_cuts:
  assumes "ample M" "redisReaderCreate M = Inr (Some r)" "length (a @ b) < 2 ^ 30 - 1024"
    and "redisReaderFeed M r (Some a) (length a) = Inr (True, r1)" "redisReaderGetReply M r1 = Inr (True, None, r2)"
    and "redisReaderFeed M r2 (Some b) (length b) = Inr (True, r3)"
    and "redisReaderFeed M r (Some (a @ b)) (length (a @ b)) = Inr (True, r')"
  shows "outcome (redisReaderGetReply M r3) = outcome (redisReaderGetReply M r')"
proof -
  have r: "in_step M r []" using redisReaderCreate_is [OF assms(1)] assms(2) by (auto intro: in_step_fresh)
  have r1: "in_step M r1 a" using in_step_feed [OF r assms(1), of a] assms(3,4) by auto
  note r2 = in_step_none [OF r1 assms(5)]
  have r3: "in_step M r3 (a @ b)" using in_step_feed [OF r2(1) assms(1), of b] assms(3,6) by auto
  have r': "in_step M r' (a @ b)" using in_step_feed [OF r assms(1), of "a @ b"] assms(3,7) by auto
  show ?thesis
  proof (cases "b = []")
    case True
    then have "r' = r1" using assms(4,7) by simp
    moreover have "r3 = r2" using True assms(6) r2(2) by (auto simp: redisReaderFeed_def split: if_splits)
    ultimately show ?thesis using assms(5) r2(2) by (simp add: outcome_def)
  next
    case False
    then show ?thesis using in_step_outcome [OF r3 feed_len [OF assms(6) r2(1) False assms(1)]]
      in_step_outcome [OF r' feed_len [OF assms(7) r _ assms(1)]] assms(3) by simp
  qed
qed

lemma reader_ignores_cuts_witness:
  "\<exists>r r1 r2 r3 r'. redisReaderCreate sample_memory = Inr (Some r) \<and>
    redisReaderFeed sample_memory r (Some '':4'') (length '':4'') = Inr (True, r1) \<and>
    redisReaderGetReply sample_memory r1 = Inr (True, None, r2) \<and>
    redisReaderFeed sample_memory r2 (Some (''2'' @ CRLF)) (length (''2'' @ CRLF)) = Inr (True, r3) \<and>
    redisReaderFeed sample_memory r (Some ('':4'' @ (''2'' @ CRLF))) (length ('':4'' @ (''2'' @ CRLF))) = Inr (True, r') \<and>
    outcome (redisReaderGetReply sample_memory r3) = outcome (redisReaderGetReply sample_memory r')"
proof -
  obtain r where r: "redisReaderCreate sample_memory = Inr (Some r)" "in_step sample_memory r []"
    using redisReaderCreate_is [OF sample_ample] in_step_fresh by blast
  obtain r1 where r1: "redisReaderFeed sample_memory r (Some '':4'') (length '':4'') = Inr (True, r1)" "in_step sample_memory r1 '':4''"
    using in_step_feed [OF r(2) sample_ample, of "'':4''"] by auto
  have "reply_text (IntegerReply 42) = '':4'' @ (''2'' @ CRLF)" by code_simp
  then obtain x y z where w: "parse_loop sample_memory '':4'' [root_task] None = Inr (Wait x y z)"
    using parse_part_reply [OF sample_ample, of "IntegerReply 42" "'':4''"] by auto
  obtain r2 where r2: "redisReaderGetReply sample_memory r1 = Inr (True, None, r2)" "in_step sample_memory r2 '':4''"
    using in_step_wait [OF r1(2) _ w] w by auto
  obtain r3 where r3: "redisReaderFeed sample_memory r2 (Some (''2'' @ CRLF)) (length (''2'' @ CRLF)) = Inr (True, r3)"
    using in_step_feed [OF r2(2) sample_ample, of "''2'' @ CRLF"] by (auto simp: CRLF_def)
  obtain r' where r': "redisReaderFeed sample_memory r (Some ('':4'' @ (''2'' @ CRLF))) (length ('':4'' @ (''2'' @ CRLF))) = Inr (True, r')"
    using in_step_feed [OF r(2) sample_ample, of "'':4'' @ (''2'' @ CRLF)"] by (auto simp: CRLF_def)
  show ?thesis
    using reader_ignores_cuts [OF sample_ample r(1) _ r1(1) r2(1) r3 r'] r(1) r1(1) r2(1) r3 r'
    by (intro exI conjI) (assumption | simp add: CRLF_def)+
qed

text \<open>C38: A count of elements that is a positive multiple of \<open>2 ^ 32\<close> is cut to 0 when the array is made, but the
  reader goes on to its first element: storing that writes through a null pointer.\<close>

theorem reader_count_wraps:
  assumes "ample M" "redisReaderCreate M = Inr (Some r)" "0 < k" "k * 2 ^ 32 < (2::nat) ^ 63"
    and "t = ''*'' @ to_string (k * 2 ^ 32) @ CRLF @ '':1'' @ CRLF"
  shows "\<exists>r'. redisReaderFeed M r (Some t) (length t) = Inr (True, r') \<and> redisReaderGetReply M r' = Inl NullPointer"
proof -
  have "k * 2 ^ 32 < (10::nat) ^ 20" using assms(4) by (rule less_trans) simp
  then have "length (to_string (k * 2 ^ 32)) \<le> 20" by (intro length_to_string) simp_all
  then have l: "length ([]::string) + length t < 2 ^ 30 - 1024" "t \<noteq> []" by (simp_all add: assms(5) CRLF_def)
  have r: "in_step M r []" using redisReaderCreate_is [OF assms(1)] assms(2) by (auto intro: in_step_fresh)
  obtain r' where r': "redisReaderFeed M r (Some t) (length t) = Inr (True, r')" "in_step M r' t"
    using in_step_feed [OF r assms(1) l(1)] by auto
  have "outcome (redisReaderGetReply M r') = Inl NullPointer"
    using in_step_outcome [OF r'(2) feed_len [OF r'(1) r l(2) assms(1) l(1)]] parse_count [OF assms(1,3,4)]
    by (simp add: assms(5) progress_outcome_def)
  then show ?thesis using r'(1) by (cases "redisReaderGetReply M r'") (auto simp: outcome_def)
qed

lemma reader_count_wraps_witness:
  "\<exists>r r' t. redisReaderCreate sample_memory = Inr (Some r) \<and> t = ''*'' @ to_string (1 * 2 ^ 32) @ CRLF @ '':1'' @ CRLF \<and>
    redisReaderFeed sample_memory r (Some t) (length t) = Inr (True, r') \<and> redisReaderGetReply sample_memory r' = Inl NullPointer"
proof -
  obtain r where r: "redisReaderCreate sample_memory = Inr (Some r)" using redisReaderCreate_is [OF sample_ample] by blast
  have k: "0 < (1::nat)" "1 * 2 ^ 32 < (2::nat) ^ 63" by simp_all
  show ?thesis using reader_count_wraps [OF sample_ample r k refl] r by blast
qed

section \<open>Commands\<close>

text \<open>C19: The two ways to format an array of arguments write the same bytes with the right length, and a
  reader of the protocol gets exactly the arguments back, whatever bytes they have.\<close>

theorem commands_read_back:
  assumes "ample M" "argv_is argv lens args" "length (command_text args) < 2 ^ 28" "redisReaderCreate M = Inr (Some r)"
  shows "\<exists>cmd s r1 r2. redisFormatCommandArgv M argv lens = Inr (Some (cmd, int (length cmd))) \<and>
    redisFormatSdsCommandArgv M argv lens = Inr (Some (s, int (length cmd))) \<and> sds_is s cmd \<and>
    redisReaderFeed M r (Some cmd) (length cmd) = Inr (True, r1) \<and>
    redisReaderGetReply M r1 = Inr (True, Some (command args), r2)"
proof -
  let ?t = "command_text args"
  have "length args < 2 ^ 28" "\<forall>a \<in> set args. length a < 2 ^ 30"
    using args_le_command [of args] arg_le_command [of _ args] assms(3) by fastforce+
  then have ok: "reply_ok 8 (command args)" by (intro command_ok) auto
  have r: "in_step M r []" using redisReaderCreate_is [OF assms(1)] assms(4) by (auto intro: in_step_fresh)
  obtain r1 where r1: "redisReaderFeed M r (Some ?t) (length ?t) = Inr (True, r1)" "in_step M r1 ?t"
    using in_step_feed [OF r assms(1), of ?t] assms(3) by auto
  obtain r2 where "redisReaderGetReply M r1 = Inr (True, Some (command args), r2)"
    using in_step_reply [OF _ assms(1) ok, of r1 "[]"] r1(2) by (auto simp: command_text_eq)
  then show ?thesis
    using redisFormatCommandArgv_eq [OF assms(1,2)] redisFormatSdsCommandArgv_is [OF assms(1,2)] assms(3) r1(1) by fastforce
qed

lemma commands_read_back_witness:
  "\<exists>r cmd s r1 r2. redisReaderCreate sample_memory = Inr (Some r) \<and>
    redisFormatCommandArgv sample_memory [''SETx'', [NUL, CHR '' '']] (Some [3, 2]) = Inr (Some (cmd, int (length cmd))) \<and>
    redisFormatSdsCommandArgv sample_memory [''SETx'', [NUL, CHR '' '']] (Some [3, 2]) = Inr (Some (s, int (length cmd))) \<and>
    sds_is s cmd \<and> redisReaderFeed sample_memory r (Some cmd) (length cmd) = Inr (True, r1) \<and>
    redisReaderGetReply sample_memory r1 =
      Inr (True, Some (ArrayReply 2 (Some [Some (StringReply ''SET''), Some (StringReply [NUL, CHR '' ''])])), r2)"
proof -
  obtain r where r: "redisReaderCreate sample_memory = Inr (Some r)" using redisReaderCreate_is [OF sample_ample] by blast
  have a: "argv_is [''SETx'', [NUL, CHR '' '']] (Some [3, 2]) [''SET'', [NUL, CHR '' '']]" by (simp add: argv_is_def)
  have "length (command_text [''SET'', [NUL, CHR '' '']]) = 21" by code_simp
  then have b: "length (command_text [''SET'', [NUL, CHR '' '']]) < 2 ^ 28" by simp
  have c: "command [''SET'', [NUL, CHR '' '']] = ArrayReply 2 (Some [Some (StringReply ''SET''), Some (StringReply [NUL, CHR '' ''])])"
    by (simp add: command_def numeral_2_eq_2)
  show ?thesis using commands_read_back [OF sample_ample a b r] r unfolding c by blast
qed

text \<open>C23: A format with its arguments gives the same command as the array of its words: spaces of the format
  separate words and vanish, \<open>%s\<close>, \<open>%b\<close> and \<open>%d\<close> put in the argument even when it has spaces or is empty, and
  two percent signs stand for one.\<close>

theorem format_agrees_with_argv:
  assumes "ample M" "prints_int pf" "\<forall>p \<in> set ps. piece_ok p" "ws = format_words [] False ps"
    and "length (command_text ws) < 2 ^ 28"
  shows "\<exists>cmd. redisFormatCommand M pf (concat (map piece_format ps)) (concat (map piece_args ps)) = Inr (Inr cmd) \<and>
    redisFormatCommandArgv M (map c_str ws) (Some (map length ws)) = Inr (Some cmd)"
  using redisFormatCommand_words [OF assms(1-3)] redisFormatCommandArgv_eq [OF assms(1) argv_is_c_str, of ws] assms(4,5)
  by simp

lemma format_agrees_with_argv_witness:
  "\<exists>cmd. redisFormatCommand sample_memory sample_printf ''SET %s %b100%%'' [VaStr (c_str ''a b''), VaStr ''xyz'', VaSize 2] = Inr (Inr cmd) \<and>
    redisFormatCommandArgv sample_memory (map c_str [''SET'', ''a b'', ''xy100%'']) (Some [3, 3, 6]) = Inr (Some cmd)"
proof -
  let ?ps = "map char_piece ''SET '' @ [Str ''a b'', Space, Bin ''xy'' ''z''] @ map char_piece ''100'' @ [Percent]"
  have w: "[''SET'', ''a b'', ''xy100%''] = format_words [] False ?ps" by (simp add: char_piece_def)
  have ok: "\<forall>p \<in> set ?ps. piece_ok p" by (simp add: char_piece_def)
  have "length (command_text [''SET'', ''a b'', ''xy100%'']) = 34" by code_simp
  then have b: "length (command_text [''SET'', ''a b'', ''xy100%'']) < 2 ^ 28" by simp
  have f: "concat (map piece_format ?ps) = ''SET %s %b100%%''" "concat (map piece_args ?ps) = [VaStr (c_str ''a b''), VaStr ''xyz'', VaSize 2]"
    "map length [''SET'', ''a b'', ''xy100%''] = [3, 3, 6]"
    by (simp_all add: char_piece_def numeral_eq_Suc)
  show ?thesis using format_agrees_with_argv [OF sample_ample sample_prints_int ok w b] unfolding f .
qed

text \<open>C39: The client passes the text of a command as a format: a text whose first percent sign has a character
  behind it that is no percent sign (nor a zero byte) never comes to an answer or to an error message: the
  library reads an argument that is not there, or the error is handled with a reply variable that has no
  value. Two percent signs are sent as one, and a percent sign at the end of the text is sent as it is; these
  are left out here.\<close>

theorem percent_is_undefined:
  assumes "ample M" "prints_int pf" "RedisClient_new M S n w0 = Inr (cl, w)" "- (2 ^ 31) \<le> n" "n < 2 ^ 31"
    and "CHR ''%'' \<notin> set t" "NUL \<notin> set t" "x \<noteq> CHR ''%''" "x \<noteq> NUL"
      "length (command_text (format_words [] False (map char_piece t))) < 2 ^ 28"
  shows "RedisClient_Command M pf S cl (t @ CHR ''%'' # x # rest) w \<in> {Some (Inl OutOfBounds), Some (Inl Uninitialised)}"
proof -
  let ?P = "\<lparr>sent = \<lambda>w. [], got = \<lambda>w. [], answer = \<lambda>b. [], patience = \<lambda>w. 0\<rparr>"
  have new: "idle M ?P (client_context cl) w []" "client_slaves cl = n"
    by (rule RedisClient_new_idle [where P = ?P, OF assms(1,3)]; simp)+
  have cl: "client_ok cl" using new(2) assms(4,5) by (simp add: client_ok_def)
  have c: "c_part (t @ CHR ''%'' # x # rest) = t @ CHR ''%'' # x # c_part rest"
    using assms(7,9) unfolding c_part_def by (subst takeWhile_append2) auto
  from redisvFormatCommand_percent [OF assms(1,2,6-8,10), of "c_part rest"] show ?thesis
  proof (elim insertE emptyE)
    assume "redisvFormatCommand M pf (t @ CHR ''%'' # x # c_part rest) [] = Inl OutOfBounds"
    then show ?thesis by (simp add: RedisClient_Command_def redisvAppendCommand_def c)
  next
    assume "redisvFormatCommand M pf (t @ CHR ''%'' # x # c_part rest) [] = Inr (Inl (- 2))"
    then show ?thesis using Command_error [OF assms(1,2) new(1) cl, of "t @ CHR ''%'' # x # rest"] by (simp add: c)
  qed
qed

lemma percent_is_undefined_witness:
  "\<exists>cl w. RedisClient_new sample_memory (script_socket []) 0 ([], []) = Inr (cl, w) \<and>
    RedisClient_Command sample_memory sample_printf (script_socket []) cl ''HMSET user1 field0 50%!'' w
      \<in> {Some (Inl OutOfBounds), Some (Inl Uninitialised)}"
proof -
  obtain cl where cl: "RedisClient_new sample_memory (script_socket []) 0 ([], []) = Inr (cl, ([], []))"
    using script_client by blast
  have "length (command_text (format_words [] False (map char_piece ''HMSET user1 field0 50''))) = 46" by code_simp
  then show ?thesis
    using percent_is_undefined [OF sample_ample sample_prints_int cl, of "''HMSET user1 field0 50''" "CHR ''!''" "[]"] cl
    by simp
qed

section \<open>Dynamic strings\<close>

text \<open>C24: Whatever operations are applied to a dynamic string, its header stays true to its buffer - the length,
  the free space and the zero byte behind the text - and its contents are those of the same operations on
  lists.\<close>

theorem sds_stays_well_formed:
  assumes "ample M" "n \<le> length p" "n < 2 ^ 30 - 1" "run_fits ops (take n p)"
  shows "\<exists>s s'. sdsnewlen M (Some p) n = Inr (Some s) \<and> sds_run M ops s = Inr (Some s') \<and>
    sds_is s' (text_run ops (take n p))"
proof -
  obtain s where "sdsnewlen M (Some p) n = Inr (Some s)" "sds_is s (take n p)"
    using sdsnewlen_is [OF assms(1,2)] assms(3) by auto
  then show ?thesis using sds_run_is [OF assms(1) _ assms(4), of s] assms(3) by auto
qed

lemma sds_stays_well_formed_witness:
  "\<exists>s s'. sdsnewlen sample_memory (Some ''  abc '') 6 = Inr (Some s) \<and>
    sds_run sample_memory [Trim '' '', CatText ''def'', FormatText ''=%i'' [FmtInt (- 7)], Slice 1 (- 2), Grow 7] s = Inr (Some s') \<and>
    sds_is s' (''bcdef=-'' @ [])"
proof -
  have i: "show_int (- 7) = ''-7''" by code_simp
  let ?ops = "[Trim '' '', CatText ''def'', FormatText ''=%i'' [FmtInt (- 7)], Slice 1 (- 2), Grow 7]"
  have t: "text_run ?ops ''  abc '' = ''bcdef=-'' @ []" "run_fits ?ops ''  abc ''"
    by (simp_all add: text_run_def i trim_set_def slice_def from_end_def Let_def)
  show ?thesis using sds_stays_well_formed [OF sample_ample, of 6 "''  abc ''" ?ops] t by simp
qed

text \<open>C25: Quoting is read back: a line of arguments that \<open>sdscatrepr\<close> wrote, with a space behind each, is split
  by \<open>sdssplitargs\<close> into exactly these arguments, whatever bytes they have - zero bytes, quotes,
  backslashes, line ends - and also when they are empty.\<close>

theorem sds_quoting_reads_back:
  assumes "ample M" "length (quoted_line args) < 2 ^ 28"
  shows "\<exists>s0 s vec. sdsempty M = Inr (Some s0) \<and> cat_quoted M args s0 = Inr (Some s) \<and>
    sdssplitargs M (sds_buf s) = Inr (Some vec) \<and> list_all2 sds_is vec args"
proof -
  obtain s0 where s0: "sdsempty M = Inr (Some s0)" "sds_is s0 []" using sdsempty_is [OF assms(1)] by blast
  obtain s where s: "cat_quoted M args s0 = Inr (Some s)" "sds_is s (quoted_line args)"
    using cat_quoted_is [OF assms(1) s0(2), of args] assms(2) by auto
  then show ?thesis using sdssplitargs_quoted [OF assms s(2)] s0(1) by blast
qed

lemma sds_quoting_reads_back_witness:
  "\<exists>s0 s vec. sdsempty sample_memory = Inr (Some s0) \<and> cat_quoted sample_memory [[], [QUOTE, NUL, BACKSLASH, CHR '' '']] s0 = Inr (Some s) \<and>
    sdssplitargs sample_memory (sds_buf s) = Inr (Some vec) \<and> list_all2 sds_is vec [[], [QUOTE, NUL, BACKSLASH, CHR '' '']]"
proof -
  have "length (quoted_line [[], [QUOTE, NUL, BACKSLASH, CHR '' '']]) = 15" by code_simp
  then show ?thesis using sds_quoting_reads_back [OF sample_ample, of "[[], [QUOTE, NUL, BACKSLASH, CHR '' '']]"] by simp
qed

text \<open>Joining undoes splitting: the parts into which \<open>sdssplitlen\<close> cuts a text at a separator, joined with
  the separator by \<open>sdsjoinsds\<close>, are the text again.\<close>

theorem sds_join_undoes_split:
  assumes "ample M" "len \<le> length s" "len < 2 ^ 27" "0 < n" "n \<le> length sep" "n < 2 ^ 31"
  shows "\<exists>tokens s'. sdssplitlen M s (int len) sep (int n) = Inr (Some tokens) \<and>
    sdsjoinsds M tokens sep n = Inr (Some s') \<and> sds_is s' (take len s)"
  using split_join [OF assms] .

lemma sds_join_undoes_split_witness:
  "\<exists>tokens s'. sdssplitlen sample_memory ''a--b---c'' (int 8) ''--'' (int 2) = Inr (Some tokens) \<and>
    sdsjoinsds sample_memory tokens ''--'' 2 = Inr (Some s') \<and> sds_is s' (take 8 ''a--b---c'')"
  by (rule sds_join_undoes_split [OF sample_ample]) simp_all

end
