(* ===== verification/Redis_Workload.thy ===== *)
theory Redis_Workload
  imports Redis_Store Driver_Facts
begin

text \<open>
  The load phase of the workload generator (\<open>DoInsert\<close> of \<open>YCSB-C/core/client.h\<close>, the loop of \<open>DelegateClient\<close> in
  \<open>YCSB-C/ycsbc.cc\<close>) on the Redis database. The records come from the generators, and their values are passed
  as parts of a format: two percent signs are sent as one.
\<close>

section \<open>The load phase\<close>

definition redis_DoInsert :: "randomness \<Rightarrow> memory \<Rightarrow> printf \<Rightarrow> 'w socket \<Rightarrow> core_workload \<Rightarrow> redis_client \<Rightarrow> 'w
    \<Rightarrow> (bool \<times> core_workload \<times> redis_client \<times> 'w) io_result" where
  "redis_DoInsert env M pf S wl cl w =
     io_then (NextSequenceKey env wl) (\<lambda>(key, wl).
     io_then (BuildValues env wl) (\<lambda>(pairs, wl).
     io_bind (RedisDB_Insert M pf S key pairs cl w) (\<lambda>(status, cl, w).
       Some (Inr (status = kOK, wl, cl, w)))))"

fun redis_load :: "randomness \<Rightarrow> memory \<Rightarrow> printf \<Rightarrow> 'w socket \<Rightarrow> nat \<Rightarrow> int \<Rightarrow> core_workload \<Rightarrow> redis_client \<Rightarrow> 'w
    \<Rightarrow> (int \<times> core_workload \<times> redis_client \<times> 'w) io_result" where
  "redis_load env M pf S 0 oks wl cl w = Some (Inr (oks, wl, cl, w))"
| "redis_load env M pf S (Suc n) oks wl cl w =
     io_bind (redis_DoInsert env M pf S wl cl w) (\<lambda>(ok, wl, cl, w).
       redis_load env M pf S n (oks + of_bool ok) wl cl w)"

text \<open>The records that the generators give, one after the other.\<close>

fun draw_records :: "randomness \<Rightarrow> nat \<Rightarrow> core_workload \<Rightarrow> fault + ((string \<times> pairs) list \<times> core_workload)" where
  "draw_records env 0 wl = Inr ([], wl)"
| "draw_records env (Suc n) wl =
     and_then (NextSequenceKey env wl) (\<lambda>(key, wl).
     and_then (BuildValues env wl) (\<lambda>(ps, wl).
     and_then (draw_records env n wl) (\<lambda>(rs, wl). Inr ((key, ps) # rs, wl))))"

section \<open>What is sent for a value\<close>

text \<open>A generated value is one character repeated. When it is the percent sign, half of it is sent.\<close>

definition sent_value :: "string \<Rightarrow> string" where
  "sent_value v = (if v \<noteq> [] \<and> hd v = CHR ''%'' then take (length v div 2) v else v)"

definition sent_values :: "pairs \<Rightarrow> pairs" where
  "sent_values ps = map (\<lambda>(f, v). (f, sent_value v)) ps"

text \<open>An empty value leaves a field without a value in the command; an odd percent sign starts a conversion.\<close>

definition value_fits :: "string \<Rightarrow> bool" where
  "value_fits v \<longleftrightarrow> v \<noteq> [] \<and> (hd v = CHR ''%'' \<longrightarrow> even (length v))"

definition record_fits :: "string \<times> pairs \<Rightarrow> bool" where
  "record_fits r \<longleftrightarrow> (\<forall>(f, v) \<in> set (snd r). value_fits v) \<and>
     length (command_text (''HMSET'' # fst r # flat_pairs (sent_values (snd r)))) < 2 ^ 28"

definition insertions :: "(string \<times> pairs) list \<Rightarrow> db_op list" where
  "insertions rs = map (\<lambda>(key, ps). UpdateOp key (sent_values ps)) rs"

section \<open>A text as pieces\<close>

definition word_pieces :: "string \<Rightarrow> piece list" where
  "word_pieces w = (if w \<noteq> [] \<and> hd w = CHR ''%'' then replicate (length w div 2) Percent else map char_piece w)"

definition spaced_pieces :: "string list \<Rightarrow> piece list" where
  "spaced_pieces ws = concat (map (\<lambda>w. Space # word_pieces w) ws)"

definition text_ok :: "string \<Rightarrow> bool" where
  "text_ok w \<longleftrightarrow> word_ok w \<or> (\<exists>m>0. w = replicate (2 * m) CHR ''%'')"

lemma word_ok_sent:
  assumes "word_ok w"
  shows "sent_value w = w" "word_pieces w = map char_piece w"
proof -
  have "w \<noteq> [] \<Longrightarrow> hd w \<noteq> CHR ''%''" using assms hd_in_set [of w] by (metis word_ok_def)
  then show "sent_value w = w" "word_pieces w = map char_piece w" by (auto simp: sent_value_def word_pieces_def)
qed

lemma percent_text:
  assumes "0 < m" "w = replicate (2 * m) CHR ''%''"
  shows "word_pieces w = replicate m Percent" "sent_value w = replicate m CHR ''%''"
  using assms by (simp_all add: word_pieces_def sent_value_def)

lemma letters_pieces:
  "CHR '' '' \<notin> set w \<Longrightarrow> Space \<notin> set (map char_piece w) \<and> concat (map piece_bytes (map char_piece w)) = w"
  by (induction w) (auto simp: char_piece_def)

lemma word_pieces_text:
  assumes "text_ok w"
  shows "Space \<notin> set (word_pieces w)" "word_pieces w \<noteq> []" "\<forall>p \<in> set (word_pieces w). piece_ok p"
    "concat (map piece_format (word_pieces w)) = w" "concat (map piece_args (word_pieces w)) = []"
    "concat (map piece_bytes (word_pieces w)) = sent_value w" "NUL \<notin> set w"
proof -
  have pc: "concat (replicate m ''%%'') = replicate (2 * m) CHR ''%''" for m
    by (induction m) auto
  have pb: "concat (replicate m ''%'') = replicate m CHR ''%''" for m
    by (induction m) auto
  have "Space \<notin> set (word_pieces w) \<and> word_pieces w \<noteq> [] \<and> (\<forall>p \<in> set (word_pieces w). piece_ok p) \<and>
      concat (map piece_format (word_pieces w)) = w \<and> concat (map piece_args (word_pieces w)) = [] \<and>
      concat (map piece_bytes (word_pieces w)) = sent_value w \<and> NUL \<notin> set w"
  proof (cases "word_ok w")
    case True
    then have "w \<noteq> []" "CHR '' '' \<notin> set w" "CHR ''%'' \<notin> set w" "NUL \<notin> set w" by (auto simp: word_ok_def)
    then show ?thesis unfolding word_ok_sent [OF True]
      using letters_pieces [of w] char_pieces [of w] by blast
  next
    case False
    then obtain m where m: "0 < m" "w = replicate (2 * m) CHR ''%''" using assms by (auto simp: text_ok_def)
    then show ?thesis unfolding percent_text [OF m] by (simp add: map_replicate_const pc pb)
  qed
  then show "Space \<notin> set (word_pieces w)" "word_pieces w \<noteq> []" "\<forall>p \<in> set (word_pieces w). piece_ok p"
    "concat (map piece_format (word_pieces w)) = w" "concat (map piece_args (word_pieces w)) = []"
    "concat (map piece_bytes (word_pieces w)) = sent_value w" "NUL \<notin> set w"
    by blast+
qed

lemma format_words_word:
  "Space \<notin> set ps \<Longrightarrow> ps \<noteq> [] \<Longrightarrow>
     format_words cur touched (ps @ qs) = format_words (cur @ concat (map piece_bytes ps)) True qs"
proof (induction ps arbitrary: cur touched)
  case (Cons p ps)
  then show ?case by (cases "ps = []") (auto simp: format_words_piece)
qed simp

lemma spaced_pieces_simps [simp]: "spaced_pieces [] = []" "spaced_pieces (w # ws) = Space # word_pieces w @ spaced_pieces ws"
  by (simp_all add: spaced_pieces_def)

lemma spaced_pieces_text:
  assumes "\<forall>w \<in> set ws. text_ok w"
  shows "format_words cur True (spaced_pieces ws) = cur # map sent_value ws"
    "\<forall>p \<in> set (spaced_pieces ws). piece_ok p"
    "concat (map piece_format (spaced_pieces ws)) = spaced ws" "concat (map piece_args (spaced_pieces ws)) = []"
    "NUL \<notin> set (spaced ws)"
proof -
  show "format_words cur True (spaced_pieces ws) = cur # map sent_value ws" using assms
  proof (induction ws arbitrary: cur)
    case (Cons w ws)
    then have w: "text_ok w" by simp
    show ?case
      using Cons by (simp add: format_words_word [OF word_pieces_text(1,2) [OF w]] word_pieces_text(6) [OF w])
  qed simp
qed (use assms in \<open>induction ws; auto simp: word_pieces_text\<close>)+

section \<open>What the generators give\<close>

lemma to_string_word: "word_ok (to_string n)"
  by (auto simp: word_ok_def is_digit_def dest!: to_string_digits)

lemma word_ok_append: "word_ok v \<Longrightarrow> NUL \<notin> set u \<Longrightarrow> CHR '' '' \<notin> set u \<Longrightarrow> CHR ''%'' \<notin> set u \<Longrightarrow> word_ok (u @ v)"
  by (auto simp: word_ok_def)

lemma key_name_word: "word_ok (BuildKeyName wl k)"
proof -
  have "word_ok ((''user'' @ replicate m CHR ''0'') @ to_string n)" for m n
    by (intro word_ok_append to_string_word) auto
  then show ?thesis by (simp add: BuildKeyName_def Let_def)
qed

lemma key_word: "NextSequenceKey env wl = Inr (key, wl') \<Longrightarrow> word_ok key"
  using key_name_word by (auto simp: NextSequenceKey_def and_then_Inr)

lemma field_word: "word_ok (''field'' @ to_string i)"
  by (intro word_ok_append to_string_word) auto

lemma print_char_ne_NUL: "RandomPrintChar r \<noteq> NUL"
proof
  assume "RandomPrintChar r = NUL"
  then have "(of_char (RandomPrintChar r) :: nat) = of_char NUL" by simp
  then show False by (simp add: RandomPrintChar_code)
qed

lemma printable_text:
  assumes "printable_pair (f, v)" "value_fits v"
  shows "word_ok f" "text_ok v"
proof -
  obtain i n r where p: "f = ''field'' @ to_string i" "v = replicate n (RandomPrintChar r)"
    using assms(1) by (auto simp: printable_pair_def)
  show "word_ok f" unfolding p(1) by (rule field_word)
  have n: "0 < n" using assms(2) p(2) by (auto simp: value_fits_def)
  show "text_ok v"
  proof (cases "RandomPrintChar r = CHR ''%''")
    case True
    then have "even n" using assms(2) p(2) n by (simp add: value_fits_def)
    then obtain m where "n = 2 * m" by (rule evenE)
    then show ?thesis using n p(2) True unfolding text_ok_def by (intro disjI2 exI [of _ m]) simp
  next
    case False
    have "c \<in> set v \<Longrightarrow> c \<noteq> CHR ''%'' \<and> c \<noteq> NUL \<and> c \<noteq> CHR '' ''" for c
      using False print_char_ne_NUL [of r] RandomPrintChar_print(2) [of r] p(2) by (simp add: in_set_replicate)
    moreover have "v \<noteq> []" using n p(2) by simp
    ultimately have "word_ok v" unfolding word_ok_def by blast
    then show ?thesis by (simp add: text_ok_def)
  qed
qed

lemma drawn_pairs:
  assumes "BuildValues env wl = Inr (ps, wl')" "\<forall>(f, v) \<in> set ps. value_fits v" "(f, v) \<in> set ps"
  shows "word_ok f" "text_ok v" "CHR '' '' \<notin> set f" "CHR '' '' \<notin> set v"
proof -
  have p: "printable_pair (f, v)" using BuildValues_shape [OF assms(1)] assms(3) by blast
  show "word_ok f" "text_ok v" using printable_text [OF p] assms(2,3) by auto
  show "CHR '' '' \<notin> set f" "CHR '' '' \<notin> set v" using printable_no_space [OF p] by simp_all
qed

section \<open>An insertion, and all of them\<close>

lemma flat_pairs_sent:
  assumes "\<forall>(f, v) \<in> set ps. word_ok f"
  shows "map sent_value (flat_pairs ps) = flat_pairs (sent_values ps)"
  using assms by (induction ps) (auto simp: sent_values_def word_ok_sent)

lemma RedisDB_Insert_sends:
  assumes "ample M" "prints_int pf" "reliable S P" "idle M P (client_context cl) w whole" "client_ok cl"
    and "word_ok key" "BuildValues env wl = Inr (ps, wl')" "record_fits (key, ps)"
      "all_answered P whole (op_requests (client_slaves cl) (UpdateOp key (sent_values ps)))"
  shows "\<exists>c' w'. RedisDB_Insert M pf S key ps cl w = Some (Inr (kOK, cl\<lparr>client_context := c'\<rparr>, w')) \<and>
    idle M P c' w' (whole @ commands_text (op_requests (client_slaves cl) (UpdateOp key (sent_values ps))))"
proof -
  have fits: "\<forall>(f, v) \<in> set ps. value_fits v" using assms(8) by (simp add: record_fits_def)
  note d = drawn_pairs [OF assms(7) fits]
  let ?ws = "key # flat_pairs ps" and ?head = "map char_piece ''HMSET''"
  have ok: "\<forall>u \<in> set ?ws. text_ok u" using assms(6) d by (auto simp: flat_pairs_def text_ok_def)
  note sp = spaced_pieces_text [OF ok]
  have sent: "map sent_value ?ws = key # flat_pairs (sent_values ps)"
    using flat_pairs_sent [of ps] d(1) assms(6) by (auto simp: word_ok_sent)
  have words: "format_words [] False (?head @ spaced_pieces ?ws) = ''HMSET'' # key # flat_pairs (sent_values ps)"
    using sp(1) [of "''HMSET''"] format_words_letters [of "''HMSET''" "[]" False "spaced_pieces ?ws"] unfolding sent by simp
  have fmt: "concat (map piece_format (?head @ spaced_pieces ?ws)) = ''HMSET'' @ spaced ?ws"
    "concat (map piece_args (?head @ spaced_pieces ?ws)) = []"
    using sp(3,4) char_pieces(1,2) [of "''HMSET''"] unfolding map_append concat_append by simp_all
  have "redis_update_cmd key ps = Inr (''HMSET'' @ spaced ?ws)" using d(3,4) by (intro redis_update_cmd_eq) blast
  moreover have "\<forall>p \<in> set (?head @ spaced_pieces ?ws). piece_ok p"
    using sp(2) char_pieces(3) [of "''HMSET''"] by auto
  ultimately show ?thesis
    using RedisClient_Command_pieces [OF assms(1-5), of "?head @ spaced_pieces ?ws"] sp(5) assms(8,9)
    unfolding words fmt by (auto simp: record_fits_def RedisDB_Insert_def RedisDB_Update_def)
qed

lemma redis_load_runs:
  assumes "ample M" "prints_int pf" "reliable S P"
    and "idle M P (client_context cl) w whole" "client_ok cl" "draw_records env n wl = Inr (rs, wl')"
      "\<forall>r \<in> set rs. record_fits r" "serves P whole st (session_requests (client_slaves cl) (insertions rs))"
  shows "\<exists>cl' w'. redis_load env M pf S n oks wl cl w = Some (Inr (oks + int n, wl', cl', w')) \<and>
    client_slaves cl' = client_slaves cl \<and>
    idle M P (client_context cl') w' (whole @ commands_text (session_requests (client_slaves cl) (insertions rs)))"
  using assms(4-)
proof (induction n arbitrary: cl w whole st wl rs oks)
  case 0
  then show ?case by (auto simp: session_requests_def insertions_def)
next
  case (Suc n)
  let ?n = "client_slaves cl"
  obtain key wl1 ps wl2 us where r: "NextSequenceKey env wl = Inr (key, wl1)" "BuildValues env wl1 = Inr (ps, wl2)"
    "draw_records env n wl2 = Inr (us, wl')" "rs = (key, ps) # us"
    using Suc.prems(3) by (auto simp: and_then_Inr)
  let ?op = "UpdateOp key (sent_values ps)"
  have sv: "serves P whole st (op_requests ?n ?op)"
    "serves P (whole @ commands_text (op_requests ?n ?op)) (store_effect st ?op) (session_requests ?n (insertions us))"
    using Suc.prems(5) foldl_op_requests [of st ?n ?op]
    by (simp_all add: r(4) session_requests_def insertions_def serves_append del: op_requests.simps store_effect.simps)
  obtain c1 w1 where s: "RedisDB_Insert M pf S key ps cl w = Some (Inr (kOK, cl\<lparr>client_context := c1\<rparr>, w1))"
    "idle M P c1 w1 (whole @ commands_text (op_requests ?n ?op))"
    using RedisDB_Insert_sends [OF assms(1-3) Suc.prems(1,2) key_word [OF r(1)] r(2) _ serves_all_answered [OF sv(1)]]
      Suc.prems(4) r(4) by auto
  have "redis_load env M pf S (Suc n) oks wl cl w =
      redis_load env M pf S n (oks + 1) wl2 (cl\<lparr>client_context := c1\<rparr>) w1"
    using r(1,2) s(1) by (simp add: redis_DoInsert_def)
  then show ?case
    using Suc.IH [of "cl\<lparr>client_context := c1\<rparr>" w1 "whole @ commands_text (op_requests ?n ?op)" wl2 us "store_effect st ?op" "oks + 1"]
      Suc.prems(2,4) r(3,4) s(2) sv(2)
    by (auto simp: client_ok_def session_requests_def insertions_def algebra_simps simp del: op_requests.simps store_effect.simps)
qed

end
