(* ===== verification/Redis_Load_Props.thy ===== *)
theory Redis_Load_Props
  imports Redis_Workload Redis_Samples Ycsb_Samples
begin

text \<open>
  The workload generator and the Redis client together: what a load phase leaves on the server.
\<close>

section \<open>Loading and reading back\<close>

lemma drawn_no_zero:
  assumes "BuildValues env wl = Inr (ps, wl')" "record_fits (key, ps)" "no_zero st"
  shows "no_zero (store_effect st (UpdateOp key (sent_values ps)))"
proof -
  have "NUL \<notin> set f \<and> NUL \<notin> set (sent_value v)" if "(f, v) \<in> set ps" for f v
  proof -
    have "word_ok f" "text_ok v" using drawn_pairs(1,2) [OF assms(1) _ that] assms(2) by (simp_all add: record_fits_def)
    then have "NUL \<notin> set f" "NUL \<notin> set v" using word_pieces_text(7) by (auto simp: word_ok_def)
    then show ?thesis by (auto simp: sent_value_def dest: in_set_takeD)
  qed
  then show ?thesis using assms(3)
    by (auto simp: no_zero_def sent_values_def dest!: update_hash_Some)
qed

lemma draw_records_no_zero:
  "draw_records env n wl = Inr (rs, wl') \<Longrightarrow> \<forall>r \<in> set rs. record_fits r \<Longrightarrow> no_zero st \<Longrightarrow>
     no_zero (foldl store_effect st (insertions rs))"
proof (induction n arbitrary: wl rs st)
  case 0
  then show ?case by (simp add: insertions_def)
next
  case (Suc n)
  obtain key wl1 ps wl2 us where r: "BuildValues env wl1 = Inr (ps, wl2)" "draw_records env n wl2 = Inr (us, wl')"
    "rs = (key, ps) # us"
    using Suc.prems(1) by (auto simp: and_then_Inr)
  have "no_zero (store_effect st (UpdateOp key (sent_values ps)))"
    using drawn_no_zero [OF r(1)] Suc.prems(2,3) r(3) by simp
  then show ?case using Suc.IH [OF r(2)] Suc.prems(2) r(3) by (simp add: insertions_def del: store_effect.simps)
qed

lemma foldl_session_requests: "foldl redis_effect st (session_requests n ops) = foldl store_effect st ops"
  by (induction ops arbitrary: st) (simp_all add: session_requests_def foldl_op_requests)

text \<open>C15: When every value that the generators draw is neither empty nor an odd number of percent signs, and no
  command is longer than \<open>2 ^ 28\<close> bytes (\<open>record_fits\<close>), the load phase on the Redis database returns,
  reports every record as a success and has sent exactly one command for each. What can be read afterwards
  is the records as drawn, except that a value of percent signs has lost half of its length: the commands
  are formats. (The default, values of 100 characters, meets the condition.)\<close>

theorem redis_load_halves_percent:
  assumes "ample M" "prints_int pf" "reliable S P"
    and "RedisClient_new M S n w0 = Inr (cl, w)" "- (2 ^ 31) \<le> n" "n < 2 ^ 31"
    and "sent P w = []" "got P w = []" "answer P [] = []"
    and "draw_records env k wl = Inr (rs, wl')" "\<forall>r \<in> set rs. record_fits r"
    and "no_zero st" "\<forall>op \<in> set ops. op_ok op" "serves P [] st (session_requests n (insertions rs @ ops))"
  shows "\<exists>cl1 w1 as cl2 w2. redis_load env M pf S k 0 wl cl w = Some (Inr (int k, wl', cl1, w1)) \<and>
    sent P w1 = commands_text (session_requests n (insertions rs)) \<and>
    db_session M pf S ops cl1 w1 = Some (Inr (as, cl2, w2)) \<and> store_session (foldl store_effect st (insertions rs)) ops as"
proof -
  note new = RedisClient_new_idle [OF assms(1,4,7-9)]
  have cl: "client_ok cl" using new(2) assms(5,6) by (simp add: client_ok_def)
  let ?ins = "session_requests n (insertions rs)"
  have sv: "serves P [] st ?ins" "serves P (commands_text ?ins) (foldl store_effect st (insertions rs)) (session_requests n ops)"
    using assms(14) by (simp_all add: session_requests_def serves_append flip: foldl_session_requests [of _ n])
  obtain cl1 w1 where l: "redis_load env M pf S k 0 wl cl w = Some (Inr (int k, wl', cl1, w1))"
    "client_slaves cl1 = n" "idle M P (client_context cl1) w1 (commands_text ?ins)"
    using redis_load_runs [OF assms(1-3) new(1) cl assms(10,11), of st 0] sv(1) new(2) by auto
  have "client_ok cl1" using l(2) assms(5,6) by (simp add: client_ok_def)
  then obtain as cl2 w2 where "db_session M pf S ops cl1 w1 = Some (Inr (as, cl2, w2))"
    "store_session (foldl store_effect st (insertions rs)) ops as"
    using db_session_runs [OF assms(1-3) l(3) _ assms(13) draw_records_no_zero [OF assms(10-12)]] sv(2) l(2) by auto
  moreover have "sent P w1 = commands_text ?ins" using due_got [of P w1] l(3) by (auto simp: idle_def conn_at_def)
  ultimately show ?thesis using l(1) by blast
qed

definition percent_workload :: core_workload where
  "percent_workload = (CoreWorkload 0 \<lparr>doubles_used = 0, ints_used = 4\<rparr>)\<lparr>field_count := 2,
     field_len_generator := Some (Const 4), key_generator := Some (Counter 0)\<rparr>"

definition percent_record :: "string \<times> pairs" where
  "percent_record = (''user0'', [(''field0'', ''%%%%''), (''field1'', ''&&&&'')])"

definition percent_script :: script where
  "percent_script =
     [([''HMSET'', ''user0'', ''field0'', ''%%'', ''field1'', ''&&&&''], StatusReply ''OK''),
      ([''HMGET'', ''user0'', ''field0'', ''field1''],
        ArrayReply 2 (Some [Some (StringReply ''%%''), Some (StringReply ''&&&&'')]))]"

lemma percent_drawn: "\<exists>wl'. draw_records sample_env 1 percent_workload = Inr ([percent_record], wl')"
proof -
  have t: "to_string 0 = ''0''" "to_string (Suc 0) = ''1''" by code_simp+
  have c: "RandomPrintChar 4 = CHR ''%''" "RandomPrintChar 5 = CHR ''&''" by code_simp+
  have u: "[0..<2] = [0, Suc 0]" "replicate 4 x = [x, x, x, x]" for x :: char by (simp_all add: upt_rec numeral_eq_Suc)
  show ?thesis
    by (simp add: NextSequenceKey_def draw_key_def draw_field_len_def draw_def Next_def percent_workload_def CoreWorkload_def
        BuildValues_def BuildKeyName_def key_number_def next_value_def next_char_def sample_env_def t c u percent_record_def
        counter_Next_def)
qed

lemma percent_script_ok: "script_ok (\<lambda>_ _. None) percent_script"
proof -
  have l: "length (reply_text (StatusReply ''OK'')) = 5"
    "length (reply_text (ArrayReply 2 (Some [Some (StringReply ''%%''), Some (StringReply ''&&&&'')]))) = 22"
    by code_simp+
  have "(8::nat) = Suc 7" by simp
  then have e: "reply_ok 8 (ArrayReply n (Some es)) \<longleftrightarrow> n = length es \<and> 0 < n \<and> n < 2 ^ 28 \<and>
      (\<forall>e \<in> set es. case e of None \<Rightarrow> False | Some x \<Rightarrow> reply_ok 7 x)" for n es
    using reply_ok.simps(8) [of 7 n es] by presburger
  show ?thesis unfolding percent_script_def script_ok.simps l by (simp add: value_reply_def e)
qed

lemma percent_sent: "insertions [percent_record] = [UpdateOp ''user0'' [(''field0'', ''%%''), (''field1'', ''&&&&'')]]"
  by (simp add: insertions_def percent_record_def sent_values_def sent_value_def)

lemma percent_fits: "record_fits percent_record"
proof -
  have "length (command_text (''HMSET'' # fst percent_record # flat_pairs (sent_values (snd percent_record)))) = 68"
    by code_simp
  then show ?thesis by (simp add: record_fits_def) (simp add: percent_record_def value_fits_def)
qed

lemma redis_load_halves_percent_witness:
  "\<exists>cl w wl' cl1 w1 cl2 w2. RedisClient_new sample_memory (script_socket percent_script) 0 ([], []) = Inr (cl, w) \<and>
    draw_records sample_env 1 percent_workload = Inr ([(''user0'', [(''field0'', ''%%%%''), (''field1'', ''&&&&'')])], wl') \<and>
    redis_load sample_env sample_memory sample_printf (script_socket percent_script) 1 0 percent_workload cl w =
      Some (Inr (1, wl', cl1, w1)) \<and>
    db_session sample_memory sample_printf (script_socket percent_script) [ReadOp ''user0'' [''field0'', ''field1'']] cl1 w1 =
      Some (Inr ([(0, [(''field0'', ''%%''), (''field1'', ''&&&&'')])], cl2, w2))"
proof -
  obtain cl where cl: "RedisClient_new sample_memory (script_socket percent_script) 0 ([], []) = Inr (cl, ([], []))"
    using script_client by blast
  obtain wl' where wl: "draw_records sample_env 1 percent_workload = Inr ([percent_record], wl')" using percent_drawn by blast
  let ?P = "script_peer percent_script" and ?ops = "[ReadOp ''user0'' [''field0'', ''field1'']]"
  have "serves ?P [] (\<lambda>_ _. None) (session_requests 0 (insertions [percent_record] @ ?ops))"
    using script_serves [OF percent_script_ok, of "[]"]
    by (simp add: percent_sent session_requests_def with_wait_def percent_script_def)
  moreover have "length (command_text [''HMGET'', ''user0'', ''field0'', ''field1'']) = 50" by code_simp
  moreover have "store_session (foldl store_effect (\<lambda>_ _. None) (insertions [percent_record])) ?ops as \<Longrightarrow>
      as = [(0, [(''field0'', ''%%''), (''field1'', ''&&&&'')])]" for as
    by (simp add: percent_sent kOK_def update_hash_def)
  moreover have "answer ?P [] = []" by (simp add: script_peer_def percent_script_def)
  ultimately show ?thesis
    using redis_load_halves_percent [OF sample_ample sample_prints_int script_reliable cl _ _ _ _ _ wl, of "\<lambda>_ _. None" ?ops]
      cl percent_fits wl [unfolded percent_record_def]
    by (auto simp: no_zero_def script_peer_def)
qed

end
