(* ===== verification/Spec2Isabelle.thy ===== *)
theory Spec2Isabelle
  imports Scan_Props Index_Props Variants_Props Driver_Props Ycsb_Thread_Props Ycsb_Table_Props Redis_Props
    Redis_Load_Props
begin

text \<open>
  A model of LearnedKV, a key-value store that keeps recent records in an LSM store of pointers into
  a value log and moves the rest, at each garbage collection, to a log sorted by key with a learned
  index over it.

  \<^bold>\<open>Parts and theories.\<close>
  \<^item> \<open>Prelude\<close>: bytes, 32 and 64 bit words, little-endian memory images, the faults a run can end in.
    \<open>Stdio\<close>: the file calls the program uses, over a disk that maps paths to contents.
    \<open>Float64\<close>: binary64 arithmetic on bit patterns, rounded to nearest even. \<open>RocksApi\<close>: the LSM
    library as a record of functions with its documented laws (\<open>rocks_ok\<close>) and a reference store
    that has them.
  \<^item> \<open>Utils\<close> (\<open>learned-LSM/utils.h\<close>): the Bloom filter, the 8-byte key strings, command line flags.
  \<^item> \<open>PLR\<close> (\<open>learnedKV.h\<close>: \<open>build_piecewise_linear_regression\<close>, \<open>query_model\<close>): the learned index.
    \<open>Float_Error\<close> and \<open>PLR_Bound\<close> bound its rounding errors and its predictions.
  \<^item> \<open>LearnedKV\<close> (\<open>put\<close>, \<open>get\<close>, \<open>garbage_collection\<close>) and \<open>LearnedKV_Scan\<close> (\<open>scan\<close>,
    \<open>mergeKeyValueVectors\<close>): the store as functions of an explicit state, the record \<open>kv\<close>.
    \<open>Log_Facts\<close>, \<open>LearnedKV_Inv\<close>, \<open>LearnedKV_Get\<close>, \<open>LearnedKV_Store\<close>, \<open>Learned_Lookup\<close>,
    \<open>Scan_Facts\<close> and \<open>Scan_Store\<close> hold the invariant \<open>kv_inv\<close>, which relates a state to the list of
    records of its log, and what every operation does under it.
  \<^item> \<open>Store_Interface\<close>: sessions of puts and lookups, the abstract log that answers them, and the
    contracts of a store as locales (\<open>own_writes_store\<close>, \<open>log_store\<close>). The plain store, the LevelDB
    variant, the paged variant and the calls during a background collection are interpretations
    (\<open>plain\<close>, \<open>ldb\<close>, \<open>paged\<close>, \<open>during\<close>); the benchmark program is a client. \<open>LearnedKV_Sessions\<close> has the
    contract that the store keeps with and without the learned index (\<open>store\<close>), and the sessions for
    which it holds (\<open>session_ok\<close>).
  \<^item> \<open>Paged_KV\<close> and \<open>Paged_Facts\<close> (\<open>learnedKV_PLR+.h\<close>): the regression on pages with binary search.
    \<open>LevelDB_KV\<close> and \<open>LevelDB_Facts\<close> (\<open>learnedKV_leveldb_new.h\<close>): the store on LevelDB.
    \<open>BG_KV\<close> and \<open>BG_Facts\<close> (\<open>learnedKV_bgGC.h\<close>): the background collection, with runs as the
    step relation \<open>bg_step\<close>.
  \<^item> The workload generator \<open>YCSB-C\<close>: \<open>Text_Format\<close> and \<open>Text_Double\<close> (the number conversions of the
    standard library), \<open>Ycsb_Utils\<close> (\<open>core/utils.h\<close>, \<open>core/properties.h\<close>), \<open>Ycsb_Generators\<close>
    (\<open>core/*_generator.h\<close>), \<open>Ycsb_Workload\<close> and \<open>Ycsb_Init\<close> (\<open>core/core_workload.*\<close>), \<open>Ycsb_DB\<close>
    (\<open>core/db.h\<close>, \<open>core/client.h\<close>, \<open>db/*\<close>, \<open>DelegateClient\<close> of \<open>ycsbc.cc\<close>), \<open>Ycsb_Main\<close> (command line,
    \<open>db/db_factory.cc\<close>), \<open>Ycsb_Hashtable\<close> (\<open>lib/string.h\<close>, \<open>lib/stl_hashtable.h\<close>,
    \<open>lib/lock_stl_hashtable.h\<close>).
  \<^item> \<open>Driver\<close> (\<open>learned-LSM/test.cpp\<close>): the benchmark program, which reads the trace of the generator
    and runs it on the store. \<open>Trace_Facts\<close>, \<open>Ycsb_Facts\<close>, \<open>Client_Facts\<close>, \<open>Init_Facts\<close> and
    \<open>Driver_Facts\<close> follow a trace from the generator to the store; \<open>Ycsb_Samples\<close> evaluates a
    configuration.
  \<^item> The threads of \<open>YCSB-C/ycsbc.cc\<close>: \<open>Ycsb_Threads\<close> (\<open>main\<close>, with the steps of \<open>DelegateClient\<close> in any order
    as the relation \<open>run_step\<close>) and \<open>Ycsb_Thread_Facts\<close> (the invariants of both phases). The tables threads
    share: \<open>Ycsb_Tables\<close> (\<open>lib/lock_stl_hashtable.h\<close>, \<open>lib/tbb_rand_hashtable.h\<close>, \<open>lib/tbb_scan_hashtable.h\<close>, with
    the steps of operations as the relation \<open>table_step\<close>, and the atomic map they implement) and
    \<open>Ycsb_Table_Facts\<close> (who holds which lock, and the simulation).
  \<^item> The Redis database of the generator with the library it is built on: \<open>C_Memory\<close> (integers and memory of C),
    \<open>Redis_Sds\<close> and \<open>Redis_Sds_Text\<close> (\<open>hiredis/sds.c\<close>), \<open>Redis_Reader\<close> (\<open>hiredis/read.c\<close> and the reply objects
    of \<open>hiredis.c\<close>), \<open>Redis_Format\<close> (the commands of \<open>hiredis.c\<close>), \<open>Redis_Connection\<close> (its contexts and
    buffers over a socket), \<open>Redis_Client\<close> (\<open>redis/redis_client.h\<close>, \<open>db/redis_db.*\<close>). \<open>Redis_Sds_Facts\<close>,
    \<open>Redis_Sds_Session\<close> and \<open>Redis_Sds_Quoting\<close> relate strings to lists of characters (\<open>sds_is\<close>);
    \<open>Redis_Format_Facts\<close> and \<open>Redis_Commands\<close> give the text of a command; \<open>Redis_Parse\<close>, \<open>Redis_Replies\<close> and
    \<open>Redis_Sessions\<close> follow the reader over cut streams; \<open>Redis_Connection_Facts\<close>, \<open>Redis_Client_Facts\<close>,
    \<open>Redis_Pipeline\<close>, \<open>Redis_Failures\<close> and \<open>Redis_Store\<close> lead to sessions against a server, whose laws are
    the record \<open>peer\<close> with \<open>reliable\<close> and \<open>serves\<close>; \<open>Redis_Samples\<close> has a socket that plays a script.
    \<open>Redis_Workload\<close> runs the load phase of the generator (\<open>redis_load\<close>) on this database.
  \<^item> \<open>LearnedKV_Props\<close>, \<open>Scan_Props\<close>, \<open>Index_Props\<close>, \<open>Variants_Props\<close>, \<open>Ycsb_Props\<close>, \<open>Driver_Props\<close>,
    \<open>Ycsb_Thread_Props\<close>, \<open>Ycsb_Table_Props\<close>, \<open>Redis_Props\<close> and \<open>Redis_Load_Props\<close>: the properties.

  \<^bold>\<open>How the code corresponds to the model.\<close> A member function is a function of the state that returns
  \<open>Inr (status, state)\<close>, or \<open>Inl\<close> of the fault with which the C++ would abort or leave defined
  behaviour: a failed assertion, a null \<open>FILE*\<close>, a read out of bounds. \<open>unsigned long long\<close> is
  \<open>64 word\<close> and wraps, \<open>double\<close> is \<open>Float64.double\<close>. Uninitialised memory from \<open>new\<close> is the
  parameter \<open>fresh\<close>. The loop of \<open>scan\<close> over the log and the loop of the generator that draws a key may
  not end and are partial functions into option, as are the loops of the Redis library that wait for the
  socket; no other loop needs fuel. \<open>malloc\<close> may fail as the parameter \<open>memory\<close> says, one conversion of
  \<open>vsnprintf\<close> is the parameter \<open>printf\<close>, the socket is a record of functions on a world. The random streams and
  \<open>std::pow\<close> are the parameter \<open>randomness\<close>, with the documented ranges in \<open>rand_ok\<close>; where
  \<open>std::unordered_map\<close> puts an entry is the parameter \<open>place\<close>. \<open>std::stod\<close> reads decimals, not the
  forms for infinities and hexadecimal numbers.

  \<^bold>\<open>What the properties show.\<close> The store and its LevelDB variant refine an
  abstract log of records whose collection drops the greatest key: in every session without the learned
  index, and with it in the sessions that look up keys of the log and collect 3 to 1001 keys that are small
  enough for exact arithmetic; so does a run of the benchmark program. Lookups, scans and merges are
  characterised on every branch; with the learned index the error bound of the regression holds in
  machine arithmetic for keys whose products with their positions are below \<open>2 ^ 53\<close>, and
  lookups find what the window covers. The trace that the generator writes reads back as its operations;
  a load phase run through the benchmark program leaves exactly its keys in the store; the generators,
  key names, property files and hash tables are characterised each. The threads of the generator share
  out a load in every order of their steps and always end; the hash tables threads share are
  linearizable and free of deadlock. The Redis database refines a store of hashes, read by named fields or as a whole, when the server serves
  it; its strings, commands and replies refine lists, words and streams whatever way the bytes are cut.
  A load phase on this database leaves the generated records on the server, values of percent signs cut
  in half. Several properties state what the code does where that is not what it means to do: the
  greatest key lost, values of scans, scans that never return, lookups of absent keys, pages against
  windows, the second background collection, the base of the Zipfian generator, the names of the fields
  that are read, a percent sign in a Redis command, the count of a Redis array, removals from the table
  with accessors.

  \<^bold>\<open>Not modelled.\<close> Output to the terminal and timing; buffering of stdio within one call; the data race
  of the collecting thread on \<open>total_num\<close>; the renaming of LSM directories; draws of random values by two threads at once; \<open>Entries\<close> and
  \<open>Size\<close> of the shared tables beside other operations; limits of the memory of C++ strings
  (\<open>std::length_error\<close>, \<open>std::bad_alloc\<close>); the report of the
  benchmark program; reconnection, timeouts, the asynchronous interface and the system calls of the Redis
  library (\<open>net.c\<close>, \<open>async.c\<close>); the inside of the TBB maps; \<open>direct_io.h\<close>, which nothing includes; the other
  benchmark programs; the third-party systems under \<open>competitor\<close>.
\<close>

end
